(* ===== verification/Prelude.thy ===== *)
theory Prelude
  imports Main "HOL-Library.Word" "HOL-Library.AList"
begin

text \<open>
  Shared vocabulary of the development: the outcome of a Rust call, the actions that thread a
  mutable receiver through a sequence of calls, hash maps as association lists, the summation
  lemmas that the reference-counting and byte-accounting proofs rest on, and the generic
  interface of a state machine with an invariant.
\<close>

named_theorems wp_simps \<open>equations of the weakest precondition of an action\<close>
named_theorems map_simps \<open>equations of hash maps held as association lists\<close>

section \<open>Outcomes of Rust calls\<close>

text \<open>
  A call returns a value, returns a typed error, or panics. Panics are values here, so that the
  absence of panics is a statement about the definitions and not a convention.
\<close>

datatype ('a, 'e) rust = Ok 'a | Err 'e | Panic

fun rust_bind :: "('a, 'e) rust \<Rightarrow> ('a \<Rightarrow> ('b, 'e) rust) \<Rightarrow> ('b, 'e) rust" where
  "rust_bind (Ok a) f = f a"
| "rust_bind (Err e) f = Err e"
| "rust_bind Panic f = Panic"

fun rust_map :: "('a \<Rightarrow> ('b, 'e) rust) \<Rightarrow> 'a list \<Rightarrow> ('b list, 'e) rust" where
  "rust_map f [] = Ok []"
| "rust_map f (x # xs) = rust_bind (f x) (\<lambda>y. rust_bind (rust_map f xs) (\<lambda>ys. Ok (y # ys)))"

lemma rust_bind_Ok_iff [simp]: "rust_bind m f = Ok b \<longleftrightarrow> (\<exists>a. m = Ok a \<and> f a = Ok b)"
  by (cases m) auto

section \<open>Actions on a mutable receiver\<close>

text \<open>
  A method with a mutable receiver is a function from the state to an outcome and the state it
  leaves behind, also when it returns an error: what a refused call leaves behind is part of
  the model.
\<close>

type_synonym ('s, 'a, 'e) act = "'s \<Rightarrow> ('a, 'e) rust \<times> 's"

definition act_ret :: "'a \<Rightarrow> ('s, 'a, 'e) act" where
  "act_ret a s = (Ok a, s)"

definition act_err :: "'e \<Rightarrow> ('s, 'a, 'e) act" where
  "act_err e s = (Err e, s)"

definition act_panic :: "('s, 'a, 'e) act" where
  "act_panic s = (Panic, s)"

definition act_get :: "('s \<Rightarrow> 'a) \<Rightarrow> ('s, 'a, 'e) act" where
  "act_get f s = (Ok (f s), s)"

definition act_set :: "('s \<Rightarrow> 's) \<Rightarrow> ('s, unit, 'e) act" where
  "act_set f s = (Ok (), f s)"

definition act_bind :: "('s, 'a, 'e) act \<Rightarrow> ('a \<Rightarrow> ('s, 'b, 'e) act) \<Rightarrow> ('s, 'b, 'e) act" where
  "act_bind m f s = (case m s of
       (Ok a, s') \<Rightarrow> f a s'
     | (Err e, s') \<Rightarrow> (Err e, s')
     | (Panic, s') \<Rightarrow> (Panic, s'))"

text \<open>A call whose value is dropped.\<close>

definition forget :: "('s, 'a, 'e) act \<Rightarrow> ('s, unit, 'e) act" where
  "forget m = act_bind m (\<lambda>_. act_ret ())"

text \<open>A loop over a vector with an accumulator; an error or panic leaves the loop.\<close>

fun act_fold :: "('acc \<Rightarrow> 'b \<Rightarrow> ('s, 'acc, 'e) act) \<Rightarrow> 'acc \<Rightarrow> 'b list \<Rightarrow> ('s, 'acc, 'e) act" where
  "act_fold f acc [] = act_ret acc"
| "act_fold f acc (x # xs) = act_bind (f acc x) (\<lambda>acc'. act_fold f acc' xs)"

text \<open>
  The weakest precondition of an action: \<open>Q\<close> holds of the value and the state after a normal
  return, \<open>E\<close> of the error and the state after an error return, and there is no panic.
\<close>

definition act_wp ::
  "('s, 'a, 'e) act \<Rightarrow> ('a \<Rightarrow> 's \<Rightarrow> bool) \<Rightarrow> ('e \<Rightarrow> 's \<Rightarrow> bool) \<Rightarrow> 's \<Rightarrow> bool" where
  "act_wp m Q E s = (case m s of
       (Ok a, s') \<Rightarrow> Q a s'
     | (Err e, s') \<Rightarrow> E e s'
     | (Panic, s') \<Rightarrow> False)"

lemma wp_ret [wp_simps]: "act_wp (act_ret a) Q E s = Q a s"
  by (simp add: act_wp_def act_ret_def)

lemma wp_err [wp_simps]: "act_wp (act_err e) Q E s = E e s"
  by (simp add: act_wp_def act_err_def)

lemma wp_panic [wp_simps]: "act_wp act_panic Q E s = False"
  by (simp add: act_wp_def act_panic_def)

lemma wp_get [wp_simps]: "act_wp (act_get f) Q E s = Q (f s) s"
  by (simp add: act_wp_def act_get_def)

lemma wp_set [wp_simps]: "act_wp (act_set f) Q E s = Q () (f s)"
  by (simp add: act_wp_def act_set_def)

lemma wp_bind [wp_simps]: "act_wp (act_bind m f) Q E s = act_wp m (\<lambda>a. act_wp (f a) Q E) E s"
  by (simp add: act_wp_def act_bind_def split: prod.split rust.split)

lemma wp_if [wp_simps]:
  "act_wp (if c then m else m') Q E s = (if c then act_wp m Q E s else act_wp m' Q E s)"
  by simp

lemma wp_option [wp_simps]:
  "act_wp (case x of None \<Rightarrow> m | Some y \<Rightarrow> f y) Q E s =
   (case x of None \<Rightarrow> act_wp m Q E s | Some y \<Rightarrow> act_wp (f y) Q E s)"
  by (cases x) simp_all

lemma wp_forget [wp_simps]: "act_wp (forget m) Q E p = act_wp m (\<lambda>_. Q ()) E p"
  by (simp add: forget_def act_wp_def act_bind_def act_ret_def split: prod.splits rust.splits)

lemma wp_fold_Nil [wp_simps]: "act_wp (act_fold f acc []) Q E s = Q acc s"
  by (simp add: wp_simps)

lemma wp_mono:
  assumes "act_wp m Q E s"
    and "\<And>a s'. Q a s' \<Longrightarrow> Q' a s'"
    and "\<And>e s'. E e s' \<Longrightarrow> E' e s'"
  shows "act_wp m Q' E' s"
  using assms by (auto simp: act_wp_def split: prod.splits rust.splits)

lemma wp_fold:
  assumes step: "\<And>acc x xs s. I acc (x # xs) s \<Longrightarrow> act_wp (f acc x) (\<lambda>acc'. I acc' xs) E s"
    and start: "I acc xs s"
    and finish: "\<And>acc s. I acc [] s \<Longrightarrow> Q acc s"
  shows "act_wp (act_fold f acc xs) Q E s"
  using start
proof (induction xs arbitrary: acc s)
  case Nil
  then show ?case by (simp add: wp_simps finish del: act_fold.simps)
next
  case (Cons x xs)
  have "act_wp (f acc x) (\<lambda>acc'. I acc' xs) E s" by (rule step [OF Cons.prems])
  then have "act_wp (f acc x) (\<lambda>acc'. act_wp (act_fold f acc' xs) Q E) E s"
    by (rule wp_mono) (auto intro: Cons.IH)
  then show ?case by (simp add: wp_bind)
qed

lemma wp_no_panic: "act_wp m Q E s \<Longrightarrow> fst (m s) \<noteq> Panic"
  by (auto simp: act_wp_def split: prod.splits rust.splits)

lemma wp_Ok: "act_wp m Q E s \<Longrightarrow> m s = (Ok a, s') \<Longrightarrow> Q a s'"
  by (simp add: act_wp_def)

lemma wp_Err: "act_wp m Q E s \<Longrightarrow> m s = (Err e, s') \<Longrightarrow> E e s'"
  by (simp add: act_wp_def)

lemma wp_conj:
  "act_wp m Q E s \<Longrightarrow> act_wp m Q' E' s \<Longrightarrow>
   act_wp m (\<lambda>a s'. Q a s' \<and> Q' a s') (\<lambda>e s'. E e s' \<and> E' e s') s"
  by (auto simp: act_wp_def split: prod.splits rust.splits)

lemma wpI_result:
  assumes "act_wp m Q E s"
  shows "case m s of (Ok a, s') \<Rightarrow> Q a s' | (Err e, s') \<Rightarrow> E e s' | (Panic, _) \<Rightarrow> False"
  using assms by (auto simp: act_wp_def split: prod.splits rust.splits)

lemma wp_total:
  assumes "act_wp m Q E s" and "\<And>e s'. E e s' \<Longrightarrow> False"
  obtains a s' where "m s = (Ok a, s')" and "Q a s'"
  using assms by (cases "m s"; cases "fst (m s)") (auto simp: act_wp_def)

lemma rust_map_Ok_iff:
  "rust_map f xs = Ok ys \<longleftrightarrow> length ys = length xs \<and> (\<forall>i < length xs. f (xs ! i) = Ok (ys ! i))"
proof (induction xs arbitrary: ys)
  case (Cons x xs)
  show ?case
    by (cases ys) (auto simp: Cons.IH less_Suc_eq_0_disj)
qed auto

lemma rust_map_cong:
  "(\<And>x. x \<in> set xs \<Longrightarrow> f x = g x) \<Longrightarrow> rust_map f xs = rust_map g xs"
  by (induction xs) auto

section \<open>Arithmetic of machine integers\<close>

text \<open>\<open>usize::div_ceil\<close>, for a non-zero divisor.\<close>

definition div_ceil :: "nat \<Rightarrow> nat \<Rightarrow> nat" where
  "div_ceil a b = (if a mod b = 0 then a div b else a div b + 1)"

lemma div_ceil_le_iff:
  assumes "0 < b"
  shows "div_ceil a b \<le> n \<longleftrightarrow> a \<le> n * b"
proof -
  have split: "a = a div b * b + a mod b" and small: "a mod b < b"
    using assms by simp_all
  show ?thesis
  proof (cases "a mod b = 0")
    case True
    then have "a = a div b * b" using split by simp
    then show ?thesis using assms True
      by (metis div_ceil_def mult_le_cancel2)
  next
    case False
    have "a div b + 1 \<le> n \<longleftrightarrow> a div b < n" by auto
    also have "\<dots> \<longleftrightarrow> a < n * b" using assms by (simp add: div_less_iff_less_mult)
    also have "\<dots> \<longleftrightarrow> a \<le> n * b" using False by (metis le_neq_implies_less less_imp_le mod_mult_self2_is_0)
    finally show ?thesis using False by (simp add: div_ceil_def)
  qed
qed

lemma div_ceil_mult_ge: "0 < b \<Longrightarrow> a \<le> div_ceil a b * b"
  using div_ceil_le_iff [of b a "div_ceil a b"] by simp

lemma div_ceil_mono: "0 < b \<Longrightarrow> a \<le> a' \<Longrightarrow> div_ceil a b \<le> div_ceil a' b"
  using div_ceil_mult_ge [of b a'] by (simp add: div_ceil_le_iff)

lemma div_ceil_mult [simp]: "0 < b \<Longrightarrow> div_ceil (n * b) b = n"
  by (simp add: div_ceil_def)

lemma div_ceil_0 [simp]: "div_ceil 0 b = 0"
  by (simp add: div_ceil_def)

text \<open>The cast \<open>isize as usize\<close>.\<close>

definition as_usize :: "int \<Rightarrow> nat" where
  "as_usize z = nat (z mod 2 ^ 64)"

text \<open>\<open>saturating_add\<close> at a given width.\<close>

definition sat_add :: "nat \<Rightarrow> nat \<Rightarrow> nat \<Rightarrow> nat" where
  "sat_add w a b = min (a + b) (2 ^ w - 1)"

lemma sat_add_mono: "a \<le> a' \<Longrightarrow> b \<le> b' \<Longrightarrow> sat_add w a b \<le> sat_add w a' b'"
  by (auto simp: sat_add_def)

text \<open>An addition in \<open>usize\<close> or \<open>u64\<close>, which panics on overflow.\<close>

definition usize_add :: "nat \<Rightarrow> nat \<Rightarrow> ('s, nat, 'e) act" where
  "usize_add a b = (if a + b < 2 ^ 64 then act_ret (a + b) else act_panic)"

lemma wp_usize_add [wp_simps]: "act_wp (usize_add a b) Q E s \<longleftrightarrow> a + b < 2 ^ 64 \<and> Q (a + b) s"
  by (simp add: usize_add_def wp_simps)

section \<open>Hash maps\<close>

text \<open>
  A \<open>HashMap\<close> is an association list whose keys are distinct. \<open>map_of\<close> is \<open>get\<close>,
  \<open>AList.update\<close> is \<open>insert\<close>, \<open>AList.delete\<close> is \<open>remove\<close>. The list fixes one
  iteration order; no theorem depends on which one.
\<close>

declare map_of_eq_Some_iff [simp del] Some_eq_map_of_iff [simp del]

abbreviation keys_distinct :: "('k \<times> 'v) list \<Rightarrow> bool" where
  "keys_distinct m \<equiv> distinct (map fst m)"

definition map_sum :: "('v \<Rightarrow> nat) \<Rightarrow> ('k \<times> 'v) list \<Rightarrow> nat" where
  "map_sum f m = sum_list (map (\<lambda>kv. f (snd kv)) m)"

definition opt_val :: "('v \<Rightarrow> nat) \<Rightarrow> 'v option \<Rightarrow> nat" where
  "opt_val f x = (case x of None \<Rightarrow> 0 | Some v \<Rightarrow> f v)"

lemma opt_val_simps [simp]: "opt_val f None = 0" "opt_val f (Some v) = f v"
  by (simp_all add: opt_val_def)

lemma map_sum_simps [simp]:
  "map_sum f [] = 0"
  "map_sum f (kv # m) = f (snd kv) + map_sum f m"
  by (simp_all add: map_sum_def)

lemma map_sum_update [map_simps]:
  "keys_distinct m \<Longrightarrow>
   map_sum f (AList.update k v m) + opt_val f (map_of m k) = map_sum f m + f v"
  by (induction m) auto

lemma map_sum_delete [map_simps]:
  "keys_distinct m \<Longrightarrow> map_sum f (AList.delete k m) + opt_val f (map_of m k) = map_sum f m"
proof (induction m)
  case Nil
  then show ?case by simp
next
  case (Cons kv m)
  show ?case
  proof (cases "fst kv = k")
    case True
    then have "k \<notin> fst ` set m" using Cons.prems by auto
    then have "AList.delete k m = m" by (rule delete_id)
    then show ?thesis using True by simp
  next
    case False
    then show ?thesis using Cons by simp
  qed
qed

lemma map_sum_ge: "map_of m k = Some v \<Longrightarrow> f v \<le> map_sum f m"
  by (induction m) (auto split: if_splits)

lemma map_sum_0_iff: "map_sum f m = 0 \<longleftrightarrow> (\<forall>kv \<in> set m. f (snd kv) = 0)"
  by (simp add: map_sum_def)

lemma map_sum_pos: "map_of m k = Some v \<Longrightarrow> 0 < f v \<Longrightarrow> 0 < map_sum f m"
  using map_sum_ge [of m k v f] by simp

lemma map_sum_cong: "(\<And>k v. (k, v) \<in> set m \<Longrightarrow> f v = g v) \<Longrightarrow> map_sum f m = map_sum g m"
  by (simp add: map_sum_def) (metis (no_types, lifting) map_cong prod.collapse)

lemma keys_distinct_update [simp]:
  "keys_distinct (AList.update k v m) = keys_distinct m"
  by (induction m) (auto simp: dom_update)

lemma keys_distinct_delete [simp]:
  "keys_distinct m \<Longrightarrow> keys_distinct (AList.delete k m)"
  by (rule distinct_delete)

lemma map_of_update [simp]:
  "map_of (AList.update k v m) k' = (if k' = k then Some v else map_of m k')"
  by (simp add: update_conv)

lemma map_of_delete' [simp]:
  "map_of (AList.delete k m) k' = (if k' = k then None else map_of m k')"
  by (simp add: delete_conv)

lemma map_of_mem_iff: "keys_distinct m \<Longrightarrow> (k, v) \<in> set m \<longleftrightarrow> map_of m k = Some v"
  by (metis map_of_SomeD map_of_is_SomeI)

lemma list_ex_map_of:
  assumes "keys_distinct m"
  shows "list_ex (\<lambda>kv. P (snd kv)) m \<longleftrightarrow> (\<exists>k v. map_of m k = Some v \<and> P v)"
proof -
  have "list_ex (\<lambda>kv. P (snd kv)) m \<longleftrightarrow> (\<exists>k v. (k, v) \<in> set m \<and> P v)"
    by (simp add: list_ex_iff Bex_def)
  then show ?thesis by (simp only: map_of_mem_iff [OF assms])
qed

lemma length_update:
  "length (AList.update k v m) = (if map_of m k = None then length m + 1 else length m)"
  by (induction m) auto

lemma length_delete:
  "keys_distinct m \<Longrightarrow>
   length (AList.delete k m) = (if map_of m k = None then length m else length m - 1)"
proof (induction m)
  case (Cons kv m)
  have "Suc (length m - 1) = length m" if "map_of m k = Some v" for v
    using that by (cases m) auto
  then show ?case using Cons
    by (auto simp: delete_id)
qed simp

section \<open>Lists\<close>

lemma count_list_append_single [simp]:
  "count_list (xs @ [x]) y = count_list xs y + (if x = y then 1 else 0)"
  by (induction xs) auto

lemma count_list_update:
  "i < length xs \<Longrightarrow>
   count_list (xs[i := y]) z + (if xs ! i = z then 1 else 0) = count_list xs z + (if y = z then 1 else 0)"
proof (induction xs arbitrary: i)
  case (Cons x xs)
  show ?case
  proof (cases i)
    case (Suc j)
    then show ?thesis using Cons.IH [of j] Cons.prems by (auto split: if_splits)
  qed simp
qed simp

lemma count_list_pos: "x \<in> set xs \<Longrightarrow> 0 < count_list xs x"
  by (metis count_list_0_iff neq0_conv)

lemma sum_list_update_nat:
  "i < length xs \<Longrightarrow> sum_list (xs[i := (v::nat)]) + xs ! i = sum_list xs + v"
  by (induction xs arbitrary: i) (auto split: nat.split)

section \<open>State machines\<close>

text \<open>
  The interface of a component that moves by steps: an invariant that every step keeps holds
  in every state that can be reached from a state where it holds.
\<close>

locale stepped_system =
  fixes step :: "'s \<Rightarrow> 's \<Rightarrow> bool"
    and invar :: "'s \<Rightarrow> bool"
  assumes invar_step: "invar s \<Longrightarrow> step s t \<Longrightarrow> invar t"
begin

lemma invar_steps: "rtranclp step s t \<Longrightarrow> invar s \<Longrightarrow> invar t"
  by (induction rule: rtranclp_induct) (auto intro: invar_step)

lemma invar_trace: "invar s \<Longrightarrow> rtranclp step s t \<Longrightarrow> (\<And>u. invar u \<Longrightarrow> P u) \<Longrightarrow> P t"
  using invar_steps by blast

end

end
