(* ===== verification/KvPool.thy ===== *)
theory KvPool
  imports Prelude
begin

text \<open>
  The KV block pool of \<open>fuel-kv-pool/src/lib.rs\<close>: physical blocks with reference counts, a
  free list, one block table per session, copy-on-write sharing between sessions, registered
  prefix owners, and eviction with a reversible handle. Every method with a mutable receiver is
  an action on the pool; a vector index out of range, an arithmetic underflow, a zero divisor
  and an \<open>expect\<close> on an absent value are panics. Counters (\<open>u32\<close>, \<open>u64\<close>, \<open>usize\<close>) are
  natural numbers, except for the cast of the block count to \<open>u32\<close> in \<open>new\<close>, which is
  written out.
\<close>

section \<open>Data\<close>

type_synonym phys_block_id = nat
type_synonym session_handle = nat
type_synonym prefix_id = nat
type_synonym block_hash = "128 word"

datatype fidelity = Lossy | Exact

datatype state_kind = KvBlocks

record kv_geometry =
  n_layers :: nat
  num_blocks :: nat
  block_size :: nat
  n_kv_heads :: nat
  head_dim :: nat
  elem_size :: nat

definition bytes_per_block :: "kv_geometry \<Rightarrow> nat" where
  "bytes_per_block g =
     n_layers g * block_size g * n_kv_heads g * head_dim g * 2 * elem_size g"

record pool_capacity =
  cap_geometry :: kv_geometry
  cap_free_blocks :: nat
  cap_total_blocks :: nat

datatype slot = Resident phys_block_id | Externalized

record block_table =
  slots :: "slot list"
  filled_tokens :: nat

record externalized =
  ext_fidelity :: fidelity
  ext_covers :: "state_kind list"
  externalized_slots :: "nat list"
  resident_slots :: "(nat \<times> phys_block_id) list"

record evict_report =
  freed :: "nat list"
  still_shared :: "nat list"
  handle :: externalized

datatype kv_alloc_error =
    OutOfBlocks nat nat
  | UnknownSession
  | BadSpliceRange
  | BadBlockIndex nat nat
  | SessionNotResident nat
  | PrefixTargetNotEmpty
  | PrefixNotFullyFilled nat nat
  | UnknownPrefix
  | OffsetNotBlockAligned nat nat
  | BlockNotFull nat
  | UnknownCachedBlock

record prefix_owner =
  owner :: session_handle
  owner_blocks :: nat

record cached_block =
  cached_at :: phys_block_id
  last_used :: nat

record cache_stats =
  lookups :: nat
  block_hits :: nat
  block_misses :: nat
  commits :: nat
  evictions :: nat

record kv_pool =
  geom :: kv_geometry
  free :: "phys_block_id list"
  refcount :: "nat list"
  tables :: "(session_handle \<times> block_table) list"
  next_session :: nat
  prefixes :: "(prefix_id \<times> prefix_owner) list"
  next_prefix :: nat
  cached :: "(block_hash \<times> cached_block) list"
  cached_by_block :: "(phys_block_id \<times> block_hash) list"
  tick :: nat
  stats :: cache_stats

type_synonym 'a pool_act = "(kv_pool, 'a, kv_alloc_error) act"

section \<open>Construction and queries\<close>

definition kv_new :: "kv_geometry \<Rightarrow> kv_pool" where
  "kv_new g = \<lparr>geom = g,
     free = rev [0..<num_blocks g mod 2 ^ 32],
     refcount = replicate (num_blocks g) 0,
     tables = [], next_session = 0, prefixes = [], next_prefix = 0,
     cached = [], cached_by_block = [], tick = 0,
     stats = \<lparr>lookups = 0, block_hits = 0, block_misses = 0, commits = 0, evictions = 0\<rparr>\<rparr>"

definition blocks_for :: "nat \<Rightarrow> nat \<Rightarrow> (nat, kv_alloc_error) rust" where
  "blocks_for tokens bs = (if bs = 0 then Panic else Ok (div_ceil tokens bs))"

definition free_blocks :: "kv_pool \<Rightarrow> nat" where
  "free_blocks p = length (free p)"

definition capacity :: "kv_pool \<Rightarrow> pool_capacity" where
  "capacity p = \<lparr>cap_geometry = geom p, cap_free_blocks = length (free p),
     cap_total_blocks = num_blocks (geom p)\<rparr>"

definition blocks_required :: "kv_pool \<Rightarrow> nat \<Rightarrow> nat \<Rightarrow> (nat, kv_alloc_error) rust" where
  "blocks_required p cur_filled add_tokens =
     (let bs = block_size (geom p) in
      rust_bind (blocks_for (cur_filled + add_tokens) bs) (\<lambda>a.
      rust_bind (blocks_for cur_filled bs) (\<lambda>b.
        if b \<le> a then Ok (a - b) else Panic)))"

fun blocks_required_batch :: "kv_pool \<Rightarrow> (nat \<times> nat) list \<Rightarrow> (nat, kv_alloc_error) rust" where
  "blocks_required_batch p [] = Ok 0"
| "blocks_required_batch p ((filled, add) # seqs) =
     rust_bind (blocks_required p filled add) (\<lambda>a.
     rust_bind (blocks_required_batch p seqs) (\<lambda>b. Ok (a + b)))"

definition kv_bytes_resident :: "kv_pool \<Rightarrow> (nat, kv_alloc_error) rust" where
  "kv_bytes_resident p =
     (if length (free p) \<le> num_blocks (geom p)
      then Ok ((num_blocks (geom p) - length (free p)) * bytes_per_block (geom p))
      else Panic)"

definition session_blocks :: "kv_pool \<Rightarrow> session_handle \<Rightarrow> nat option" where
  "session_blocks p s = map_option (\<lambda>t. length (slots t)) (map_of (tables p) s)"

definition filled_tokens_of :: "kv_pool \<Rightarrow> session_handle \<Rightarrow> nat option" where
  "filled_tokens_of p s = map_option filled_tokens (map_of (tables p) s)"

fun resident_ids :: "nat \<Rightarrow> slot list \<Rightarrow> (phys_block_id list, kv_alloc_error) rust" where
  "resident_ids i [] = Ok []"
| "resident_ids i (Resident b # ss) =
     rust_bind (resident_ids (Suc i) ss) (\<lambda>bs. Ok (b # bs))"
| "resident_ids i (Externalized # ss) = Err (SessionNotResident i)"

definition session_block_table ::
  "kv_pool \<Rightarrow> session_handle \<Rightarrow> (phys_block_id list, kv_alloc_error) rust" where
  "session_block_table p s = (case map_of (tables p) s of
       None \<Rightarrow> Err UnknownSession
     | Some t \<Rightarrow> resident_ids 0 (slots t))"

definition resident_block :: "kv_pool \<Rightarrow> session_handle \<Rightarrow> nat \<Rightarrow> phys_block_id option" where
  "resident_block p s i = (case map_of (tables p) s of
       None \<Rightarrow> None
     | Some t \<Rightarrow> (if i < length (slots t)
          then (case slots t ! i of Resident b \<Rightarrow> Some b | Externalized \<Rightarrow> None)
          else None))"

definition block_refcount :: "kv_pool \<Rightarrow> phys_block_id \<Rightarrow> (nat, kv_alloc_error) rust" where
  "block_refcount p b = (if b < length (refcount p) then Ok (refcount p ! b) else Panic)"

section \<open>Primitive accesses\<close>

text \<open>A lookup that fails with \<open>UnknownSession\<close>, an update of a table, the free list, a count.\<close>

definition get_table :: "session_handle \<Rightarrow> block_table pool_act" where
  "get_table s = act_bind (act_get (\<lambda>p. map_of (tables p) s)) (\<lambda>t.
     case t of None \<Rightarrow> act_err UnknownSession | Some t \<Rightarrow> act_ret t)"

definition table_mut :: "session_handle \<Rightarrow> (block_table \<Rightarrow> block_table) \<Rightarrow> unit pool_act" where
  "table_mut s f = act_bind (get_table s) (\<lambda>t.
     act_set (\<lambda>p. p\<lparr>tables := AList.update s (f t) (tables p)\<rparr>))"

definition take_free :: "phys_block_id pool_act" where
  "take_free = act_bind (act_get free) (\<lambda>fr.
     if fr = [] then act_err (OutOfBlocks 1 0)
     else act_bind (act_set (\<lambda>p. p\<lparr>free := butlast fr\<rparr>)) (\<lambda>_. act_ret (last fr)))"

definition free_push :: "phys_block_id \<Rightarrow> unit pool_act" where
  "free_push b = act_set (\<lambda>p. p\<lparr>free := free p @ [b]\<rparr>)"

definition rc_get :: "phys_block_id \<Rightarrow> nat pool_act" where
  "rc_get b = act_bind (act_get refcount) (\<lambda>rc.
     if b < length rc then act_ret (rc ! b) else act_panic)"

definition rc_set :: "phys_block_id \<Rightarrow> nat \<Rightarrow> unit pool_act" where
  "rc_set b n = act_bind (act_get refcount) (\<lambda>rc.
     if b < length rc then act_set (\<lambda>p. p\<lparr>refcount := rc[b := n]\<rparr>) else act_panic)"

definition rc_inc :: "phys_block_id \<Rightarrow> unit pool_act" where
  "rc_inc b = act_bind (rc_get b) (\<lambda>n. rc_set b (n + 1))"

definition rc_dec :: "phys_block_id \<Rightarrow> nat pool_act" where
  "rc_dec b = act_bind (rc_get b) (\<lambda>n.
     if n = 0 then act_panic
     else act_bind (rc_set b (n - 1)) (\<lambda>_. act_ret (n - 1)))"

definition push_slot :: "slot \<Rightarrow> block_table \<Rightarrow> block_table" where
  "push_slot x t = t\<lparr>slots := slots t @ [x]\<rparr>"

definition set_slot :: "nat \<Rightarrow> slot \<Rightarrow> session_handle \<Rightarrow> unit pool_act" where
  "set_slot i x s = act_bind (get_table s) (\<lambda>t.
     if i < length (slots t) then table_mut s (\<lambda>t. t\<lparr>slots := (slots t)[i := x]\<rparr>)
     else act_panic)"

section \<open>Session lifecycle\<close>

definition kv_open :: "session_handle pool_act" where
  "kv_open = act_bind (act_get next_session) (\<lambda>h.
     act_bind (act_set (\<lambda>p. p\<lparr>next_session := h + 1,
       tables := AList.update h \<lparr>slots = [], filled_tokens = 0\<rparr> (tables p)\<rparr>)) (\<lambda>_. act_ret h))"

definition alloc_into :: "session_handle \<Rightarrow> phys_block_id pool_act" where
  "alloc_into s = act_bind take_free (\<lambda>b.
     act_bind (rc_set b 1) (\<lambda>_.
     act_bind (table_mut s (push_slot (Resident b))) (\<lambda>_. act_ret b)))"

definition kv_append :: "session_handle \<Rightarrow> nat \<Rightarrow> unit pool_act" where
  "kv_append s add_tokens =
     act_bind (act_get (\<lambda>p. block_size (geom p))) (\<lambda>bs.
     act_bind (get_table s) (\<lambda>t.
     case blocks_for (filled_tokens t + add_tokens) bs of
       Panic \<Rightarrow> act_panic | Err e \<Rightarrow> act_err e
     | Ok want_blocks \<Rightarrow>
       (let new_blocks = want_blocks - length (slots t) in
        act_bind (act_get (\<lambda>p. length (free p))) (\<lambda>have.
        if have < new_blocks then act_err (OutOfBlocks new_blocks have)
        else act_bind (act_fold (\<lambda>_ _. act_bind (alloc_into s) (\<lambda>_. act_ret ())) () [0..<new_blocks]) (\<lambda>_.
          table_mut s (\<lambda>t'. t'\<lparr>filled_tokens := filled_tokens t + add_tokens\<rparr>))))))"

definition drop_slot :: "slot \<Rightarrow> unit pool_act" where
  "drop_slot x = (case x of
       Resident b \<Rightarrow> act_bind (rc_dec b) (\<lambda>n. if n = 0 then free_push b else act_ret ())
     | Externalized \<Rightarrow> act_ret ())"

definition kv_discard :: "session_handle \<Rightarrow> unit pool_act" where
  "kv_discard s = act_bind (act_get (\<lambda>p. map_of (tables p) s)) (\<lambda>t.
     case t of
       None \<Rightarrow> act_ret ()
     | Some t \<Rightarrow> act_bind (act_set (\<lambda>p. p\<lparr>tables := AList.delete s (tables p)\<rparr>)) (\<lambda>_.
         act_fold (\<lambda>_ x. drop_slot x) () (slots t)))"

section \<open>Eviction and restore\<close>

fun check_indices :: "nat \<Rightarrow> nat list \<Rightarrow> (unit, kv_alloc_error) rust" where
  "check_indices n [] = Ok ()"
| "check_indices n (i # is) = (if n \<le> i then Err (BadBlockIndex i n) else check_indices n is)"

definition validate_block_indices :: "session_handle \<Rightarrow> nat list \<Rightarrow> unit pool_act" where
  "validate_block_indices s indices = act_bind (get_table s) (\<lambda>t.
     case check_indices (length (slots t)) indices of
       Ok u \<Rightarrow> act_ret u | Err e \<Rightarrow> act_err e | Panic \<Rightarrow> act_panic)"

definition is_prefix_owner :: "kv_pool \<Rightarrow> session_handle \<Rightarrow> bool" where
  "is_prefix_owner p s = list_ex (\<lambda>kv. owner (snd kv) = s) (prefixes p)"

definition evict_report_init :: evict_report where
  "evict_report_init = \<lparr>freed = [], still_shared = [],
     handle = \<lparr>ext_fidelity = Lossy, ext_covers = [KvBlocks],
       externalized_slots = [], resident_slots = []\<rparr>\<rparr>"

definition report_freed :: "nat \<Rightarrow> evict_report \<Rightarrow> evict_report" where
  "report_freed i r = r\<lparr>freed := freed r @ [i],
     handle := (handle r)\<lparr>externalized_slots := externalized_slots (handle r) @ [i]\<rparr>\<rparr>"

definition report_shared :: "nat \<Rightarrow> phys_block_id \<Rightarrow> evict_report \<Rightarrow> evict_report" where
  "report_shared i b r = r\<lparr>still_shared := still_shared r @ [i],
     handle := (handle r)\<lparr>resident_slots := resident_slots (handle r) @ [(i, b)]\<rparr>\<rparr>"

definition evict_one ::
  "session_handle \<Rightarrow> bool \<Rightarrow> evict_report \<Rightarrow> nat \<Rightarrow> evict_report pool_act" where
  "evict_one s querying_is_prefix_owner r i =
     act_bind (act_get (\<lambda>p. map_of (tables p) s)) (\<lambda>t.
     case t of None \<Rightarrow> act_panic
     | Some t \<Rightarrow>
       if length (slots t) \<le> i then act_panic
       else (case slots t ! i of
           Resident b \<Rightarrow> act_bind (rc_get b) (\<lambda>n.
             if n = 1 \<and> \<not> querying_is_prefix_owner
             then act_bind (rc_set b 0) (\<lambda>_.
                  act_bind (free_push b) (\<lambda>_.
                  act_bind (set_slot i Externalized s) (\<lambda>_.
                  act_ret (report_freed i r))))
             else act_ret (report_shared i b r))
         | Externalized \<Rightarrow> act_ret r))"

definition evict_blocks :: "session_handle \<Rightarrow> nat list \<Rightarrow> evict_report pool_act" where
  "evict_blocks s indices =
     act_bind (validate_block_indices s indices) (\<lambda>_.
     act_bind (act_get (\<lambda>p. is_prefix_owner p s)) (\<lambda>own.
     act_fold (evict_one s own) evict_report_init indices))"

definition kv_evict :: "session_handle \<Rightarrow> evict_report pool_act" where
  "kv_evict s = act_bind (get_table s) (\<lambda>t. evict_blocks s [0..<length (slots t)])"

definition evict_range :: "session_handle \<Rightarrow> nat \<Rightarrow> nat \<Rightarrow> evict_report pool_act" where
  "evict_range s from til =
     (if til < from then act_err (BadBlockIndex from til)
      else evict_blocks s [from..<til])"

definition grow_set :: "nat \<Rightarrow> slot \<Rightarrow> slot list \<Rightarrow> slot list" where
  "grow_set i x ss =
     (if length ss \<le> i then ss @ replicate (i + 1 - length ss) Externalized else ss)[i := x]"

definition place_resident_slot :: "session_handle \<Rightarrow> nat \<Rightarrow> phys_block_id \<Rightarrow> unit pool_act" where
  "place_resident_slot s i b = table_mut s (\<lambda>t. t\<lparr>slots := grow_set i (Resident b) (slots t)\<rparr>)"

definition restore_fresh :: "session_handle \<Rightarrow> nat \<Rightarrow> unit pool_act" where
  "restore_fresh s i = act_bind take_free (\<lambda>b.
     act_bind (rc_set b 1) (\<lambda>_. place_resident_slot s i b))"

definition kv_restore :: "session_handle \<Rightarrow> externalized \<Rightarrow> unit pool_act" where
  "kv_restore s h =
     act_bind (get_table s) (\<lambda>_.
     act_bind (act_get (\<lambda>p. length (free p))) (\<lambda>have.
     (let need = length (externalized_slots h) in
      if have < need then act_err (OutOfBlocks need have)
      else act_bind (act_fold (\<lambda>_ i. restore_fresh s i) () (externalized_slots h)) (\<lambda>_.
           act_fold (\<lambda>_ ib. place_resident_slot s (fst ib) (snd ib)) () (resident_slots h)))))"

section \<open>Copy-on-write sharing\<close>

fun collect_shared :: "slot list \<Rightarrow> (phys_block_id list, kv_alloc_error) rust" where
  "collect_shared [] = Ok []"
| "collect_shared (Resident b # ss) = rust_bind (collect_shared ss) (\<lambda>bs. Ok (b # bs))"
| "collect_shared (Externalized # ss) = Err BadSpliceRange"

definition validate_and_collect_shared ::
  "session_handle \<Rightarrow> nat \<Rightarrow> nat \<Rightarrow> (phys_block_id list \<times> nat) pool_act" where
  "validate_and_collect_shared src from til = act_bind (get_table src) (\<lambda>t.
     if til < from \<or> length (slots t) < til then act_err BadSpliceRange
     else (case collect_shared (take (til - from) (drop from (slots t))) of
         Ok bs \<Rightarrow> act_ret (bs, filled_tokens t)
       | Err e \<Rightarrow> act_err e | Panic \<Rightarrow> act_panic))"

definition share_into :: "session_handle \<Rightarrow> phys_block_id \<Rightarrow> unit pool_act" where
  "share_into dst b = act_bind (rc_inc b) (\<lambda>_. table_mut dst (push_slot (Resident b)))"

definition kv_splice ::
  "session_handle \<Rightarrow> session_handle \<Rightarrow> nat \<Rightarrow> nat \<Rightarrow> unit pool_act" where
  "kv_splice src dst from til =
     act_bind (get_table dst) (\<lambda>_.
     act_bind (validate_and_collect_shared src from til) (\<lambda>sf.
     act_bind (act_get (\<lambda>p. block_size (geom p))) (\<lambda>bs.
     (let shared_tokens = min ((til - from) * bs) (snd sf - from * bs) in
      act_bind (act_fold (\<lambda>_ b. share_into dst b) () (fst sf)) (\<lambda>_.
      table_mut dst (\<lambda>t. t\<lparr>filled_tokens := filled_tokens t + shared_tokens\<rparr>))))))"

definition cow_break :: "session_handle \<Rightarrow> nat \<Rightarrow> phys_block_id pool_act" where
  "cow_break s i = act_bind (get_table s) (\<lambda>t.
     if length (slots t) \<le> i then act_err BadSpliceRange
     else (case slots t ! i of
         Externalized \<Rightarrow> act_err BadSpliceRange
       | Resident b \<Rightarrow> act_bind (rc_get b) (\<lambda>n.
           if n \<le> 1 then act_ret b
           else act_bind (act_get free) (\<lambda>fr.
             if fr = [] then act_err (OutOfBlocks 1 0)
             else act_bind take_free (\<lambda>q.
                  act_bind (rc_set q 1) (\<lambda>_.
                  act_bind (rc_dec b) (\<lambda>_.
                  act_bind (set_slot i (Resident q) s) (\<lambda>_. act_ret q))))))))"

definition splice_prefix :: "session_handle \<Rightarrow> session_handle \<Rightarrow> nat \<Rightarrow> nat pool_act" where
  "splice_prefix src dst n_blocks =
     act_bind (get_table dst) (\<lambda>d.
     if slots d \<noteq> [] then act_err PrefixTargetNotEmpty
     else act_bind (get_table src) (\<lambda>t.
       if length (slots t) < n_blocks then act_err BadSpliceRange
       else act_bind (act_get (\<lambda>p. block_size (geom p))) (\<lambda>bs.
         (let shared_tokens = n_blocks * bs in
          if filled_tokens t < shared_tokens
          then act_err (PrefixNotFullyFilled n_blocks (filled_tokens t))
          else act_bind (kv_splice src dst 0 n_blocks) (\<lambda>_. act_ret shared_tokens)))))"

section \<open>The prefix registry\<close>

text \<open>
  \<open>register_prefix\<close> inspects the outcome of the inner splice itself (a \<open>match\<close>, not a
  question mark), so that it can drop the owner session again.
\<close>

definition register_prefix :: "session_handle \<Rightarrow> nat \<Rightarrow> prefix_id pool_act" where
  "register_prefix donor n_blocks = act_bind kv_open (\<lambda>own. \<lambda>p.
     case splice_prefix donor own n_blocks p of
       (Ok shared_tokens, p') \<Rightarrow>
         (Ok (next_prefix p'), p'\<lparr>next_prefix := next_prefix p' + 1,
            prefixes := AList.update (next_prefix p')
              \<lparr>owner = own, owner_blocks = n_blocks\<rparr> (prefixes p')\<rparr>)
     | (Err e, p') \<Rightarrow> act_bind (kv_discard own) (\<lambda>_. act_err e) p'
     | (Panic, p') \<Rightarrow> (Panic, p'))"

definition release_prefix :: "prefix_id \<Rightarrow> unit pool_act" where
  "release_prefix pid = act_bind (act_get (\<lambda>p. map_of (prefixes p) pid)) (\<lambda>po.
     case po of None \<Rightarrow> act_err UnknownPrefix
     | Some po \<Rightarrow> act_bind (act_set (\<lambda>p. p\<lparr>prefixes := AList.delete pid (prefixes p)\<rparr>)) (\<lambda>_.
         kv_discard (owner po)))"

definition prefix_blocks :: "kv_pool \<Rightarrow> prefix_id \<Rightarrow> (nat, kv_alloc_error) rust" where
  "prefix_blocks p pid = (case map_of (prefixes p) pid of
     None \<Rightarrow> Err UnknownPrefix | Some po \<Rightarrow> Ok (owner_blocks po))"

definition splice_prefix_from :: "prefix_id \<Rightarrow> session_handle \<Rightarrow> nat pool_act" where
  "splice_prefix_from pid dst = act_bind (act_get (\<lambda>p. map_of (prefixes p) pid)) (\<lambda>po.
     case po of None \<Rightarrow> act_err UnknownPrefix
     | Some po \<Rightarrow> splice_prefix (owner po) dst (owner_blocks po))"

definition validate_shifted_prefix_alloc ::
  "prefix_id \<Rightarrow> session_handle \<Rightarrow> (nat \<times> session_handle \<times> nat) pool_act" where
  "validate_shifted_prefix_alloc pid dst =
     act_bind (act_get (\<lambda>p. block_size (geom p))) (\<lambda>bs.
     act_bind (get_table dst) (\<lambda>d.
     (let m = filled_tokens d in
      if bs = 0 then act_panic
      else if m mod bs \<noteq> 0 then act_err (OffsetNotBlockAligned m bs)
      else act_bind (act_get (\<lambda>p. map_of (prefixes p) pid)) (\<lambda>po.
        case po of None \<Rightarrow> act_err UnknownPrefix
        | Some po \<Rightarrow> act_bind (get_table (owner po)) (\<lambda>ot.
            if filled_tokens ot < owner_blocks po * bs
            then act_err (PrefixNotFullyFilled (owner_blocks po) (filled_tokens ot))
            else act_bind (act_get (\<lambda>p. length (free p))) (\<lambda>have.
              if have < owner_blocks po then act_err (OutOfBlocks (owner_blocks po) have)
              else act_ret (m, owner po, owner_blocks po)))))))"

fun expect_all :: "'a option list \<Rightarrow> 'a list option" where
  "expect_all [] = Some []"
| "expect_all (x # xs) = (case x of None \<Rightarrow> None | Some a \<Rightarrow> map_option ((#) a) (expect_all xs))"

definition alloc_shifted_prefix_slots ::
  "prefix_id \<Rightarrow> session_handle \<Rightarrow> (nat \<times> (phys_block_id \<times> phys_block_id) list) pool_act" where
  "alloc_shifted_prefix_slots pid dst =
     act_bind (validate_shifted_prefix_alloc pid dst) (\<lambda>v.
     case v of (m, own, n_blocks) \<Rightarrow>
     act_bind (act_get (\<lambda>p. expect_all (map (resident_block p own) [0..<n_blocks]))) (\<lambda>src.
     case src of None \<Rightarrow> act_panic
     | Some src \<Rightarrow>
       act_bind (act_fold (\<lambda>pairs b. act_bind (alloc_into dst) (\<lambda>fresh.
           act_ret (pairs @ [(b, fresh)]))) [] src) (\<lambda>pairs.
       act_bind (act_get (\<lambda>p. block_size (geom p))) (\<lambda>bs.
       act_bind (table_mut dst (\<lambda>t. t\<lparr>filled_tokens := filled_tokens t + n_blocks * bs\<rparr>)) (\<lambda>_.
       act_ret (m, pairs))))))"

end
