(* ===== verification/KvInvariant.thy ===== *)
theory KvInvariant
  imports KvPool
begin

text \<open>
  The invariant of the KV block pool and its preservation by every method. The heart is a
  ledger: the reference count of a physical block is the number of session slots and index
  entries that name it, and the free list holds exactly the blocks nobody names.
\<close>

section \<open>The reference ledger\<close>

definition ledger :: "nat \<Rightarrow> nat list \<Rightarrow> nat list \<Rightarrow> (nat \<Rightarrow> nat) \<Rightarrow> bool" where
  "ledger nb rc fr f \<longleftrightarrow>
     length rc = nb \<and> (\<forall>b < nb. rc ! b = f b) \<and> (\<forall>b. nb \<le> b \<longrightarrow> f b = 0) \<and>
     distinct fr \<and> (\<forall>b. b \<in> set fr \<longleftrightarrow> b < nb \<and> f b = 0)"

lemma ledgerI:
  assumes "length rc = nb" "\<And>b. b < nb \<Longrightarrow> rc ! b = f b" "\<And>b. nb \<le> b \<Longrightarrow> f b = 0" "distinct fr"
    "\<And>b. b \<in> set fr \<longleftrightarrow> b < nb \<and> f b = 0"
  shows "ledger nb rc fr f" using assms unfolding ledger_def by blast

lemma ledgerD:
  assumes "ledger nb rc fr f"
  shows "length rc = nb" "b < nb \<Longrightarrow> rc ! b = f b" "nb \<le> b \<Longrightarrow> f b = 0" "distinct fr"
    "b \<in> set fr \<longleftrightarrow> b < nb \<and> f b = 0"
  using assms unfolding ledger_def by blast+

lemma ledger_range: "ledger nb rc fr f \<Longrightarrow> 0 < f b \<Longrightarrow> b < nb"
  using ledgerD(3) by (metis leI less_nat_zero_code)

lemma ledger_take:
  assumes led: "ledger nb rc (fr @ [b]) f"
  shows "ledger nb (rc[b := 1]) fr (f(b := 1))"
    and "b < nb" and "f b = 0" and "length rc = nb"
proof -
  show b: "b < nb" and f: "f b = 0" and len: "length rc = nb"
    using ledgerD(1) [OF led] ledgerD(5) [OF led, of b] by auto
  show "ledger nb (rc[b := 1]) fr (f(b := 1))"
    using ledgerD [OF led] b len by (intro ledgerI) (auto simp: nth_list_update)
qed

lemma ledger_inc:
  assumes "ledger nb rc fr f" "0 < f b"
  shows "ledger nb (rc[b := Suc (rc ! b)]) fr (f(b := Suc (f b)))"
  using ledgerD [OF assms(1)] ledger_range [OF assms] assms(2)
  by (intro ledgerI) (auto simp: nth_list_update)

lemma ledger_dec:
  assumes led: "ledger nb rc fr f" and f: "f b = Suc n"
  shows "ledger nb (rc[b := n]) (if n = 0 then fr @ [b] else fr) (f(b := n))"
    and "b < nb" and "rc ! b = Suc n" and "length rc = nb"
proof -
  show b: "b < nb" using led by (rule ledger_range) (simp add: f)
  show len: "length rc = nb" and "rc ! b = Suc n" using ledgerD [OF led] b f by auto
  show "ledger nb (rc[b := n]) (if n = 0 then fr @ [b] else fr) (f(b := n))"
    using ledgerD [OF led] b f len by (intro ledgerI) (auto simp: nth_list_update)
qed
section \<open>The invariant\<close>

abbreviation slot_refs :: "phys_block_id \<Rightarrow> block_table \<Rightarrow> nat" where
  "slot_refs b t \<equiv> count_list (slots t) (Resident b)"

abbreviation index_refs :: "phys_block_id \<Rightarrow> cached_block \<Rightarrow> nat" where
  "index_refs b c \<equiv> (if cached_at c = b then 1 else 0)"

text \<open>How often a block is named: by the session slots and by the content index.\<close>

definition refs :: "kv_pool \<Rightarrow> phys_block_id \<Rightarrow> nat" where
  "refs p b = map_sum (slot_refs b) (tables p) + map_sum (index_refs b) (cached p)"

text \<open>
  \<open>counts_ok xs p\<close> is the ledger of \<open>p\<close> while the slots \<open>xs\<close> of a removed table are still
  to be dropped.
\<close>

definition counts_ok :: "slot list \<Rightarrow> kv_pool \<Rightarrow> bool" where
  "counts_ok xs p \<longleftrightarrow> ledger (num_blocks (geom p)) (refcount p) (free p)
     (\<lambda>b. refs p b + count_list xs (Resident b))"

definition maps_ok :: "kv_pool \<Rightarrow> bool" where
  "maps_ok p \<longleftrightarrow> 0 < block_size (geom p) \<and>
     keys_distinct (tables p) \<and> keys_distinct (prefixes p) \<and>
     keys_distinct (cached p) \<and> keys_distinct (cached_by_block p) \<and>
     (\<forall>s t. map_of (tables p) s = Some t \<longrightarrow> s < next_session p) \<and>
     (\<forall>i po. map_of (prefixes p) i = Some po \<longrightarrow> i < next_prefix p) \<and>
     (\<forall>h c. map_of (cached p) h = Some c \<longrightarrow> map_of (cached_by_block p) (cached_at c) = Some h) \<and>
     (\<forall>b h. map_of (cached_by_block p) b = Some h \<longrightarrow>
        (\<exists>c. map_of (cached p) h = Some c \<and> cached_at c = b))"

definition fill_ok :: "kv_geometry \<Rightarrow> block_table \<Rightarrow> bool" where
  "fill_ok g t \<longleftrightarrow> filled_tokens t \<le> length (slots t) * block_size g"

definition fills_ok :: "kv_pool \<Rightarrow> bool" where
  "fills_ok p \<longleftrightarrow> (\<forall>s t. map_of (tables p) s = Some t \<longrightarrow> fill_ok (geom p) t)"

definition all_resident :: "block_table \<Rightarrow> bool" where
  "all_resident t \<longleftrightarrow> Externalized \<notin> set (slots t)"

text \<open>
  A registered prefix is held by an open session all of whose blocks are resident and full, and
  no two prefixes share their owner session.
\<close>

definition owner_ok :: "kv_pool \<Rightarrow> prefix_owner \<Rightarrow> bool" where
  "owner_ok p po \<longleftrightarrow> (\<exists>t. map_of (tables p) (owner po) = Some t \<and> all_resident t \<and>
     length (slots t) = owner_blocks po \<and> filled_tokens t = owner_blocks po * block_size (geom p))"

definition owners_ok :: "kv_pool \<Rightarrow> bool" where
  "owners_ok p \<longleftrightarrow> (\<forall>i po. map_of (prefixes p) i = Some po \<longrightarrow> owner_ok p po) \<and>
     (\<forall>i j po po'. map_of (prefixes p) i = Some po \<longrightarrow> map_of (prefixes p) j = Some po' \<longrightarrow>
        owner po = owner po' \<longrightarrow> i = j)"

definition kv_ok :: "slot list \<Rightarrow> kv_pool \<Rightarrow> bool" where
  "kv_ok xs p \<longleftrightarrow> counts_ok xs p \<and> maps_ok p \<and> fills_ok p \<and> owners_ok p"

definition kv_inv :: "kv_pool \<Rightarrow> bool" where
  "kv_inv p \<longleftrightarrow> kv_ok [] p"

lemma maps_okD:
  assumes "maps_ok p"
  shows "0 < block_size (geom p)"
    and "keys_distinct (tables p)"
    and "keys_distinct (prefixes p)"
    and "keys_distinct (cached p)"
    and "keys_distinct (cached_by_block p)"
    and "map_of (tables p) s = Some t \<Longrightarrow> s < next_session p"
    and "map_of (prefixes p) i = Some po \<Longrightarrow> i < next_prefix p"
    and "map_of (cached p) h = Some c \<Longrightarrow> map_of (cached_by_block p) (cached_at c) = Some h"
    and "map_of (cached_by_block p) b = Some h \<Longrightarrow>
         \<exists>c. map_of (cached p) h = Some c \<and> cached_at c = b"
  using assms unfolding maps_ok_def by simp_all

lemma is_prefix_owner_iff:
  "maps_ok p \<Longrightarrow>
   is_prefix_owner p s \<longleftrightarrow> (\<exists>i po. map_of (prefixes p) i = Some po \<and> owner po = s)"
  unfolding is_prefix_owner_def by (rule list_ex_map_of) (rule maps_okD)

section \<open>How references move\<close>

lemma refs_cong [simp]:
  "refs (p\<lparr>free := x\<rparr>) = refs p"
  "refs (p\<lparr>refcount := y\<rparr>) = refs p"
  "refs (p\<lparr>next_session := n\<rparr>) = refs p"
  "refs (p\<lparr>prefixes := z\<rparr>) = refs p"
  "refs (p\<lparr>next_prefix := n\<rparr>) = refs p"
  "refs (p\<lparr>cached_by_block := w\<rparr>) = refs p"
  "refs (p\<lparr>tick := n\<rparr>) = refs p"
  "refs (p\<lparr>stats := st\<rparr>) = refs p"
  by (simp_all add: refs_def fun_eq_iff)

lemma refs_table_update:
  assumes "keys_distinct (tables p)"
  shows "refs (p\<lparr>tables := AList.update s t' (tables p)\<rparr>) b + opt_val (slot_refs b) (map_of (tables p) s)
       = refs p b + slot_refs b t'"
  using map_sum_update [OF assms, of "slot_refs b" s t'] by (simp add: refs_def)

lemma refs_table_delete:
  assumes "keys_distinct (tables p)"
  shows "refs (p\<lparr>tables := AList.delete s (tables p)\<rparr>) b + opt_val (slot_refs b) (map_of (tables p) s)
       = refs p b"
  using map_sum_delete [OF assms, of "slot_refs b" s] by (simp add: refs_def)

lemma refs_ge_slots: "map_of (tables p) s = Some t \<Longrightarrow> slot_refs b t \<le> refs p b"
  using map_sum_ge [of "tables p" s t "slot_refs b"] by (simp add: refs_def)

lemma refs_pos_slot:
  "map_of (tables p) s = Some t \<Longrightarrow> Resident b \<in> set (slots t) \<Longrightarrow> 0 < refs p b"
  using refs_ge_slots [of p s t b] count_list_pos [of "Resident b" "slots t"] by simp

section \<open>Weakest preconditions of the primitive accesses\<close>

lemma wp_get_table [wp_simps]:
  "act_wp (get_table s) Q E p =
     (case map_of (tables p) s of None \<Rightarrow> E UnknownSession p | Some t \<Rightarrow> Q t p)"
  by (simp add: get_table_def wp_simps split: option.split)

lemma wp_table_mut [wp_simps]:
  "act_wp (table_mut s f) Q E p =
     (case map_of (tables p) s of None \<Rightarrow> E UnknownSession p
      | Some t \<Rightarrow> Q () (p\<lparr>tables := AList.update s (f t) (tables p)\<rparr>))"
  by (simp add: table_mut_def wp_simps split: option.split)

lemma wp_take_free [wp_simps]:
  "act_wp take_free Q E p =
     (if free p = [] then E (OutOfBlocks 1 0) p
      else Q (last (free p)) (p\<lparr>free := butlast (free p)\<rparr>))"
  by (simp add: take_free_def wp_simps)

lemma wp_free_push [wp_simps]:
  "act_wp (free_push b) Q E p = Q () (p\<lparr>free := free p @ [b]\<rparr>)"
  by (simp add: free_push_def wp_simps)

lemma wp_rc_get [wp_simps]:
  "act_wp (rc_get b) Q E p = (b < length (refcount p) \<and> Q (refcount p ! b) p)"
  by (simp add: rc_get_def wp_simps)

lemma wp_rc_set [wp_simps]:
  "act_wp (rc_set b n) Q E p =
     (b < length (refcount p) \<and> Q () (p\<lparr>refcount := (refcount p)[b := n]\<rparr>))"
  by (simp add: rc_set_def wp_simps)

lemma wp_rc_inc [wp_simps]:
  "act_wp (rc_inc b) Q E p =
     (b < length (refcount p) \<and> Q () (p\<lparr>refcount := (refcount p)[b := Suc (refcount p ! b)]\<rparr>))"
  by (auto simp add: rc_inc_def wp_simps)

lemma wp_rc_dec [wp_simps]:
  "act_wp (rc_dec b) Q E p =
     (b < length (refcount p) \<and> 0 < refcount p ! b \<and>
      Q (refcount p ! b - 1) (p\<lparr>refcount := (refcount p)[b := refcount p ! b - 1]\<rparr>))"
  by (auto simp add: rc_dec_def wp_simps)

lemma wp_set_slot [wp_simps]:
  "act_wp (set_slot i x s) Q E p =
     (case map_of (tables p) s of None \<Rightarrow> E UnknownSession p
      | Some t \<Rightarrow> i < length (slots t) \<and>
          Q () (p\<lparr>tables := AList.update s (t\<lparr>slots := (slots t)[i := x]\<rparr>) (tables p)\<rparr>))"
  by (auto simp add: set_slot_def wp_simps split: option.split)

section \<open>Frame rules\<close>

text \<open>Everything of the pool but the counts, the free list, the tables and the index.\<close>

definition same_registry :: "kv_pool \<Rightarrow> kv_pool \<Rightarrow> bool" where
  "same_registry p p' \<longleftrightarrow> geom p' = geom p \<and> prefixes p' = prefixes p \<and>
     next_prefix p' = next_prefix p \<and> next_session p' = next_session p \<and>
     cached p' = cached p \<and> cached_by_block p' = cached_by_block p \<and>
     tick p' = tick p \<and> stats p' = stats p"

lemma same_registry_refl [simp]: "same_registry p p"
  by (simp add: same_registry_def)

lemma same_registry_trans: "same_registry p q \<Longrightarrow> same_registry q r \<Longrightarrow> same_registry p r"
  by (simp add: same_registry_def)

lemma counts_table_step:
  assumes ok: "counts_ok xs p" and kd: "keys_distinct (tables p)"
    and t: "map_of (tables p) s = Some t"
    and reg: "same_registry p p'"
    and tab: "tables p' = AList.update s t' (tables p)"
    and led: "ledger (num_blocks (geom p)) (refcount p') (free p') f"
    and f: "\<And>b. f b + slot_refs b t = refs p b + count_list xs (Resident b) + slot_refs b t'"
  shows "counts_ok xs p'"
proof -
  have move: "refs p' b + slot_refs b t = refs p b + slot_refs b t'" for b
    using refs_table_update [OF kd, of s t' b] t reg tab
    by (simp add: refs_def same_registry_def)
  have "refs p' b + count_list xs (Resident b) = f b" for b
    using f [of b] move [of b] by linarith
  then show ?thesis using led reg by (simp add: counts_ok_def same_registry_def)
qed

lemma kv_ok_table_step:
  assumes ok: "kv_ok xs p"
    and t: "map_of (tables p) s = Some t"
    and reg: "same_registry p p'"
    and tab: "tables p' = AList.update s t' (tables p)"
    and counts: "counts_ok xs p'"
    and fill: "fill_ok (geom p) t'"
    and own: "\<not> is_prefix_owner p s"
  shows "kv_ok xs p'"
proof -
  have maps: "maps_ok p" and fills: "fills_ok p" and owners: "owners_ok p"
    using ok by (auto simp: kv_ok_def)
  note reg' = reg [unfolded same_registry_def]
  have "maps_ok p'"
    using maps maps_okD(6) [OF maps t] unfolding maps_ok_def by (simp add: reg' tab)
  moreover have "fills_ok p'"
    using fills fill by (simp add: fills_ok_def reg' tab)
  moreover have "owner_ok p' po" if "map_of (prefixes p) i = Some po" for i po
  proof -
    have "owner po \<noteq> s" using own that maps by (auto simp: is_prefix_owner_iff)
    moreover have "owner_ok p po" using owners that by (auto simp: owners_ok_def)
    ultimately show ?thesis by (simp add: owner_ok_def reg' tab)
  qed
  then have "owners_ok p'" using owners by (simp add: owners_ok_def reg')
  ultimately show ?thesis using counts by (simp add: kv_ok_def)
qed


text \<open>A call on behalf of session \<open>s\<close> leaves every other session's table alone.\<close>

definition only_session :: "session_handle \<Rightarrow> kv_pool \<Rightarrow> kv_pool \<Rightarrow> bool" where
  "only_session s p p' \<longleftrightarrow> same_registry p p' \<and>
     (\<forall>s'. s' \<noteq> s \<longrightarrow> map_of (tables p') s' = map_of (tables p) s')"

lemma only_session_refl [simp]: "only_session s p p"
  by (simp add: only_session_def)

lemma only_session_trans: "only_session s p q \<Longrightarrow> only_session s q r \<Longrightarrow> only_session s p r"
  by (auto simp: only_session_def intro: same_registry_trans)

lemma only_session_registry: "only_session s p p' \<Longrightarrow> same_registry p p'"
  by (simp add: only_session_def)

lemma only_session_step:
  "only_session s q p \<Longrightarrow> same_registry p p' \<Longrightarrow> tables p' = AList.update s t' (tables p) \<Longrightarrow>
   only_session s q p'"
  by (auto simp: only_session_def intro: same_registry_trans)

lemma is_prefix_owner_cong: "same_registry p p' \<Longrightarrow> is_prefix_owner p' s = is_prefix_owner p s"
  by (simp add: is_prefix_owner_def same_registry_def)

lemma only_sessionD:
  assumes "only_session s p p'"
  shows "geom p' = geom p" and "prefixes p' = prefixes p" and "cached p' = cached p"
    and "cached_by_block p' = cached_by_block p" and "next_session p' = next_session p"
    and "is_prefix_owner p' u = is_prefix_owner p u"
    and "u \<noteq> s \<Longrightarrow> map_of (tables p') u = map_of (tables p) u"
  using assms is_prefix_owner_cong [of p p' u] by (simp_all add: only_session_def same_registry_def)

section \<open>One block moves\<close>

lemma kv_okD:
  assumes "kv_ok xs p"
  shows "counts_ok xs p" and "maps_ok p" and "fills_ok p" and "owners_ok p"
    and "keys_distinct (tables p)" and "0 < block_size (geom p)"
    and "ledger (num_blocks (geom p)) (refcount p) (free p)
      (\<lambda>b. refs p b + count_list xs (Resident b))"
    and "length (refcount p) = num_blocks (geom p)"
  using assms by (auto simp: kv_ok_def counts_ok_def maps_ok_def ledger_def)

text \<open>A free block is taken and named once, by a slot of session \<open>s\<close>.\<close>

lemma kv_ok_take:
  assumes ok: "kv_ok xs p"
    and t: "map_of (tables p) s = Some t" and own: "\<not> is_prefix_owner p s"
    and fr: "free p \<noteq> []"
    and refs: "\<And>c. slot_refs c t' = slot_refs c t + (if c = last (free p) then 1 else 0)"
    and fill: "fill_ok (geom p) t'"
    and p': "same_registry p p'" "free p' = butlast (free p)"
      "refcount p' = (refcount p)[last (free p) := 1]" "tables p' = AList.update s t' (tables p)"
  shows "kv_ok xs p'"
proof (rule kv_ok_table_step [OF ok t p'(1) p'(4) _ fill own])
  obtain ys b where free: "free p = ys @ [b]" using fr by (metis append_butlast_last_id)
  note led = kv_okD(7) [OF ok, unfolded free]
  have "ledger (num_blocks (geom p)) (refcount p') (free p')
          ((\<lambda>b. refs p b + count_list xs (Resident b))(b := 1))"
    using ledger_take(1) [OF led] p' free by simp
  then show "counts_ok xs p'"
    by (rule counts_table_step [OF kv_okD(1) [OF ok] kv_okD(5) [OF ok] t p'(1) p'(4)])
      (use ledger_take(3) [OF led] refs free in \<open>auto split: if_splits\<close>)
qed

text \<open>A block that is already named gets one more name, by a slot of session \<open>s\<close>.\<close>

lemma kv_ok_share:
  assumes ok: "kv_ok xs p"
    and t: "map_of (tables p) s = Some t" and own: "\<not> is_prefix_owner p s"
    and pos: "0 < refs p b"
    and refs: "\<And>c. slot_refs c t' = slot_refs c t + (if c = b then 1 else 0)"
    and fill: "fill_ok (geom p) t'"
    and p': "same_registry p p'" "free p' = free p"
      "refcount p' = (refcount p)[b := Suc (refcount p ! b)]"
      "tables p' = AList.update s t' (tables p)"
  shows "kv_ok xs p'"
proof (rule kv_ok_table_step [OF ok t p'(1) p'(4) _ fill own])
  have "ledger (num_blocks (geom p)) (refcount p') (free p')
          ((\<lambda>b. refs p b + count_list xs (Resident b))(b := Suc (refs p b + count_list xs (Resident b))))"
    using ledger_inc [OF kv_okD(7) [OF ok], of b] pos p' by simp
  then show "counts_ok xs p'"
    by (rule counts_table_step [OF kv_okD(1) [OF ok] kv_okD(5) [OF ok] t p'(1) p'(4)])
      (use refs in \<open>auto split: if_splits\<close>)
qed

text \<open>The only name of a block goes away: the block returns to the free list.\<close>

lemma kv_ok_detach:
  assumes ok: "kv_ok xs p"
    and t: "map_of (tables p) s = Some t" and own: "\<not> is_prefix_owner p s"
    and one: "refcount p ! b = 1" and b: "b < length (refcount p)"
    and refs: "\<And>c. slot_refs c t = slot_refs c t' + (if c = b then 1 else 0)"
    and fill: "fill_ok (geom p) t'"
    and p': "same_registry p p'" "free p' = free p @ [b]"
      "refcount p' = (refcount p)[b := 0]" "tables p' = AList.update s t' (tables p)"
  shows "kv_ok xs p'"
proof (rule kv_ok_table_step [OF ok t p'(1) p'(4) _ fill own])
  have f: "refs p b + count_list xs (Resident b) = Suc 0"
    using ledgerD(2) [OF kv_okD(7) [OF ok], of b] kv_okD(8) [OF ok] one b by simp
  have "ledger (num_blocks (geom p)) (refcount p') (free p')
          ((\<lambda>b. refs p b + count_list xs (Resident b))(b := 0))"
    using ledger_dec(1) [OF kv_okD(7) [OF ok], of b 0] f p' by simp
  then show "counts_ok xs p'"
    by (rule counts_table_step [OF kv_okD(1) [OF ok] kv_okD(5) [OF ok] t p'(1) p'(4)])
      (use refs f in \<open>auto split: if_splits\<close>)
qed

text \<open>A slot of a removed table is dropped.\<close>

lemma kv_ok_drop:
  assumes ok: "kv_ok (Resident b # xs) p"
    and p': "same_registry p p'" "tables p' = tables p"
      "refcount p' = (refcount p)[b := refcount p ! b - 1]"
      "free p' = (if refcount p ! b = 1 then free p @ [b] else free p)"
  shows "kv_ok xs p'" and "b < length (refcount p)" and "0 < refcount p ! b"
proof -
  note led = kv_okD(7) [OF ok]
  have f: "refs p b + count_list (Resident b # xs) (Resident b) =
      Suc (refs p b + count_list xs (Resident b))" by simp
  show "b < length (refcount p)" and "0 < refcount p ! b"
    using ledger_dec(2-4) [OF led f] by auto
  have "ledger (num_blocks (geom p)) (refcount p') (free p')
      ((\<lambda>c. refs p c + count_list (Resident b # xs) (Resident c))
         (b := refs p b + count_list xs (Resident b)))"
    using ledger_dec(1,3) [OF led f] p' by (simp split: if_splits)
  also have "((\<lambda>c. refs p c + count_list (Resident b # xs) (Resident c))
         (b := refs p b + count_list xs (Resident b))) = (\<lambda>c. refs p c + count_list xs (Resident c))"
    by (auto simp: fun_eq_iff)
  finally have "counts_ok xs p'"
    using p' by (simp add: counts_ok_def same_registry_def refs_def)
  moreover have "maps_ok p'" "fills_ok p'" "owners_ok p'"
    using kv_okD(2-4) [OF ok] p'
    by (simp_all add: maps_ok_def fills_ok_def owners_ok_def owner_ok_def same_registry_def)
  ultimately show "kv_ok xs p'" by (simp add: kv_ok_def)
qed

end
