(* ===== verification/KvOps.thy ===== *)
theory KvOps
  imports KvInvariant
begin

text \<open>
  What each method of the KV block pool does in a pool that satisfies the invariant: it does not
  panic, it keeps the invariant, a refused call leaves the pool as it was, and a successful call
  has the effect stated. The methods that take a session are called by clients with handles of
  their own; the handle of a prefix owner never leaves the pool.
\<close>

section \<open>Opening, growing and discarding sessions\<close>

lemma kv_open_wp:
  assumes inv: "kv_inv p"
  shows "act_wp kv_open (\<lambda>h p'. kv_inv p' \<and> h = next_session p \<and> map_of (tables p) h = None \<and>
      p' = p\<lparr>next_session := h + 1,
             tables := AList.update h \<lparr>slots = [], filled_tokens = 0\<rparr> (tables p)\<rparr>) E p"
proof -
  let ?e = "\<lparr>slots = [], filled_tokens = 0\<rparr> :: block_table"
  let ?p = "p\<lparr>next_session := next_session p + 1,
    tables := AList.update (next_session p) ?e (tables p)\<rparr>"
  note ok = inv [unfolded kv_inv_def]
  note maps = kv_okD(2) [OF ok]
  have fresh: "map_of (tables p) (next_session p) = None"
    using maps_okD(6) [OF maps, of "next_session p"] by (cases "map_of (tables p) (next_session p)") auto
  have refs: "refs ?p = refs p"
    using map_sum_update [OF kv_okD(5) [OF ok], of "slot_refs _" "next_session p" ?e] fresh
    by (simp add: refs_def fun_eq_iff)
  have "counts_ok [] ?p"
    using kv_okD(1) [OF ok] unfolding counts_ok_def refs by simp
  moreover have "maps_ok ?p"
    using maps unfolding maps_ok_def by (auto simp: less_Suc_eq)
  moreover have "fills_ok ?p"
    using kv_okD(3) [OF ok] by (simp add: fills_ok_def fill_ok_def)
  moreover have "owner_ok ?p po" if "owner_ok p po" for po
    using that fresh by (auto simp: owner_ok_def)
  then have "owners_ok ?p"
    using kv_okD(4) [OF ok] by (simp add: owners_ok_def)
  ultimately show ?thesis
    using fresh by (simp add: kv_open_def wp_simps kv_inv_def kv_ok_def)
qed

text \<open>
  \<open>grown s t bs p p'\<close>: from \<open>p\<close>, session \<open>s\<close> with table \<open>t\<close> took the blocks \<open>bs\<close>, in this order,
  off the end of the free list and appended them to its table.
\<close>

definition grown ::
  "session_handle \<Rightarrow> block_table \<Rightarrow> phys_block_id list \<Rightarrow> kv_pool \<Rightarrow> kv_pool \<Rightarrow> bool" where
  "grown s t bs p p' \<longleftrightarrow> kv_inv p' \<and> only_session s p p' \<and> free p = free p' @ rev bs \<and>
     map_of (tables p') s = Some (t\<lparr>slots := slots t @ map Resident bs\<rparr>)"

lemma grown_Nil: "kv_inv p \<Longrightarrow> map_of (tables p) s = Some t \<Longrightarrow> grown s t [] p p"
  by (simp add: grown_def)

lemma grownD:
  assumes "grown s t bs p p'"
  shows "kv_inv p'" and "kv_ok [] p'" and "only_session s p p'" and "free p = free p' @ rev bs"
    and "map_of (tables p') s = Some (t\<lparr>slots := slots t @ map Resident bs\<rparr>)"
    and "geom p' = geom p" and "is_prefix_owner p' u = is_prefix_owner p u"
  using assms only_sessionD(1,6) [of s p p'] by (auto simp: grown_def kv_inv_def)

lemma fill_ok_push: "fill_ok g t \<Longrightarrow> fill_ok g (push_slot x t)"
  by (simp add: fill_ok_def push_slot_def)

lemma alloc_into_wp:
  assumes gr: "grown s t bs p q" and own: "\<not> is_prefix_owner p s" and fr: "free q \<noteq> []"
  shows "act_wp (alloc_into s) (\<lambda>b p'. b = last (free q) \<and> grown s t (bs @ [b]) p p') E q"
proof -
  let ?t = "t\<lparr>slots := slots t @ map Resident bs\<rparr>" and ?b = "last (free q)"
  let ?q = "q\<lparr>free := butlast (free q), refcount := (refcount q)[?b := 1],
    tables := AList.update s (push_slot (Resident ?b) ?t) (tables q)\<rparr>"
  have ok: "kv_ok [] q" and only: "only_session s p q" and t: "map_of (tables q) s = Some ?t"
    using gr by (auto simp: grown_def kv_inv_def)
  have own': "\<not> is_prefix_owner q s"
    using own is_prefix_owner_cong [OF only_session_registry [OF only]] by simp
  have fill: "fill_ok (geom q) ?t" using kv_okD(3) [OF ok] t by (auto simp: fills_ok_def)
  have b: "?b < length (refcount q)"
    using ledgerD(5) [OF kv_okD(7) [OF ok], of ?b] kv_okD(8) [OF ok] fr by simp
  have "kv_ok [] ?q"
    by (rule kv_ok_take [OF ok t own' fr])
      (use fill_ok_push [OF fill, of "Resident ?b"] in \<open>auto simp: push_slot_def same_registry_def\<close>)
  moreover have "only_session s p ?q"
    by (rule only_session_step [OF only]) (auto simp: same_registry_def)
  moreover have "free q = butlast (free q) @ [?b]" using fr by simp
  ultimately have "grown s t (bs @ [?b]) p ?q"
    using gr by (simp add: grown_def kv_inv_def push_slot_def)
  then show ?thesis
    using fr b t by (simp add: alloc_into_def wp_simps)
qed

lemma alloc_loop_wp:
  assumes inv: "kv_inv p" and t: "map_of (tables p) s = Some t"
    and own: "\<not> is_prefix_owner p s" and room: "n \<le> length (free p)"
  shows "act_wp (act_fold (\<lambda>_ _. act_bind (alloc_into s) (\<lambda>_. act_ret ())) () [0..<n])
      (\<lambda>_ p'. \<exists>bs. grown s t bs p p' \<and> length bs = n) E p"
proof (rule wp_fold [where I = "\<lambda>_ ys q. \<exists>bs. grown s t bs p q \<and> length bs + length ys = n"])
  fix acc :: unit and y ys q
  assume "\<exists>bs. grown s t bs p q \<and> length bs + length (y # ys) = n"
  then obtain bs where bs: "grown s t bs p q" "length bs + length (y # ys) = n" by blast
  have "free p = free q @ rev bs" using bs(1) by (simp add: grown_def)
  then have "length (free p) = length (free q) + length bs" by simp
  then have "free q \<noteq> []" using bs(2) room by auto
  then have "act_wp (alloc_into s) (\<lambda>b p'. b = last (free q) \<and> grown s t (bs @ [b]) p p') E q"
    by (rule alloc_into_wp [OF bs(1) own])
  then show "act_wp (act_bind (alloc_into s) (\<lambda>_. act_ret ()))
      (\<lambda>_ q. \<exists>bs. grown s t bs p q \<and> length bs + length ys = n) E q"
    unfolding wp_bind
    by (rule wp_mono) (use bs(2) in \<open>auto simp: wp_simps intro!: exI [of _ "bs @ [_]"]\<close>)
qed (use inv t in \<open>auto intro!: exI [of _ "[]"] grown_Nil\<close>)


text \<open>Replacing a table by one that names the same blocks.\<close>

lemma kv_ok_refill:
  assumes ok: "kv_ok xs p" and t: "map_of (tables p) s = Some t"
    and own: "\<not> is_prefix_owner p s"
    and same: "slots t' = slots t" and fill: "fill_ok (geom p) t'"
  shows "kv_ok xs (p\<lparr>tables := AList.update s t' (tables p)\<rparr>)"
proof (rule kv_ok_table_step [OF ok t _ _ _ fill own])
  show "counts_ok xs (p\<lparr>tables := AList.update s t' (tables p)\<rparr>)"
    by (rule counts_table_step [OF kv_okD(1) [OF ok] kv_okD(5) [OF ok] t, where t' = t' and
          f = "\<lambda>b. refs p b + count_list xs (Resident b)"])
      (use kv_okD(7) [OF ok] same in \<open>auto simp: same_registry_def\<close>)
qed (auto simp: same_registry_def)

lemma kv_append_wp:
  assumes inv: "kv_inv p" and own: "\<not> is_prefix_owner p s"
  shows "act_wp (kv_append s n)
      (\<lambda>_ p'. \<exists>t bs. map_of (tables p) s = Some t \<and> kv_inv p' \<and> only_session s p p' \<and>
         free p = free p' @ rev bs \<and>
         length bs = div_ceil (filled_tokens t + n) (block_size (geom p)) - length (slots t) \<and>
         map_of (tables p') s = Some \<lparr>slots = slots t @ map Resident bs, filled_tokens = filled_tokens t + n\<rparr>)
      (\<lambda>e p'. p' = p \<and> (case map_of (tables p) s of
           None \<Rightarrow> e = UnknownSession
         | Some t \<Rightarrow> (let need = div_ceil (filled_tokens t + n) (block_size (geom p)) - length (slots t)
             in e = OutOfBlocks need (length (free p)) \<and> length (free p) < need))) p"
proof (cases "map_of (tables p) s")
  case None
  then show ?thesis by (simp add: kv_append_def wp_simps)
next
  case (Some t)
  note ok = inv [unfolded kv_inv_def]
  let ?want = "div_ceil (filled_tokens t + n) (block_size (geom p))"
  let ?new = "?want - length (slots t)"
  note bs0 = kv_okD(6) [OF ok]
  show ?thesis
  proof (cases "?new \<le> length (free p)")
    case False
    then show ?thesis using Some bs0
      by (simp add: kv_append_def wp_simps blocks_for_def Let_def)
  next
    case True
    have fin: "kv_ok [] (q\<lparr>tables := AList.update s
          (t\<lparr>slots := slots t @ map Resident bs, filled_tokens := filled_tokens t + n\<rparr>) (tables q)\<rparr>)"
      if gr: "grown s t bs p q" and len: "length bs = ?new" for bs q
    proof (rule kv_ok_refill)
      show "kv_ok [] q" and "map_of (tables q) s = Some (t\<lparr>slots := slots t @ map Resident bs\<rparr>)"
        using grownD [OF gr] by auto
      show "\<not> is_prefix_owner q s" using own grownD(7) [OF gr] by simp
      have "?want \<le> length (slots t @ map Resident bs)" using len by simp
      then have "filled_tokens t + n \<le> length (slots t @ map Resident bs) * block_size (geom p)"
        using div_ceil_le_iff [OF bs0] by simp
      then show "fill_ok (geom q)
          (t\<lparr>slots := slots t @ map Resident bs, filled_tokens := filled_tokens t + n\<rparr>)"
        by (simp add: fill_ok_def grownD(6) [OF gr])
    qed simp
    let ?Q = "\<lambda>_ p'. \<exists>t' bs. map_of (tables p) s = Some t' \<and> kv_inv p' \<and> only_session s p p' \<and>
         free p = free p' @ rev bs \<and>
         length bs = div_ceil (filled_tokens t' + n) (block_size (geom p)) - length (slots t') \<and>
         map_of (tables p') s =
           Some \<lparr>slots = slots t' @ map Resident bs, filled_tokens = filled_tokens t' + n\<rparr>"
    have last: "act_wp (table_mut s (\<lambda>t'. t'\<lparr>filled_tokens := filled_tokens t + n\<rparr>)) ?Q E q"
      if gr: "grown s t bs p q" and len: "length bs = ?new" for bs q E
    proof -
      let ?q = "q\<lparr>tables := AList.update s
          (t\<lparr>slots := slots t @ map Resident bs, filled_tokens := filled_tokens t + n\<rparr>) (tables q)\<rparr>"
      have "only_session s p ?q"
        by (rule only_session_step [of s p q]) (use gr in \<open>auto simp: grown_def same_registry_def\<close>)
      then show ?thesis
        using fin [OF gr len] gr len Some
        by (simp add: wp_simps grown_def kv_inv_def exI [of _ bs])
    qed
    have "act_wp (act_fold (\<lambda>_ _. act_bind (alloc_into s) (\<lambda>_. act_ret ())) () [0..<?new])
        (\<lambda>_. act_wp (table_mut s (\<lambda>t'. t'\<lparr>filled_tokens := filled_tokens t + n\<rparr>)) ?Q E) E p" for E
      by (rule wp_mono [OF alloc_loop_wp [OF inv Some own True]]) (use last in auto)
    then show ?thesis
      unfolding kv_append_def
      using Some bs0 True by (simp add: wp_simps blocks_for_def Let_def)
  qed
qed


lemma drop_slots_wp:
  assumes ok: "kv_ok xs p"
  shows "act_wp (act_fold (\<lambda>_ x. drop_slot x) () xs)
      (\<lambda>_ p'. kv_inv p' \<and> tables p' = tables p \<and> same_registry p p') E p"
proof (rule wp_fold [where I = "\<lambda>_ ys q. kv_ok ys q \<and> tables q = tables p \<and> same_registry p q"])
  fix acc :: unit and x ys q
  assume "kv_ok (x # ys) q \<and> tables q = tables p \<and> same_registry p q"
  then have okq: "kv_ok (x # ys) q" and tab: "tables q = tables p" and reg: "same_registry p q"
    by auto
  show "act_wp (drop_slot x) (\<lambda>_ q. kv_ok ys q \<and> tables q = tables p \<and> same_registry p q) E q"
  proof (cases x)
    case (Resident b)
    let ?q = "q\<lparr>refcount := (refcount q)[b := refcount q ! b - 1]\<rparr>"
    let ?q' = "if refcount q ! b = 1 then ?q\<lparr>free := free q @ [b]\<rparr> else ?q"
    note drop = kv_ok_drop [OF okq [unfolded Resident], of ?q']
    have regq: "same_registry q ?q'" by (simp add: same_registry_def)
    have bounds: "b < length (refcount q)" "0 < refcount q ! b"
      using kv_ok_drop(2,3) [OF okq [unfolded Resident], of ?q'] regq by simp_all
    have "kv_ok ys ?q'" by (rule drop(1)) (use regq in simp_all)
    then show ?thesis
      using Resident bounds tab same_registry_trans [OF reg regq]
      by (simp add: drop_slot_def wp_simps split: if_splits)
  next
    case Externalized
    then show ?thesis
      using okq tab reg by (simp add: drop_slot_def wp_simps kv_ok_def counts_ok_def)
  qed
qed (use ok in \<open>auto simp: kv_inv_def\<close>)

lemma kv_ok_remove_table:
  assumes ok: "kv_ok [] p" and t: "map_of (tables p) s = Some t" and own: "\<not> is_prefix_owner p s"
  shows "kv_ok (slots t) (p\<lparr>tables := AList.delete s (tables p)\<rparr>)"
proof -
  let ?p = "p\<lparr>tables := AList.delete s (tables p)\<rparr>"
  have "refs ?p b + count_list (slots t) (Resident b) = refs p b" for b
    using refs_table_delete [OF kv_okD(5) [OF ok], of s b] t by simp
  then have "counts_ok (slots t) ?p"
    using kv_okD(1) [OF ok] by (simp add: counts_ok_def)
  moreover have "maps_ok ?p" using kv_okD(2) [OF ok] by (simp add: maps_ok_def)
  moreover have "fills_ok ?p" using kv_okD(3) [OF ok] by (simp add: fills_ok_def)
  moreover have "owner_ok ?p po" if "map_of (prefixes p) i = Some po" for i po
  proof -
    have "owner po \<noteq> s" using own that kv_okD(2) [OF ok] by (auto simp: is_prefix_owner_iff)
    moreover have "owner_ok p po" using kv_okD(4) [OF ok] that by (auto simp: owners_ok_def)
    ultimately show ?thesis by (simp add: owner_ok_def)
  qed
  then have "owners_ok ?p" using kv_okD(4) [OF ok] by (simp add: owners_ok_def)
  ultimately show ?thesis by (simp add: kv_ok_def)
qed

lemma kv_discard_wp:
  assumes inv: "kv_inv p" and own: "\<not> is_prefix_owner p s"
  shows "act_wp (kv_discard s) (\<lambda>_ p'. kv_inv p' \<and> only_session s p p' \<and> same_registry p p' \<and>
      tables p' = AList.delete s (tables p)) (\<lambda>_ _. False) p"
proof (cases "map_of (tables p) s")
  case None
  then have "AList.delete s (tables p) = tables p"
    by (metis delete_id map_of_eq_None_iff)
  with None inv show ?thesis by (simp add: kv_discard_def wp_simps)
next
  case (Some t)
  let ?p = "p\<lparr>tables := AList.delete s (tables p)\<rparr>"
  have reg: "same_registry p ?p" by (simp add: same_registry_def)
  have "act_wp (act_fold (\<lambda>_ x. drop_slot x) () (slots t))
      (\<lambda>_ p'. kv_inv p' \<and> tables p' = tables ?p \<and> same_registry ?p p') (\<lambda>_ _. False) ?p"
    by (rule drop_slots_wp [OF kv_ok_remove_table [OF inv [unfolded kv_inv_def] Some own]])
  then have "act_wp (act_fold (\<lambda>_ x. drop_slot x) () (slots t))
      (\<lambda>_ p'. kv_inv p' \<and> only_session s p p' \<and> same_registry p p' \<and>
        tables p' = AList.delete s (tables p)) (\<lambda>_ _. False) ?p"
    by (rule wp_mono) (use same_registry_trans [OF reg] in \<open>auto simp: only_session_def\<close>)
  then show ?thesis using Some by (simp add: kv_discard_def wp_simps)
qed


section \<open>Eviction\<close>

text \<open>A slot is exclusive when its block has no other name and its session owns no prefix.\<close>

definition exclusive_slot :: "kv_pool \<Rightarrow> bool \<Rightarrow> block_table \<Rightarrow> nat \<Rightarrow> bool" where
  "exclusive_slot p own t i \<longleftrightarrow> \<not> own \<and> (\<exists>b. slots t ! i = Resident b \<and> refcount p ! b = 1)"

definition evicted_slots :: "nat list \<Rightarrow> slot list \<Rightarrow> slot list" where
  "evicted_slots F ss = map (\<lambda>i. if i \<in> set F then Externalized else ss ! i) [0..<length ss]"

lemma evicted_slots_simps [simp]:
  "length (evicted_slots F ss) = length ss"
  "i < length ss \<Longrightarrow> evicted_slots F ss ! i = (if i \<in> set F then Externalized else ss ! i)"
  "evicted_slots [] ss = ss"
  by (auto simp: evicted_slots_def map_nth)

lemma evicted_slots_snoc:
  "(evicted_slots F ss)[i := Externalized] = evicted_slots (F @ [i]) ss"
proof (rule nth_equalityI)
  fix j assume "j < length ((evicted_slots F ss)[i := Externalized])"
  then show "(evicted_slots F ss)[i := Externalized] ! j = evicted_slots (F @ [i]) ss ! j"
    by (cases "i = j") auto
qed simp

text \<open>The state of an eviction of table \<open>t\<close> of session \<open>s\<close> after the indices \<open>seen\<close>.\<close>

definition evict_progress ::
  "kv_pool \<Rightarrow> session_handle \<Rightarrow> block_table \<Rightarrow> bool \<Rightarrow> nat set \<Rightarrow> evict_report \<Rightarrow> kv_pool \<Rightarrow> bool" where
  "evict_progress p s t own seen r q \<longleftrightarrow>
     kv_inv q \<and> only_session s p q \<and>
     map_of (tables q) s = Some (t\<lparr>slots := evicted_slots (freed r) (slots t)\<rparr>) \<and>
     (\<forall>i b. i < length (slots t) \<longrightarrow> i \<notin> set (freed r) \<longrightarrow> slots t ! i = Resident b \<longrightarrow>
        refcount q ! b = refcount p ! b) \<and>
     distinct (freed r) \<and> externalized_slots (handle r) = freed r \<and>
     set (freed r) = {i \<in> seen. exclusive_slot p own t i} \<and>
     still_shared r = map fst (resident_slots (handle r)) \<and>
     set (resident_slots (handle r)) =
       {(i, b). i \<in> seen \<and> slots t ! i = Resident b \<and> \<not> exclusive_slot p own t i} \<and>
     length (free q) = length (free p) + length (freed r)"

lemma evict_progressD:
  assumes "evict_progress p s t own seen r q"
  shows "kv_inv q" and "only_session s p q"
    and "map_of (tables q) s = Some (t\<lparr>slots := evicted_slots (freed r) (slots t)\<rparr>)"
    and "distinct (freed r)" and "externalized_slots (handle r) = freed r"
    and "set (freed r) = {i \<in> seen. exclusive_slot p own t i}"
    and "still_shared r = map fst (resident_slots (handle r))"
    and "set (resident_slots (handle r)) =
       {(i, b). i \<in> seen \<and> slots t ! i = Resident b \<and> \<not> exclusive_slot p own t i}"
    and "length (free q) = length (free p) + length (freed r)"
  using assms by (simp_all only: evict_progress_def)

lemma evict_progress_skip:
  assumes "evict_progress p s t own seen r q"
    and "i \<in> set (freed r) \<or> slots t ! i = Externalized"
  shows "evict_progress p s t own (insert i seen) r q"
  using assms by (auto simp: evict_progress_def exclusive_slot_def)

lemma evict_progress_shared:
  assumes "evict_progress p s t own seen r q"
    and "slots t ! i = Resident b" and "\<not> exclusive_slot p own t i"
  shows "evict_progress p s t own (insert i seen) (report_shared i b r) q"
  using assms by (auto simp: evict_progress_def report_shared_def exclusive_slot_def)

lemma evict_progress_freed:
  assumes pr: "evict_progress p s t own seen r q" and i: "i < length (slots t)"
    and unf: "i \<notin> set (freed r)" and b: "slots t ! i = Resident b"
    and one: "refcount q ! b = 1" and blt: "b < length (refcount q)" and ex: "exclusive_slot p own t i"
    and own: "\<not> is_prefix_owner q s"
  shows "evict_progress p s t own (insert i seen) (report_freed i r)
     (q\<lparr>refcount := (refcount q)[b := 0], free := free q @ [b],
        tables := AList.update s (t\<lparr>slots := evicted_slots (freed r @ [i]) (slots t)\<rparr>) (tables q)\<rparr>)"
    (is "evict_progress p s t own _ _ ?q")
proof -
  let ?ss = "evicted_slots (freed r) (slots t)"
  let ?ss' = "evicted_slots (freed r @ [i]) (slots t)"
  have ok: "kv_ok [] q" and only: "only_session s p q"
    and t: "map_of (tables q) s = Some (t\<lparr>slots := ?ss\<rparr>)"
    using pr by (auto simp: evict_progress_def kv_inv_def)
  have cnt: "count_list ?ss (Resident c) = count_list ?ss' (Resident c) + (if c = b then 1 else 0)" for c
    using count_list_update [of i ?ss Externalized "Resident c"] i unf b
    by (simp add: evicted_slots_snoc split: if_splits)
  have "refs q b = 1"
    using ledgerD(2) [OF kv_okD(7) [OF ok], of b] one blt kv_okD(8) [OF ok] by simp
  then have "count_list ?ss' (Resident b) = 0"
    using refs_ge_slots [OF t, of b] cnt [of b] by simp
  then have gone: "Resident b \<notin> set ?ss'" by (simp add: count_list_0_iff)
  have others: "c \<noteq> b" if "j < length (slots t)" "j \<notin> set (freed r @ [i])" "slots t ! j = Resident c" for j c
  proof -
    have "?ss' ! j \<in> set ?ss'" using that by (metis evicted_slots_simps(1) nth_mem)
    then show ?thesis using that gone by auto
  qed
  have reg: "same_registry q ?q" by (simp add: same_registry_def)
  have "kv_ok [] ?q"
  proof (rule kv_ok_detach [OF ok t own one blt, where t' = "t\<lparr>slots := ?ss'\<rparr>"])
    show "fill_ok (geom q) (t\<lparr>slots := ?ss'\<rparr>)"
      using kv_okD(3) [OF ok] t by (force simp: fills_ok_def fill_ok_def)
  qed (use cnt reg in auto)
  moreover have "only_session s p ?q" by (rule only_session_step [OF only reg]) simp
  moreover have "(refcount q)[b := 0] ! c = refcount p ! c"
    if "j < length (slots t)" "j \<notin> set (freed r @ [i])" "slots t ! j = Resident c" for j c
    using others [OF that] that pr by (auto simp: evict_progress_def)
  ultimately show ?thesis
    using pr unf b ex
    by (auto simp: evict_progress_def report_freed_def kv_inv_def)
qed

lemma evict_one_wp:
  assumes pr: "evict_progress p s t own seen r q" and i: "i < length (slots t)"
    and own: "own = is_prefix_owner p s"
  shows "act_wp (evict_one s own r i) (\<lambda>r' q'. evict_progress p s t own (insert i seen) r' q') E q"
proof -
  have tq: "map_of (tables q) s = Some (t\<lparr>slots := evicted_slots (freed r) (slots t)\<rparr>)"
    and only: "only_session s p q" and ok: "kv_ok [] q"
    using pr by (auto simp: evict_progress_def kv_inv_def)
  show ?thesis
  proof (cases "i \<in> set (freed r) \<or> slots t ! i = Externalized")
    case True
    then show ?thesis
      using tq i evict_progress_skip [OF pr True] by (auto simp: evict_one_def wp_simps)
  next
    case False
    then obtain b where b: "slots t ! i = Resident b" by (cases "slots t ! i") auto
    have unf: "i \<notin> set (freed r)" using False by simp
    have rc: "refcount q ! b = refcount p ! b"
      using pr i unf b by (auto simp: evict_progress_def)
    have "evicted_slots (freed r) (slots t) ! i = Resident b" using unf i b by simp
    then have "Resident b \<in> set (evicted_slots (freed r) (slots t))"
      using i by (metis evicted_slots_simps(1) nth_mem)
    then have "0 < refs q b" by (intro refs_pos_slot [OF tq]) simp
    then have blt: "b < length (refcount q)"
      using ledger_range [OF kv_okD(7) [OF ok], of b] kv_okD(8) [OF ok] by simp
    show ?thesis
    proof (cases "refcount q ! b = 1 \<and> \<not> own")
      case True
      have ex: "exclusive_slot p own t i" using True rc b by (auto simp: exclusive_slot_def)
      have "\<not> is_prefix_owner q s" using True own only_sessionD(6) [OF only] by simp
      then show ?thesis
        using evict_progress_freed [OF pr i unf b _ blt ex] True tq i b unf blt
        by (simp add: evict_one_def wp_simps evicted_slots_snoc)
    next
      case False
      have "\<not> exclusive_slot p own t i" using False rc b by (auto simp: exclusive_slot_def)
      then show ?thesis
        using evict_progress_shared [OF pr b] False tq i b unf blt
        by (auto simp add: evict_one_def wp_simps)
    qed
  qed
qed


lemma check_indices_cases:
  "check_indices n is = (if \<forall>i \<in> set is. i < n then Ok ()
     else Err (BadBlockIndex (hd (filter (\<lambda>i. n \<le> i) is)) n))"
  by (induction "is") auto

lemma evict_progress_init:
  "kv_inv p \<Longrightarrow> map_of (tables p) s = Some t \<Longrightarrow> evict_progress p s t own {} evict_report_init p"
  by (simp add: evict_progress_def evict_report_init_def)

lemma evict_loop_wp:
  assumes inv: "kv_inv p" and t: "map_of (tables p) s = Some t"
    and own: "own = is_prefix_owner p s" and idx: "\<forall>i \<in> set is. i < length (slots t)"
  shows "act_wp (act_fold (evict_one s own) evict_report_init is)
      (\<lambda>r q. evict_progress p s t own (set is) r q) E p"
proof (rule wp_fold [where I = "\<lambda>r ys q. set ys \<subseteq> set is \<and>
      (\<exists>seen. evict_progress p s t own seen r q \<and> seen \<union> set ys = set is)"])
  fix r y ys q
  assume I: "set (y # ys) \<subseteq> set is \<and> (\<exists>seen. evict_progress p s t own seen r q \<and> seen \<union> set (y # ys) = set is)"
  then obtain seen where pr: "evict_progress p s t own seen r q" and sn: "insert y seen \<union> set ys = set is"
    by auto
  have "act_wp (evict_one s own r y) (\<lambda>r' q'. evict_progress p s t own (insert y seen) r' q') E q"
    using evict_one_wp [OF pr _ own] idx I by auto
  then show "act_wp (evict_one s own r y) (\<lambda>r' q. set ys \<subseteq> set is \<and>
      (\<exists>seen. evict_progress p s t own seen r' q \<and> seen \<union> set ys = set is)) E q"
    by (rule wp_mono) (use I sn in auto)
qed (use evict_progress_init [OF inv t] in auto)

lemma evict_blocks_wp:
  assumes inv: "kv_inv p"
  shows "act_wp (evict_blocks s is)
      (\<lambda>r q. \<exists>t. map_of (tables p) s = Some t \<and> (\<forall>i \<in> set is. i < length (slots t)) \<and>
         evict_progress p s t (is_prefix_owner p s) (set is) r q)
      (\<lambda>e q. q = p \<and> (case map_of (tables p) s of None \<Rightarrow> e = UnknownSession
         | Some t \<Rightarrow> \<exists>i \<in> set is. length (slots t) \<le> i \<and> e = BadBlockIndex i (length (slots t)))) p"
proof (cases "map_of (tables p) s")
  case None
  then show ?thesis by (simp add: evict_blocks_def validate_block_indices_def wp_simps)
next
  case (Some t)
  show ?thesis
  proof (cases "\<forall>i \<in> set is. i < length (slots t)")
    case True
    then show ?thesis
      using wp_mono [OF evict_loop_wp [OF inv Some refl True, where E = "\<lambda>_ _. False"]] Some
      by (simp add: evict_blocks_def validate_block_indices_def wp_simps check_indices_cases)
  next
    case False
    then have "filter (\<lambda>i. length (slots t) \<le> i) is \<noteq> []" by (auto simp: filter_empty_conv not_less)
    then have "hd (filter (\<lambda>i. length (slots t) \<le> i) is) \<in> set (filter (\<lambda>i. length (slots t) \<le> i) is)"
      by (rule hd_in_set)
    then show ?thesis
      using Some False
      by (auto simp: evict_blocks_def validate_block_indices_def wp_simps check_indices_cases)
  qed
qed

lemma kv_evict_wp:
  assumes inv: "kv_inv p"
  shows "act_wp (kv_evict s)
      (\<lambda>r q. \<exists>t. map_of (tables p) s = Some t \<and>
         evict_progress p s t (is_prefix_owner p s) {0..<length (slots t)} r q)
      (\<lambda>e q. q = p \<and> e = UnknownSession \<and> map_of (tables p) s = None) p"
proof (cases "map_of (tables p) s")
  case None
  then show ?thesis by (simp add: kv_evict_def wp_simps)
next
  case (Some t)
  have "act_wp (evict_blocks s [0..<length (slots t)])
      (\<lambda>r q. \<exists>t. map_of (tables p) s = Some t \<and>
         evict_progress p s t (is_prefix_owner p s) {0..<length (slots t)} r q)
      (\<lambda>e q. q = p \<and> e = UnknownSession \<and> map_of (tables p) s = None) p"
    by (rule wp_mono [OF evict_blocks_wp [OF inv]]) (use Some in auto)
  then show ?thesis using Some by (simp add: kv_evict_def wp_simps)
qed

section \<open>Restore\<close>

definition fill_slots :: "(nat \<times> phys_block_id) list \<Rightarrow> slot list \<Rightarrow> slot list" where
  "fill_slots ibs ss = fold (\<lambda>ib ss. ss[fst ib := Resident (snd ib)]) ibs ss"

lemma length_fill_slots [simp]: "length (fill_slots ibs ss) = length ss"
  unfolding fill_slots_def by (induction ibs arbitrary: ss) auto

lemma fill_slots_nth_other:
  "j \<notin> fst ` set ibs \<Longrightarrow> fill_slots ibs ss ! j = ss ! j"
  unfolding fill_slots_def by (induction ibs arbitrary: ss) auto

lemma fill_slots_snoc: "fill_slots (ibs @ [ib]) ss = (fill_slots ibs ss)[fst ib := Resident (snd ib)]"
  by (simp add: fill_slots_def)

lemma fill_slots_nth_hit:
  "j \<in> fst ` set ibs \<Longrightarrow> j < length ss \<Longrightarrow> \<exists>b. fill_slots ibs ss ! j = Resident b"
proof (induction ibs rule: rev_induct)
  case (snoc ib ibs)
  then show ?case by (cases "j = fst ib") (auto simp: fill_slots_snoc)
qed simp

text \<open>
  A handle fits a table when the slots it lists as externalized still are, and the slots it lists
  as resident still hold the blocks it recorded.
\<close>

definition handle_fits :: "block_table \<Rightarrow> externalized \<Rightarrow> bool" where
  "handle_fits t h \<longleftrightarrow> distinct (externalized_slots h) \<and>
     (\<forall>i \<in> set (externalized_slots h). i < length (slots t) \<and> slots t ! i = Externalized) \<and>
     (\<forall>(i, b) \<in> set (resident_slots h). i < length (slots t) \<and> slots t ! i = Resident b)"

definition restoring ::
  "kv_pool \<Rightarrow> session_handle \<Rightarrow> block_table \<Rightarrow> (nat \<times> phys_block_id) list \<Rightarrow> kv_pool \<Rightarrow> bool" where
  "restoring p s t ibs q \<longleftrightarrow> kv_inv q \<and> only_session s p q \<and>
     map_of (tables q) s = Some (t\<lparr>slots := fill_slots ibs (slots t)\<rparr>) \<and>
     free p = free q @ rev (map snd ibs)"

lemma restore_fresh_wp:
  assumes re: "restoring p s t ibs q" and own: "\<not> is_prefix_owner p s" and fr: "free q \<noteq> []"
    and i: "i < length (slots t)" "slots t ! i = Externalized" "i \<notin> fst ` set ibs"
  shows "act_wp (restore_fresh s i) (\<lambda>_ q'. restoring p s t (ibs @ [(i, last (free q))]) q') E q"
proof -
  let ?t = "t\<lparr>slots := fill_slots ibs (slots t)\<rparr>" and ?b = "last (free q)"
  let ?t' = "t\<lparr>slots := fill_slots (ibs @ [(i, ?b)]) (slots t)\<rparr>"
  let ?q = "q\<lparr>free := butlast (free q), refcount := (refcount q)[?b := 1],
    tables := AList.update s ?t' (tables q)\<rparr>"
  have ok: "kv_ok [] q" and only: "only_session s p q" and t: "map_of (tables q) s = Some ?t"
    using re by (auto simp: restoring_def kv_inv_def)
  have own': "\<not> is_prefix_owner q s" using own only_sessionD(6) [OF only] by simp
  have b: "?b < length (refcount q)"
    using ledgerD(5) [OF kv_okD(7) [OF ok], of ?b] kv_okD(8) [OF ok] fr by simp
  have reg: "same_registry q ?q" by (simp add: same_registry_def)
  have ext: "fill_slots ibs (slots t) ! i = Externalized" using i fill_slots_nth_other by simp
  have "kv_ok [] ?q"
  proof (rule kv_ok_take [OF ok t own' fr, where t' = ?t'])
    show "fill_ok (geom q) ?t'" using kv_okD(3) [OF ok] t by (force simp: fills_ok_def fill_ok_def)
    fix c
    show "slot_refs c ?t' = slot_refs c ?t + (if c = ?b then 1 else 0)"
      using count_list_update [of i "fill_slots ibs (slots t)" "Resident ?b" "Resident c"] i(1) ext
      by (auto simp: fill_slots_snoc)
  qed (use reg in auto)
  moreover have "only_session s p ?q" by (rule only_session_step [OF only reg]) simp
  moreover have "free q = butlast (free q) @ [?b]" using fr by simp
  ultimately have "restoring p s t (ibs @ [(i, ?b)]) ?q"
    using re by (simp add: restoring_def kv_inv_def)
  moreover have "grow_set i (Resident ?b) (fill_slots ibs (slots t)) =
      fill_slots (ibs @ [(i, ?b)]) (slots t)"
    using i(1) by (simp add: grow_set_def fill_slots_snoc)
  ultimately show ?thesis
    using fr t b by (simp add: restore_fresh_def place_resident_slot_def wp_simps)
qed


lemma update_same: "map_of al k = Some v \<Longrightarrow> AList.update k v al = al"
  by (induction al) (auto split: if_splits)

lemma place_resident_noop:
  assumes "map_of (tables q) s = Some t" and "i < length (slots t)" and "slots t ! i = Resident b"
  shows "act_wp (place_resident_slot s i b) (\<lambda>_ q'. q' = q) E q"
proof -
  have "t\<lparr>slots := grow_set i (Resident b) (slots t)\<rparr> = t"
    using assms(2) list_update_id [of "slots t" i] assms(3) by (simp add: grow_set_def)
  then show ?thesis using assms(1) by (simp add: place_resident_slot_def wp_simps update_same)
qed

lemma restore_loop_wp:
  assumes inv: "kv_inv p" and t: "map_of (tables p) s = Some t" and own: "\<not> is_prefix_owner p s"
    and d: "distinct is" and idx: "\<forall>i \<in> set is. i < length (slots t) \<and> slots t ! i = Externalized"
    and room: "length is \<le> length (free p)"
  shows "act_wp (act_fold (\<lambda>_ i. restore_fresh s i) () is)
      (\<lambda>_ q. \<exists>ibs. restoring p s t ibs q \<and> map fst ibs = is) E p"
proof (rule wp_fold [where I = "\<lambda>_ ys q. \<exists>ibs. restoring p s t ibs q \<and> map fst ibs @ ys = is"])
  fix u :: unit and y ys q
  assume "\<exists>ibs. restoring p s t ibs q \<and> map fst ibs @ y # ys = is"
  then obtain ibs where re: "restoring p s t ibs q" and split: "map fst ibs @ y # ys = is" by blast
  have "length (free p) = length (free q) + length ibs" using re by (simp add: restoring_def)
  then have fr: "free q \<noteq> []" using room by (auto simp: split [symmetric])
  have y: "y < length (slots t)" "slots t ! y = Externalized" using idx by (auto simp: split [symmetric])
  have "y \<notin> fst ` set ibs" using d by (auto simp: split [symmetric])
  then have "act_wp (restore_fresh s y) (\<lambda>_ q'. restoring p s t (ibs @ [(y, last (free q))]) q') E q"
    by (rule restore_fresh_wp [OF re own fr y])
  then show "act_wp (restore_fresh s y) (\<lambda>_ q. \<exists>ibs. restoring p s t ibs q \<and> map fst ibs @ ys = is) E q"
    by (rule wp_mono) (use split in \<open>auto intro!: exI [of _ "ibs @ [(y, last (free q))]"]\<close>)
qed (use inv t in \<open>auto simp: restoring_def fill_slots_def\<close>)

lemma kv_restore_wp:
  assumes inv: "kv_inv p" and own: "\<not> is_prefix_owner p s"
    and fits: "\<And>t. map_of (tables p) s = Some t \<Longrightarrow> handle_fits t h"
  shows "act_wp (kv_restore s h)
      (\<lambda>_ q. \<exists>t ibs. map_of (tables p) s = Some t \<and> restoring p s t ibs q \<and>
         map fst ibs = externalized_slots h)
      (\<lambda>e q. q = p \<and> (if map_of (tables p) s = None then e = UnknownSession
         else e = OutOfBlocks (length (externalized_slots h)) (length (free p)) \<and>
           length (free p) < length (externalized_slots h))) p"
proof (cases "map_of (tables p) s")
  case None
  then show ?thesis by (simp add: kv_restore_def wp_simps)
next
  case (Some t)
  have h: "distinct (externalized_slots h)"
    "\<forall>i \<in> set (externalized_slots h). i < length (slots t) \<and> slots t ! i = Externalized"
    "\<forall>(i, b) \<in> set (resident_slots h). i < length (slots t) \<and> slots t ! i = Resident b"
    using fits [OF Some] by (auto simp: handle_fits_def)
  have tail: "act_wp (act_fold (\<lambda>_ ib. place_resident_slot s (fst ib) (snd ib)) () (resident_slots h))
      (\<lambda>_ q'. q' = q) E q"
    if re: "restoring p s t ibs q" and dom: "map fst ibs = externalized_slots h" for q ibs E
  proof (rule wp_fold [where I = "\<lambda>_ ys q'. set ys \<subseteq> set (resident_slots h) \<and> q' = q"])
    fix u :: unit and ib ibs' q'
    assume I: "set (ib # ibs') \<subseteq> set (resident_slots h) \<and> q' = q"
    obtain i b where ib: "ib = (i, b)" by fastforce
    have i: "i < length (slots t)" "slots t ! i = Resident b" using h(3) I ib by auto
    then have "i \<notin> set (map fst ibs)" using h(2) by (auto simp: dom)
    then have "fill_slots ibs (slots t) ! i = Resident b" using i fill_slots_nth_other by simp
    then have noop: "act_wp (place_resident_slot s i b) (\<lambda>_ q'. q' = q) E q"
      using re i place_resident_noop [of q s "t\<lparr>slots := fill_slots ibs (slots t)\<rparr>" i b E]
      by (simp add: restoring_def)
    show "act_wp (place_resident_slot s (fst ib) (snd ib))
        (\<lambda>_ q'. set ibs' \<subseteq> set (resident_slots h) \<and> q' = q) E q'"
      using wp_mono [OF noop, of "\<lambda>_ q'. set ibs' \<subseteq> set (resident_slots h) \<and> q' = q" E] I
      by (simp add: ib)
  qed auto
  show ?thesis
  proof (cases "length (free p) < length (externalized_slots h)")
    case True
    then show ?thesis using Some by (simp add: kv_restore_def wp_simps)
  next
    case False
    have "act_wp (act_fold (\<lambda>_ i. restore_fresh s i) () (externalized_slots h))
      (\<lambda>_ q. \<exists>ibs. restoring p s t ibs q \<and> map fst ibs = externalized_slots h) (\<lambda>_ _. False) p"
      using restore_loop_wp [OF inv Some own h(1,2)] False by simp
    then show ?thesis
      using Some False
      by (auto simp: kv_restore_def wp_simps elim!: wp_mono intro: wp_mono [OF tail])
  qed
qed

text \<open>The handle an eviction returns fits the table it leaves, and there is room for it.\<close>

lemma evict_handle_fits:
  assumes "evict_progress p s t own seen r q" and "\<forall>i \<in> seen. i < length (slots t)"
  shows "handle_fits (t\<lparr>slots := evicted_slots (freed r) (slots t)\<rparr>) (handle r)"
    and "length (externalized_slots (handle r)) \<le> length (free q)"
  using assms by (auto simp: evict_progress_def handle_fits_def)


section \<open>Sharing\<close>

definition sharing ::
  "session_handle \<Rightarrow> block_table \<Rightarrow> phys_block_id list \<Rightarrow> kv_pool \<Rightarrow> kv_pool \<Rightarrow> bool" where
  "sharing s t bs p q \<longleftrightarrow> kv_inv q \<and> only_session s p q \<and> free q = free p \<and>
     map_of (tables q) s = Some (t\<lparr>slots := slots t @ map Resident bs\<rparr>) \<and>
     (\<forall>b. b < num_blocks (geom p) \<longrightarrow> refcount q ! b = refcount p ! b + count_list bs b)"

lemma kv_inv_refcount:
  "kv_inv p \<Longrightarrow> b < num_blocks (geom p) \<Longrightarrow> refcount p ! b = refs p b"
  using ledgerD(2) [OF kv_okD(7)] by (fastforce simp: kv_inv_def)

lemma kv_inv_refs_range: "kv_inv p \<Longrightarrow> 0 < refs p b \<Longrightarrow> b < num_blocks (geom p)"
  using ledger_range [OF kv_okD(7)] by (fastforce simp: kv_inv_def)

lemma share_into_wp:
  assumes sh: "sharing s t bs p q" and inv: "kv_inv p" and own: "\<not> is_prefix_owner p s"
    and b: "0 < refs p b"
  shows "act_wp (share_into s b) (\<lambda>_ q'. sharing s t (bs @ [b]) p q') E q"
proof -
  let ?t = "t\<lparr>slots := slots t @ map Resident bs\<rparr>"
  let ?q = "q\<lparr>refcount := (refcount q)[b := Suc (refcount q ! b)],
    tables := AList.update s (push_slot (Resident b) ?t) (tables q)\<rparr>"
  have ok: "kv_ok [] q" and only: "only_session s p q" and t: "map_of (tables q) s = Some ?t"
    using sh by (auto simp: sharing_def kv_inv_def)
  note g = only_sessionD(1) [OF only]
  have own': "\<not> is_prefix_owner q s" using own only_sessionD(6) [OF only] by simp
  have blt: "b < num_blocks (geom p)" by (rule kv_inv_refs_range [OF inv b])
  then have len: "b < length (refcount q)" using kv_okD(8) [OF ok] g by simp
  have "refcount q ! b = refs q b"
    using kv_inv_refcount [of q b] sh blt g by (simp add: sharing_def)
  moreover have "0 < refcount q ! b"
    using sh blt b kv_inv_refcount [OF inv blt] by (simp add: sharing_def)
  ultimately have pos: "0 < refs q b" by simp
  have reg: "same_registry q ?q" by (simp add: same_registry_def)
  have fill: "fill_ok (geom q) ?t" using kv_okD(3) [OF ok] t by (auto simp: fills_ok_def)
  have "kv_ok [] ?q"
    by (rule kv_ok_share [OF ok t own' pos])
      (use fill_ok_push [OF fill, of "Resident b"] in \<open>auto simp: push_slot_def same_registry_def\<close>)
  moreover have "only_session s p ?q" by (rule only_session_step [OF only reg]) simp
  ultimately have "sharing s t (bs @ [b]) p ?q"
    using sh len by (auto simp: sharing_def kv_inv_def push_slot_def nth_list_update)
  then show ?thesis using t len by (simp add: share_into_def wp_simps)
qed

lemma share_loop_wp:
  assumes inv: "kv_inv p" and t: "map_of (tables p) s = Some t" and own: "\<not> is_prefix_owner p s"
    and pos: "\<And>b. b \<in> set bs \<Longrightarrow> 0 < refs p b"
  shows "act_wp (act_fold (\<lambda>_ b. share_into s b) () bs) (\<lambda>_ q. sharing s t bs p q) E p"
proof (rule wp_fold [where I = "\<lambda>_ ys q. \<exists>xs. sharing s t xs p q \<and> xs @ ys = bs"])
  fix u :: unit and y ys q
  assume "\<exists>xs. sharing s t xs p q \<and> xs @ y # ys = bs"
  then obtain xs where sh: "sharing s t xs p q" and split: "xs @ y # ys = bs" by blast
  have "0 < refs p y" using pos by (simp add: split [symmetric])
  from share_into_wp [OF sh inv own this, where E = E]
  show "act_wp (share_into s y) (\<lambda>_ q. \<exists>xs. sharing s t xs p q \<and> xs @ ys = bs) E q"
    by (rule wp_mono) (use split in \<open>auto intro!: exI [of _ "xs @ [y]"]\<close>)
qed (use inv t in \<open>auto simp: sharing_def\<close>)

lemma collect_shared_cases:
  "collect_shared ss = (if Externalized \<in> set ss then Err BadSpliceRange
     else Ok (map (\<lambda>x. case x of Resident b \<Rightarrow> b | Externalized \<Rightarrow> 0) ss))"
  by (induction ss rule: collect_shared.induct) auto

lemma collect_shared_Ok: "collect_shared ss = Ok bs \<longleftrightarrow> ss = map Resident bs"
proof (induction ss arbitrary: bs rule: collect_shared.induct)
  case (2 b ss)
  then show ?case by (cases "collect_shared ss"; cases bs) auto
qed (auto simp: Cons_eq_map_conv)


definition spliced ::
  "session_handle \<Rightarrow> block_table \<Rightarrow> phys_block_id list \<Rightarrow> nat \<Rightarrow> kv_pool \<Rightarrow> kv_pool \<Rightarrow> bool" where
  "spliced s t bs n p q \<longleftrightarrow> kv_inv q \<and> only_session s p q \<and> free q = free p \<and>
     map_of (tables q) s =
       Some \<lparr>slots = slots t @ map Resident bs, filled_tokens = filled_tokens t + n\<rparr> \<and>
     (\<forall>b. b < num_blocks (geom p) \<longrightarrow> refcount q ! b = refcount p ! b + count_list bs b)"

lemma block_table_upd:
  "(t :: block_table)\<lparr>slots := ss, filled_tokens := n\<rparr> = \<lparr>slots = ss, filled_tokens = n\<rparr>"
  by simp

lemma sharing_refill_wp:
  assumes sh: "sharing s t bs p q" and inv: "kv_inv p" and own: "\<not> is_prefix_owner p s"
    and t: "map_of (tables p) s = Some t" and n: "n \<le> length bs * block_size (geom p)"
  shows "act_wp (table_mut s (\<lambda>t. t\<lparr>filled_tokens := filled_tokens t + n\<rparr>))
      (\<lambda>_ q'. spliced s t bs n p q') E q"
proof -
  let ?t = "t\<lparr>slots := slots t @ map Resident bs\<rparr>"
  let ?t' = "\<lparr>slots = slots t @ map Resident bs, filled_tokens = filled_tokens t + n\<rparr>"
  let ?q = "q\<lparr>tables := AList.update s ?t' (tables q)\<rparr>"
  have ok: "kv_ok [] q" and only: "only_session s p q" and tq: "map_of (tables q) s = Some ?t"
    using sh by (auto simp: sharing_def kv_inv_def)
  have own': "\<not> is_prefix_owner q s" using own only_sessionD(6) [OF only] by simp
  have "filled_tokens t \<le> length (slots t) * block_size (geom p)"
    using inv t by (auto simp: kv_inv_def fills_ok_def fill_ok_def dest!: kv_okD(3))
  then have "fill_ok (geom q) ?t'"
    using n only_sessionD(1) [OF only] by (simp add: fill_ok_def add_mult_distrib)
  then have "kv_ok [] ?q" by (intro kv_ok_refill [OF ok tq own']) simp_all
  moreover have "only_session s p ?q"
    by (rule only_session_step [OF only]) (auto simp: same_registry_def)
  ultimately have "spliced s t bs n p ?q"
    using sh by (simp add: spliced_def sharing_def kv_inv_def)
  then show ?thesis using tq by (simp add: wp_simps block_table_upd)
qed

lemma take_drop_resident_pos:
  assumes "map_of (tables p) s = Some t" and "take n (drop k (slots t)) = map Resident bs"
    and "b \<in> set bs"
  shows "0 < refs p b"
proof (rule refs_pos_slot [OF assms(1)])
  have "Resident b \<in> set (take n (drop k (slots t)))" using assms(2,3) by simp
  then show "Resident b \<in> set (slots t)" by (meson in_set_dropD in_set_takeD)
qed

lemma kv_splice_wp:
  assumes inv: "kv_inv p" and own: "\<not> is_prefix_owner p dst"
  shows "act_wp (kv_splice src dst from til)
      (\<lambda>_ q. \<exists>d t bs. map_of (tables p) dst = Some d \<and> map_of (tables p) src = Some t \<and>
         from \<le> til \<and> til \<le> length (slots t) \<and>
         take (til - from) (drop from (slots t)) = map Resident bs \<and>
         spliced dst d bs (min ((til - from) * block_size (geom p))
           (filled_tokens t - from * block_size (geom p))) p q)
      (\<lambda>e q. q = p \<and> (e = UnknownSession \<and> (map_of (tables p) dst = None \<or> map_of (tables p) src = None) \<or>
         e = BadSpliceRange \<and> (\<exists>t. map_of (tables p) src = Some t \<and> (til < from \<or> length (slots t) < til \<or>
           Externalized \<in> set (take (til - from) (drop from (slots t))))))) p"
    (is "act_wp _ ?Q ?E p")
proof -
  consider "map_of (tables p) dst = None \<or> map_of (tables p) src = None"
    | (bad) d t where "map_of (tables p) dst = Some d" "map_of (tables p) src = Some t"
        "til < from \<or> length (slots t) < til \<or> Externalized \<in> set (take (til - from) (drop from (slots t)))"
    | (good) d t where "map_of (tables p) dst = Some d" "map_of (tables p) src = Some t"
        "from \<le> til" "til \<le> length (slots t)" "Externalized \<notin> set (take (til - from) (drop from (slots t)))"
    by (cases "map_of (tables p) dst"; cases "map_of (tables p) src"; force simp: not_less)
  then show ?thesis
  proof cases
    case good
    let ?n = "min ((til - from) * block_size (geom p)) (filled_tokens t - from * block_size (geom p))"
    obtain bs where bs: "collect_shared (take (til - from) (drop from (slots t))) = Ok bs"
      using good(5) by (simp add: collect_shared_cases)
    then have res: "take (til - from) (drop from (slots t)) = map Resident bs"
      by (simp add: collect_shared_Ok)
    have "length bs = til - from"
      using arg_cong [OF res, of length] good(3,4) by (simp del: length_map add: length_map [symmetric])
    then have n: "?n \<le> length bs * block_size (geom p)" by simp
    have loop: "act_wp (act_fold (\<lambda>_ b. share_into dst b) () bs) (\<lambda>_ q. sharing dst d bs p q) ?E p"
      by (rule share_loop_wp [OF inv good(1) own take_drop_resident_pos [OF good(2) res]])
    have "act_wp (act_fold (\<lambda>_ b. share_into dst b) () bs)
        (\<lambda>_. act_wp (table_mut dst (\<lambda>t. t\<lparr>filled_tokens := filled_tokens t + ?n\<rparr>)) ?Q ?E) ?E p"
      by (rule wp_mono [OF loop], rule wp_mono [OF sharing_refill_wp [OF _ inv own good(1) n]])
        (use good res in auto)
    then show ?thesis
      using good bs by (simp add: kv_splice_def validate_and_collect_shared_def wp_simps)
  qed (auto simp: kv_splice_def validate_and_collect_shared_def wp_simps collect_shared_cases
        split: option.split)
qed


text \<open>A copy-on-write break moves one name of \<open>b\<close> onto a fresh block.\<close>

lemma kv_ok_cow:
  assumes ok: "kv_ok [] p" and t: "map_of (tables p) s = Some t" and own: "\<not> is_prefix_owner p s"
    and fr: "free p \<noteq> []" and i: "i < length (slots t)" and b: "slots t ! i = Resident b"
    and many: "1 < refcount p ! b"
    and p': "same_registry p p'" "free p' = butlast (free p)"
      "refcount p' = ((refcount p)[last (free p) := 1])[b := refcount p ! b - 1]"
      "tables p' = AList.update s (t\<lparr>slots := (slots t)[i := Resident (last (free p))]\<rparr>) (tables p)"
  shows "kv_ok [] p'"
proof (rule kv_ok_table_step [OF ok t p'(1) p'(4)])
  let ?q = "last (free p)" and ?f = "\<lambda>c. refs p c + count_list [] (Resident c)"
  let ?t' = "t\<lparr>slots := (slots t)[i := Resident (last (free p))]\<rparr>"
  have led: "ledger (num_blocks (geom p)) (refcount p) (butlast (free p) @ [?q]) ?f"
    using kv_okD(7) [OF ok] fr by simp
  have "Resident b \<in> set (slots t)" using i b by (metis nth_mem)
  then have pos: "0 < refs p b" by (rule refs_pos_slot [OF t])
  then have "b < num_blocks (geom p)" using ledger_range [OF led, of b] by simp
  then have rb: "refcount p ! b = refs p b" using ledgerD(2) [OF led, of b] by simp
  have bq: "b \<noteq> ?q" using pos ledger_take(3) [OF led] by auto
  have "ledger (num_blocks (geom p)) (((refcount p)[?q := 1])[b := refcount p ! b - 1])
      (if refcount p ! b - 1 = 0 then butlast (free p) @ [b] else butlast (free p))
      ((?f(?q := 1))(b := refcount p ! b - 1))"
    by (rule ledger_dec(1) [OF ledger_take(1) [OF led]]) (use bq rb many in simp)
  then have led': "ledger (num_blocks (geom p)) (refcount p') (free p')
      ((?f(?q := 1))(b := refcount p ! b - 1))"
    using many p' by (simp split: if_splits)
  have "count_list ((slots t)[i := Resident ?q]) (Resident c) + (if c = b then 1 else 0) =
      count_list (slots t) (Resident c) + (if c = ?q then 1 else 0)" for c
    using count_list_update [OF i, of "Resident ?q" "Resident c"] b by (auto split: if_splits)
  then show "counts_ok [] p'"
    by (intro counts_table_step [OF kv_okD(1) [OF ok] kv_okD(5) [OF ok] t p'(1) p'(4) led'])
      (use ledger_take(3) [OF led] rb many bq in \<open>force split: if_splits\<close>)
  show "fill_ok (geom p) ?t'" using kv_okD(3) [OF ok] t by (force simp: fills_ok_def fill_ok_def)
  show "\<not> is_prefix_owner p s" by (rule own)
qed

lemma cow_break_wp:
  assumes inv: "kv_inv p" and own: "\<not> is_prefix_owner p s"
  shows "act_wp (cow_break s i)
      (\<lambda>b' q. \<exists>t b. map_of (tables p) s = Some t \<and> i < length (slots t) \<and> slots t ! i = Resident b \<and>
         kv_inv q \<and> only_session s p q \<and>
         map_of (tables q) s = Some (t\<lparr>slots := (slots t)[i := Resident b']\<rparr>) \<and>
         refcount q ! b' = 1 \<and>
         (if refcount p ! b = 1 then b' = b \<and> q = p
          else b' \<noteq> b \<and> free p = free q @ [b'] \<and> refcount q ! b = refcount p ! b - 1))
      (\<lambda>e q. q = p \<and> (case map_of (tables p) s of None \<Rightarrow> e = UnknownSession
         | Some t \<Rightarrow> if i < length (slots t) \<and> slots t ! i \<noteq> Externalized
             then e = OutOfBlocks 1 0 \<and> free p = [] else e = BadSpliceRange)) p"
    (is "act_wp _ ?Q ?E p")
proof -
  note ok = inv [unfolded kv_inv_def]
  consider (none) "map_of (tables p) s = None"
    | (bad) t where "map_of (tables p) s = Some t" "length (slots t) \<le> i \<or> slots t ! i = Externalized"
    | (good) t b where "map_of (tables p) s = Some t" "i < length (slots t)" "slots t ! i = Resident b"
    by (metis not_less option.exhaust slot.exhaust)
  then show ?thesis
  proof cases
    case good
    have "Resident b \<in> set (slots t)" using good by (metis nth_mem)
    then have pos: "0 < refs p b" by (rule refs_pos_slot [OF good(1)])
    have blt: "b < num_blocks (geom p)" by (rule kv_inv_refs_range [OF inv pos])
    have rb: "0 < refcount p ! b" using kv_inv_refcount [OF inv blt] pos by simp
    have len: "length (refcount p) = num_blocks (geom p)" by (rule kv_okD(8) [OF ok])
    consider "refcount p ! b = 1" | "1 < refcount p ! b" "free p = []" | (br) "1 < refcount p ! b" "free p \<noteq> []"
      using rb by fastforce
    then show ?thesis
    proof cases
      case 1
      have "t\<lparr>slots := (slots t)[i := Resident b]\<rparr> = t" using good(3) list_update_id [of "slots t" i] by simp
      then show ?thesis using good 1 inv blt len by (simp add: cow_break_def wp_simps)
    next
      case 2
      then show ?thesis using good blt len by (simp add: cow_break_def wp_simps)
    next
      case br
      let ?n = "last (free p)"
      let ?q = "p\<lparr>free := butlast (free p), refcount := ((refcount p)[?n := 1])[b := refcount p ! b - 1],
        tables := AList.update s (t\<lparr>slots := (slots t)[i := Resident ?n]\<rparr>) (tables p)\<rparr>"
      have n: "?n < num_blocks (geom p)" "refs p ?n = 0"
        using ledgerD(5) [OF kv_okD(7) [OF ok], of ?n] br(2) by auto
      then have nb: "?n \<noteq> b" using pos by auto
      have "kv_ok [] ?q"
        by (rule kv_ok_cow [OF ok good(1) own br(2) good(2,3) br(1)]) (auto simp: same_registry_def)
      moreover have "only_session s p ?q" by (rule only_session_step) (auto simp: same_registry_def)
      moreover have "free p = butlast (free p) @ [?n]" using br(2) by simp
      ultimately have "?Q ?n ?q" using good nb n blt len br(1) by (auto simp: kv_inv_def)
      then show ?thesis using good br n blt len nb by (simp add: cow_break_def wp_simps nth_list_update)
    qed
  qed (auto simp: cow_break_def wp_simps)
qed


section \<open>Prefixes\<close>

lemma splice_prefix_wp:
  assumes inv: "kv_inv p" and own: "\<not> is_prefix_owner p dst"
  shows "act_wp (splice_prefix src dst n)
      (\<lambda>tok q. \<exists>d t bs. map_of (tables p) dst = Some d \<and> slots d = [] \<and>
         map_of (tables p) src = Some t \<and> n \<le> length (slots t) \<and>
         tok = n * block_size (geom p) \<and> tok \<le> filled_tokens t \<and>
         take n (slots t) = map Resident bs \<and> spliced dst d bs tok p q)
      (\<lambda>e q. q = p \<and> (map_of (tables p) dst = None \<or> map_of (tables p) src = None \<longrightarrow>
           e = UnknownSession \<or> e = PrefixTargetNotEmpty) \<and>
         (\<forall>d t. map_of (tables p) dst = Some d \<longrightarrow> map_of (tables p) src = Some t \<longrightarrow>
           (slots d \<noteq> [] \<and> e = PrefixTargetNotEmpty) \<or>
           (slots d = [] \<and> e = BadSpliceRange \<and>
              (length (slots t) < n \<or> Externalized \<in> set (take n (slots t)))) \<or>
           (slots d = [] \<and> e = PrefixNotFullyFilled n (filled_tokens t) \<and>
              filled_tokens t < n * block_size (geom p)))) p"
    (is "act_wp _ ?Q ?E p")
proof -
  consider (none) "map_of (tables p) dst = None \<or> map_of (tables p) src = None"
    | (bad) d t where "map_of (tables p) dst = Some d" "map_of (tables p) src = Some t"
        "slots d \<noteq> [] \<or> length (slots t) < n \<or> filled_tokens t < n * block_size (geom p)"
    | (good) d t where "map_of (tables p) dst = Some d" "map_of (tables p) src = Some t"
        "slots d = []" "n \<le> length (slots t)" "n * block_size (geom p) \<le> filled_tokens t"
    by (cases "map_of (tables p) dst"; cases "map_of (tables p) src"; force simp: not_less)
  then show ?thesis
  proof cases
    case good
    then have "act_wp (act_bind (kv_splice src dst 0 n) (\<lambda>_. act_ret (n * block_size (geom p)))) ?Q ?E p"
      unfolding wp_bind by (intro wp_mono [OF kv_splice_wp [OF inv own]]) (auto simp: min_def wp_simps)
    then show ?thesis using good by (simp add: splice_prefix_def wp_simps)
  qed (auto simp: splice_prefix_def wp_simps split: option.split)
qed

lemma owners_okD:
  "owners_ok p \<Longrightarrow> map_of (prefixes p) i = Some po \<Longrightarrow> owner_ok p po"
  by (auto simp: owners_ok_def)

lemma fresh_not_owner:
  assumes inv: "kv_inv p" and s: "map_of (tables p) s = None"
  shows "\<not> is_prefix_owner p s"
proof -
  note ok = inv [unfolded kv_inv_def]
  show ?thesis
    unfolding is_prefix_owner_iff [OF kv_okD(2) [OF ok]]
    using owners_okD [OF kv_okD(4) [OF ok]] s by (force simp: owner_ok_def)
qed

lemma owner_table:
  assumes inv: "kv_inv p" and po: "map_of (prefixes p) pid = Some po"
  obtains t bs where "map_of (tables p) (owner po) = Some t" and "slots t = map Resident bs"
    and "length bs = owner_blocks po" and "filled_tokens t = owner_blocks po * block_size (geom p)"
    and "is_prefix_owner p (owner po)"
proof -
  note ok = inv [unfolded kv_inv_def]
  obtain t where t: "map_of (tables p) (owner po) = Some t" "all_resident t"
      "length (slots t) = owner_blocks po" "filled_tokens t = owner_blocks po * block_size (geom p)"
    using owners_okD [OF kv_okD(4) [OF ok] po] by (auto simp: owner_ok_def)
  obtain bs where "collect_shared (slots t) = Ok bs"
    using t(2) by (simp add: all_resident_def collect_shared_cases)
  then have "slots t = map Resident bs" by (simp add: collect_shared_Ok)
  moreover have "is_prefix_owner p (owner po)"
    using po is_prefix_owner_iff [OF kv_okD(2) [OF ok]] by blast
  ultimately show ?thesis using that t by auto
qed

text \<open>Registering an owner session that is full and resident, and unregistering one.\<close>

lemma kv_inv_register:
  assumes inv: "kv_inv p" and t: "map_of (tables p) s = Some t" and res: "all_resident t"
    and len: "length (slots t) = n" and fill: "filled_tokens t = n * block_size (geom p)"
    and own: "\<not> is_prefix_owner p s"
  shows "kv_inv (p\<lparr>next_prefix := next_prefix p + 1,
      prefixes := AList.update (next_prefix p) \<lparr>owner = s, owner_blocks = n\<rparr> (prefixes p)\<rparr>)"
    (is "kv_inv ?p")
proof -
  note ok = inv [unfolded kv_inv_def]
  note maps = kv_okD(2) [OF ok]
  have fresh: "\<And>i po. map_of (prefixes p) i = Some po \<Longrightarrow> owner po \<noteq> s"
    using own is_prefix_owner_iff [OF maps] by blast
  have "refs ?p = refs p" by (simp add: refs_def fun_eq_iff)
  then have "counts_ok [] ?p" using kv_okD(1) [OF ok] by (simp add: counts_ok_def)
  moreover have "maps_ok ?p"
    using maps maps_okD(7) [OF maps] unfolding maps_ok_def by (auto simp: less_Suc_eq)
  moreover have "fills_ok ?p" using kv_okD(3) [OF ok] by (simp add: fills_ok_def)
  moreover have "owners_ok ?p"
    using kv_okD(4) [OF ok] fresh t res len fill by (auto simp: owners_ok_def owner_ok_def)
  ultimately show ?thesis by (simp add: kv_inv_def kv_ok_def)
qed

lemma kv_inv_unregister:
  assumes inv: "kv_inv p" and po: "map_of (prefixes p) pid = Some po"
  shows "kv_inv (p\<lparr>prefixes := AList.delete pid (prefixes p)\<rparr>)" (is "kv_inv ?p")
    and "\<not> is_prefix_owner (p\<lparr>prefixes := AList.delete pid (prefixes p)\<rparr>) (owner po)"
proof -
  note ok = inv [unfolded kv_inv_def]
  note maps = kv_okD(2) [OF ok] and owners = kv_okD(4) [OF ok]
  have "refs ?p = refs p" by (simp add: refs_def fun_eq_iff)
  then have "counts_ok [] ?p" using kv_okD(1) [OF ok] by (simp add: counts_ok_def)
  moreover have maps': "maps_ok ?p"
    using maps unfolding maps_ok_def by (auto split: if_splits)
  moreover have "fills_ok ?p" using kv_okD(3) [OF ok] by (simp add: fills_ok_def)
  moreover have "owners_ok ?p"
    using owners by (auto simp: owners_ok_def owner_ok_def)
  ultimately show "kv_inv ?p" by (simp add: kv_inv_def kv_ok_def)
  show "\<not> is_prefix_owner ?p (owner po)"
    unfolding is_prefix_owner_iff [OF maps'] using owners po by (auto simp: owners_ok_def)
qed


lemma wp_match:
  "act_wp (\<lambda>p. case m p of (Ok a, p') \<Rightarrow> f a p' | (Err e, p') \<Rightarrow> g e p' | (Panic, p') \<Rightarrow> (Panic, p')) Q E p =
   act_wp m (\<lambda>a. act_wp (f a) Q E) (\<lambda>e. act_wp (g e) Q E) p"
  by (auto simp: act_wp_def split: prod.splits rust.splits)

lemma delete_fresh_update:
  "map_of m k = None \<Longrightarrow> AList.delete k (AList.update k v m) = m"
  by (induction m) (auto split: if_splits)

lemma wp_kv_open:
  "act_wp kv_open Q E p = Q (next_session p) (p\<lparr>next_session := next_session p + 1,
     tables := AList.update (next_session p) \<lparr>slots = [], filled_tokens = 0\<rparr> (tables p)\<rparr>)"
  by (simp add: kv_open_def wp_simps)

lemma register_prefix_wp:
  assumes inv: "kv_inv p"
  shows "act_wp (register_prefix donor n)
      (\<lambda>pid q. \<exists>bs own. own = next_session p \<and> pid = next_prefix p \<and> length bs = n \<and>
         (\<forall>t. map_of (tables p) donor = Some t \<longrightarrow>
            take n (slots t) = map Resident bs \<and> n * block_size (geom p) \<le> filled_tokens t) \<and>
         (map_of (tables p) donor = None \<longrightarrow> n = 0) \<and> kv_inv q \<and> free q = free p \<and> geom q = geom p \<and>
         prefixes q = AList.update pid \<lparr>owner = own, owner_blocks = n\<rparr> (prefixes p) \<and>
         map_of (tables q) = (map_of (tables p))
           (own \<mapsto> \<lparr>slots = map Resident bs, filled_tokens = n * block_size (geom p)\<rparr>))
      (\<lambda>e q. q = p\<lparr>next_session := next_session p + 1\<rparr>) p" (is "act_wp _ ?Q ?E p")
proof -
  let ?own = "next_session p" and ?e = "\<lparr>slots = [], filled_tokens = 0\<rparr> :: block_table"
  let ?p1 = "p\<lparr>next_session := next_session p + 1, tables := AList.update ?own ?e (tables p)\<rparr>"
  let ?f = "\<lambda>(tok :: nat) q. (Ok (next_prefix q), q\<lparr>next_prefix := next_prefix q + 1,
      prefixes := AList.update (next_prefix q) \<lparr>owner = ?own, owner_blocks = n\<rparr> (prefixes q)\<rparr>)"
  let ?g = "\<lambda>e. act_bind (kv_discard ?own) (\<lambda>_. act_err e)"
  have inv1: "kv_inv ?p1" and fresh: "map_of (tables p) ?own = None"
    using kv_open_wp [OF inv, where E = "\<lambda>_ _. False"] by (simp_all add: kv_open_def wp_simps)
  have own1: "\<not> is_prefix_owner ?p1 ?own"
    using fresh_not_owner [OF inv fresh] by (simp add: is_prefix_owner_def)
  have err: "act_wp (?g e) ?Q ?E ?p1" for e
    using delete_fresh_update [OF fresh] by (simp add: kv_discard_def wp_simps)
  have ok: "act_wp (?f tok) ?Q ?E q"
    if spec: "\<exists>d t bs. map_of (tables ?p1) ?own = Some d \<and> slots d = [] \<and>
         map_of (tables ?p1) donor = Some t \<and> n \<le> length (slots t) \<and>
         tok = n * block_size (geom ?p1) \<and> tok \<le> filled_tokens t \<and>
         take n (slots t) = map Resident bs \<and> spliced ?own d bs tok ?p1 q" for tok q
  proof -
    obtain t bs where t: "map_of (tables ?p1) donor = Some t" "n \<le> length (slots t)"
      "n * block_size (geom p) \<le> filled_tokens t" "take n (slots t) = map Resident bs"
      and sp: "spliced ?own ?e bs (n * block_size (geom p)) ?p1 q"
      using spec by auto
    have len: "length bs = n" using arg_cong [OF t(4), of length] t(2) by simp
    have only: "only_session ?own ?p1 q" and q: "kv_inv q"
      and tq: "map_of (tables q) ?own =
        Some \<lparr>slots = map Resident bs, filled_tokens = n * block_size (geom p)\<rparr>"
      using sp by (auto simp: spliced_def)
    have reg: "same_registry ?p1 q" using only by (rule only_session_registry)
    have "kv_inv (snd (?f tok q))"
      using kv_inv_register [OF q tq, of n] len reg only_sessionD(6) [OF only] own1
      by (auto simp: all_resident_def same_registry_def)
    moreover have "map_of (tables q) = (map_of (tables p))
           (?own \<mapsto> \<lparr>slots = map Resident bs, filled_tokens = n * block_size (geom p)\<rparr>)"
      using only_sessionD(7) [OF only] tq by (auto simp: fun_eq_iff)
    ultimately show ?thesis
      using reg t len sp fresh by (auto simp: act_wp_def same_registry_def spliced_def split: if_splits)
  qed
  have "act_wp (splice_prefix donor ?own n) (\<lambda>a. act_wp (?f a) ?Q ?E) (\<lambda>e. act_wp (?g e) ?Q ?E) ?p1"
    by (rule wp_mono [OF splice_prefix_wp [OF inv1 own1]]) (use ok err in blast)+
  then show ?thesis
    unfolding register_prefix_def wp_bind wp_kv_open wp_match .
qed

lemma release_prefix_wp:
  assumes inv: "kv_inv p"
  shows "act_wp (release_prefix pid)
      (\<lambda>_ q. \<exists>po. map_of (prefixes p) pid = Some po \<and> kv_inv q \<and>
         prefixes q = AList.delete pid (prefixes p) \<and> tables q = AList.delete (owner po) (tables p) \<and>
         geom q = geom p \<and> cached q = cached p)
      (\<lambda>e q. q = p \<and> e = UnknownPrefix \<and> map_of (prefixes p) pid = None) p" (is "act_wp _ ?Q ?E p")
proof (cases "map_of (prefixes p) pid")
  case None
  then show ?thesis by (simp add: release_prefix_def wp_simps)
next
  case (Some po)
  have "act_wp (kv_discard (owner po)) ?Q ?E (p\<lparr>prefixes := AList.delete pid (prefixes p)\<rparr>)"
    by (rule wp_mono [OF kv_discard_wp [OF kv_inv_unregister [OF inv Some]]])
      (use Some in \<open>auto simp: same_registry_def\<close>)
  then show ?thesis using Some by (simp add: release_prefix_def wp_simps)
qed


lemma map_Resident_eq: "map Resident xs = map Resident ys \<longleftrightarrow> xs = ys"
  by (rule inj_map_eq_map) (simp add: inj_def)

lemma splice_prefix_from_wp:
  assumes inv: "kv_inv p" and own: "\<not> is_prefix_owner p dst"
  shows "act_wp (splice_prefix_from pid dst)
      (\<lambda>tok q. \<exists>po d t bs. map_of (prefixes p) pid = Some po \<and> map_of (tables p) dst = Some d \<and> slots d = [] \<and>
         map_of (tables p) (owner po) = Some t \<and> slots t = map Resident bs \<and>
         length bs = owner_blocks po \<and> tok = owner_blocks po * block_size (geom p) \<and>
         spliced dst d bs tok p q)
      (\<lambda>e q. q = p \<and> (case map_of (prefixes p) pid of None \<Rightarrow> e = UnknownPrefix
         | Some po \<Rightarrow> (case map_of (tables p) dst of None \<Rightarrow> e = UnknownSession
             | Some d \<Rightarrow> slots d \<noteq> [] \<and> e = PrefixTargetNotEmpty))) p"
    (is "act_wp _ ?Q ?E p")
proof (cases "map_of (prefixes p) pid")
  case None
  then show ?thesis by (simp add: splice_prefix_from_def wp_simps)
next
  case (Some po)
  obtain t bs where t: "map_of (tables p) (owner po) = Some t" "slots t = map Resident bs"
      "length bs = owner_blocks po" "filled_tokens t = owner_blocks po * block_size (geom p)"
    by (rule owner_table [OF inv Some])
  show ?thesis
  proof (cases "map_of (tables p) dst")
    case None
    then show ?thesis using Some by (simp add: splice_prefix_from_def splice_prefix_def wp_simps)
  next
    case d: (Some d)
    have "act_wp (splice_prefix (owner po) dst (owner_blocks po)) ?Q ?E p"
      by (rule wp_mono [OF splice_prefix_wp [OF inv own]])
        (use t Some d in \<open>auto simp: map_Resident_eq\<close>)
    then show ?thesis using Some by (simp add: splice_prefix_from_def wp_simps)
  qed
qed

lemma expect_all_map_Some: "expect_all (map (\<lambda>x. Some (f x)) xs) = Some (map f xs)"
  by (induction xs) auto

lemma resident_block_all:
  assumes t: "map_of (tables p) s = Some t" "slots t = map Resident bs"
  shows "expect_all (map (resident_block p s) [0..<length bs]) = Some bs"
proof -
  have "map (resident_block p s) [0..<length bs] = map (\<lambda>i. Some (bs ! i)) [0..<length bs]"
    using t by (intro map_cong refl) (simp add: resident_block_def)
  then show ?thesis using expect_all_map_Some [of "(!) bs" "[0..<length bs]"] by (simp only: map_nth)
qed

text \<open>The loop that gives every source block a fresh target block.\<close>

lemma shifted_loop_wp:
  assumes inv: "kv_inv p" and t: "map_of (tables p) s = Some t"
    and own: "\<not> is_prefix_owner p s" and room: "length src \<le> length (free p)"
  shows "act_wp (act_fold (\<lambda>pairs b. act_bind (alloc_into s) (\<lambda>fresh. act_ret (pairs @ [(b, fresh)]))) [] src)
      (\<lambda>pairs q. grown s t (map snd pairs) p q \<and> map fst pairs = src) E p"
proof (rule wp_fold [where I = "\<lambda>pairs ys q. grown s t (map snd pairs) p q \<and> map fst pairs @ ys = src"])
  fix pairs y ys q
  assume I: "grown s t (map snd pairs) p q \<and> map fst pairs @ y # ys = src"
  then have "free p = free q @ rev (map snd pairs)" by (simp add: grown_def)
  then have "length (free p) = length (free q) + length pairs" by simp
  moreover have "length src = length pairs + Suc (length ys)" using I by auto
  ultimately have "free q \<noteq> []" using room by auto
  from alloc_into_wp [OF conjunct1 [OF I] own this, where E = E]
  show "act_wp (act_bind (alloc_into s) (\<lambda>fresh. act_ret (pairs @ [(y, fresh)])))
      (\<lambda>pairs q. grown s t (map snd pairs) p q \<and> map fst pairs @ ys = src) E q"
    unfolding wp_bind by (rule wp_mono) (use I in \<open>auto simp: wp_simps\<close>)
qed (use grown_Nil [OF inv t] in auto)


lemma grown_refill:
  assumes gr: "grown s t bs p q" and inv: "kv_inv p" and t: "map_of (tables p) s = Some t"
    and own: "\<not> is_prefix_owner p s" and n: "n = length bs * block_size (geom p)"
  defines "t' \<equiv> \<lparr>slots = slots t @ map Resident bs, filled_tokens = filled_tokens t + n\<rparr>"
  shows "kv_inv (q\<lparr>tables := AList.update s t' (tables q)\<rparr>)"
    and "only_session s p (q\<lparr>tables := AList.update s t' (tables q)\<rparr>)"
proof -
  have ok: "kv_ok [] q" and only: "only_session s p q"
    and tq: "map_of (tables q) s = Some (t\<lparr>slots := slots t @ map Resident bs\<rparr>)"
    using gr by (auto simp: grown_def kv_inv_def)
  have own': "\<not> is_prefix_owner q s" using own only_sessionD(6) [OF only] by simp
  have "filled_tokens t \<le> length (slots t) * block_size (geom p)"
    using inv t by (auto simp: kv_inv_def fills_ok_def fill_ok_def dest!: kv_okD(3))
  then have "fill_ok (geom q) t'"
    using n only_sessionD(1) [OF only] by (simp add: fill_ok_def add_mult_distrib t'_def)
  then show "kv_inv (q\<lparr>tables := AList.update s t' (tables q)\<rparr>)"
    unfolding kv_inv_def by (intro kv_ok_refill [OF ok tq own']) (simp_all add: t'_def)
  show "only_session s p (q\<lparr>tables := AList.update s t' (tables q)\<rparr>)"
    by (rule only_session_step [OF only]) (auto simp: same_registry_def)
qed

lemma alloc_shifted_prefix_slots_wp:
  assumes inv: "kv_inv p" and own: "\<not> is_prefix_owner p dst"
  shows "act_wp (alloc_shifted_prefix_slots pid dst)
      (\<lambda>(m, pairs) q. \<exists>po d t. map_of (prefixes p) pid = Some po \<and> map_of (tables p) dst = Some d \<and>
         map_of (tables p) (owner po) = Some t \<and> slots t = map Resident (map fst pairs) \<and>
         m = filled_tokens d \<and> m mod block_size (geom p) = 0 \<and> length pairs = owner_blocks po \<and>
         kv_inv q \<and> only_session dst p q \<and> free p = free q @ rev (map snd pairs) \<and>
         map_of (tables q) dst = Some \<lparr>slots = slots d @ map Resident (map snd pairs),
           filled_tokens = m + owner_blocks po * block_size (geom p)\<rparr>)
      (\<lambda>e q. q = p \<and> (case map_of (tables p) dst of None \<Rightarrow> e = UnknownSession
         | Some d \<Rightarrow> if filled_tokens d mod block_size (geom p) \<noteq> 0
             then e = OffsetNotBlockAligned (filled_tokens d) (block_size (geom p))
             else (case map_of (prefixes p) pid of None \<Rightarrow> e = UnknownPrefix
               | Some po \<Rightarrow> e = OutOfBlocks (owner_blocks po) (length (free p)) \<and>
                   length (free p) < owner_blocks po))) p"
    (is "act_wp _ ?Q ?E p")
proof -
  note ok = inv [unfolded kv_inv_def]
  let ?bs = "block_size (geom p)"
  note bs0 = kv_okD(6) [OF ok]
  consider "map_of (tables p) dst = None"
    | d where "map_of (tables p) dst = Some d" "filled_tokens d mod ?bs \<noteq> 0"
    | d where "map_of (tables p) dst = Some d" "filled_tokens d mod ?bs = 0" "map_of (prefixes p) pid = None"
    | (go) d po where "map_of (tables p) dst = Some d" "map_of (prefixes p) pid = Some po"
        "filled_tokens d mod ?bs = 0"
    by fastforce
  then show ?thesis
  proof cases
    case go
    obtain t bs where t: "map_of (tables p) (owner po) = Some t" "slots t = map Resident bs"
        "length bs = owner_blocks po" "filled_tokens t = owner_blocks po * ?bs"
      by (rule owner_table [OF inv go(2)])
    show ?thesis
    proof (cases "length (free p) < owner_blocks po")
      case True
      then show ?thesis
        using go t bs0 by (simp add: alloc_shifted_prefix_slots_def validate_shifted_prefix_alloc_def wp_simps)
    next
      case False
      let ?rest = "\<lambda>pairs. act_bind (act_get (\<lambda>p. block_size (geom p))) (\<lambda>b.
         act_bind (table_mut dst (\<lambda>t. t\<lparr>filled_tokens := filled_tokens t + owner_blocks po * b\<rparr>)) (\<lambda>_.
         act_ret (filled_tokens d, pairs)))"
      have fin: "act_wp (?rest pairs) ?Q ?E q"
        if gr: "grown dst d (map snd pairs) p q \<and> map fst pairs = bs" for pairs q
        using grown_refill [OF conjunct1 [OF gr] inv go(1) own, of "owner_blocks po * ?bs"] gr go t
        by (auto simp: wp_simps grown_def only_sessionD(1) block_table_upd)
      have room: "length bs \<le> length (free p)" using False t by simp
      have "act_wp (act_fold (\<lambda>pairs b. act_bind (alloc_into dst) (\<lambda>fresh. act_ret (pairs @ [(b, fresh)]))) [] bs)
          (\<lambda>pairs. act_wp (?rest pairs) ?Q ?E) ?E p"
        by (rule wp_mono [OF shifted_loop_wp [OF inv go(1) own room] fin])
      moreover have "expect_all (map (resident_block p (owner po)) [0..<owner_blocks po]) = Some bs"
        using resident_block_all [OF t(1,2)] t(3) by simp
      ultimately show ?thesis
        using go t False bs0
        by (simp add: alloc_shifted_prefix_slots_def validate_shifted_prefix_alloc_def wp_simps)
    qed
  qed (use bs0 in \<open>simp_all add: alloc_shifted_prefix_slots_def validate_shifted_prefix_alloc_def wp_simps\<close>)
qed

end
