(* ===== verification/BlockIndex.thy ===== *)
theory BlockIndex
  imports KvOps "HOL-Library.Product_Lexorder"
begin

text \<open>
  The content-addressed index over full blocks (\<open>fuel-kv-pool/src/block_index.rs\<close>): the chained
  128-bit hash with its two 64-bit lanes at machine width, and the operations that register,
  look up, claim, list and release cached blocks. The index owns one reference per entry, so the
  invariant of the pool counts it beside the session slots.
\<close>

unbundle bit_operations_syntax

section \<open>The chained hash\<close>

definition mix :: "64 word \<Rightarrow> 64 word" where
  "mix z0 = (let z1 = (z0 XOR drop_bit 30 z0) * 0xBF58476D1CE4E5B9;
                 z2 = (z1 XOR drop_bit 27 z1) * 0x94D049BB133111EB
             in z2 XOR drop_bit 31 z2)"

definition feed :: "64 word \<Rightarrow> 64 word \<times> 64 word \<Rightarrow> 64 word \<times> 64 word" where
  "feed x ab = (mix (fst ab XOR x) + 0x9E3779B97F4A7C15,
                mix (word_rotl 23 (snd ab) XOR x * 0xC2B2AE3D27D4EB4F))"

fun from_le_bytes :: "8 word list \<Rightarrow> 64 word" where
  "from_le_bytes [] = 0"
| "from_le_bytes (b # bs) = ucast b OR push_bit 8 (from_le_bytes bs)"

text \<open>\<open>slice::chunks(8)\<close>; a short last chunk is padded with zero bytes, which add nothing.\<close>

fun chunks8 :: "8 word list \<Rightarrow> 8 word list list" where
  "chunks8 [] = []"
| "chunks8 (b # bs) = take 8 (b # bs) # chunks8 (drop 7 bs)"

definition lanes :: "block_hash option \<Rightarrow> 64 word \<times> 64 word" where
  "lanes parent = (case parent of
     Some p \<Rightarrow> (ucast (drop_bit 64 p), ucast p)
   | None \<Rightarrow> (0x6A09E667F3BCC908, 0xBB67AE8584CAA73B))"

definition hash_words :: "32 word list \<Rightarrow> 8 word list \<Rightarrow> 64 word list" where
  "hash_words tokens extra =
     word_of_nat (length tokens) # map ucast tokens @
     (0xFFFFFFFF00000000 OR word_of_nat (length extra)) # map from_le_bytes (chunks8 extra)"

definition join_lanes :: "64 word \<times> 64 word \<Rightarrow> block_hash" where
  "join_lanes ab = push_bit 64 (ucast (fst ab)) OR ucast (snd ab)"

definition chain_block_hash ::
  "block_hash option \<Rightarrow> 32 word list \<Rightarrow> 8 word list \<Rightarrow> block_hash" where
  "chain_block_hash parent tokens extra =
     join_lanes (fold feed (hash_words tokens extra) (lanes parent))"

section \<open>Operations of the index\<close>

definition commit_block :: "session_handle \<Rightarrow> nat \<Rightarrow> block_hash \<Rightarrow> bool pool_act" where
  "commit_block s i hash =
     act_bind (act_get (\<lambda>p. block_size (geom p))) (\<lambda>bs.
     act_bind (get_table s) (\<lambda>t.
     if length (slots t) \<le> i then act_err (BadBlockIndex i (length (slots t)))
     else (case slots t ! i of
         Externalized \<Rightarrow> act_err (SessionNotResident i)
       | Resident b \<Rightarrow>
           if filled_tokens t < (i + 1) * bs then act_err (BlockNotFull i)
           else act_bind (act_get (\<lambda>p. map_of (cached p) hash \<noteq> None \<or>
                    map_of (cached_by_block p) b \<noteq> None)) (\<lambda>dup.
             if dup then act_ret False
             else act_bind (rc_inc b) (\<lambda>_.
                  act_bind (act_set (\<lambda>p. p\<lparr>tick := tick p + 1,
                     cached := AList.update hash \<lparr>cached_at = b, last_used = tick p + 1\<rparr> (cached p),
                     cached_by_block := AList.update b hash (cached_by_block p),
                     stats := (stats p)\<lparr>commits := commits (stats p) + 1\<rparr>\<rparr>)) (\<lambda>_.
                  act_ret True))))))"

definition touch :: "block_hash \<Rightarrow> cached_block \<Rightarrow> kv_pool \<Rightarrow> kv_pool" where
  "touch h c p = p\<lparr>tick := tick p + 1,
     cached := AList.update h (c\<lparr>last_used := tick p + 1\<rparr>) (cached p)\<rparr>"

fun lookup_loop :: "block_hash list \<Rightarrow> kv_pool \<Rightarrow> phys_block_id list \<times> kv_pool" where
  "lookup_loop [] p = ([], p)"
| "lookup_loop (h # hs) p = (case map_of (cached p) h of
       None \<Rightarrow> ([], p)
     | Some c \<Rightarrow> (case lookup_loop hs (touch h c p) of (out, q) \<Rightarrow> (cached_at c # out, q)))"

definition count_lookup :: "nat \<Rightarrow> nat \<Rightarrow> cache_stats \<Rightarrow> cache_stats" where
  "count_lookup asked found st = st\<lparr>lookups := lookups st + 1,
     block_hits := block_hits st + found, block_misses := block_misses st + (asked - found)\<rparr>"

definition lookup_chain :: "block_hash list \<Rightarrow> phys_block_id list pool_act" where
  "lookup_chain hashes = (\<lambda>p. case lookup_loop hashes p of (out, q) \<Rightarrow>
     (Ok out, q\<lparr>stats := count_lookup (length hashes) (length out) (stats q)\<rparr>))"

definition splice_cached_chain :: "session_handle \<Rightarrow> block_hash list \<Rightarrow> nat pool_act" where
  "splice_cached_chain dst hashes =
     act_bind (get_table dst) (\<lambda>t.
     if slots t \<noteq> [] then act_err PrefixTargetNotEmpty
     else act_bind (lookup_chain hashes) (\<lambda>blocks.
       act_bind (act_fold (\<lambda>_ b. share_into dst b) () blocks) (\<lambda>_.
       act_bind (act_get (\<lambda>p. length blocks * block_size (geom p))) (\<lambda>tokens.
       act_bind (table_mut dst (\<lambda>t. t\<lparr>filled_tokens := tokens\<rparr>)) (\<lambda>_.
       act_ret tokens)))))"

definition evictable_cached :: "kv_pool \<Rightarrow> (block_hash list, kv_alloc_error) rust" where
  "evictable_cached p =
     (if \<exists>e \<in> set (cached p). length (refcount p) \<le> cached_at (snd e) then Panic
      else Ok (map snd (sort (map (\<lambda>e. (last_used (snd e), fst e))
             (filter (\<lambda>e. refcount p ! cached_at (snd e) = 1) (cached p))))))"

definition release_cached :: "block_hash \<Rightarrow> unit pool_act" where
  "release_cached hash =
     act_bind (act_get (\<lambda>p. map_of (cached p) hash)) (\<lambda>e.
     case e of None \<Rightarrow> act_err UnknownCachedBlock
     | Some c \<Rightarrow>
       act_bind (act_set (\<lambda>p. p\<lparr>cached := AList.delete hash (cached p),
          cached_by_block := AList.delete (cached_at c) (cached_by_block p),
          stats := (stats p)\<lparr>evictions := evictions (stats p) + 1\<rparr>\<rparr>)) (\<lambda>_.
       act_bind (rc_dec (cached_at c)) (\<lambda>n.
         if n = 0 then free_push (cached_at c) else act_ret ())))"

definition cached_blocks :: "kv_pool \<Rightarrow> nat" where
  "cached_blocks p = length (cached p)"

section \<open>The hash lanes are permutations\<close>

lemma xorshift_twice:
  fixes z :: "64 word"
  shows "(z XOR drop_bit k z) XOR drop_bit k (z XOR drop_bit k z) = z XOR drop_bit (2 * k) z"
  by (rule bit_word_eqI) (auto simp: bit_simps mult_2 mult_2_right add.assoc)

lemma xorshift_inj:
  fixes z w :: "64 word"
  assumes k: "16 \<le> k" and eq: "z XOR drop_bit k z = w XOR drop_bit k w"
  shows "z = w"
proof -
  let ?f = "\<lambda>z :: 64 word. z XOR drop_bit k z"
  have four: "?f (?f (?f (?f x))) = x" for x
  proof -
    have "?f (?f (?f (?f x))) = x XOR drop_bit (2 * (2 * k)) x"
      using xorshift_twice [of x k] xorshift_twice [of "?f (?f x)" k] xorshift_twice [of x "2 * k"] by simp
    also have "drop_bit (2 * (2 * k)) x = 0"
      using k by (intro bit_word_eqI) (auto simp: bit_simps dest: bit_imp_le_length)
    finally show ?thesis by simp
  qed
  show ?thesis using four [of z] four [of w] eq by simp
qed

lemma mult_inj_word:
  fixes c :: "64 word"
  assumes "c * d = 1" and "x * c = y * c"
  shows "x = y"
proof -
  have "x * (c * d) = y * (c * d)" using assms(2) by (simp only: mult.assoc [symmetric])
  then show ?thesis by (simp only: assms(1) mult_1_right)
qed

lemma mix_inj:
  assumes "mix x = mix y"
  shows "x = y"
proof -
  define f where "f = (\<lambda>z :: 64 word. (z XOR drop_bit 30 z) * 0xBF58476D1CE4E5B9)"
  define g where "g = (\<lambda>z :: 64 word. (z XOR drop_bit 27 z) * 0x94D049BB133111EB)"
  have eq: "mix z = g (f z) XOR drop_bit 31 (g (f z))" for z
    by (simp only: mix_def f_def g_def Let_def)
  have "g (f x) = g (f y)" by (rule xorshift_inj [OF _ assms [unfolded eq]]) simp
  then have "f x XOR drop_bit 27 (f x) = f y XOR drop_bit 27 (f y)"
    unfolding g_def by (rule mult_inj_word [of _ "0x319642B2D24D8EC3", rotated]) simp
  from xorshift_inj [OF _ this] have "f x = f y" by simp
  then have "x XOR drop_bit 30 x = y XOR drop_bit 30 y"
    unfolding f_def by (rule mult_inj_word [of _ "0x96DE1B173F119089", rotated]) simp
  from xorshift_inj [OF _ this] show ?thesis by simp
qed


lemma rotl23_inj:
  fixes x y :: "64 word"
  assumes "word_rotl 23 x = word_rotl 23 y"
  shows "x = y"
  using arg_cong [OF assms, of "word_rotr 23"] by simp

lemma xor_right_cancel:
  fixes a b x :: "64 word"
  assumes "a XOR x = b XOR x"
  shows "a = b"
proof -
  have "(a XOR x) XOR x = (b XOR x) XOR x" by (simp only: assms)
  then show ?thesis by (simp only: xor.assoc xor_self_eq xor.right_neutral)
qed

lemma xor_left_cancel: "(a :: 64 word) XOR x = a XOR y \<Longrightarrow> x = y"
  using xor_right_cancel [of x a y] by (simp add: xor.commute)

lemma feed_inj: "feed x ab = feed x cd \<Longrightarrow> ab = cd"
  by (auto simp: feed_def prod_eq_iff dest!: mix_inj xor_right_cancel rotl23_inj)

lemma feed_inj_word: "fst (feed x ab) = fst (feed y ab) \<Longrightarrow> x = y"
  by (auto simp: feed_def dest!: mix_inj xor_left_cancel)

lemma fold_feed_inj: "fold feed xs ab = fold feed xs cd \<Longrightarrow> ab = cd"
proof (induction xs arbitrary: ab cd)
  case (Cons x xs)
  have "feed x ab = feed x cd" by (rule Cons.IH) (use Cons.prems in simp)
  then show ?case by (rule feed_inj)
qed simp

lemma join_lanes_inj:
  assumes "join_lanes ab = join_lanes cd"
  shows "ab = cd"
proof -
  have bits: "bit (join_lanes x) n \<longleftrightarrow>
      (if 64 \<le> n then n < 128 \<and> bit (fst x) (n - 64) else bit (snd x) n)" for x n
    by (auto simp: join_lanes_def bit_simps dest: bit_imp_le_length)
  have "bit (fst ab) n = bit (fst cd) n" if "n < 64" for n
    using bits [of ab "n + 64"] bits [of cd "n + 64"] that assms by simp
  moreover have "bit (snd ab) n = bit (snd cd) n" if "n < 64" for n
    using bits [of ab n] bits [of cd n] that assms by simp
  ultimately show ?thesis by (auto simp: prod_eq_iff intro!: bit_word_eqI)
qed

lemma lanes_Some_inj:
  assumes "lanes (Some p) = lanes (Some q)"
  shows "p = q"
proof (rule bit_word_eqI)
  fix n assume n: "n < LENGTH(128)"
  have hi: "ucast (drop_bit 64 p) = (ucast (drop_bit 64 q) :: 64 word)" and lo: "ucast p = (ucast q :: 64 word)"
    using assms by (auto simp: lanes_def)
  show "bit p n = bit q n"
  proof (cases "n < 64")
    case True
    then show ?thesis using arg_cong [OF lo, of "\<lambda>w. bit w n"] by (simp add: bit_simps)
  next
    case False
    then show ?thesis using arg_cong [OF hi, of "\<lambda>w. bit w (n - 64)"] n by (simp add: bit_simps less_diff_conv2)
  qed
qed


section \<open>The index and the reference ledger\<close>

definition index_frame :: "kv_pool \<Rightarrow> kv_pool \<Rightarrow> bool" where
  "index_frame p q \<longleftrightarrow> geom q = geom p \<and> tables q = tables p \<and> prefixes q = prefixes p \<and>
     next_prefix q = next_prefix p \<and> next_session q = next_session p"

lemma index_frame_refl [simp]: "index_frame p p"
  by (simp add: index_frame_def)

lemma index_frame_trans: "index_frame p q \<Longrightarrow> index_frame q r \<Longrightarrow> index_frame p r"
  by (simp add: index_frame_def)

lemma kv_inv_index:
  assumes inv: "kv_inv p" and fr: "index_frame p q"
    and kd: "keys_distinct (cached q)" "keys_distinct (cached_by_block q)"
    and fwd: "\<And>h c. map_of (cached q) h = Some c \<Longrightarrow> map_of (cached_by_block q) (cached_at c) = Some h"
    and bwd: "\<And>b h. map_of (cached_by_block q) b = Some h \<Longrightarrow>
      \<exists>c. map_of (cached q) h = Some c \<and> cached_at c = b"
    and led: "ledger (num_blocks (geom p)) (refcount q) (free q) (refs q)"
  shows "kv_inv q"
proof -
  note ok = inv [unfolded kv_inv_def]
  note f = fr [unfolded index_frame_def]
  have "maps_ok q" using kv_okD(2) [OF ok] kd fwd bwd f unfolding maps_ok_def by auto
  moreover have "fills_ok q" using kv_okD(3) [OF ok] f by (simp add: fills_ok_def)
  moreover have "owners_ok q" using kv_okD(4) [OF ok] f by (simp add: owners_ok_def owner_ok_def)
  moreover have "counts_ok [] q" using led f by (simp add: counts_ok_def)
  ultimately show ?thesis by (simp add: kv_inv_def kv_ok_def)
qed

lemma refs_index_update:
  assumes "kv_inv p" and "tables q = tables p" and "cached q = AList.update h c (cached p)"
  shows "refs q b + opt_val (index_refs b) (map_of (cached p) h) = refs p b + index_refs b c"
  using map_sum_update [OF maps_okD(4) [OF kv_okD(2)], of "[]" p "index_refs b" h c] assms
  by (simp add: refs_def kv_inv_def)

lemma refs_index_delete:
  assumes "kv_inv p" and "tables q = tables p" and "cached q = AList.delete h (cached p)"
  shows "refs q b + opt_val (index_refs b) (map_of (cached p) h) = refs p b"
  using map_sum_delete [OF maps_okD(4) [OF kv_okD(2)], of "[]" p "index_refs b" h] assms
  by (simp add: refs_def kv_inv_def)

lemma cached_refs_pos:
  assumes "map_of (cached p) h = Some c"
  shows "0 < refs p (cached_at c)"
  using map_sum_ge [OF assms, of "index_refs (cached_at c)"] by (simp add: refs_def)

lemma kv_inv_ledger: "kv_inv p \<Longrightarrow> ledger (num_blocks (geom p)) (refcount p) (free p) (refs p)"
  using kv_okD(7) by (fastforce simp: kv_inv_def)

lemma kv_inv_length: "kv_inv p \<Longrightarrow> length (refcount p) = num_blocks (geom p)"
  using kv_okD(8) by (auto simp: kv_inv_def)

lemma kv_inv_index_maps:
  assumes "kv_inv p"
  shows "keys_distinct (cached p)" "keys_distinct (cached_by_block p)"
    "\<And>h c. map_of (cached p) h = Some c \<Longrightarrow> map_of (cached_by_block p) (cached_at c) = Some h"
    "\<And>b h. map_of (cached_by_block p) b = Some h \<Longrightarrow> \<exists>c. map_of (cached p) h = Some c \<and> cached_at c = b"
  using maps_okD(4,5,8,9) [OF kv_okD(2) [OF assms [unfolded kv_inv_def]]] by blast+

lemma kv_inv_commit:
  assumes inv: "kv_inv p" and pos: "0 < refs p b"
    and new: "map_of (cached p) h = None" "map_of (cached_by_block p) b = None"
    and q: "index_frame p q" "free q = free p" "refcount q = (refcount p)[b := Suc (refcount p ! b)]"
      "cached q = AList.update h c (cached p)" "cached_at c = b"
      "cached_by_block q = AList.update b h (cached_by_block p)"
  shows "kv_inv q"
proof (rule kv_inv_index [OF inv q(1)])
  have "refs q = (refs p)(b := Suc (refs p b))"
    using refs_index_update [OF inv _ q(4)] q(1,5) new by (auto simp: index_frame_def fun_eq_iff)
  then show "ledger (num_blocks (geom p)) (refcount q) (free q) (refs q)"
    using ledger_inc [OF kv_inv_ledger [OF inv] pos] q by simp
  note im = kv_inv_index_maps [OF inv]
  show "keys_distinct (cached q)" "keys_distinct (cached_by_block q)" using im(1,2) q by simp_all
  show "map_of (cached_by_block q) (cached_at c') = Some h'" if "map_of (cached q) h' = Some c'" for h' c'
    using im(3) [of h' c'] that new q by (auto split: if_splits)
  show "\<exists>c. map_of (cached q) h' = Some c \<and> cached_at c = b'" if "map_of (cached_by_block q) b' = Some h'" for b' h'
    using im(4) [of b' h'] that new q by (auto split: if_splits)
qed


lemma kv_inv_release:
  assumes inv: "kv_inv p" and c: "map_of (cached p) h = Some c"
    and q: "index_frame p q" "cached q = AList.delete h (cached p)"
      "cached_by_block q = AList.delete (cached_at c) (cached_by_block p)"
      "refcount q = (refcount p)[cached_at c := refcount p ! cached_at c - 1]"
      "free q = (if refcount p ! cached_at c = 1 then free p @ [cached_at c] else free p)"
  shows "kv_inv q"
proof (rule kv_inv_index [OF inv q(1)])
  let ?b = "cached_at c"
  have pos: "0 < refs p ?b" by (rule cached_refs_pos [OF c])
  then obtain n where n: "refs p ?b = Suc n" using gr0_conv_Suc by blast
  note led = ledger_dec [OF kv_inv_ledger [OF inv] n]
  have "refs q = (refs p)(?b := n)"
    using refs_index_delete [OF inv _ q(2)] q(1) c n
    by (auto simp: index_frame_def fun_eq_iff) (metis add.right_neutral add_right_cancel Suc_eq_plus1)+
  then show "ledger (num_blocks (geom p)) (refcount q) (free q) (refs q)"
    using led q(4,5) by (simp split: if_splits)
  note im = kv_inv_index_maps [OF inv]
  show "keys_distinct (cached q)" "keys_distinct (cached_by_block q)" using im(1,2) q by simp_all
  show "map_of (cached_by_block q) (cached_at c') = Some h'" if "map_of (cached q) h' = Some c'" for h' c'
  proof -
    have c': "map_of (cached p) h' = Some c'" "h' \<noteq> h" using that q by (auto split: if_splits)
    have "cached_at c' \<noteq> ?b" using im(3) [OF c'(1)] im(3) [OF c] c'(2) by auto
    then show ?thesis using im(3) [OF c'(1)] q by simp
  qed
  show "\<exists>c. map_of (cached q) h' = Some c \<and> cached_at c = b'" if "map_of (cached_by_block q) b' = Some h'" for b' h'
  proof -
    have b': "map_of (cached_by_block p) b' = Some h'" "b' \<noteq> ?b" using that q by (auto split: if_splits)
    have "h' \<noteq> h" using im(4) [OF b'(1)] c b'(2) by auto
    then show ?thesis using im(4) [OF b'(1)] q by simp
  qed
qed

lemma release_cached_wp:
  assumes inv: "kv_inv p"
  shows "act_wp (release_cached h)
      (\<lambda>_ q. \<exists>c. map_of (cached p) h = Some c \<and> kv_inv q \<and> index_frame p q \<and>
         cached q = AList.delete h (cached p) \<and>
         free q = (if refcount p ! cached_at c = 1 then free p @ [cached_at c] else free p))
      (\<lambda>e q. q = p \<and> e = UnknownCachedBlock \<and> map_of (cached p) h = None) p"
proof (cases "map_of (cached p) h")
  case None
  then show ?thesis by (simp add: release_cached_def wp_simps)
next
  case (Some c)
  let ?b = "cached_at c"
  have blt: "?b < length (refcount p)"
    using kv_inv_refs_range [OF inv cached_refs_pos [OF Some]] kv_inv_length [OF inv] by simp
  have pos: "0 < refcount p ! ?b"
    using kv_inv_refcount [OF inv] cached_refs_pos [OF Some] blt kv_inv_length [OF inv] by simp
  have "kv_inv (p\<lparr>cached := AList.delete h (cached p),
      cached_by_block := AList.delete ?b (cached_by_block p), stats := st,
      refcount := (refcount p)[?b := refcount p ! ?b - 1],
      free := (if refcount p ! ?b = 1 then free p @ [?b] else free p)\<rparr>)" for st
    by (rule kv_inv_release [OF inv Some]) (simp_all add: index_frame_def)
  note inv' = this
  show ?thesis
  proof (cases "refcount p ! ?b = 1")
    case True
    then show ?thesis
      using Some blt inv' by (simp add: release_cached_def wp_simps index_frame_def)
  next
    case False
    moreover have "refcount p ! ?b - 1 \<noteq> 0" using False pos by simp
    ultimately show ?thesis
      using Some blt inv' pos by (simp add: release_cached_def wp_simps index_frame_def)
  qed
qed

lemma commit_block_wp:
  assumes inv: "kv_inv p"
  shows "act_wp (commit_block s i h)
      (\<lambda>r q. \<exists>t b. map_of (tables p) s = Some t \<and> i < length (slots t) \<and> slots t ! i = Resident b \<and>
         Suc i * block_size (geom p) \<le> filled_tokens t \<and> kv_inv q \<and> index_frame p q \<and> free q = free p \<and>
         (if map_of (cached p) h = None \<and> map_of (cached_by_block p) b = None
          then r \<and> map_of (cached q) = (map_of (cached p))(h \<mapsto> \<lparr>cached_at = b, last_used = tick p + 1\<rparr>) \<and>
            refcount q = (refcount p)[b := Suc (refcount p ! b)] \<and> tick q = tick p + 1
          else \<not> r \<and> q = p))
      (\<lambda>e q. q = p \<and> (case map_of (tables p) s of None \<Rightarrow> e = UnknownSession
         | Some t \<Rightarrow> if length (slots t) \<le> i then e = BadBlockIndex i (length (slots t))
             else if slots t ! i = Externalized then e = SessionNotResident i
             else e = BlockNotFull i \<and> filled_tokens t < Suc i * block_size (geom p))) p"
    (is "act_wp _ ?Q ?E p")
proof -
  consider (none) "map_of (tables p) s = None"
    | (bad) t where "map_of (tables p) s = Some t" "length (slots t) \<le> i \<or> slots t ! i = Externalized"
    | (part) t b where "map_of (tables p) s = Some t" "i < length (slots t)" "slots t ! i = Resident b"
        "filled_tokens t < Suc i * block_size (geom p)"
    | (good) t b where "map_of (tables p) s = Some t" "i < length (slots t)" "slots t ! i = Resident b"
        "Suc i * block_size (geom p) \<le> filled_tokens t"
    by (metis not_less option.exhaust slot.exhaust)
  then show ?thesis
  proof cases
    case bad
    then show ?thesis by (auto simp: commit_block_def wp_simps)
  next
    case good
    have "Resident b \<in> set (slots t)" using good by (metis nth_mem)
    then have pos: "0 < refs p b" by (rule refs_pos_slot [OF good(1)])
    have blt: "b < length (refcount p)"
      using kv_inv_refs_range [OF inv pos] kv_inv_length [OF inv] by simp
    show ?thesis
    proof (cases "map_of (cached p) h = None \<and> map_of (cached_by_block p) b = None")
      case True
      have "kv_inv (p\<lparr>refcount := (refcount p)[b := Suc (refcount p ! b)], tick := tick p + 1,
          cached := AList.update h \<lparr>cached_at = b, last_used = tick p + 1\<rparr> (cached p),
          cached_by_block := AList.update b h (cached_by_block p), stats := st\<rparr>)" for st
        by (rule kv_inv_commit [OF inv pos, where c = "\<lparr>cached_at = b, last_used = tick p + 1\<rparr>"]) (use True in \<open>simp_all add: index_frame_def\<close>)
      then show ?thesis
        using good True blt by (simp add: commit_block_def wp_simps index_frame_def fun_eq_iff)
    next
      case False
      then show ?thesis using good inv by (auto simp: commit_block_def wp_simps)
    qed
  qed (simp_all add: commit_block_def wp_simps)
qed


section \<open>Looking up and claiming a chain\<close>

text \<open>Touching an entry changes its age only.\<close>

lemma kv_inv_touch:
  assumes inv: "kv_inv p" and c: "map_of (cached p) h = Some c"
  shows "kv_inv (touch h c p)"
proof (rule kv_inv_index [OF inv])
  have "refs (touch h c p) = refs p"
    using refs_index_update [OF inv, of "touch h c p" h "c\<lparr>last_used := tick p + 1\<rparr>"] c
    by (auto simp: touch_def fun_eq_iff)
  then show "ledger (num_blocks (geom p)) (refcount (touch h c p)) (free (touch h c p)) (refs (touch h c p))"
    using kv_inv_ledger [OF inv] by (simp add: touch_def)
  note im = kv_inv_index_maps [OF inv]
  show "keys_distinct (cached (touch h c p))" "keys_distinct (cached_by_block (touch h c p))"
    using im(1,2) by (simp_all add: touch_def)
  show "map_of (cached_by_block (touch h c p)) (cached_at c') = Some h'"
    if "map_of (cached (touch h c p)) h' = Some c'" for h' c'
    using that im(3) [of h' c'] im(3) [OF c] by (auto simp: touch_def split: if_splits)
  show "\<exists>c'. map_of (cached (touch h c p)) h' = Some c' \<and> cached_at c' = b"
    if "map_of (cached_by_block (touch h c p)) b = Some h'" for b h'
    using that im(4) [of b h'] c by (auto simp: touch_def)
qed (simp add: touch_def index_frame_def)

definition cached_where :: "kv_pool \<Rightarrow> block_hash \<Rightarrow> phys_block_id option" where
  "cached_where p h = map_option cached_at (map_of (cached p) h)"

text \<open>The longest prefix of a chain all of whose hashes are cached.\<close>

definition cached_run :: "kv_pool \<Rightarrow> block_hash list \<Rightarrow> block_hash list" where
  "cached_run p hs = takeWhile (\<lambda>h. map_of (cached p) h \<noteq> None) hs"

lemma cached_where_touch [simp]:
  "map_of (cached p) h = Some c \<Longrightarrow> cached_where (touch h c p) = cached_where p"
  by (auto simp: cached_where_def touch_def fun_eq_iff)

lemma cached_run_where: "cached_run p hs = takeWhile (\<lambda>h. cached_where p h \<noteq> None) hs"
  by (simp add: cached_run_def cached_where_def)

lemma lookup_loop_spec:
  assumes "kv_inv p"
  shows "kv_inv (snd (lookup_loop hs p)) \<and> index_frame p (snd (lookup_loop hs p)) \<and>
    cached_where (snd (lookup_loop hs p)) = cached_where p \<and>
    free (snd (lookup_loop hs p)) = free p \<and> refcount (snd (lookup_loop hs p)) = refcount p \<and>
    stats (snd (lookup_loop hs p)) = stats p \<and>
    map Some (fst (lookup_loop hs p)) = map (cached_where p) (cached_run p hs)"
  using assms
proof (induction hs arbitrary: p)
  case Nil
  then show ?case by (simp add: cached_run_def)
next
  case (Cons h hs)
  show ?case
  proof (cases "map_of (cached p) h")
    case None
    then show ?thesis using Cons.prems by (simp add: cached_run_def)
  next
    case (Some c)
    have run: "cached_run p (h # hs) = h # cached_run (touch h c p) hs"
      using Some by (simp add: cached_run_where cached_where_def [of p])
    have fr: "index_frame p (touch h c p)" "free (touch h c p) = free p"
      "refcount (touch h c p) = refcount p" "stats (touch h c p) = stats p"
      by (simp_all add: touch_def index_frame_def)
    have at: "cached_where p h = Some (cached_at c)" using Some by (simp add: cached_where_def)
    show ?thesis
      using Cons.IH [OF kv_inv_touch [OF Cons.prems Some]] Some fr at run
      by (auto simp: split_beta intro: index_frame_trans)
  qed
qed


lemma kv_inv_stats: "kv_inv (p\<lparr>stats := st\<rparr>) = kv_inv p"
proof -
  have "refs (p\<lparr>stats := st\<rparr>) = refs p" by (simp add: refs_def fun_eq_iff)
  then show ?thesis
    by (simp add: kv_inv_def kv_ok_def counts_ok_def maps_ok_def fills_ok_def owners_ok_def owner_ok_def)
qed

lemma lookup_chain_wp:
  assumes inv: "kv_inv p"
  shows "act_wp (lookup_chain hs)
      (\<lambda>out q. kv_inv q \<and> index_frame p q \<and> free q = free p \<and> refcount q = refcount p \<and>
         cached_where q = cached_where p \<and>
         map Some out = map (cached_where p) (cached_run p hs) \<and>
         stats q = count_lookup (length hs) (length out) (stats p)) E p"
proof -
  obtain out q where l: "lookup_loop hs p = (out, q)" by fastforce
  have w: "cached_where (q\<lparr>stats := st\<rparr>) = cached_where q" for st by (simp add: cached_where_def fun_eq_iff)
  show ?thesis
    using lookup_loop_spec [OF inv, of hs] l w
    by (simp add: lookup_chain_def act_wp_def kv_inv_stats index_frame_def)
qed

lemma lookup_out_pos:
  assumes "map Some out = map (cached_where p) hs" and "b \<in> set out" and "tables q = tables p"
    and "cached_where q = cached_where p"
  shows "0 < refs q b"
proof -
  have "Some b \<in> cached_where p ` set hs"
    using assms(1,2) by (metis image_eqI set_map)
  then obtain h where "cached_where q h = Some b" using assms(4) by auto
  then show ?thesis by (auto simp: cached_where_def intro: cached_refs_pos)
qed

lemma only_session_index_trans:
  "index_frame p q \<Longrightarrow> only_session s q r \<Longrightarrow> cached_where q = cached_where p \<Longrightarrow>
   geom r = geom p \<and> prefixes r = prefixes p \<and> cached_where r = cached_where p \<and>
   (\<forall>u. u \<noteq> s \<longrightarrow> map_of (tables r) u = map_of (tables p) u)"
  by (auto simp: index_frame_def only_session_def same_registry_def cached_where_def fun_eq_iff)

lemma splice_cached_chain_wp:
  assumes inv: "kv_inv p" and own: "\<not> is_prefix_owner p dst"
  shows "act_wp (splice_cached_chain dst hs)
      (\<lambda>tok q. \<exists>d bs. map_of (tables p) dst = Some d \<and> slots d = [] \<and> kv_inv q \<and> free q = free p \<and>
         map Some bs = map (cached_where p) (cached_run p hs) \<and>
         tok = length bs * block_size (geom p) \<and>
         map_of (tables q) dst = Some \<lparr>slots = map Resident bs, filled_tokens = tok\<rparr> \<and>
         geom q = geom p \<and> prefixes q = prefixes p \<and> cached_where q = cached_where p \<and>
         (\<forall>u. u \<noteq> dst \<longrightarrow> map_of (tables q) u = map_of (tables p) u) \<and>
         (\<forall>b < num_blocks (geom p). refcount q ! b = refcount p ! b + count_list bs b))
      (\<lambda>e q. q = p \<and> (case map_of (tables p) dst of None \<Rightarrow> e = UnknownSession
         | Some d \<Rightarrow> slots d \<noteq> [] \<and> e = PrefixTargetNotEmpty)) p"
    (is "act_wp _ ?Q ?E p")
proof (cases "map_of (tables p) dst")
  case None
  then show ?thesis by (simp add: splice_cached_chain_def wp_simps)
next
  case (Some d)
  show ?thesis
  proof (cases "slots d = []")
    case False
    then show ?thesis using Some by (simp add: splice_cached_chain_def wp_simps)
  next
    case True
    have d0: "filled_tokens d = 0"
      using kv_okD(3) [OF inv [unfolded kv_inv_def]] Some True by (force simp: fills_ok_def fill_ok_def)
    let ?rest = "\<lambda>blocks. act_bind (act_get (\<lambda>p. length blocks * block_size (geom p))) (\<lambda>tokens.
       act_bind (table_mut dst (\<lambda>t. t\<lparr>filled_tokens := tokens\<rparr>)) (\<lambda>_. act_ret tokens))"
    have claim: "act_wp (act_bind (act_fold (\<lambda>_ b. share_into dst b) () bs) (\<lambda>_. ?rest bs)) ?Q ?E q"
      if q: "kv_inv q \<and> index_frame p q \<and> free q = free p \<and> refcount q = refcount p \<and>
         cached_where q = cached_where p \<and> map Some bs = map (cached_where p) (cached_run p hs) \<and>
         stats q = count_lookup (length hs) (length bs) (stats p)" for bs q
    proof -
      have dq: "map_of (tables q) dst = Some d" and oq: "\<not> is_prefix_owner q dst" and gq: "geom q = geom p"
        using q Some own by (auto simp: index_frame_def is_prefix_owner_def)
      have pos: "0 < refs q b" if "b \<in> set bs" for b
        using lookup_out_pos [of bs p "cached_run p hs" b q] q that by (auto simp: index_frame_def)
      have fin: "act_wp (?rest bs) ?Q ?E r" if sh: "sharing dst d bs q r" for r
      proof -
        have gr: "geom r = geom p"
          using sh gq by (auto simp: sharing_def only_session_def same_registry_def)
        have "act_wp (table_mut dst (\<lambda>t. t\<lparr>filled_tokens := filled_tokens t + length bs * block_size (geom p)\<rparr>))
            (\<lambda>_ r'. spliced dst d bs (length bs * block_size (geom p)) q r') E r" for E
          by (rule sharing_refill_wp [OF sh _ oq dq]) (use q gq in auto)
        then have "act_wp (table_mut dst (\<lambda>t. t\<lparr>filled_tokens := length bs * block_size (geom p)\<rparr>))
            (\<lambda>_ r'. spliced dst d bs (length bs * block_size (geom p)) q r') ?E r"
          using sh d0 by (simp add: wp_simps sharing_def)
        then have "act_wp (table_mut dst (\<lambda>t. t\<lparr>filled_tokens := length bs * block_size (geom p)\<rparr>))
            (\<lambda>_ r'. ?Q (length bs * block_size (geom p)) r') ?E r"
          by (rule wp_mono)
            (use q Some True d0 gq only_session_index_trans [of p q dst] in \<open>auto simp: spliced_def\<close>)
        then show ?thesis using gr sh by (simp add: wp_simps sharing_def)
      qed
      show ?thesis
        unfolding wp_bind by (rule wp_mono [OF share_loop_wp [OF _ dq oq pos] fin [unfolded wp_bind]])
          (use q in auto)
    qed
    have "act_wp (act_bind (lookup_chain hs) (\<lambda>bs.
        act_bind (act_fold (\<lambda>_ b. share_into dst b) () bs) (\<lambda>_. ?rest bs))) ?Q ?E p"
      unfolding wp_bind [of "lookup_chain hs"]
      by (rule wp_mono [OF lookup_chain_wp [OF inv, of hs, where E = ?E] claim])
    then show ?thesis
      using Some True by (simp add: splice_cached_chain_def wp_bind wp_get_table)
  qed
qed

end
