(* ===== verification/KvMachine.thy ===== *)
theory KvMachine
  imports BlockIndex
begin

text \<open>
  The pool as a state machine: the mutating calls of \<open>KvBlockPool\<close> as one datatype, what a
  client must respect when it makes them, and the step relation they generate. The theorems say
  that every reachable pool keeps the reference ledger, that no call panics, that a refused call
  changes nothing, and that a call only writes the sessions it names.
\<close>

section \<open>Calls\<close>

datatype kv_call =
    Open
  | Append session_handle nat
  | Discard session_handle
  | EvictBlocks session_handle "nat list"
  | EvictSession session_handle
  | EvictRange session_handle nat nat
  | Restore session_handle externalized
  | Splice session_handle session_handle nat nat
  | CowBreak session_handle nat
  | SplicePrefix session_handle session_handle nat
  | RegisterPrefix session_handle nat
  | ReleasePrefix prefix_id
  | SplicePrefixFrom prefix_id session_handle
  | AllocShifted prefix_id session_handle
  | CommitBlock session_handle nat block_hash
  | LookupChain "block_hash list"
  | SpliceCachedChain session_handle "block_hash list"
  | ReleaseCached block_hash

fun run_call :: "kv_call \<Rightarrow> unit pool_act" where
  "run_call Open = forget kv_open"
| "run_call (Append s n) = kv_append s n"
| "run_call (Discard s) = kv_discard s"
| "run_call (EvictBlocks s is) = forget (evict_blocks s is)"
| "run_call (EvictSession s) = forget (kv_evict s)"
| "run_call (EvictRange s from til) = forget (evict_range s from til)"
| "run_call (Restore s h) = kv_restore s h"
| "run_call (Splice src dst from til) = kv_splice src dst from til"
| "run_call (CowBreak s i) = forget (cow_break s i)"
| "run_call (SplicePrefix src dst n) = forget (splice_prefix src dst n)"
| "run_call (RegisterPrefix donor n) = forget (register_prefix donor n)"
| "run_call (ReleasePrefix pid) = release_prefix pid"
| "run_call (SplicePrefixFrom pid dst) = forget (splice_prefix_from pid dst)"
| "run_call (AllocShifted pid dst) = forget (alloc_shifted_prefix_slots pid dst)"
| "run_call (CommitBlock s i h) = forget (commit_block s i h)"
| "run_call (LookupChain hs) = forget (lookup_chain hs)"
| "run_call (SpliceCachedChain dst hs) = forget (splice_cached_chain dst hs)"
| "run_call (ReleaseCached h) = release_cached h"

text \<open>
  The pool never hands out the session that owns a registered prefix, so a client cannot name
  one; and it restores a handle into a table the handle still fits.
\<close>

fun client_ok :: "kv_call \<Rightarrow> kv_pool \<Rightarrow> bool" where
  "client_ok (Append s n) p = (\<not> is_prefix_owner p s)"
| "client_ok (Discard s) p = (\<not> is_prefix_owner p s)"
| "client_ok (Restore s h) p = (\<not> is_prefix_owner p s \<and>
     (case map_of (tables p) s of None \<Rightarrow> True | Some t \<Rightarrow> handle_fits t h))"
| "client_ok (Splice src dst from til) p = (\<not> is_prefix_owner p dst)"
| "client_ok (CowBreak s i) p = (\<not> is_prefix_owner p s)"
| "client_ok (SplicePrefix src dst n) p = (\<not> is_prefix_owner p dst)"
| "client_ok (SplicePrefixFrom pid dst) p = (\<not> is_prefix_owner p dst)"
| "client_ok (AllocShifted pid dst) p = (\<not> is_prefix_owner p dst)"
| "client_ok (SpliceCachedChain dst hs) p = (\<not> is_prefix_owner p dst)"
| "client_ok _ p = True"

inductive kv_step :: "kv_pool \<Rightarrow> kv_pool \<Rightarrow> bool" where
  kv_stepI: "client_ok c p \<Longrightarrow> run_call c p = (r, q) \<Longrightarrow> kv_step p q"

inductive_cases kv_stepE: "kv_step p q"

text \<open>The sessions whose tables a call may change.\<close>

fun may_write :: "kv_call \<Rightarrow> kv_pool \<Rightarrow> session_handle \<Rightarrow> bool" where
  "may_write Open p u = (u = next_session p)"
| "may_write (Append s n) p u = (u = s)"
| "may_write (Discard s) p u = (u = s)"
| "may_write (EvictBlocks s is) p u = (u = s)"
| "may_write (EvictSession s) p u = (u = s)"
| "may_write (EvictRange s from til) p u = (u = s)"
| "may_write (Restore s h) p u = (u = s)"
| "may_write (Splice src dst from til) p u = (u = dst)"
| "may_write (CowBreak s i) p u = (u = s)"
| "may_write (SplicePrefix src dst n) p u = (u = dst)"
| "may_write (RegisterPrefix donor n) p u = (u = next_session p)"
| "may_write (ReleasePrefix pid) p u =
     (case map_of (prefixes p) pid of None \<Rightarrow> False | Some po \<Rightarrow> u = owner po)"
| "may_write (SplicePrefixFrom pid dst) p u = (u = dst)"
| "may_write (AllocShifted pid dst) p u = (u = dst)"
| "may_write (SpliceCachedChain dst hs) p u = (u = dst)"
| "may_write _ p u = False"

section \<open>Every call\<close>

definition refused_state :: "kv_call \<Rightarrow> kv_pool \<Rightarrow> kv_pool" where
  "refused_state c p = (case c of
     RegisterPrefix donor n \<Rightarrow> p\<lparr>next_session := next_session p + 1\<rparr> | _ \<Rightarrow> p)"

definition accepted :: "kv_call \<Rightarrow> kv_pool \<Rightarrow> kv_pool \<Rightarrow> bool" where
  "accepted c p q \<longleftrightarrow> kv_inv q \<and> geom q = geom p \<and>
     (\<forall>u. \<not> may_write c p u \<longrightarrow> map_of (tables q) u = map_of (tables p) u)"

lemma kv_inv_next_session:
  assumes inv: "kv_inv p"
  shows "kv_inv (p\<lparr>next_session := next_session p + 1\<rparr>)"
proof -
  note ok = inv [unfolded kv_inv_def]
  let ?p = "p\<lparr>next_session := next_session p + 1\<rparr>"
  have "refs ?p = refs p" by (simp add: refs_def fun_eq_iff)
  then have "counts_ok [] ?p" using kv_okD(1) [OF ok] by (simp add: counts_ok_def)
  moreover have "maps_ok ?p" using kv_okD(2) [OF ok] unfolding maps_ok_def by (auto simp: less_Suc_eq)
  moreover have "fills_ok ?p" using kv_okD(3) [OF ok] by (simp add: fills_ok_def)
  moreover have "owners_ok ?p" using kv_okD(4) [OF ok] by (simp add: owners_ok_def owner_ok_def)
  ultimately show ?thesis by (simp add: kv_inv_def kv_ok_def)
qed

lemma accepted_only:
  assumes "kv_inv q" and "only_session s p q" and "\<And>u. may_write c p u \<longleftrightarrow> u = s"
  shows "accepted c p q"
  using assms by (auto simp: accepted_def only_session_def same_registry_def)

lemma call_only:
  assumes "act_wp m Q E p"
    and "\<And>a q. Q a q \<Longrightarrow> kv_inv q \<and> only_session s p q"
    and "\<And>e q. E e q \<Longrightarrow> q = p"
    and "\<And>u. may_write c p u \<longleftrightarrow> u = s" and "refused_state c p = p"
  shows "act_wp m (\<lambda>_ q. accepted c p q) (\<lambda>_ q. q = refused_state c p) p"
  by (rule wp_mono [OF assms(1)]) (use assms(2-5) accepted_only [of _ s p c] in auto)

lemma call_index:
  assumes "act_wp m Q E p"
    and "\<And>a q. Q a q \<Longrightarrow> kv_inv q \<and> index_frame p q"
    and "\<And>e q. E e q \<Longrightarrow> q = p" and "refused_state c p = p"
  shows "act_wp m (\<lambda>_ q. accepted c p q) (\<lambda>_ q. q = refused_state c p) p"
  by (rule wp_mono [OF assms(1)]) (use assms(2-4) in \<open>auto simp: accepted_def index_frame_def\<close>)

lemma evict_blocks_frame:
  assumes inv: "kv_inv p"
  shows "act_wp (evict_blocks s is) (\<lambda>_ q. kv_inv q \<and> only_session s p q) (\<lambda>_ q. q = p) p"
  by (rule wp_mono [OF evict_blocks_wp [OF inv]]) (auto simp: evict_progress_def)

text \<open>The calls on one session.\<close>

lemma session_calls_wp:
  assumes inv: "kv_inv p" and cl: "client_ok c p"
    and c: "c \<in> {Open, Append s n, Discard s, EvictBlocks s is, EvictSession s, EvictRange s lo til,
      Restore s h, CowBreak s n}"
  shows "act_wp (run_call c) (\<lambda>_ q. accepted c p q) (\<lambda>_ q. q = refused_state c p) p"
proof -
  note frame = evict_progress_def restoring_def refused_state_def
  consider "c = Open" | "c = Append s n" | "c = Discard s" | "c = EvictBlocks s is" | "c = EvictSession s"
    | "c = EvictRange s lo til" | "c = Restore s h" | "c = CowBreak s n"
    using c by blast
  then show ?thesis
  proof cases
    case 1
    then show ?thesis
      using kv_open_wp [OF inv, where E = "\<lambda>_ _. False"] by (simp add: wp_simps wp_kv_open accepted_def)
  next
    case 2
    have "act_wp (kv_append s n) (\<lambda>_ q. accepted c p q) (\<lambda>_ q. q = refused_state c p) p"
      by (rule call_only [of _ _ _ p s c, OF kv_append_wp [OF inv]]) (use cl in \<open>auto simp: frame 2\<close>)
    then show ?thesis by (simp add: 2)
  next
    case 3
    have "act_wp (kv_discard s) (\<lambda>_ q. accepted c p q) (\<lambda>_ q. q = refused_state c p) p"
      by (rule call_only [of _ _ _ p s c, OF kv_discard_wp [OF inv]]) (use cl in \<open>auto simp: frame 3\<close>)
    then show ?thesis by (simp add: 3)
  next
    case 4
    have "act_wp (evict_blocks s is) (\<lambda>_ q. accepted c p q) (\<lambda>_ q. q = refused_state c p) p"
      by (rule call_only [of _ _ _ p s c, OF evict_blocks_frame [OF inv]]) (use cl in \<open>auto simp: frame 4\<close>)
    then show ?thesis by (simp add: 4 wp_simps)
  next
    case 5
    have "act_wp (kv_evict s) (\<lambda>_ q. accepted c p q) (\<lambda>_ q. q = refused_state c p) p"
      by (rule call_only [of _ _ _ p s c, OF kv_evict_wp [OF inv]]) (use cl in \<open>auto simp: frame 5\<close>)
    then show ?thesis by (simp add: 5 wp_simps)
  next
    case 6
    have "act_wp (evict_blocks s [lo..<til]) (\<lambda>_ q. accepted c p q) (\<lambda>_ q. q = refused_state c p) p"
      by (rule call_only [of _ _ _ p s c, OF evict_blocks_frame [OF inv]]) (auto simp: frame 6)
    then show ?thesis by (simp add: 6 evict_range_def wp_simps) (simp add: refused_state_def)
  next
    case 7
    have "act_wp (kv_restore s h) (\<lambda>_ q. accepted c p q) (\<lambda>_ q. q = refused_state c p) p"
      by (rule call_only [of _ _ _ p s c, OF kv_restore_wp [OF inv]]) (use cl in \<open>auto simp: frame 7\<close>)
    then show ?thesis by (simp add: 7)
  next
    case 8
    have "act_wp (cow_break s n) (\<lambda>_ q. accepted c p q) (\<lambda>_ q. q = refused_state c p) p"
      by (rule call_only [of _ _ _ p s c, OF cow_break_wp [OF inv]]) (use cl in \<open>auto simp: frame 8\<close>)
    then show ?thesis by (simp add: 8 wp_simps)
  qed
qed

text \<open>The calls that share blocks into a session, and the prefix registry.\<close>

lemma sharing_calls_wp:
  assumes inv: "kv_inv p" and cl: "client_ok c p"
    and c: "c \<in> {Splice src dst lo til, SplicePrefix src dst n, SplicePrefixFrom pid dst,
      AllocShifted pid dst, RegisterPrefix src n, ReleasePrefix pid}"
  shows "act_wp (run_call c) (\<lambda>_ q. accepted c p q) (\<lambda>_ q. q = refused_state c p) p"
proof -
  consider "c = Splice src dst lo til" | "c = SplicePrefix src dst n" | "c = SplicePrefixFrom pid dst"
    | "c = AllocShifted pid dst" | "c = RegisterPrefix src n" | "c = ReleasePrefix pid"
    using c by blast
  then show ?thesis
  proof cases
    case 1
    have "act_wp (kv_splice src dst lo til) (\<lambda>_ q. accepted c p q) (\<lambda>_ q. q = refused_state c p) p"
      by (rule call_only [of _ _ _ p dst c, OF kv_splice_wp [OF inv]]) (use cl in \<open>auto simp: spliced_def refused_state_def 1\<close>)
    then show ?thesis by (simp add: 1)
  next
    case 2
    have "act_wp (splice_prefix src dst n) (\<lambda>_ q. accepted c p q) (\<lambda>_ q. q = refused_state c p) p"
      by (rule call_only [of _ _ _ p dst c, OF splice_prefix_wp [OF inv]]) (use cl in \<open>auto simp: spliced_def refused_state_def 2\<close>)
    then show ?thesis by (simp add: 2 wp_simps)
  next
    case 3
    have "act_wp (splice_prefix_from pid dst) (\<lambda>_ q. accepted c p q) (\<lambda>_ q. q = refused_state c p) p"
      by (rule call_only [of _ _ _ p dst c, OF splice_prefix_from_wp [OF inv]]) (use cl in \<open>auto simp: spliced_def refused_state_def 3\<close>)
    then show ?thesis by (simp add: 3 wp_simps)
  next
    case 4
    have "act_wp (alloc_shifted_prefix_slots pid dst) (\<lambda>_ q. accepted c p q) (\<lambda>_ q. q = refused_state c p) p"
      by (rule call_only [of _ _ _ p dst c, OF alloc_shifted_prefix_slots_wp [OF inv]]) (use cl in \<open>auto simp: refused_state_def 4\<close>)
    then show ?thesis by (simp add: 4 wp_simps)
  next
    case 5
    have "act_wp (register_prefix src n) (\<lambda>_ q. accepted c p q) (\<lambda>_ q. q = refused_state c p) p"
      by (rule wp_mono [OF register_prefix_wp [OF inv]]) (auto simp: accepted_def refused_state_def 5)
    then show ?thesis by (simp add: 5 wp_simps)
  next
    case 6
    have "act_wp (release_prefix pid) (\<lambda>_ q. accepted c p q) (\<lambda>_ q. q = refused_state c p) p"
      by (rule wp_mono [OF release_prefix_wp [OF inv]]) (auto simp: accepted_def refused_state_def 6)
    then show ?thesis by (simp add: 6)
  qed
qed

text \<open>The calls on the content index.\<close>

lemma index_calls_wp:
  assumes inv: "kv_inv p" and cl: "client_ok c p"
    and c: "c \<in> {CommitBlock s n h, LookupChain hs, SpliceCachedChain s hs, ReleaseCached h}"
  shows "act_wp (run_call c) (\<lambda>_ q. accepted c p q) (\<lambda>_ q. q = refused_state c p) p"
proof -
  consider "c = CommitBlock s n h" | "c = LookupChain hs" | "c = SpliceCachedChain s hs" | "c = ReleaseCached h"
    using c by blast
  then show ?thesis
  proof cases
    case 1
    have "act_wp (commit_block s n h) (\<lambda>_ q. accepted c p q) (\<lambda>_ q. q = refused_state c p) p"
      by (rule call_index [OF commit_block_wp [OF inv]]) (auto simp: refused_state_def 1)
    then show ?thesis by (simp add: 1 wp_simps)
  next
    case 2
    have "act_wp (lookup_chain hs) (\<lambda>_ q. accepted c p q) (\<lambda>_ q. q = refused_state c p) p"
      by (rule call_index [OF lookup_chain_wp [OF inv, where E = "\<lambda>_ _. False"]]) (auto simp: refused_state_def 2)
    then show ?thesis by (simp add: 2 wp_simps)
  next
    case 3
    have "act_wp (splice_cached_chain s hs) (\<lambda>_ q. accepted c p q) (\<lambda>_ q. q = refused_state c p) p"
      by (rule wp_mono [OF splice_cached_chain_wp [OF inv]])
        (use cl in \<open>auto simp: accepted_def refused_state_def 3\<close>)
    then show ?thesis by (simp add: 3 wp_simps)
  next
    case 4
    have "act_wp (release_cached h) (\<lambda>_ q. accepted c p q) (\<lambda>_ q. q = refused_state c p) p"
      by (rule call_index [OF release_cached_wp [OF inv]]) (auto simp: refused_state_def 4)
    then show ?thesis by (simp add: 4)
  qed
qed

lemma run_call_wp:
  assumes inv: "kv_inv p" and cl: "client_ok c p"
  shows "act_wp (run_call c) (\<lambda>_ q. accepted c p q) (\<lambda>_ q. q = refused_state c p) p"
  by (cases c) (rule session_calls_wp [OF inv cl] sharing_calls_wp [OF inv cl] index_calls_wp [OF inv cl];
    simp only: insert_iff; blast)+


lemma run_call_cases:
  assumes "kv_inv p" and "client_ok c p"
  shows "case run_call c p of (Ok a, q) \<Rightarrow> accepted c p q | (Err e, q) \<Rightarrow> q = refused_state c p
    | (Panic, _) \<Rightarrow> False"
  using wpI_result [OF run_call_wp [OF assms]] .

lemma refused_state_inv: "kv_inv p \<Longrightarrow> kv_inv (refused_state c p) \<and> geom (refused_state c p) = geom p"
  using kv_inv_next_session by (simp add: refused_state_def split: kv_call.split)

lemma kv_step_inv:
  assumes inv: "kv_inv p" and "kv_step p q"
  shows "kv_inv q" and "geom q = geom p"
proof -
  obtain c r where c: "client_ok c p" "run_call c p = (r, q)" using assms(2) by (rule kv_stepE)
  have "accepted c p q \<or> q = refused_state c p"
    using run_call_cases [OF inv c(1)] c(2) by (cases r) auto
  then show "kv_inv q" and "geom q = geom p"
    using refused_state_inv [OF inv, of c] by (auto simp: accepted_def)
qed

section \<open>Reachable pools\<close>

lemma kv_new_inv:
  assumes "num_blocks g < 2 ^ 32" and "0 < block_size g"
  shows "kv_inv (kv_new g)"
proof -
  have r: "refs (kv_new g) b = 0" for b by (simp add: refs_def kv_new_def)
  have "ledger (num_blocks g) (replicate (num_blocks g) 0) (rev [0..<num_blocks g]) (\<lambda>b. 0)"
    by (rule ledgerI) auto
  then have "counts_ok [] (kv_new g)" using assms(1) r by (simp add: counts_ok_def kv_new_def)
  moreover have "maps_ok (kv_new g)" using assms(2) by (simp add: maps_ok_def kv_new_def)
  moreover have "fills_ok (kv_new g)" "owners_ok (kv_new g)"
    by (simp_all add: fills_ok_def owners_ok_def kv_new_def)
  ultimately show ?thesis by (simp add: kv_inv_def kv_ok_def)
qed

interpretation kv: stepped_system kv_step "\<lambda>p. kv_inv p \<and> geom p = g"
  by unfold_locales (auto dest: kv_step_inv)

lemma kv_reachable:
  assumes "num_blocks g < 2 ^ 32" and "0 < block_size g" and "rtranclp kv_step (kv_new g) p"
  shows "kv_inv p" and "geom p = g"
  using kv.invar_steps [OF assms(3), of g] kv_new_inv [OF assms(1,2)] by (auto simp: kv_new_def)

text \<open>A run of calls from a fresh pool, each one a call its client may make.\<close>

fun calls_ok :: "kv_call list \<Rightarrow> kv_pool \<Rightarrow> bool" where
  "calls_ok [] p = True"
| "calls_ok (c # cs) p = (client_ok c p \<and> calls_ok cs (snd (run_call c p)))"

fun after_calls :: "kv_call list \<Rightarrow> kv_pool \<Rightarrow> kv_pool" where
  "after_calls [] p = p"
| "after_calls (c # cs) p = after_calls cs (snd (run_call c p))"

lemma after_calls_reachable: "calls_ok cs p \<Longrightarrow> rtranclp kv_step p (after_calls cs p)"
proof (induction cs arbitrary: p)
  case (Cons c cs)
  have "kv_step p (snd (run_call c p))"
    using Cons.prems by (intro kv_stepI [of c p "fst (run_call c p)"]) auto
  then show ?case using Cons.IH [of "snd (run_call c p)"] Cons.prems
    by (auto intro: converse_rtranclp_into_rtranclp)
qed simp

definition small_geometry :: kv_geometry where
  "small_geometry = \<lparr>n_layers = 1, num_blocks = 6, block_size = 4, n_kv_heads = 1, head_dim = 2, elem_size = 4\<rparr>"

definition small_pool :: kv_pool where
  "small_pool = \<lparr>geom = small_geometry, free = [5, 4, 3, 2, 1, 0], refcount = [0, 0, 0, 0, 0, 0],
     tables = [], next_session = 0, prefixes = [], next_prefix = 0, cached = [], cached_by_block = [],
     tick = 0, stats = \<lparr>lookups = 0, block_hits = 0, block_misses = 0, commits = 0, evictions = 0\<rparr>\<rparr>"

lemma small_pool_new: "kv_new small_geometry = small_pool"
proof -
  have "rev [0..<6] = [5, 4, 3, 2, 1, 0 :: nat]" "replicate 6 0 = [0, 0, 0, 0, 0, 0 :: nat]" by code_simp+
  then show ?thesis by (simp add: kv_new_def small_pool_def small_geometry_def)
qed

lemma small_run:
  assumes "calls_ok cs small_pool"
  shows "rtranclp kv_step (kv_new small_geometry) (after_calls cs small_pool)"
    and "kv_inv (after_calls cs small_pool)"
  using after_calls_reachable [OF assms] kv_reachable(1) [of small_geometry]
  by (auto simp: small_geometry_def small_pool_new [symmetric, unfolded small_geometry_def])

text \<open>Two sessions share the first two of three blocks; the third of session 0 is its own.\<close>

definition shared_calls :: "kv_call list" where
  "shared_calls = [Open, Open, Append 0 10, Splice 0 1 0 2]"

definition shared_pool :: kv_pool where
  "shared_pool = \<lparr>geom = small_geometry, free = [5, 4, 3], refcount = [2, 2, 1, 0, 0, 0],
     tables = [(0, \<lparr>slots = [Resident 0, Resident 1, Resident 2], filled_tokens = 10\<rparr>),
       (1, \<lparr>slots = [Resident 0, Resident 1], filled_tokens = 8\<rparr>)],
     next_session = 2, prefixes = [], next_prefix = 0, cached = [], cached_by_block = [], tick = 0,
     stats = \<lparr>lookups = 0, block_hits = 0, block_misses = 0, commits = 0, evictions = 0\<rparr>\<rparr>"

lemma shared_calls_ok: "calls_ok shared_calls small_pool"
  by code_simp

lemma shared_pool_eq: "after_calls shared_calls small_pool = shared_pool"
  by code_simp

lemma shared_pool_inv: "kv_inv shared_pool" "rtranclp kv_step (kv_new small_geometry) shared_pool"
  using small_run [OF shared_calls_ok] by (simp_all add: shared_pool_eq)

end
