(* ===== verification/Float64.thy ===== *)
theory Float64
  imports Prelude
begin

text \<open>
  The doubles the host code computes with: a finite double is its exact value \<open>m / 2 ^ k\<close>, and the
  operations round to 53 significant bits, half to even. Products and quotients of byte counts stay
  far inside the exponent range, so only the precision is modelled.
\<close>

datatype f64 = F64_nan | F64_inf | F64_neg_inf | F64_fin int nat

section \<open>Rounding to the precision of a double\<close>

fun bit_length :: "nat \<Rightarrow> nat" where
  "bit_length n = (if n = 0 then 0 else Suc (bit_length (n div 2)))"

declare bit_length.simps [simp del]

definition round_even :: "nat \<Rightarrow> nat \<Rightarrow> nat" where
  "round_even s n = (let q = n div 2 ^ s; r = n mod 2 ^ s in
     if 2 ^ s < 2 * r \<or> 2 * r = 2 ^ s \<and> odd q then q + 1 else q)"

definition round53 :: "nat \<Rightarrow> nat" where
  "round53 n = (let s = bit_length n - 53 in round_even s n * 2 ^ s)"

definition f64_mul_floor :: "nat \<Rightarrow> nat \<Rightarrow> nat \<Rightarrow> nat" where
  "f64_mul_floor n m k = min (round53 (round53 n * m) div 2 ^ k) (2 ^ 64 - 1)"

text \<open>
  The quotient of two positive counts, as a numerator over \<open>2 ^ k\<close>: enough bits are kept that the
  last one, set when the division is inexact, decides ties only.
\<close>

definition f64_div :: "nat \<Rightarrow> nat \<Rightarrow> nat \<times> nat" where
  "f64_div a b = (let x = round53 a; y = round53 b; k = 55 + bit_length y;
     n = x * 2 ^ k div y; sticky = (if x * 2 ^ k mod y = 0 then 0 else 1)
     in (round53 (2 * n + sticky), Suc k))"

text \<open>\<open>n / 2 ^ k \<ge> t\<close>; a comparison with a NaN is false.\<close>

fun f64_ge :: "nat \<times> nat \<Rightarrow> f64 \<Rightarrow> bool" where
  "f64_ge (n, k) (F64_fin m j) = (m * 2 ^ k \<le> int n * 2 ^ j)"
| "f64_ge _ F64_nan = False"
| "f64_ge _ F64_inf = False"
| "f64_ge _ F64_neg_inf = True"

definition f64_unit_range :: "f64 \<Rightarrow> bool" where
  "f64_unit_range x = (case x of F64_fin m k \<Rightarrow> 0 \<le> m \<and> m \<le> 2 ^ k | _ \<Rightarrow> False)"

section \<open>Rounding never exceeds a representable bound\<close>

lemma bit_length_bounds:
  "0 < n \<Longrightarrow> 2 ^ (bit_length n - 1) \<le> n \<and> n < 2 ^ bit_length n \<and> 0 < bit_length n"
proof (induction n rule: bit_length.induct)
  case (1 n)
  show ?case
  proof (cases "n div 2 = 0")
    case True
    then have "n = 1" using 1(2) by auto
    moreover have "bit_length 1 = 1" by (simp add: bit_length.simps)
    ultimately show ?thesis by simp
  next
    case False
    let ?l = "bit_length (n div 2)"
    have ih: "2 ^ (?l - 1) \<le> n div 2" "n div 2 < 2 ^ ?l" "0 < ?l" using 1 False by auto
    have "bit_length n = Suc ?l" using 1(2) by (subst bit_length.simps) simp
    moreover have "2 ^ ?l \<le> n" using ih(1,3) by (cases ?l) auto
    moreover have "n < 2 ^ Suc ?l" using ih(2) by simp
    ultimately show ?thesis by simp
  qed
qed

lemma round_even_bounds:
  "round_even s n = n div 2 ^ s \<or> round_even s n = n div 2 ^ s + 1 \<and> n mod 2 ^ s \<noteq> 0"
proof -
  have "n mod 2 ^ s \<noteq> 0" if "2 * (n mod 2 ^ s) = 2 ^ s" using that by (metis mult_0_right power_eq_0_iff zero_neq_numeral)
  then show ?thesis by (auto simp: round_even_def Let_def)
qed

lemma round53_exact: "n < 2 ^ 53 \<Longrightarrow> round53 n = n"
proof (cases "n = 0")
  case False
  assume n: "n < 2 ^ 53"
  have "bit_length n \<le> 53"
  proof (rule ccontr)
    assume "\<not> bit_length n \<le> 53"
    then have "(2 :: nat) ^ 53 \<le> 2 ^ (bit_length n - 1)" by (intro power_increasing) auto
    then show False using bit_length_bounds [of n] n False by linarith
  qed
  then show ?thesis by (simp add: round53_def round_even_def)
qed (simp add: round53_def round_even_def bit_length.simps [of 0])

lemma round53_le:
  assumes n: "n \<le> d * 2 ^ k" and d: "d < 2 ^ 53"
  shows "round53 n \<le> d * 2 ^ k"
proof (cases "bit_length n \<le> 53")
  case True
  then show ?thesis using n by (simp add: round53_def round_even_def)
next
  case False
  define s where "s = bit_length n - 53"
  have pos: "0 < n" using False by (cases n) (auto simp: bit_length.simps [of 0])
  have "2 ^ (52 + s) \<le> n" using bit_length_bounds [OF pos] False by (simp add: s_def)
  also have "n \<le> d * 2 ^ k" by (rule n)
  also have "d * 2 ^ k < 2 ^ 53 * 2 ^ k" using d by simp
  also have "(2 :: nat) ^ 53 * 2 ^ k = 2 ^ (53 + k)" by (simp add: power_add)
  finally have "s \<le> k" using power_less_imp_less_exp [of "2 :: nat" "52 + s" "53 + k"] by simp
  then have dvd: "2 ^ s dvd d * (2 :: nat) ^ k" by (simp add: le_imp_power_dvd)
  have "round_even s n * 2 ^ s \<le> d * 2 ^ k"
    using round_even_bounds [of s n]
  proof
    assume "round_even s n = n div 2 ^ s"
    then show ?thesis using order_trans [OF div_times_less_eq_dividend n, of "2 ^ s"] by simp
  next
    assume up: "round_even s n = n div 2 ^ s + 1 \<and> n mod 2 ^ s \<noteq> 0"
    obtain c where c: "d * 2 ^ k = c * 2 ^ s" using dvd by (metis dvdE mult.commute)
    have "n div 2 ^ s * 2 ^ s < c * 2 ^ s"
      using up n c div_mult_mod_eq [of n "2 ^ s"] by linarith
    then have "n div 2 ^ s + 1 \<le> c" by simp
    then show ?thesis using up c by (metis mult_le_mono1)
  qed
  then show ?thesis by (simp add: round53_def s_def Let_def)
qed

lemma f64_mul_floor_le:
  assumes "n < 2 ^ 53" and "m \<le> 2 ^ k"
  shows "f64_mul_floor n m k \<le> n"
proof -
  have "round53 (n * m) \<le> n * 2 ^ k" by (rule round53_le) (use assms in auto)
  then have "round53 (n * m) div 2 ^ k \<le> n" using div_le_mono [of "round53 (n * m)" "n * 2 ^ k" "2 ^ k"] by simp
  then show ?thesis using assms(1) by (simp add: f64_mul_floor_def round53_exact)
qed

section \<open>Rounding is monotone\<close>

lemma mod_le_same_div:
  fixes x y d :: nat
  assumes "x \<le> y" and "x div d = y div d"
  shows "x mod d \<le> y mod d"
proof -
  have "y div d * d + x mod d \<le> y div d * d + y mod d"
    using assms(1) div_mult_mod_eq [of x d] div_mult_mod_eq [of y d] unfolding assms(2) by linarith
  then show ?thesis by (simp only: add_le_cancel_left)
qed

lemma round_even_mono:
  assumes "a \<le> b"
  shows "round_even s a \<le> round_even s b"
proof -
  have q: "a div 2 ^ s \<le> b div 2 ^ s" using assms by (rule div_le_mono)
  show ?thesis
  proof (cases "a div 2 ^ s = b div 2 ^ s")
    case True
    then show ?thesis using mod_le_same_div [OF assms True] by (auto simp: round_even_def Let_def)
  next
    case False
    then show ?thesis using q round_even_bounds [of s a] round_even_bounds [of s b] by linarith
  qed
qed

lemma bit_length_mono: "a \<le> b \<Longrightarrow> bit_length a \<le> bit_length b"
proof (induction b arbitrary: a rule: bit_length.induct)
  case (1 n)
  then show ?case
    by (cases "a = 0") (auto simp: bit_length.simps [of a] bit_length.simps [of n] bit_length.simps [of 0] div_le_mono)
qed

lemma round53_top: "round53 n \<le> 2 ^ bit_length n"
proof (cases "n = 0 \<or> bit_length n \<le> 53")
  case True
  then have "round53 n = n" by (auto simp: round53_def round_even_def bit_length.simps [of 0])
  then show ?thesis using bit_length_bounds [of n] by (cases "n = 0") auto
next
  case False
  let ?s = "bit_length n - 53"
  have "bit_length n = 53 + ?s" using False by simp
  then have "(2 :: nat) ^ bit_length n = 2 ^ 53 * 2 ^ ?s" by (metis power_add)
  moreover have "n div 2 ^ ?s < 2 ^ 53"
    using False bit_length_bounds [of n] calculation by (simp add: div_less_iff_less_mult)
  then have "round_even ?s n \<le> 2 ^ 53" using round_even_bounds [of ?s n] by linarith
  ultimately show ?thesis by (simp add: round53_def Let_def)
qed

lemma round53_bottom: "0 < n \<Longrightarrow> 2 ^ (bit_length n - 1) \<le> round53 n"
proof -
  assume pos: "0 < n"
  let ?s = "bit_length n - 53"
  show ?thesis
  proof (cases "bit_length n \<le> 53")
    case True
    then show ?thesis using bit_length_bounds [OF pos] by (simp add: round53_def round_even_def)
  next
    case False
    have "bit_length n - 1 = 52 + ?s" using False by simp
    then have e: "(2 :: nat) ^ (bit_length n - 1) = 2 ^ 52 * 2 ^ ?s" by (simp only: power_add)
    then have "2 ^ 52 \<le> n div 2 ^ ?s" using bit_length_bounds [OF pos] by (simp add: less_eq_div_iff_mult_less_eq)
    then have "2 ^ 52 \<le> round_even ?s n" using round_even_bounds [of ?s n] by linarith
    then show ?thesis unfolding e by (simp add: round53_def Let_def)
  qed
qed

lemma round53_mono:
  assumes "a \<le> b"
  shows "round53 a \<le> round53 b"
proof (cases "bit_length a = bit_length b")
  case True
  then show ?thesis using round_even_mono [OF assms] by (simp add: round53_def Let_def)
next
  case False
  then have lt: "bit_length a < bit_length b" using bit_length_mono [OF assms] by simp
  then have pos: "0 < b" by (cases b) (auto simp: bit_length.simps [of 0])
  have "round53 a \<le> 2 ^ bit_length a" by (rule round53_top)
  also have "\<dots> \<le> 2 ^ (bit_length b - 1)" using lt by (intro power_increasing) auto
  also have "\<dots> \<le> round53 b" by (rule round53_bottom [OF pos])
  finally show ?thesis .
qed

lemma sticky_mono:
  fixes x y d :: nat
  assumes "x \<le> y"
  shows "2 * (x div d) + (if x mod d = 0 then 0 else 1) \<le> 2 * (y div d) + (if y mod d = 0 then 0 else 1)"
proof (cases "x div d = y div d")
  case True
  then show ?thesis using mod_le_same_div [OF assms True] by auto
next
  case False
  then have "x div d + 1 \<le> y div d" using div_le_mono [OF assms, of d] by linarith
  then show ?thesis by auto
qed

lemma f64_div_mono:
  assumes "a \<le> a'"
  shows "fst (f64_div a b) \<le> fst (f64_div a' b) \<and> snd (f64_div a b) = snd (f64_div a' b)"
  unfolding f64_div_def Let_def fst_conv snd_conv
  by (intro conjI refl round53_mono sticky_mono mult_le_mono1 assms)

lemma f64_ge_mono:
  assumes "f64_ge x t" and "fst x \<le> fst y" and "snd x = snd y"
  shows "f64_ge y t"
proof (cases t)
  case (F64_fin m j)
  have "m * 2 ^ snd x \<le> int (fst x) * 2 ^ j" using assms(1) F64_fin by (cases x) simp
  also have "\<dots> \<le> int (fst y) * 2 ^ j" using assms(2) by simp
  finally show ?thesis using assms(3) F64_fin by (cases y) simp
qed (use assms(1) in \<open>cases x; cases y; simp\<close>)+

lemma f64_ge_div_mono: "f64_ge (f64_div a b) t \<Longrightarrow> a \<le> a' \<Longrightarrow> f64_ge (f64_div a' b) t"
  using f64_ge_mono f64_div_mono by blast

end
