(* ===== verification/KvSizing.thy ===== *)
theory KvSizing
  imports KvPool Float64
begin

text \<open>
  Sizing a pool from a device budget (\<open>fuel-kv-pool/src/sizing.rs\<close>). The product of the device
  size and the utilization is the rounded product of doubles.
\<close>

record kv_budget =
  device_bytes :: nat
  utilization :: f64
  non_kv_resident :: nat

datatype kv_sizing_error =
    InvalidUtilization f64
  | ZeroSizedBlock
  | NoRoomForABlock nat nat nat

section \<open>The sizing functions\<close>

definition usable_bytes :: "kv_budget \<Rightarrow> (nat, kv_sizing_error) rust" where
  "usable_bytes b = (case utilization b of
     F64_fin m k \<Rightarrow>
       if m \<le> 0 \<or> 2 ^ k < m then Err (InvalidUtilization (utilization b))
       else Ok (f64_mul_floor (device_bytes b) (nat m) k)
   | _ \<Rightarrow> Err (InvalidUtilization (utilization b)))"

definition kv_bytes :: "kv_budget \<Rightarrow> (nat, kv_sizing_error) rust" where
  "kv_bytes b = rust_bind (usable_bytes b) (\<lambda>u. Ok (u - non_kv_resident b))"

definition fit_to_budget :: "kv_geometry \<Rightarrow> kv_budget \<Rightarrow> (kv_geometry, kv_sizing_error) rust" where
  "fit_to_budget g b =
     (if bytes_per_block g = 0 then Err ZeroSizedBlock
      else rust_bind (usable_bytes b) (\<lambda>u.
        let blocks = (u - non_kv_resident b) div bytes_per_block g in
        if blocks = 0 then Err (NoRoomForABlock u (non_kv_resident b) (bytes_per_block g))
        else Ok (g\<lparr>num_blocks := blocks\<rparr>)))"

definition non_kv_resident_bytes :: "nat \<Rightarrow> kv_geometry \<Rightarrow> nat" where
  "non_kv_resident_bytes peak probe = peak - min (2 ^ 64 - 1) (bytes_per_block probe * num_blocks probe)"

end
