(* ===== verification/KvProperties.thy ===== *)
theory KvProperties
  imports KvMachine KvSizing
begin

text \<open>
  The properties of the paged KV pool: the ledger of every reachable pool, totality, atomicity and
  isolation of the calls, admission, eviction and restore, copy-on-write, prefixes, the content
  index, its hash, and sizing.
\<close>

section \<open>The pool as a state machine\<close>





text \<open>
  C3: A refused call changes nothing: whenever a call returns an error, the pool is the one before
  the call, except that a refused \<open>register_prefix\<close> has used up one session number.
\<close>

theorem kv_refused_unchanged:
  assumes "num_blocks g < 2 ^ 32" and "0 < block_size g" and "rtranclp kv_step (kv_new g) p"
    and "client_ok c p" and "run_call c p = (Err e, q)"
  shows "q = (case c of RegisterPrefix donor n \<Rightarrow> p\<lparr>next_session := next_session p + 1\<rparr> | _ \<Rightarrow> p)"
  using wp_Err [OF run_call_wp [OF kv_reachable(1) [OF assms(1-3)] assms(4)] assms(5)]
  by (simp add: refused_state_def)

theorem kv_refused_unchanged_witness:
  "run_call (Append 0 100) shared_pool = (Err (OutOfBlocks 25 3), shared_pool)"
proof -
  have fst: "fst (run_call (Append 0 100) shared_pool) = Err (OutOfBlocks 25 3)" by code_simp
  have "client_ok (Append 0 100) shared_pool" by code_simp
  with kv_refused_unchanged [of small_geometry shared_pool "Append 0 100" "OutOfBlocks 25 3"
      "snd (run_call (Append 0 100) shared_pool)"] shared_pool_inv(2) fst
  have "snd (run_call (Append 0 100) shared_pool) = shared_pool"
    by (simp add: small_geometry_def prod_eq_iff)
  then show ?thesis using fst by (simp add: prod_eq_iff)
qed

text \<open>
  C4: Session isolation: a call leaves the table of every session it does not name exactly as it
  was, also when the two share blocks (\<open>may_write\<close> is the session a call names: the one it grows,
  evicts, restores or splices into; the fresh one of \<open>open\<close> and \<open>register_prefix\<close>; the owner of the
  prefix that is released).
\<close>

theorem kv_session_isolation:
  assumes "num_blocks g < 2 ^ 32" and "0 < block_size g" and "rtranclp kv_step (kv_new g) p"
    and "client_ok c p" and "run_call c p = (r, q)" and "\<not> may_write c p u"
  shows "map_of (tables q) u = map_of (tables p) u"
  using run_call_cases [OF kv_reachable(1) [OF assms(1-3)] assms(4)] assms(5,6)
  by (cases r) (auto simp: accepted_def refused_state_def split: kv_call.splits)

theorem kv_session_isolation_witness:
  "map_of (tables (snd (run_call (Discard 0) shared_pool))) 1 =
     Some \<lparr>slots = [Resident 0, Resident 1], filled_tokens = 8\<rparr>"
  using kv_session_isolation [of small_geometry shared_pool "Discard 0" "fst (run_call (Discard 0) shared_pool)"
      "snd (run_call (Discard 0) shared_pool)" 1] shared_pool_inv(2)
  by (simp add: small_geometry_def shared_pool_def is_prefix_owner_def)


text \<open>
  Block conservation: the free blocks and the blocks some slot or index entry names add up to
  the block count of the pool, and the resident bytes the pool reports are those of the named
  blocks, each counted once however many sessions share it.
\<close>

theorem kv_conservation:
  assumes "num_blocks g < 2 ^ 32" and "0 < block_size g" and "rtranclp kv_step (kv_new g) p"
  shows "free_blocks p + card {b. b < num_blocks g \<and> 0 < refs p b} = num_blocks g \<and>
    kv_bytes_resident p = Ok (card {b. b < num_blocks g \<and> 0 < refs p b} * bytes_per_block g)"
proof -
  have inv: "kv_inv p" and g: "geom p = g" using kv_reachable [OF assms] by auto
  note led = ledgerD [OF kv_inv_ledger [OF inv]]
  let ?F = "set (free p)" and ?U = "{b. b < num_blocks g \<and> 0 < refs p b}"
  have F: "?F = {b. b < num_blocks g \<and> refs p b = 0}" by (simp add: set_eq_iff led(5) g)
  have "?F \<union> ?U = {..<num_blocks g}" "?F \<inter> ?U = {}" unfolding F by auto
  then have "card ?F + card ?U = num_blocks g" using card_Un_disjoint [of ?F ?U] by simp
  moreover have "card ?F = length (free p)" using led(4) by (simp add: distinct_card)
  ultimately show ?thesis using g by (auto simp: free_blocks_def kv_bytes_resident_def)
qed

theorem kv_conservation_witness:
  "card {b. b < 6 \<and> 0 < refs shared_pool b} = 3"
  using kv_conservation [of small_geometry shared_pool] shared_pool_inv(2)
  by (simp add: small_geometry_def free_blocks_def shared_pool_def)

section \<open>Admission\<close>











section \<open>Eviction, restore and copy-on-write\<close>

text \<open>
  Eviction by blocks: when every index is in range, the report frees exactly the listed slots
  that hold a block nothing else names (and none if the session owns a registered prefix); those
  slots become externalized and each returns one block to the free list; every other slot and the
  fill of the session stay, and a listed slot whose block is shared is reported as still shared.
\<close>

theorem evict_blocks_report:
  assumes "kv_inv p" and "map_of (tables p) s = Some t" and "\<forall>i \<in> set is. i < length (slots t)"
  shows "\<exists>r q. evict_blocks s is p = (Ok r, q) \<and> kv_inv q \<and>
    set (freed r) = {i \<in> set is. \<not> is_prefix_owner p s \<and> (\<exists>b. slots t ! i = Resident b \<and> refcount p ! b = 1)} \<and>
    set (still_shared r) = {i \<in> set is. \<exists>b. slots t ! i = Resident b \<and> i \<notin> set (freed r)} \<and>
    length (free q) = length (free p) + length (freed r) \<and> distinct (freed r) \<and>
    map_of (tables q) s = Some (t\<lparr>slots := map (\<lambda>i. if i \<in> set (freed r) then Externalized else slots t ! i)
      [0..<length (slots t)]\<rparr>)"
proof -
  obtain r q where rq: "evict_blocks s is p = (Ok r, q)" "evict_progress p s t (is_prefix_owner p s) (set is) r q"
    by (rule wp_total [OF evict_blocks_wp [OF assms(1), of s "is"]]) (use assms(2,3) in fastforce)+
  note pr = evict_progressD [OF rq(2)]
  have "set (still_shared r) = {i \<in> set is. \<exists>b. slots t ! i = Resident b \<and> i \<notin> set (freed r)}"
    unfolding pr(6,7) set_map pr(8) by force
  then show ?thesis
    using rq(1) pr by (intro exI [of _ r] exI [of _ q]) (simp add: exclusive_slot_def evicted_slots_def)
qed

theorem evict_blocks_report_witness:
  "\<exists>r q. evict_blocks 0 [0, 1, 2] shared_pool = (Ok r, q) \<and> set (freed r) = {2} \<and> length (free q) = 4"
proof -
  let ?t = "\<lparr>slots = [Resident 0, Resident 1, Resident 2], filled_tokens = 10\<rparr>"
  have t: "map_of (tables shared_pool) 0 = Some ?t" by code_simp
  have "\<forall>i \<in> set [0, 1, 2]. i < length (slots ?t)" by simp
  from evict_blocks_report [OF shared_pool_inv(1) t this]
  obtain r q where rq: "evict_blocks 0 [0, 1, 2] shared_pool = (Ok r, q)" "distinct (freed r)"
      "set (freed r) = {i \<in> set [0, 1, 2]. \<not> is_prefix_owner shared_pool 0 \<and>
         (\<exists>b. slots ?t ! i = Resident b \<and> refcount shared_pool ! b = 1)}"
      "length (free q) = length (free shared_pool) + length (freed r)"
    by blast
  have "\<not> is_prefix_owner shared_pool 0" "refcount shared_pool = [2, 2, 1, 0, 0, 0]" "length (free shared_pool) = 3"
    by code_simp+
  then have two: "set (freed r) = {2}" unfolding rq(3) by auto
  then have "length (freed r) = 1" using distinct_card [OF rq(2)] by simp
  then show ?thesis using rq(1,4) two \<open>length (free shared_pool) = 3\<close> by auto
qed

text \<open>
  C6: Evict and restore round trip: evicting a resident client session and restoring it from the
  handle the eviction returned always succeeds, keeps the ledger, takes back as many blocks as were
  freed, and gives a fully resident table of the same length and fill in which every slot that was
  not evicted holds its old block.
\<close>

theorem evict_restore_roundtrip:
  assumes "kv_inv p" and "\<not> is_prefix_owner p s" and "map_of (tables p) s = Some t" and "all_resident t"
  shows "\<exists>r q u t'. kv_evict s p = (Ok r, q) \<and> kv_restore s (handle r) q = (Ok (), u) \<and> kv_inv u \<and>
    length (free u) = length (free p) \<and> map_of (tables u) s = Some t' \<and> all_resident t' \<and>
    length (slots t') = length (slots t) \<and> filled_tokens t' = filled_tokens t \<and>
    (\<forall>i < length (slots t). i \<notin> set (freed r) \<longrightarrow> slots t' ! i = slots t ! i)"
proof -
  obtain r q where rq: "kv_evict s p = (Ok r, q)"
      and pr: "evict_progress p s t (is_prefix_owner p s) {0..<length (slots t)} r q"
    by (rule wp_total [OF kv_evict_wp [OF assms(1), of s]]) (use assms(3) in auto)
  let ?t = "t\<lparr>slots := evicted_slots (freed r) (slots t)\<rparr>"
  have q: "kv_inv q" "only_session s p q" "map_of (tables q) s = Some ?t"
      "externalized_slots (handle r) = freed r" "length (free q) = length (free p) + length (freed r)"
    using evict_progressD [OF pr] by auto
  have own: "\<not> is_prefix_owner q s" using assms(2) only_sessionD(6) [OF q(2)] by simp
  note fits = evict_handle_fits [OF pr, simplified]
  obtain x u where u: "kv_restore s (handle r) q = (Ok x, u)" and "\<exists>t' ibs. map_of (tables q) s = Some t' \<and>
      restoring q s t' ibs u \<and> map fst ibs = externalized_slots (handle r)"
    by (rule wp_total [OF kv_restore_wp [OF q(1) own, of "handle r"]]) (use q fits in auto)
  then obtain ibs where re: "restoring q s ?t ibs u" and ibs: "map fst ibs = freed r" using q(3,4) by auto
  let ?t' = "?t\<lparr>slots := fill_slots ibs (evicted_slots (freed r) (slots t))\<rparr>"
  have dom: "fst ` set ibs = set (freed r)" using arg_cong [OF ibs, of set] by simp
  have other: "slots ?t' ! i = slots t ! i" if "i < length (slots t)" "i \<notin> set (freed r)" for i
    using fill_slots_nth_other [of i ibs] dom that by simp
  have "slots ?t' ! i \<noteq> Externalized" if i: "i < length (slots t)" for i
  proof (cases "i \<in> set (freed r)")
    case True
    then show ?thesis using fill_slots_nth_hit [of i ibs "evicted_slots (freed r) (slots t)"] dom i by auto
  next
    case False
    then show ?thesis using other [OF i] assms(4) i by (metis all_resident_def nth_mem)
  qed
  then have "all_resident ?t'" by (auto simp: all_resident_def in_set_conv_nth)
  moreover have "length (free u) = length (free p)"
    using re q(5) arg_cong [OF ibs, of length] by (simp add: restoring_def)
  ultimately show ?thesis
    using rq u re other by (intro exI [of _ r] exI [of _ q] exI [of _ u] exI [of _ ?t'])
      (auto simp: restoring_def)
qed

theorem evict_restore_roundtrip_witness:
  "\<exists>r q u. kv_evict 0 shared_pool = (Ok r, q) \<and> kv_restore 0 (handle r) q = (Ok (), u) \<and> length (free u) = 3"
  using evict_restore_roundtrip [OF shared_pool_inv(1), of 0
      "\<lparr>slots = [Resident 0, Resident 1, Resident 2], filled_tokens = 10\<rparr>"]
  by (auto simp: shared_pool_def is_prefix_owner_def all_resident_def)


text \<open>
  Copy-on-write break: after \<open>cow_break s i\<close> succeeds, slot \<open>i\<close> of the session holds the
  returned block and no other slot or index entry names it, so it may be written; if the block was
  shared, the old block has lost exactly one name and one free block was used, otherwise nothing
  changed.
\<close>

theorem cow_break_exclusive:
  assumes "kv_inv p" and "\<not> is_prefix_owner p s" and "cow_break s i p = (Ok b', q)"
  shows "\<exists>b. resident_block p s i = Some b \<and> resident_block q s i = Some b' \<and> refs q b' = 1 \<and> kv_inv q \<and>
    (if refcount p ! b = 1 then q = p
     else b' \<in> set (free p) \<and> refs q b = refs p b - 1 \<and> free_blocks p = Suc (free_blocks q))"
proof -
  obtain t b where t: "map_of (tables p) s = Some t" "i < length (slots t)" "slots t ! i = Resident b"
      "kv_inv q" "only_session s p q" "map_of (tables q) s = Some (t\<lparr>slots := (slots t)[i := Resident b']\<rparr>)"
      "refcount q ! b' = 1"
      "if refcount p ! b = 1 then b' = b \<and> q = p
       else b' \<noteq> b \<and> free p = free q @ [b'] \<and> refcount q ! b = refcount p ! b - 1"
    using wp_Ok [OF cow_break_wp [OF assms(1,2)] assms(3)] by blast
  note g = only_sessionD(1) [OF t(5)]
  have "Resident b \<in> set (slots t)" using t(2,3) by (metis nth_mem)
  then have b: "b < num_blocks (geom p)" by (rule kv_inv_refs_range [OF assms(1) refs_pos_slot [OF t(1)]])
  have "Resident b' \<in> set ((slots t)[i := Resident b'])" using t(2) by (simp add: set_update_memI)
  then have b': "b' < num_blocks (geom q)"
    by (intro kv_inv_refs_range [OF t(4) refs_pos_slot [OF t(6)]]) simp
  have "refs q b' = 1" using kv_inv_refcount [OF t(4) b'] t(7) by simp
  moreover have "refs q b = refcount q ! b" "refs p b = refcount p ! b"
    using kv_inv_refcount [OF t(4), of b] kv_inv_refcount [OF assms(1) b] b g by auto
  moreover have "resident_block p s i = Some b" "resident_block q s i = Some b'"
    using t(1,2,3,6) by (simp_all add: resident_block_def)
  ultimately show ?thesis using t(4,8) by (intro exI [of _ b]) (auto simp: free_blocks_def split: if_splits)
qed

theorem cow_break_exclusive_witness:
  "\<exists>q. cow_break 1 0 shared_pool = (Ok 3, q) \<and> resident_block q 1 0 = Some 3 \<and> refs q 3 = 1"
proof -
  have "fst (cow_break 1 0 shared_pool) = Ok 3" by code_simp
  then have "cow_break 1 0 shared_pool = (Ok 3, snd (cow_break 1 0 shared_pool))" by (simp add: prod_eq_iff)
  with cow_break_exclusive [OF shared_pool_inv(1) _ this] show ?thesis
    by (auto simp: is_prefix_owner_def shared_pool_def)
qed

text \<open>
  Splicing shares, it does not copy: a successful \<open>splice\<close> appends the source's resident
  blocks \<open>from..to\<close> to the destination, raises the count of each by the number of times it was
  appended, takes no free block, and adds exactly the tokens those blocks hold.
\<close>

theorem kv_splice_shares:
  assumes "kv_inv p" and "\<not> is_prefix_owner p dst" and "kv_splice src dst lo til p = (Ok u, q)"
  shows "\<exists>t d bs. map_of (tables p) src = Some t \<and> map_of (tables p) dst = Some d \<and>
    lo \<le> til \<and> til \<le> length (slots t) \<and> map Resident bs = take (til - lo) (drop lo (slots t)) \<and>
    map_of (tables q) dst = Some \<lparr>slots = slots d @ map Resident bs,
      filled_tokens = filled_tokens d + (min (filled_tokens t) (til * block_size (geom p)) - lo * block_size (geom p))\<rparr> \<and>
    free q = free p \<and> kv_inv q \<and>
    (\<forall>b < num_blocks (geom p). refcount q ! b = refcount p ! b + count_list bs b)"
proof -
  obtain d t bs where t: "map_of (tables p) dst = Some d" "map_of (tables p) src = Some t" "lo \<le> til"
      "til \<le> length (slots t)" "take (til - lo) (drop lo (slots t)) = map Resident bs"
      "spliced dst d bs (min ((til - lo) * block_size (geom p)) (filled_tokens t - lo * block_size (geom p))) p q"
    using wp_Ok [OF kv_splice_wp [OF assms(1,2)] assms(3)] by blast
  have "min ((til - lo) * block_size (geom p)) (filled_tokens t - lo * block_size (geom p)) =
      min (filled_tokens t) (til * block_size (geom p)) - lo * block_size (geom p)"
    by (simp add: min_def diff_mult_distrib) linarith
  then show ?thesis using t by (auto simp: spliced_def)
qed

theorem kv_splice_shares_witness:
  "\<exists>q. kv_splice 0 1 2 3 shared_pool = (Ok (), q) \<and> free q = free shared_pool \<and> refcount q ! 2 = 2"
proof -
  have "fst (kv_splice 0 1 2 3 shared_pool) = Ok ()" by code_simp
  then have eq: "kv_splice 0 1 2 3 shared_pool = (Ok (), snd (kv_splice 0 1 2 3 shared_pool))"
    by (simp add: prod_eq_iff)
  have "\<not> is_prefix_owner shared_pool 1" by code_simp
  from kv_splice_shares [OF shared_pool_inv(1) this eq] obtain t bs where
    r: "map_of (tables shared_pool) 0 = Some t" "map Resident bs = take (3 - 2) (drop 2 (slots t))"
    "free (snd (kv_splice 0 1 2 3 shared_pool)) = free shared_pool"
    "\<forall>b < num_blocks (geom shared_pool). refcount (snd (kv_splice 0 1 2 3 shared_pool)) ! b =
       refcount shared_pool ! b + count_list bs b" by blast
  have "map_of (tables shared_pool) 0 = Some \<lparr>slots = [Resident 0, Resident 1, Resident 2], filled_tokens = 10\<rparr>"
    and "num_blocks (geom shared_pool) = 6" "refcount shared_pool ! 2 = 1" by code_simp+
  moreover have "bs = [2]" using r(1,2) calculation(1) by (auto simp: Cons_eq_map_conv)
  ultimately have "refcount (snd (kv_splice 0 1 2 3 shared_pool)) ! 2 = 2" using r(4) by simp
  then show ?thesis using eq r(3) by metis
qed

end
