(* ===== verification/KvSharingProperties.thy ===== *)
theory KvSharingProperties
  imports KvMachine KvSizing "HOL-Library.Multiset"
begin

text \<open>
  The properties of what outlives a session: registered prefixes, cached blocks and their chained
  hash, with the sizing of the pool and the one misuse of a restore handle the pool does not
  detect.
\<close>

section \<open>Registered prefixes\<close>

lemma empty_table_fill:
  assumes "kv_inv p" and "map_of (tables p) s = Some d" and "slots d = []"
  shows "filled_tokens d = 0"
proof -
  have "fill_ok (geom p) d"
    using kv_okD(3) [OF assms(1) [unfolded kv_inv_def]] assms(2) by (simp add: fills_ok_def)
  then show ?thesis using assms(3) by (simp add: fill_ok_def)
qed

text \<open>
  A registered prefix outlives its donor: after \<open>register_prefix\<close> of the first \<open>n\<close> blocks of an
  open session and the discard of that session, splicing the prefix into an empty client session
  succeeds, covers \<open>n\<close> full blocks of tokens, and gives it exactly the donor's first \<open>n\<close> slots.
\<close>

theorem prefix_outlives_donor:
  assumes inv: "kv_inv p" and donor: "\<not> is_prefix_owner p donor" "map_of (tables p) donor = Some t"
    and reg: "register_prefix donor n p = (Ok pid, q)" and disc: "kv_discard donor q = (Ok u, r)"
    and dst: "map_of (tables r) dst = Some d" "slots d = []" "\<not> is_prefix_owner r dst"
  shows "\<exists>v. splice_prefix_from pid dst r = (Ok (n * block_size (geom p)), v) \<and> kv_inv v \<and>
    map_of (tables v) dst = Some \<lparr>slots = take n (slots t), filled_tokens = n * block_size (geom p)\<rparr>"
proof -
  let ?po = "\<lparr>owner = next_session p, owner_blocks = n\<rparr>"
  obtain bs where q: "length bs = n" "take n (slots t) = map Resident bs" "kv_inv q" "geom q = geom p"
      "prefixes q = AList.update pid ?po (prefixes p)"
      "map_of (tables q) = (map_of (tables p))
        (next_session p \<mapsto> \<lparr>slots = map Resident bs, filled_tokens = n * block_size (geom p)\<rparr>)"
    using wp_Ok [OF register_prefix_wp [OF inv] reg] donor(2) by auto
  have "donor < next_session p"
    using maps_okD(6) [OF kv_okD(2) [OF inv [unfolded kv_inv_def]] donor(2)] .
  then have own: "\<not> is_prefix_owner q donor"
    using donor(1) is_prefix_owner_iff [OF kv_okD(2) [OF inv [unfolded kv_inv_def]]]
      is_prefix_owner_iff [OF kv_okD(2) [OF q(3) [unfolded kv_inv_def]]] q(5)
    by (auto split: if_splits)
  have r: "kv_inv r" "same_registry q r" "tables r = AList.delete donor (tables q)"
    using wp_Ok [OF kv_discard_wp [OF q(3) own] disc] by auto
  have po: "map_of (prefixes r) pid = Some ?po" using r(2) q(5) by (simp add: same_registry_def)
  have ot: "map_of (tables r) (next_session p) =
      Some \<lparr>slots = map Resident bs, filled_tokens = n * block_size (geom p)\<rparr>"
    using r(3) q(6) \<open>donor < next_session p\<close> by simp
  have g: "geom r = geom p" using r(2) q(4) by (simp add: same_registry_def)
  obtain tok v where "splice_prefix_from pid dst r = (Ok tok, v)" and v: "\<exists>po d t bs. map_of (prefixes r) pid = Some po \<and>
      map_of (tables r) dst = Some d \<and> slots d = [] \<and> map_of (tables r) (owner po) = Some t \<and>
      slots t = map Resident bs \<and> length bs = owner_blocks po \<and> tok = owner_blocks po * block_size (geom r) \<and>
      spliced dst d bs tok r v"
    by (rule wp_total [OF splice_prefix_from_wp [OF r(1) dst(3), of pid]]) (use po dst in auto)
  moreover have "spliced dst d bs tok r v" "tok = n * block_size (geom p)"
    using v po ot dst g by (auto simp: map_Resident_eq)
  ultimately show ?thesis
    using dst(2) q(2) empty_table_fill [OF r(1) dst(1,2)] by (auto simp: spliced_def)
qed

definition prefix_pool :: kv_pool where
  "prefix_pool = after_calls [Open, Append 0 10, Open] small_pool"

lemma prefix_pool_inv: "kv_inv prefix_pool"
proof -
  have "calls_ok [Open, Append 0 10, Open] small_pool" by code_simp
  from small_run(2) [OF this] show ?thesis by (simp add: prefix_pool_def)
qed

theorem prefix_outlives_donor_witness:
  "\<exists>q r v. register_prefix 0 2 prefix_pool = (Ok 0, q) \<and> kv_discard 0 q = (Ok (), r) \<and>
     splice_prefix_from 0 1 r = (Ok 8, v) \<and>
     map_of (tables v) 1 = Some \<lparr>slots = [Resident 0, Resident 1], filled_tokens = 8\<rparr>"
proof -
  define q where "q = snd (register_prefix 0 2 prefix_pool)"
  define r where "r = snd (kv_discard 0 q)"
  have "fst (register_prefix 0 2 prefix_pool) = Ok 0" by code_simp
  then have reg: "register_prefix 0 2 prefix_pool = (Ok 0, q)" by (simp add: q_def prod_eq_iff)
  have "fst (kv_discard 0 q) = Ok ()" unfolding q_def by code_simp
  then have disc: "kv_discard 0 q = (Ok (), r)" by (simp add: r_def prod_eq_iff)
  have d: "map_of (tables r) 1 = Some \<lparr>slots = [], filled_tokens = 0\<rparr>" "\<not> is_prefix_owner r 1"
    unfolding r_def q_def by code_simp+
  have t: "map_of (tables prefix_pool) 0 = Some \<lparr>slots = [Resident 0, Resident 1, Resident 2], filled_tokens = 10\<rparr>"
    "\<not> is_prefix_owner prefix_pool 0" "block_size (geom prefix_pool) = 4" by code_simp+
  from prefix_outlives_donor [OF prefix_pool_inv t(2) t(1) reg disc d(1) _ d(2)] t(3) reg disc
  show ?thesis by (auto simp: numeral_2_eq_2)
qed


section \<open>The content index\<close>

text \<open>
  A committed block outlives its session: once \<open>commit_block\<close> took a block under a hash, the
  discard of the session leaves the block off the free list, and a lookup of the hash returns it.
\<close>

theorem committed_block_survives:
  assumes inv: "kv_inv p" and own: "\<not> is_prefix_owner p s"
    and com: "commit_block s i h p = (Ok True, q)" and disc: "kv_discard s q = (Ok u, r)"
  shows "\<exists>b w. resident_block p s i = Some b \<and> b \<notin> set (free r) \<and> 0 < refcount r ! b \<and>
    lookup_chain [h] r = (Ok [b], w) \<and> kv_inv w"
proof -
  obtain t b where t: "map_of (tables p) s = Some t" "i < length (slots t)" "slots t ! i = Resident b"
      "kv_inv q" "index_frame p q"
      "map_of (cached q) = (map_of (cached p))(h \<mapsto> \<lparr>cached_at = b, last_used = tick p + 1\<rparr>)"
    using wp_Ok [OF commit_block_wp [OF inv] com] by (auto split: if_splits)
  have oq: "\<not> is_prefix_owner q s" using own t(5) by (simp add: index_frame_def is_prefix_owner_def)
  have r: "kv_inv r" "same_registry q r" using wp_Ok [OF kv_discard_wp [OF t(4) oq] disc] by auto
  have c: "map_of (cached r) h = Some \<lparr>cached_at = b, last_used = tick p + 1\<rparr>"
    using r(2) t(6) by (simp add: same_registry_def)
  then have w: "cached_where r h = Some b" "cached_run r [h] = [h]" by (simp_all add: cached_where_def cached_run_def)
  have pos: "0 < refs r b" using cached_refs_pos [OF c] by simp
  note led = ledgerD [OF kv_inv_ledger [OF r(1)]]
  have "b \<notin> set (free r)" using led(5) [of b] pos by simp
  moreover have "0 < refcount r ! b"
    using pos kv_inv_refcount [OF r(1) kv_inv_refs_range [OF r(1) pos]] by simp
  moreover have "resident_block p s i = Some b" using t by (simp add: resident_block_def)
  moreover obtain out v where "lookup_chain [h] r = (Ok out, v)" "kv_inv v" "map Some out = [Some b]"
    by (rule wp_total [OF lookup_chain_wp [OF r(1), of "[h]" "\<lambda>_ _. False"]]) (use w in auto)
  ultimately show ?thesis by auto
qed

theorem committed_block_survives_witness:
  "\<exists>q r w. commit_block 0 1 7 shared_pool = (Ok True, q) \<and> kv_discard 0 q = (Ok (), r) \<and>
     lookup_chain [7] r = (Ok [1], w)"
proof -
  define q where "q = snd (commit_block 0 1 7 shared_pool)"
  define r where "r = snd (kv_discard 0 q)"
  have "fst (commit_block 0 1 7 shared_pool) = Ok True" by code_simp
  then have com: "commit_block 0 1 7 shared_pool = (Ok True, q)" by (simp add: q_def prod_eq_iff)
  have "fst (kv_discard 0 q) = Ok ()" unfolding q_def by code_simp
  then have disc: "kv_discard 0 q = (Ok (), r)" by (simp add: r_def prod_eq_iff)
  have "\<not> is_prefix_owner shared_pool 0" "resident_block shared_pool 0 1 = Some 1" by code_simp+
  then show ?thesis
    using committed_block_survives [OF shared_pool_inv(1) _ com disc] com disc by auto
qed

text \<open>
  A chain lookup returns the blocks of the longest cached run of the chain and stops at the
  first miss; it changes no count, table or free block and no entry's block, and counts one lookup,
  the hits, and as misses the hashes from the first miss on.
\<close>

theorem lookup_chain_longest:
  assumes "kv_inv p"
  shows "\<exists>out q. lookup_chain hs p = (Ok out, q) \<and> kv_inv q \<and>
    map Some out = map (cached_where p) (takeWhile (\<lambda>h. cached_where p h \<noteq> None) hs) \<and>
    tables q = tables p \<and> refcount q = refcount p \<and> free q = free p \<and> cached_where q = cached_where p \<and>
    stats q = (stats p)\<lparr>lookups := lookups (stats p) + 1, block_hits := block_hits (stats p) + length out,
      block_misses := block_misses (stats p) + (length hs - length out)\<rparr>"
proof -
  obtain out q where "lookup_chain hs p = (Ok out, q)" "kv_inv q \<and> index_frame p q \<and> free q = free p \<and>
      refcount q = refcount p \<and> cached_where q = cached_where p \<and>
      map Some out = map (cached_where p) (cached_run p hs) \<and>
      stats q = count_lookup (length hs) (length out) (stats p)"
    by (rule wp_total [OF lookup_chain_wp [OF assms, of hs "\<lambda>_ _. False"]]) auto
  then show ?thesis
    by (intro exI [of _ out] exI [of _ q]) (simp add: index_frame_def cached_run_where count_lookup_def)
qed

theorem lookup_chain_longest_witness:
  "\<exists>q. lookup_chain [7, 8] shared_pool = (Ok [], q) \<and> block_misses (stats q) = 2"
  using lookup_chain_longest [OF shared_pool_inv(1), of "[7, 8]"]
  by (auto simp: cached_where_def shared_pool_def)

text \<open>
  Eviction candidates: the listed hashes are exactly the cached ones whose block nothing but the
  index names, each once, least recently used first, and releasing any of them succeeds and
  returns one block to the free list.
\<close>

lemma evictable_pairs:
  assumes "kv_inv p"
  defines "es \<equiv> filter (\<lambda>e. refcount p ! cached_at (snd e) = 1) (cached p)"
  shows "distinct (map fst es)"
    and "(h, c) \<in> set es \<longleftrightarrow> map_of (cached p) h = Some c \<and> refcount p ! cached_at c = 1"
proof -
  have kd: "keys_distinct (cached p)" by (rule kv_inv_index_maps(1) [OF assms(1)])
  show "distinct (map fst es)" using kd unfolding es_def by (rule distinct_map_filter)
  show "(h, c) \<in> set es \<longleftrightarrow> map_of (cached p) h = Some c \<and> refcount p ! cached_at c = 1"
    using kd by (auto simp: es_def map_of_eq_Some_iff)
qed

theorem evictable_cached_lru:
  assumes inv: "kv_inv p"
  shows "\<exists>hs. evictable_cached p = Ok hs \<and> distinct hs \<and>
    set hs = {h. \<exists>c. map_of (cached p) h = Some c \<and> refcount p ! cached_at c = 1} \<and>
    sorted (map (\<lambda>h. last_used (the (map_of (cached p) h))) hs) \<and>
    (\<forall>h \<in> set hs. \<exists>q. release_cached h p = (Ok (), q) \<and> kv_inv q \<and> free_blocks q = Suc (free_blocks p))"
proof -
  define es where "es = filter (\<lambda>e. refcount p ! cached_at (snd e) = 1) (cached p)"
  define v where "v = sort (map (\<lambda>e. (last_used (snd e), fst e)) es)"
  note ep = evictable_pairs [OF inv, folded es_def]
  have sv: "set v = (\<lambda>e. (last_used (snd e), fst e)) ` set es" by (simp add: v_def)
  have "length (refcount p) > cached_at (snd e)" if "e \<in> set (cached p)" for e
    using that kv_inv_index_maps(1) [OF inv] kv_inv_length [OF inv]
      kv_inv_refs_range [OF inv cached_refs_pos [of p "fst e" "snd e"]] by (simp add: map_of_eq_Some_iff)
  then have ok: "evictable_cached p = Ok (map snd v)"
    by (force simp: evictable_cached_def v_def es_def not_less)
  have "mset (map snd v) = mset (map fst es)" by (simp add: v_def multiset.map_comp comp_def)
  then have d: "distinct (map snd v)" using ep(1) mset_eq_imp_distinct_iff by blast
  have set: "set (map snd v) = {h. \<exists>c. map_of (cached p) h = Some c \<and> refcount p ! cached_at c = 1}"
    using ep(2) by (force simp: sv image_image)
  have keys: "map (\<lambda>h. last_used (the (map_of (cached p) h))) (map snd v) = map fst v"
    using ep(2) by (force simp: sv)
  have "sorted (map fst v)"
  proof -
    have "sorted v" by (simp add: v_def)
    then show ?thesis unfolding sorted_wrt_map
      by (rule sorted_wrt_mono_rel [rotated]) (auto simp: less_eq_prod_def)
  qed
  then have "sorted (map (\<lambda>h. last_used (the (map_of (cached p) h))) (map snd v))" unfolding keys .
  moreover have "\<exists>q. release_cached h p = (Ok (), q) \<and> kv_inv q \<and> free_blocks q = Suc (free_blocks p)"
    if h: "h \<in> set (map snd v)" for h
  proof -
    obtain c where c: "map_of (cached p) h = Some c" "refcount p ! cached_at c = 1" using h unfolding set by blast
    show ?thesis
      by (rule wp_total [OF release_cached_wp [OF inv, of h]]) (use c in \<open>auto simp: free_blocks_def\<close>)
  qed
  ultimately show ?thesis using ok d set by blast
qed

definition cached_pool :: kv_pool where
  "cached_pool = after_calls [Open, Append 0 10, CommitBlock 0 0 7, CommitBlock 0 1 9, LookupChain [7], Discard 0] small_pool"

lemma cached_pool_inv: "kv_inv cached_pool"
proof -
  have "calls_ok [Open, Append 0 10, CommitBlock 0 0 7, CommitBlock 0 1 9, LookupChain [7], Discard 0] small_pool"
    by code_simp
  from small_run(2) [OF this] show ?thesis by (simp add: cached_pool_def)
qed

theorem evictable_cached_lru_witness:
  "evictable_cached cached_pool = Ok [9, 7] \<and>
   (\<exists>q. release_cached 9 cached_pool = (Ok (), q) \<and> free_blocks q = Suc (free_blocks cached_pool))"
proof -
  have "evictable_cached cached_pool = Ok [9, 7]" by code_simp
  then show ?thesis using evictable_cached_lru [OF cached_pool_inv] by auto
qed


section \<open>The chained hash\<close>

text \<open>
  Chains do not merge: for the same block tokens and the same extra bytes, two different parent
  hashes never give the same block hash, so a chain that diverged stays diverged as long as its
  blocks agree.
\<close>

theorem chain_hash_parent_injective:
  "chain_block_hash (Some p) tokens extra = chain_block_hash (Some q) tokens extra \<longleftrightarrow> p = q"
  by (auto simp: chain_block_hash_def dest!: join_lanes_inj fold_feed_inj lanes_Some_inj)

lemma ucast_token_inj:
  assumes "ucast t = (ucast u :: 64 word)"
  shows "t = (u :: 32 word)"
proof (rule bit_word_eqI)
  fix n assume n: "n < LENGTH(32)"
  have "bit (ucast t :: 64 word) n = bit (ucast u :: 64 word) n" by (simp only: assms)
  then show "bit t n = bit u n" using n by (simp add: bit_simps)
qed

text \<open>
  Two blocks with the same parent and extra bytes that differ in exactly one token never have
  the same hash, whichever token it is.
\<close>

theorem chain_hash_token_injective:
  "chain_block_hash parent (xs @ t # ys) extra = chain_block_hash parent (xs @ u # ys) extra \<longleftrightarrow> t = u"
proof
  assume eq: "chain_block_hash parent (xs @ t # ys) extra = chain_block_hash parent (xs @ u # ys) extra"
  let ?ab = "fold feed (map ucast xs) (feed (word_of_nat (Suc (length xs + length ys))) (lanes parent))"
  let ?rest = "map ucast ys @ (0xFFFFFFFF00000000 OR word_of_nat (length extra)) # map from_le_bytes (chunks8 extra)"
  have "fold feed ?rest (feed (ucast t) ?ab) = fold feed ?rest (feed (ucast u) ?ab)"
    using join_lanes_inj [OF eq [unfolded chain_block_hash_def]] by (simp add: hash_words_def)
  then have "feed (ucast t) ?ab = feed (ucast u) ?ab" by (rule fold_feed_inj)
  then have "ucast t = (ucast u :: 64 word)" using feed_inj_word by metis
  then show "t = u" by (rule ucast_token_inj)
qed simp

text \<open>
  The chained hash is injective in its parent, for the same tokens and extra bytes, and in each single
  token, for the same parent and extra bytes: chains that diverged stay diverged while their blocks agree,
  and blocks that differ in one token never have the same hash.
\<close>

theorem chain_hash_injective:
  "(chain_block_hash (Some p) tokens extra = chain_block_hash (Some q) tokens extra \<longleftrightarrow> p = q) \<and>
   (chain_block_hash parent (xs @ t # ys) extra = chain_block_hash parent (xs @ u # ys) extra \<longleftrightarrow> t = u)"
  by (simp only: chain_hash_parent_injective chain_hash_token_injective)

section \<open>Sizing\<close>

text \<open>
  \<open>fit_to_budget\<close> never overcommits and wastes less than a block: the pool it sizes, with
  everything else that is resident, fits the usable bytes, one more block would not, only the block
  count changes, and below \<open>2 ^ 53\<close> device bytes the rounded product of doubles never exceeds the
  device.
\<close>

theorem fit_to_budget_tight:
  assumes "fit_to_budget g b = Ok g'"
  shows "\<exists>u. usable_bytes b = Ok u \<and> g' = g\<lparr>num_blocks := num_blocks g'\<rparr> \<and> 0 < num_blocks g' \<and>
    bytes_per_block g * num_blocks g' + non_kv_resident b \<le> u \<and>
    u < bytes_per_block g * (num_blocks g' + 1) + non_kv_resident b \<and>
    (device_bytes b < 2 ^ 53 \<longrightarrow> u \<le> device_bytes b)"
proof -
  obtain u where u: "usable_bytes b = Ok u" and w: "0 < bytes_per_block g"
    and n: "0 < (u - non_kv_resident b) div bytes_per_block g"
    and g': "g' = g\<lparr>num_blocks := (u - non_kv_resident b) div bytes_per_block g\<rparr>"
    using assms by (auto simp: fit_to_budget_def Let_def split: if_splits)
  let ?r = "u - non_kv_resident b" and ?w = "bytes_per_block g"
  have gt: "non_kv_resident b < u" using n by (metis div_0 diff_is_0_eq leI less_numeral_extra(3))
  have "?w * (?r div ?w) + non_kv_resident b \<le> u"
    using times_div_less_eq_dividend [of ?w ?r] gt by linarith
  moreover have "u < ?w * (?r div ?w + 1) + non_kv_resident b"
    using dividend_less_times_div [OF w, of ?r] gt unfolding distrib_left mult_1_right by linarith
  moreover have "u \<le> device_bytes b" if "device_bytes b < 2 ^ 53"
    using u that f64_mul_floor_le [OF that] by (auto simp: usable_bytes_def nat_le_iff split: f64.splits if_splits)
  ultimately show ?thesis using u n g' by auto
qed

theorem fit_to_budget_tight_witness:
  "let b = \<lparr>device_bytes = 1001, utilization = F64_fin 1 1, non_kv_resident = 100\<rparr> in
   fit_to_budget small_geometry b = Ok (small_geometry\<lparr>num_blocks := 6\<rparr>) \<and>
   (\<exists>u. usable_bytes b = Ok u \<and> u \<le> 1001 \<and> 64 * 6 + 100 \<le> u)"
proof -
  let ?b = "\<lparr>device_bytes = 1001, utilization = F64_fin 1 1, non_kv_resident = 100\<rparr>"
  have fit: "fit_to_budget small_geometry ?b = Ok (small_geometry\<lparr>num_blocks := 6\<rparr>)"
    by (simp add: fit_to_budget_def usable_bytes_def f64_mul_floor_def round53_exact bytes_per_block_def small_geometry_def)
  from fit_to_budget_tight [OF fit] show ?thesis
    using fit by (auto simp: bytes_per_block_def small_geometry_def)
qed

section \<open>A stale restore handle\<close>

text \<open>
  C36: A stale handle corrupts the ledger: session 0 is evicted while session 1 shares its only
  block, so the handle records the slot as resident; session 0 then breaks the sharing with
  \<open>cow_break\<close>. \<open>restore\<close> with that handle is accepted, puts the old block back into the slot without
  counting it and loses the new one; discarding session 1 then returns to the free list a block
  the table of session 0 still names.
\<close>

definition stale_start :: kv_pool where
  "stale_start = after_calls [Open, Open, Append 0 4, Splice 0 1 0 1] small_pool"

theorem stale_restore_frees_live_block:
  "\<exists>r p1 p2 p3. kv_evict 0 stale_start = (Ok r, p1) \<and> cow_break 0 0 p1 = (Ok 1, p2) \<and>
     kv_inv p2 \<and> kv_restore 0 (handle r) p2 = (Ok (), p3) \<and>
     (let p4 = snd (kv_discard 1 p3) in
      resident_block p4 0 0 = Some 0 \<and> 0 \<in> set (free p4) \<and> refs p4 0 = 1 \<and>
      refcount p4 ! 1 = 1 \<and> refs p4 1 = 0)"
proof -
  define r where "r = (case fst (kv_evict 0 stale_start) of Ok r \<Rightarrow> r | _ \<Rightarrow> evict_report_init)"
  define p1 where "p1 = snd (kv_evict 0 stale_start)"
  define p2 where "p2 = snd (cow_break 0 0 p1)"
  define p3 where "p3 = snd (kv_restore 0 (handle r) p2)"
  note defs = p3_def p2_def p1_def r_def
  have inv: "kv_inv stale_start"
  proof -
    have "calls_ok [Open, Open, Append 0 4, Splice 0 1 0 1] small_pool" by code_simp
    from small_run(2) [OF this] show ?thesis by (simp add: stale_start_def)
  qed
  have 1: "kv_evict 0 stale_start = (Ok r, p1)" unfolding defs by code_simp
  have "fst (cow_break 0 0 p1) = Ok 1" unfolding defs by code_simp
  then have 2: "cow_break 0 0 p1 = (Ok 1, p2)" by (simp add: p2_def prod_eq_iff)
  have i1: "kv_inv p1" using wp_Ok [OF kv_evict_wp [OF inv] 1] by (auto dest: evict_progressD(1))
  have "\<not> is_prefix_owner p1 0" unfolding defs by code_simp
  then have i2: "kv_inv p2" using wp_Ok [OF cow_break_wp [OF i1] 2] by auto
  have "fst (kv_restore 0 (handle r) p2) = Ok ()" unfolding defs by code_simp
  then have 3: "kv_restore 0 (handle r) p2 = (Ok (), p3)" by (simp add: p3_def prod_eq_iff)
  have 4: "let p4 = snd (kv_discard 1 p3) in
      resident_block p4 0 0 = Some 0 \<and> 0 \<in> set (free p4) \<and> refs p4 0 = 1 \<and>
      refcount p4 ! 1 = 1 \<and> refs p4 1 = 0"
    unfolding defs by code_simp
  show ?thesis using 1 2 3 4 i2 by blast
qed

end
