(* ===== verification/Shape.thy ===== *)
theory Shape
  imports Prelude
begin

text \<open>
  Shapes (\<open>fuel-ir/src/shape.rs\<close>) and the symbols their dynamic axes resolve through
  (\<open>fuel-ir/src/symbol.rs\<close>): element counts, contiguous strides, dimension indices, broadcasting
  of binary operators and of matrix products, reshaping with one inferred dimension, and the
  resolution of bounded runtime axes.
\<close>

section \<open>Symbols\<close>

type_synonym sym_id = nat

datatype ir_error =
    Msg
  | DimOutOfRange int
  | UnexpectedNumberOfDims nat nat
  | NarrowInvalidArgs nat nat nat
  | ShapeMismatchBinaryOp "nat list" "nat list"
  | BroadcastIncompatibleShapes "nat list" "nat list"
  | DuplicateDimIndex "nat list"

type_synonym 'a ir_result = "('a, ir_error) rust"

record sym_gen =
  next_sym :: nat

definition sym_fresh :: "sym_gen \<Rightarrow> (sym_id \<times> sym_gen) ir_result" where
  "sym_fresh g = (if next_sym g + 1 < 2 ^ 32 then Ok (next_sym g, g\<lparr>next_sym := next_sym g + 1\<rparr>) else Panic)"

type_synonym sym_env = "(sym_id \<times> nat) list"

definition sym_get :: "sym_env \<Rightarrow> sym_id \<Rightarrow> nat option" where
  "sym_get env s = map_of env s"

definition sym_bind :: "sym_id \<Rightarrow> nat \<Rightarrow> sym_env \<Rightarrow> sym_env ir_result" where
  "sym_bind s v env = (case map_of env s of
     Some existing \<Rightarrow> if existing \<noteq> v then Err Msg else Ok (AList.update s v env)
   | None \<Rightarrow> Ok (AList.update s v env))"

definition is_bound :: "sym_env \<Rightarrow> sym_id \<Rightarrow> bool" where
  "is_bound env s = (map_of env s \<noteq> None)"

definition sym_clear :: "sym_env \<Rightarrow> sym_env" where
  "sym_clear env = []"

datatype dyn_scalar = Concrete nat | Sym sym_id

fun dyn_resolve :: "sym_env \<Rightarrow> dyn_scalar \<Rightarrow> nat option" where
  "dyn_resolve env (Concrete v) = Some v"
| "dyn_resolve env (Sym s) = sym_get env s"

fun as_concrete :: "dyn_scalar \<Rightarrow> nat option" where
  "as_concrete (Concrete v) = Some v"
| "as_concrete (Sym s) = None"

section \<open>Shapes and extents\<close>

datatype extent = Scalar nat | Range nat nat sym_id

fun bound :: "extent \<Rightarrow> nat" where
  "bound (Scalar v) = v"
| "bound (Range lo hi s) = hi"

fun extent_min :: "extent \<Rightarrow> nat" where
  "extent_min (Scalar v) = v"
| "extent_min (Range lo hi s) = lo"

fun extent_resolve :: "sym_env \<Rightarrow> extent \<Rightarrow> nat option" where
  "extent_resolve env (Scalar v) = Some v"
| "extent_resolve env (Range lo hi s) = sym_get env s"

record dyn_axis =
  axis :: nat
  axis_min :: nat
  axis_sym :: sym_id

record shape =
  dims :: "nat list"
  dyn_axes :: "dyn_axis list option"

definition from_dims :: "nat list \<Rightarrow> shape" where
  "from_dims ds = \<lparr>dims = ds, dyn_axes = None\<rparr>"

definition rank :: "shape \<Rightarrow> nat" where
  "rank s = length (dims s)"

definition extent_of :: "shape \<Rightarrow> nat \<Rightarrow> extent ir_result" where
  "extent_of s i = (case (case dyn_axes s of None \<Rightarrow> None | Some v \<Rightarrow> find (\<lambda>d. axis d = i) v) of
     Some da \<Rightarrow> if i < length (dims s) then Ok (Range (axis_min da) (dims s ! i) (axis_sym da)) else Panic
   | None \<Rightarrow> if i < length (dims s) then Ok (Scalar (dims s ! i)) else Panic)"

definition extents :: "shape \<Rightarrow> extent list ir_result" where
  "extents s = rust_map (extent_of s) [0..<length (dims s)]"

definition has_dynamic :: "shape \<Rightarrow> bool" where
  "has_dynamic s = (case dyn_axes s of None \<Rightarrow> False | Some v \<Rightarrow> v \<noteq> [])"

text \<open>\<open>binary_search_by_key\<close> on the axes, which are kept sorted, then replace or insert.\<close>

fun put_axis :: "dyn_axis \<Rightarrow> dyn_axis list \<Rightarrow> dyn_axis list" where
  "put_axis da [] = [da]"
| "put_axis da (d # ds) =
     (if axis d = axis da then da # ds
      else if axis da < axis d then da # d # ds
      else d # put_axis da ds)"

definition with_dynamic_axis :: "nat \<Rightarrow> nat \<Rightarrow> sym_id \<Rightarrow> shape \<Rightarrow> shape ir_result" where
  "with_dynamic_axis i lo s sh =
     (if i < length (dims sh)
      then Ok (sh\<lparr>dyn_axes := Some (put_axis \<lparr>axis = i, axis_min = lo, axis_sym = s\<rparr>
             (case dyn_axes sh of None \<Rightarrow> [] | Some v \<Rightarrow> v))\<rparr>)
      else Panic)"

fun resolve_axes :: "sym_env \<Rightarrow> dyn_axis list \<Rightarrow> nat list \<Rightarrow> nat list ir_result" where
  "resolve_axes env [] ds = Ok ds"
| "resolve_axes env (da # das) ds = (case sym_get env (axis_sym da) of
     Some v \<Rightarrow> if axis da < length ds then resolve_axes env das (ds[axis da := v]) else Panic
   | None \<Rightarrow> Err Msg)"

definition shape_resolve :: "sym_env \<Rightarrow> shape \<Rightarrow> shape ir_result" where
  "shape_resolve env s = (case dyn_axes s of
     None \<Rightarrow> Ok s
   | Some v \<Rightarrow> rust_bind (resolve_axes env v (dims s)) (\<lambda>ds. Ok (from_dims ds)))"

definition elem_count :: "nat list \<Rightarrow> nat" where
  "elem_count ds = prod_list ds"

section \<open>Strides\<close>

text \<open>The \<open>scan\<close> over the reversed dimensions, reversed again.\<close>

fun stride_scan :: "int \<Rightarrow> nat list \<Rightarrow> int list" where
  "stride_scan acc [] = []"
| "stride_scan acc (u # us) = acc # stride_scan (acc * int u) us"

definition stride_contiguous :: "nat list \<Rightarrow> int list" where
  "stride_contiguous ds = rev (stride_scan 1 (rev ds))"

fun contiguous_run :: "int \<Rightarrow> (int \<times> nat) list \<Rightarrow> bool" where
  "contiguous_run acc [] = True"
| "contiguous_run acc ((st, d) # sds) =
     (if 1 < d \<and> st \<noteq> acc then False else contiguous_run (acc * int d) sds)"

definition is_contiguous :: "nat list \<Rightarrow> int list \<Rightarrow> bool" where
  "is_contiguous ds st = (if length ds \<noteq> length st then False else contiguous_run 1 (rev (zip st ds)))"

definition is_fortran_contiguous :: "nat list \<Rightarrow> int list \<Rightarrow> bool" where
  "is_fortran_contiguous ds st = (if length ds \<noteq> length st then False else contiguous_run 1 (zip st ds))"

definition shape_extend :: "shape \<Rightarrow> nat list \<Rightarrow> shape" where
  "shape_extend s additional = s\<lparr>dims := dims s @ additional\<rparr>"

section \<open>Broadcasting\<close>

text \<open>The size of operand \<open>ds\<close> at position \<open>rev_idx\<close> from the right, 1 beyond its rank.\<close>

definition aligned_dim :: "nat list \<Rightarrow> nat \<Rightarrow> nat" where
  "aligned_dim ds rev_idx = (if length ds < rev_idx then 1 else ds ! (length ds - rev_idx))"

definition bcast_value :: "nat list \<Rightarrow> nat list \<Rightarrow> nat \<Rightarrow> nat \<Rightarrow> nat ir_result" where
  "bcast_value l r n idx =
     (let lv = aligned_dim l (n - idx); rv = aligned_dim r (n - idx) in
      if lv = rv then Ok lv else if lv = 1 then Ok rv else if rv = 1 then Ok lv
      else Err (ShapeMismatchBinaryOp l r))"

definition broadcast_shape_binary_op :: "shape \<Rightarrow> shape \<Rightarrow> shape ir_result" where
  "broadcast_shape_binary_op lhs rhs =
     (let n = max (length (dims lhs)) (length (dims rhs)) in
      rust_bind (rust_map (bcast_value (dims lhs) (dims rhs) n) [0..<n]) (\<lambda>ds. Ok (from_dims ds)))"

definition broadcast_shape_matmul :: "shape \<Rightarrow> shape \<Rightarrow> (shape \<times> shape) ir_result" where
  "broadcast_shape_matmul lhs rhs =
     (let l = dims lhs; r = dims rhs in
      if length l < 2 \<or> length r < 2 then Err Msg
      else let m = l ! (length l - 2); lk = l ! (length l - 1);
               rk = r ! (length r - 2); n = r ! (length r - 1) in
        if lk \<noteq> rk then Err Msg
        else rust_bind (broadcast_shape_binary_op (from_dims (take (length l - 2) l)) (from_dims (take (length r - 2) r)))
          (\<lambda>b. Ok (from_dims (dims b @ [m, lk]), from_dims (dims b @ [rk, n]))))"

section \<open>Dimension indices\<close>

datatype dim_ref = Forward nat | Minus1 | Minus2 | Minus nat

fun to_index :: "dim_ref \<Rightarrow> shape \<Rightarrow> nat ir_result" where
  "to_index (Forward d) s = (if length (dims s) \<le> d then Err (DimOutOfRange (int d)) else Ok d)"
| "to_index Minus1 s = (if 1 \<le> rank s then Ok (rank s - 1) else Err (DimOutOfRange (- 1)))"
| "to_index Minus2 s = (if 2 \<le> rank s then Ok (rank s - 2) else Err (DimOutOfRange (- 2)))"
| "to_index (Minus u) s = (if 0 < u \<and> u \<le> rank s then Ok (rank s - u) else Err (DimOutOfRange (- int u)))"

fun to_index_plus_one :: "dim_ref \<Rightarrow> shape \<Rightarrow> nat ir_result" where
  "to_index_plus_one (Forward d) s = (if length (dims s) < d then Err (DimOutOfRange (int d)) else Ok d)"
| "to_index_plus_one Minus1 s = Ok (rank s)"
| "to_index_plus_one Minus2 s = (if 1 \<le> rank s then Ok (rank s - 1) else Err (DimOutOfRange (- 2)))"
| "to_index_plus_one (Minus u) s =
     (if 0 < u \<and> u \<le> rank s + 1 then Ok (rank s + 1 - u) else Err (DimOutOfRange (- int u)))"

definition dim :: "dim_ref \<Rightarrow> shape \<Rightarrow> nat ir_result" where
  "dim d s = rust_bind (to_index d s) (\<lambda>i. if i < length (dims s) then Ok (dims s ! i) else Panic)"

fun check_dims :: "nat list \<Rightarrow> nat list \<Rightarrow> nat list \<Rightarrow> shape \<Rightarrow> nat list ir_result" where
  "check_dims all seen [] s = Ok all"
| "check_dims all seen (d # ds) s =
     (if d \<in> set seen then Err (DuplicateDimIndex all)
      else if rank s \<le> d then Err (DimOutOfRange (int d))
      else check_dims all (seen @ [d]) ds s)"

text \<open>Plain lists of indices are only checked; tuples of references are converted first.\<close>

definition to_indexes_vec :: "nat list \<Rightarrow> shape \<Rightarrow> nat list ir_result" where
  "to_indexes_vec ds s = check_dims ds [] ds s"

definition to_indexes :: "dim_ref list \<Rightarrow> shape \<Rightarrow> nat list ir_result" where
  "to_indexes refs s = rust_bind (rust_map (\<lambda>d. to_index d s) refs) (\<lambda>ds. check_dims ds [] ds s)"

definition extract_dims :: "nat \<Rightarrow> nat list \<Rightarrow> nat list ir_result" where
  "extract_dims cnt ds = (if length ds \<noteq> cnt then Err (UnexpectedNumberOfDims cnt (length ds)) else Ok ds)"

text \<open>
  \<open>stride_dims2\<close> to \<open>stride_dims5\<close>: the count is checked, then the strides are cast; the debug
  assertion on their signs is a panic.
\<close>

definition stride_dims :: "nat \<Rightarrow> int list \<Rightarrow> nat list ir_result" where
  "stride_dims cnt st =
     (if length st \<noteq> cnt then Err (UnexpectedNumberOfDims cnt (length st))
      else if list_all (\<lambda>z. 0 \<le> z) st then Ok (map as_usize st) else Panic)"

section \<open>Reshaping with one inferred dimension\<close>

definition hole_size :: "nat \<Rightarrow> nat \<Rightarrow> nat ir_result" where
  "hole_size el prod_d =
     (if prod_d = 0 then Err Msg else if el mod prod_d \<noteq> 0 then Err Msg else Ok (el div prod_d))"

text \<open>
  The tuple implementations of \<open>ShapeWithOneHole\<close>: the dimensions before and after the hole.
\<close>

definition into_shape :: "nat list \<Rightarrow> nat list \<Rightarrow> nat \<Rightarrow> shape ir_result" where
  "into_shape before after el =
     rust_bind (hole_size el (prod_list (before @ after))) (\<lambda>d. Ok (from_dims (before @ d # after)))"


section \<open>Lemmas on shapes\<close>

lemma stride_scan_append:
  "stride_scan a (xs @ ys) = stride_scan a xs @ stride_scan (a * int (prod_list xs)) ys"
  by (induction xs arbitrary: a) (auto simp: mult.assoc)

lemma length_stride_scan [simp]: "length (stride_scan a xs) = length xs"
  by (induction xs arbitrary: a) auto

lemma prod_list_rev: "prod_list (rev xs) = prod_list (xs :: nat list)"
  by (induction xs) (auto simp: mult.commute)

lemma stride_contiguous_Cons:
  "stride_contiguous (d # ds) = int (prod_list ds) # stride_contiguous ds"
  by (simp add: stride_contiguous_def stride_scan_append prod_list_rev)

lemma stride_contiguous_Nil [simp]: "stride_contiguous [] = []"
  by (simp add: stride_contiguous_def)

lemma length_stride_contiguous [simp]: "length (stride_contiguous ds) = length ds"
  by (simp add: stride_contiguous_def)

lemma contiguous_run_append:
  "contiguous_run a (xs @ ys) \<longleftrightarrow>
     contiguous_run a xs \<and> contiguous_run (a * int (prod_list (map snd xs))) ys"
proof (induction xs arbitrary: a)
  case (Cons x xs)
  then show ?case by (cases x) (simp add: mult.assoc)
qed simp

text \<open>The check from the right, as one condition per axis.\<close>

fun contiguous_axes :: "nat list \<Rightarrow> int list \<Rightarrow> bool" where
  "contiguous_axes [] [] = True"
| "contiguous_axes (d # ds) (st # sts) =
     ((1 < d \<longrightarrow> st = int (prod_list ds)) \<and> contiguous_axes ds sts)"
| "contiguous_axes _ _ = False"

lemma is_contiguous_axes: "is_contiguous ds st \<longleftrightarrow> contiguous_axes ds st"
proof (induction ds st rule: contiguous_axes.induct)
  case (2 d ds st sts)
  show ?case
  proof (cases "length ds = length sts")
    case True
    then have "prod_list (map snd (rev (zip sts ds))) = prod_list ds"
      by (simp add: rev_map [symmetric] prod_list_rev)
    then show ?thesis using 2 True by (auto simp: is_contiguous_def contiguous_run_append)
  next
    case False
    moreover have "\<not> contiguous_axes ds sts" using 2 False by (simp add: is_contiguous_def)
    ultimately show ?thesis by (simp add: is_contiguous_def)
  qed
qed (auto simp: is_contiguous_def)

lemma contiguous_axes_stride: "contiguous_axes ds (stride_contiguous ds)"
  by (induction ds) (auto simp: stride_contiguous_Cons)

lemma put_axis_find:
  "find (\<lambda>d. axis d = i) (put_axis da v) = (if axis da = i then Some da else find (\<lambda>d. axis d = i) v)"
  by (induction v) auto

lemma put_axis_sorted:
  "sorted_wrt (\<lambda>a b. axis a < axis b) v \<Longrightarrow> sorted_wrt (\<lambda>a b. axis a < axis b) (put_axis da v)"
proof (induction v)
  case (Cons d ds)
  have "set (put_axis da ds) \<subseteq> insert da (set ds)" by (induction ds) auto
  then show ?case using Cons by (auto 4 3)
qed simp

end
