(* ===== verification/Layout.thy ===== *)
theory Layout
  imports Shape
begin

text \<open>
  Layouts (\<open>fuel-ir/src/layout.rs\<close>): shape, signed strides and start offset, and the zero-copy view
  operations. The contract of a view is the locale \<open>view_op\<close>: every index of the view pulls back
  to an index of the base at the same storage offset. Each operation is an interpretation of it,
  so bounds and contents carry over along any chain of views.
\<close>

section \<open>Layouts and views\<close>

record layout =
  shape :: shape
  stride :: "int list"
  start_offset :: nat

abbreviation ldims :: "layout \<Rightarrow> nat list" where
  "ldims l \<equiv> dims (shape l)"

definition layout_new :: "shape \<Rightarrow> int list \<Rightarrow> nat \<Rightarrow> layout" where
  "layout_new s st off = \<lparr>shape = s, stride = st, start_offset = off\<rparr>"

definition contiguous_with_offset :: "shape \<Rightarrow> nat \<Rightarrow> layout" where
  "contiguous_with_offset s off = \<lparr>shape = s, stride = stride_contiguous (dims s), start_offset = off\<rparr>"

definition contiguous :: "shape \<Rightarrow> layout" where
  "contiguous s = contiguous_with_offset s 0"

definition layout_resolve :: "sym_env \<Rightarrow> layout \<Rightarrow> layout ir_result" where
  "layout_resolve env l = rust_bind (shape_resolve env (shape l)) (\<lambda>s. Ok (l\<lparr>shape := s\<rparr>))"

definition stride_unsigned :: "layout \<Rightarrow> nat list ir_result" where
  "stride_unsigned l = rust_map (\<lambda>z. if 0 \<le> z then Ok (as_usize z) else Panic) (stride l)"

definition contiguous_offsets :: "layout \<Rightarrow> (nat \<times> nat) option" where
  "contiguous_offsets l =
     (if is_contiguous (ldims l) (stride l)
      then Some (start_offset l, start_offset l + elem_count (ldims l)) else None)"

definition narrow :: "nat \<Rightarrow> nat \<Rightarrow> nat \<Rightarrow> layout \<Rightarrow> layout ir_result" where
  "narrow d start len l =
     (if length (ldims l) \<le> d then Err (DimOutOfRange (int d))
      else if 2 ^ 64 \<le> start + len then Panic
      else if ldims l ! d < start + len then Err (NarrowInvalidArgs d start len)
      else if length (stride l) \<le> d then Panic
      else Ok \<lparr>shape = from_dims ((ldims l)[d := len]), stride = stride l,
             start_offset = as_usize (int (start_offset l) + stride l ! d * int start)\<rparr>)"

definition swap :: "nat \<Rightarrow> nat \<Rightarrow> 'a list \<Rightarrow> 'a list" where
  "swap i j xs = xs[i := xs ! j, j := xs ! i]"

definition transpose :: "nat \<Rightarrow> nat \<Rightarrow> layout \<Rightarrow> layout ir_result" where
  "transpose d1 d2 l =
     (if rank (shape l) \<le> d1 \<or> rank (shape l) \<le> d2
      then Err (UnexpectedNumberOfDims (max d1 d2) (rank (shape l)))
      else if length (stride l) \<le> d1 \<or> length (stride l) \<le> d2 then Panic
      else Ok \<lparr>shape = from_dims (swap d1 d2 (ldims l)), stride = swap d1 d2 (stride l),
             start_offset = start_offset l\<rparr>)"

definition is_permutation :: "nat list \<Rightarrow> nat \<Rightarrow> bool" where
  "is_permutation idxs n \<longleftrightarrow> length idxs = n \<and> (\<forall>i \<in> set [0..<length idxs]. i \<in> set idxs)"

definition permute :: "nat list \<Rightarrow> layout \<Rightarrow> layout ir_result" where
  "permute idxs l =
     (if \<not> is_permutation idxs (rank (shape l)) then Err Msg
      else if length (stride l) \<noteq> rank (shape l) then Panic
      else Ok \<lparr>shape = from_dims (map ((!) (ldims l)) idxs), stride = map ((!) (stride l)) idxs,
             start_offset = start_offset l\<rparr>)"

definition insert_at :: "nat \<Rightarrow> 'a \<Rightarrow> 'a list \<Rightarrow> 'a list" where
  "insert_at i x xs = take i xs @ x # drop i xs"

definition remove_at :: "nat \<Rightarrow> 'a list \<Rightarrow> 'a list" where
  "remove_at i xs = take i xs @ drop (Suc i) xs"

definition unsqueeze :: "nat \<Rightarrow> layout \<Rightarrow> layout ir_result" where
  "unsqueeze d l =
     (if rank (shape l) < d then Err Msg
      else if length (stride l) < d then Panic
      else Ok \<lparr>shape = from_dims (insert_at d 1 (ldims l)), stride = insert_at d 0 (stride l),
             start_offset = start_offset l\<rparr>)"

definition squeeze :: "nat \<Rightarrow> layout \<Rightarrow> layout ir_result" where
  "squeeze d l =
     (if rank (shape l) \<le> d then Err Msg
      else if ldims l ! d \<noteq> 1 then Err Msg
      else if length (stride l) \<le> d then Panic
      else Ok \<lparr>shape = from_dims (remove_at d (ldims l)), stride = remove_at d (stride l),
             start_offset = start_offset l\<rparr>)"

definition flip :: "nat \<Rightarrow> layout \<Rightarrow> layout ir_result" where
  "flip d l =
     (if rank (shape l) \<le> d then Err Msg
      else if length (stride l) \<le> d then Panic
      else let size = ldims l ! d; s = stride l ! d;
               shift = (if 1 < size then (int size - 1) * s else 0)
           in Ok \<lparr>shape = shape l, stride = (stride l)[d := - s],
                  start_offset = as_usize (int (start_offset l) + shift)\<rparr>)"

fun bcast_strides :: "nat list \<Rightarrow> nat list \<Rightarrow> int list \<Rightarrow> int list option" where
  "bcast_strides (dst # dsts) (src # srcs) (st # sts) =
     (if dst = src then map_option ((#) st) (bcast_strides dsts srcs sts)
      else if src \<noteq> 1 then None
      else map_option ((#) 0) (bcast_strides dsts srcs sts))"
| "bcast_strides _ _ _ = Some []"

definition broadcast_as :: "shape \<Rightarrow> layout \<Rightarrow> layout ir_result" where
  "broadcast_as s l =
     (if rank s < rank (shape l) then Err (BroadcastIncompatibleShapes (ldims l) (dims s))
      else let added = rank s - rank (shape l) in
        case bcast_strides (drop added (dims s)) (ldims l) (stride l) of
          None \<Rightarrow> Err (BroadcastIncompatibleShapes (ldims l) (dims s))
        | Some st \<Rightarrow> Ok \<lparr>shape = s, stride = replicate added 0 @ st, start_offset = start_offset l\<rparr>)"

section \<open>Indices and storage offsets\<close>

text \<open>A multi-index is valid for a shape when each component is below its dimension.\<close>

definition valid_ix :: "nat list \<Rightarrow> nat list \<Rightarrow> bool" where
  "valid_ix ds ix \<longleftrightarrow> list_all2 (\<lambda>i d. i < d) ix ds"

fun dot :: "nat list \<Rightarrow> int list \<Rightarrow> int" where
  "dot (i # ix) (s # st) = int i * s + dot ix st"
| "dot _ _ = 0"

definition offset :: "layout \<Rightarrow> nat list \<Rightarrow> int" where
  "offset l ix = int (start_offset l) + dot ix (stride l)"

definition layout_wf :: "layout \<Rightarrow> bool" where
  "layout_wf l \<longleftrightarrow> length (stride l) = length (ldims l)"

definition in_bounds :: "nat \<Rightarrow> layout \<Rightarrow> bool" where
  "in_bounds n l \<longleftrightarrow> layout_wf l \<and> n \<le> 2 ^ 63 \<and>
     (\<forall>ix. valid_ix (ldims l) ix \<longrightarrow> 0 \<le> offset l ix \<and> offset l ix < int n)"

definition read_at :: "'a list \<Rightarrow> layout \<Rightarrow> nat list \<Rightarrow> 'a" where
  "read_at buf l ix = buf ! nat (offset l ix)"

lemma in_boundsD:
  assumes "in_bounds n l"
  shows "layout_wf l" and "n \<le> 2 ^ 63"
    and "valid_ix (ldims l) ix \<Longrightarrow> 0 \<le> offset l ix" and "valid_ix (ldims l) ix \<Longrightarrow> offset l ix < int n"
  using assms by (auto simp: in_bounds_def)

lemma valid_ix_length: "valid_ix ds ix \<Longrightarrow> length ix = length ds"
  by (simp add: valid_ix_def list_all2_lengthD)

lemma valid_ix_nth: "valid_ix ds ix \<Longrightarrow> i < length ds \<Longrightarrow> ix ! i < ds ! i"
  by (auto simp: valid_ix_def list_all2_conv_all_nth)

lemma valid_ixI: "length ix = length ds \<Longrightarrow> (\<And>i. i < length ds \<Longrightarrow> ix ! i < ds ! i) \<Longrightarrow> valid_ix ds ix"
  by (simp add: valid_ix_def list_all2_conv_all_nth)

lemma as_usize_id: "0 \<le> z \<Longrightarrow> z < 2 ^ 63 \<Longrightarrow> int (as_usize z) = z"
  by (simp add: as_usize_def)

lemma dot_append: "length ix = length st \<Longrightarrow> dot (ix @ ix') (st @ st') = dot ix st + dot ix' st'"
  by (induction ix st rule: dot.induct) auto

lemma dot_Nil [simp]: "dot ix [] = 0"
  by (cases ix) auto

lemma dot_update:
  "d < length ix \<Longrightarrow> length ix = length st \<Longrightarrow>
   dot (ix[d := v]) st = dot ix st + (int v - int (ix ! d)) * st ! d"
proof (induction ix st arbitrary: d rule: dot.induct)
  case (1 i ix s st)
  then show ?case by (cases d) (auto simp: algebra_simps)
qed auto

lemma dot_update_stride:
  "d < length ix \<Longrightarrow> length ix = length st \<Longrightarrow>
   dot ix (st[d := v]) = dot ix st + int (ix ! d) * (v - st ! d)"
proof (induction ix st arbitrary: d rule: dot.induct)
  case (1 i ix s st)
  then show ?case by (cases d) (auto simp: algebra_simps)
qed auto

lemma dot_sum:
  "length ix = length st \<Longrightarrow> dot ix st = (\<Sum>k < length st. int (ix ! k) * st ! k)"
proof (induction ix st rule: dot.induct)
  case (1 i ix s st)
  then show ?case by (simp add: sum.lessThan_Suc_shift del: sum.lessThan_Suc)
qed auto

lemma dot_insert:
  "d \<le> length ix \<Longrightarrow> length ix = length st \<Longrightarrow>
   dot (insert_at d v ix) (insert_at d s st) = dot ix st + int v * s"
  using dot_append [of "take d ix" "take d st" "drop d ix" "drop d st"]
  by (simp add: insert_at_def dot_append)


lemma dot_zeros [simp]: "dot (replicate k 0) st = 0"
proof (induction k arbitrary: st)
  case (Suc k)
  then show ?case by (cases st) auto
qed simp

lemma in_bounds_as_usize:
  assumes "in_bounds n l" and "valid_ix (ldims l) ix"
  shows "int (as_usize (offset l ix)) = offset l ix"
  using in_boundsD(2) [OF assms(1)] in_boundsD(3,4) [OF assms] by (intro as_usize_id) auto

section \<open>The contract of a view\<close>

locale view_op =
  fixes view :: "layout \<Rightarrow> layout ir_result"
    and pull :: "layout \<Rightarrow> nat list \<Rightarrow> nat list"
  assumes view_wf: "view l = Ok l' \<Longrightarrow> layout_wf l \<Longrightarrow> layout_wf l'"
    and pull_valid: "view l = Ok l' \<Longrightarrow> layout_wf l \<Longrightarrow> valid_ix (ldims l') ix \<Longrightarrow>
      valid_ix (ldims l) (pull l ix)"
    and pull_offset: "view l = Ok l' \<Longrightarrow> in_bounds n l \<Longrightarrow> valid_ix (ldims l') ix \<Longrightarrow>
      offset l' ix = offset l (pull l ix)"
begin

lemma view_in_bounds:
  assumes "view l = Ok l'" and "in_bounds n l"
  shows "in_bounds n l'"
proof -
  have wf: "layout_wf l" using in_boundsD(1) [OF assms(2)] .
  have "0 \<le> offset l' ix \<and> offset l' ix < int n" if "valid_ix (ldims l') ix" for ix
    using pull_offset [OF assms that] pull_valid [OF assms(1) wf that] in_boundsD(3,4) [OF assms(2)] by simp
  then show ?thesis using view_wf [OF assms(1) wf] in_boundsD(2) [OF assms(2)] by (simp add: in_bounds_def)
qed

lemma view_reads:
  assumes "view l = Ok l'" and "in_bounds n l" and "valid_ix (ldims l') ix"
  shows "read_at buf l' ix = read_at buf l (pull l ix)"
  using pull_offset [OF assms] by (simp add: read_at_def)

end

section \<open>Every view operation keeps the contract\<close>

definition narrow_pull :: "nat \<Rightarrow> nat \<Rightarrow> layout \<Rightarrow> nat list \<Rightarrow> nat list" where
  "narrow_pull d start l ix = ix[d := ix ! d + start]"

lemma narrow_valid:
  assumes "valid_ix ((ldims l)[d := len]) ix" and "d < length (ldims l)" and "start + len \<le> ldims l ! d"
  shows "valid_ix (ldims l) (narrow_pull d start l ix)"
proof (rule valid_ixI)
  have len: "length ix = length (ldims l)" using valid_ix_length [OF assms(1)] by simp
  then show "length (narrow_pull d start l ix) = length (ldims l)" by (simp add: narrow_pull_def)
  fix i assume i: "i < length (ldims l)"
  show "narrow_pull d start l ix ! i < ldims l ! i"
    using valid_ix_nth [OF assms(1), of i] i len assms(2,3) by (cases "i = d") (auto simp: narrow_pull_def)
qed

interpretation narrow: view_op "narrow d start len" "narrow_pull d start"
proof
  fix l l' ix n
  assume v: "narrow d start len l = Ok l'"
  have l': "d < length (ldims l)" "start + len \<le> ldims l ! d" "ldims l' = (ldims l)[d := len]"
      "stride l' = stride l" "start_offset l' = as_usize (int (start_offset l) + stride l ! d * int start)"
    using v by (auto simp: narrow_def from_dims_def split: if_splits)
  show "layout_wf l \<Longrightarrow> layout_wf l'" using l' by (simp add: layout_wf_def)
  show val: "valid_ix (ldims l') ix \<Longrightarrow> valid_ix (ldims l) (narrow_pull d start l ix)"
    using narrow_valid l' by simp
  assume ib: "in_bounds n l" and ix: "valid_ix (ldims l') ix"
  have wf: "length (stride l) = length (ldims l)" using in_boundsD(1) [OF ib] by (simp add: layout_wf_def)
  have len: "length ix = length (ldims l)" using valid_ix_length [OF ix] l' by simp
  let ?o = "(replicate (length (ldims l)) 0)[d := start]"
  have "valid_ix (ldims l) ?o"
  proof (rule valid_ixI)
    fix i assume "i < length (ldims l)"
    then show "?o ! i < ldims l ! i"
      using valid_ix_nth [OF ix, of i] valid_ix_nth [OF ix, of d] l' by (cases "i = d") auto
  qed simp
  moreover have "offset l ?o = int (start_offset l) + stride l ! d * int start"
    using l'(1) wf by (simp add: offset_def dot_update algebra_simps)
  ultimately have "int (start_offset l') = int (start_offset l) + stride l ! d * int start"
    using in_bounds_as_usize [OF ib, of ?o] l'(5) by simp
  then show "offset l' ix = offset l (narrow_pull d start l ix)"
    using l' wf len by (simp add: offset_def narrow_pull_def dot_update algebra_simps)
qed


definition swap_pull :: "nat \<Rightarrow> nat \<Rightarrow> layout \<Rightarrow> nat list \<Rightarrow> nat list" where
  "swap_pull i j l ix = swap i j ix"

lemma length_swap [simp]: "length (swap i j xs) = length xs"
  by (simp add: swap_def)

lemma swap_nth:
  "i < length xs \<Longrightarrow> j < length xs \<Longrightarrow> k < length xs \<Longrightarrow>
   swap i j xs ! k = xs ! (if k = j then i else if k = i then j else k)"
  by (auto simp: swap_def nth_list_update)

lemma swap_swap: "i < length xs \<Longrightarrow> j < length xs \<Longrightarrow> swap i j (swap i j xs) = xs"
  by (rule nth_equalityI) (auto simp: swap_nth)

lemma dot_swap:
  assumes "length ix = length st" and "i < length st" and "j < length st"
  shows "dot (swap i j ix) (swap i j st) = dot ix st"
proof -
  let ?p = "\<lambda>k. if k = j then i else if k = i then j else k"
  have "(\<Sum>k < length st. int (swap i j ix ! k) * swap i j st ! k) =
      (\<Sum>k < length st. int (ix ! ?p k) * st ! ?p k)"
    using assms by (intro sum.cong) (auto simp: swap_nth)
  also have "\<dots> = (\<Sum>k < length st. int (ix ! k) * st ! k)"
    using assms by (intro sum.reindex_bij_witness [of _ ?p ?p]) auto
  finally show ?thesis using assms by (simp add: dot_sum)
qed

interpretation transpose: view_op "transpose d1 d2" "swap_pull d1 d2"
proof
  fix l l' ix n
  assume v: "transpose d1 d2 l = Ok l'"
  have l': "d1 < length (ldims l)" "d2 < length (ldims l)" "ldims l' = swap d1 d2 (ldims l)"
      "stride l' = swap d1 d2 (stride l)" "start_offset l' = start_offset l"
    using v by (auto simp: transpose_def from_dims_def rank_def split: if_splits)
  show "layout_wf l \<Longrightarrow> layout_wf l'" using l' by (simp add: layout_wf_def)
  show "valid_ix (ldims l) (swap_pull d1 d2 l ix)" if ix: "valid_ix (ldims l') ix"
  proof (rule valid_ixI)
    have len: "length ix = length (ldims l)" using valid_ix_length [OF ix] l' by simp
    then show "length (swap_pull d1 d2 l ix) = length (ldims l)" by (simp add: swap_pull_def)
    fix i assume i: "i < length (ldims l)"
    let ?k = "if i = d2 then d1 else if i = d1 then d2 else i"
    have "ix ! ?k < ldims l' ! ?k" using valid_ix_nth [OF ix, of ?k] l' i by auto
    then show "swap_pull d1 d2 l ix ! i < ldims l ! i"
      using l' i len by (auto simp: swap_pull_def swap_nth split: if_splits)
  qed
  assume ib: "in_bounds n l" and ix: "valid_ix (ldims l') ix"
  have "length ix = length (ldims l)" "length (stride l) = length (ldims l)"
    using valid_ix_length [OF ix] l' in_boundsD(1) [OF ib] by (auto simp: layout_wf_def)
  then show "offset l' ix = offset l (swap_pull d1 d2 l ix)"
    using l' dot_swap [of "swap d1 d2 ix" "stride l" d1 d2] by (simp add: offset_def swap_pull_def swap_swap)
qed

definition flip_pull :: "nat \<Rightarrow> layout \<Rightarrow> nat list \<Rightarrow> nat list" where
  "flip_pull d l ix = ix[d := ldims l ! d - 1 - ix ! d]"

interpretation flip: view_op "flip d" "flip_pull d"
proof
  fix l l' ix n
  assume v: "flip d l = Ok l'"
  define shift where "shift = (if 1 < ldims l ! d then (int (ldims l ! d) - 1) * stride l ! d else 0)"
  have l': "d < length (ldims l)" "ldims l' = ldims l" "stride l' = (stride l)[d := - (stride l ! d)]"
      "start_offset l' = as_usize (int (start_offset l) + shift)"
    using v by (auto simp: flip_def Let_def rank_def shift_def split: if_splits)
  show "layout_wf l \<Longrightarrow> layout_wf l'" using l' by (simp add: layout_wf_def)
  show val: "valid_ix (ldims l) (flip_pull d l ix)" if ix: "valid_ix (ldims l') ix"
  proof (rule valid_ixI)
    show "length (flip_pull d l ix) = length (ldims l)"
      using valid_ix_length [OF ix] l' by (simp add: flip_pull_def)
    fix i assume i: "i < length (ldims l)"
    then show "flip_pull d l ix ! i < ldims l ! i"
      using valid_ix_nth [OF ix, of i] valid_ix_length [OF ix] l' by (cases "i = d") (auto simp: flip_pull_def)
  qed
  assume ib: "in_bounds n l" and ix: "valid_ix (ldims l') ix"
  have wf: "length (stride l) = length (ldims l)" and len: "length ix = length (ldims l)"
    using in_boundsD(1) [OF ib] valid_ix_length [OF ix] l' by (auto simp: layout_wf_def)
  let ?o = "(replicate (length (ldims l)) 0)[d := ldims l ! d - 1]"
  have size: "0 < ldims l ! d" using valid_ix_nth [OF ix, of d] l' by simp
  have "valid_ix (ldims l) ?o"
  proof (rule valid_ixI)
    fix i assume "i < length (ldims l)"
    then show "?o ! i < ldims l ! i" using valid_ix_nth [OF ix, of i] l' size by (cases "i = d") auto
  qed simp
  moreover have "offset l ?o = int (start_offset l) + shift"
    using l'(1) wf size by (auto simp: offset_def dot_update shift_def of_nat_diff algebra_simps)
  ultimately have "int (start_offset l') = int (start_offset l) + shift"
    using in_bounds_as_usize [OF ib, of ?o] l'(4) by simp
  moreover have "ix ! d < ldims l ! d" using valid_ix_nth [OF ix, of d] l' by simp
  ultimately show "offset l' ix = offset l (flip_pull d l ix)"
    using l' wf len size
    by (auto simp: offset_def flip_pull_def dot_update dot_update_stride shift_def of_nat_diff algebra_simps)
qed


definition position :: "nat list \<Rightarrow> nat \<Rightarrow> nat" where
  "position idxs j = length (takeWhile (\<lambda>i. i \<noteq> j) idxs)"

definition permute_pull :: "nat list \<Rightarrow> layout \<Rightarrow> nat list \<Rightarrow> nat list" where
  "permute_pull idxs l ix = map (\<lambda>j. ix ! position idxs j) [0..<length idxs]"

lemma position_nth: "j \<in> set idxs \<Longrightarrow> position idxs j < length idxs \<and> idxs ! position idxs j = j"
  unfolding position_def by (induction idxs) auto

lemma is_permutation_distinct:
  assumes "is_permutation idxs n"
  shows "distinct idxs" and "set idxs = {..<n}"
proof -
  have sub: "{..<n} \<subseteq> set idxs" using assms by (auto simp: is_permutation_def)
  have "card (set idxs) \<le> n" using card_length [of idxs] assms by (simp add: is_permutation_def)
  then show eq: "set idxs = {..<n}" using card_seteq [OF _ sub] by simp
  then show "distinct idxs" using assms by (intro card_distinct) (simp add: is_permutation_def)
qed

lemma position_of_nth: "distinct idxs \<Longrightarrow> k < length idxs \<Longrightarrow> position idxs (idxs ! k) = k"
  using position_nth [of "idxs ! k" idxs] nth_eq_iff_index_eq [of idxs "position idxs (idxs ! k)" k] by simp

lemma dot_permute:
  assumes perm: "is_permutation idxs (length st)" and len: "length ix = length st"
  shows "dot ix (map ((!) st) idxs) = dot (map (\<lambda>j. ix ! position idxs j) [0..<length st]) st"
proof -
  have n: "length idxs = length st" using perm by (simp add: is_permutation_def)
  note d = is_permutation_distinct [OF perm]
  have "(\<Sum>k < length st. int (ix ! k) * st ! (idxs ! k)) =
      (\<Sum>j < length st. int (ix ! position idxs j) * st ! j)"
    by (rule sum.reindex_bij_witness [of _ "position idxs" "(!) idxs"])
      (use n d position_of_nth [OF d(1)] position_nth [of _ idxs] in auto)
  then show ?thesis using n len by (simp add: dot_sum)
qed

interpretation permute: view_op "permute idxs" "permute_pull idxs"
proof
  fix l l' ix n
  assume v: "permute idxs l = Ok l'"
  have l': "is_permutation idxs (length (ldims l))" "ldims l' = map ((!) (ldims l)) idxs"
      "stride l' = map ((!) (stride l)) idxs" "start_offset l' = start_offset l"
    using v by (auto simp: permute_def from_dims_def rank_def split: if_splits)
  then have n: "length idxs = length (ldims l)" by (simp add: is_permutation_def)
  show "layout_wf l \<Longrightarrow> layout_wf l'" using l' by (simp add: layout_wf_def)
  show "valid_ix (ldims l) (permute_pull idxs l ix)" if ix: "valid_ix (ldims l') ix"
  proof (rule valid_ixI)
    show "length (permute_pull idxs l ix) = length (ldims l)" using n by (simp add: permute_pull_def)
    fix i assume i: "i < length (ldims l)"
    have "i \<in> set idxs" using is_permutation_distinct(2) [OF l'(1)] i by simp
    then have p: "position idxs i < length idxs" "idxs ! position idxs i = i" using position_nth by blast+
    then show "permute_pull idxs l ix ! i < ldims l ! i"
      using valid_ix_nth [OF ix, of "position idxs i"] l' n i by (simp add: permute_pull_def)
  qed
  assume ib: "in_bounds n l" and ix: "valid_ix (ldims l') ix"
  have "length (stride l) = length (ldims l)" "length ix = length (ldims l)"
    using in_boundsD(1) [OF ib] valid_ix_length [OF ix] l' n by (auto simp: layout_wf_def)
  then show "offset l' ix = offset l (permute_pull idxs l ix)"
    using l' n dot_permute [of idxs "stride l" ix] by (simp add: offset_def permute_pull_def)
qed

lemma length_insert_at [simp]: "i \<le> length xs \<Longrightarrow> length (insert_at i x xs) = Suc (length xs)"
  by (simp add: insert_at_def)

lemma length_remove_at [simp]: "i < length xs \<Longrightarrow> length (remove_at i xs) = length xs - 1"
  by (simp add: remove_at_def)

lemma remove_insert_at [simp]: "i \<le> length xs \<Longrightarrow> remove_at i (insert_at i x xs) = xs"
  by (simp add: insert_at_def remove_at_def min_def)

lemma insert_remove_at: "i < length xs \<Longrightarrow> insert_at i (xs ! i) (remove_at i xs) = xs"
  by (simp add: insert_at_def remove_at_def min_def id_take_nth_drop [symmetric])

lemma valid_ix_append:
  "length ix = length ds \<Longrightarrow> valid_ix (ds @ ds') (ix @ ix') \<longleftrightarrow> valid_ix ds ix \<and> valid_ix ds' ix'"
  by (auto simp: valid_ix_def list_all2_append)

lemma valid_ix_Cons: "valid_ix (d # ds) (i # ix) \<longleftrightarrow> i < d \<and> valid_ix ds ix"
  by (simp add: valid_ix_def)

lemma valid_insert_at:
  assumes "d \<le> length ix" and "length ix = length ds"
  shows "valid_ix (insert_at d n ds) (insert_at d i ix) \<longleftrightarrow> i < n \<and> valid_ix ds ix"
proof -
  have "valid_ix ds ix \<longleftrightarrow> valid_ix (take d ds @ drop d ds) (take d ix @ drop d ix)" by simp
  also have "\<dots> \<longleftrightarrow> valid_ix (take d ds) (take d ix) \<and> valid_ix (drop d ds) (drop d ix)"
    by (rule valid_ix_append) (use assms in simp)
  finally show ?thesis using assms by (auto simp: insert_at_def valid_ix_append valid_ix_Cons)
qed

definition unsqueeze_pull :: "nat \<Rightarrow> layout \<Rightarrow> nat list \<Rightarrow> nat list" where
  "unsqueeze_pull d l ix = remove_at d ix"

definition squeeze_pull :: "nat \<Rightarrow> layout \<Rightarrow> nat list \<Rightarrow> nat list" where
  "squeeze_pull d l ix = insert_at d 0 ix"

interpretation unsqueeze: view_op "unsqueeze d" "unsqueeze_pull d"
proof
  fix l l' ix n
  assume v: "unsqueeze d l = Ok l'"
  have l': "d \<le> length (ldims l)" "ldims l' = insert_at d 1 (ldims l)" "stride l' = insert_at d 0 (stride l)"
      "start_offset l' = start_offset l"
    using v by (auto simp: unsqueeze_def from_dims_def rank_def split: if_splits)
  show "layout_wf l \<Longrightarrow> layout_wf l'" using l' by (simp add: layout_wf_def)
  have split: "ix = insert_at d (ix ! d) (remove_at d ix) \<and> length (remove_at d ix) = length (ldims l)"
    if "valid_ix (ldims l') ix"
    using valid_ix_length [OF that] l' by (simp add: insert_remove_at)
  show "valid_ix (ldims l) (unsqueeze_pull d l ix)" if ix: "valid_ix (ldims l') ix"
    using split [OF ix] ix l' valid_insert_at [of d "remove_at d ix" "ldims l" 1 "ix ! d"]
    by (simp add: unsqueeze_pull_def)
  assume ib: "in_bounds n l" and ix: "valid_ix (ldims l') ix"
  have "length (stride l) = length (ldims l)" using in_boundsD(1) [OF ib] by (simp add: layout_wf_def)
  then show "offset l' ix = offset l (unsqueeze_pull d l ix)"
    using split [OF ix] l' dot_insert [of d "remove_at d ix" "stride l" "ix ! d" 0]
    by (simp add: offset_def unsqueeze_pull_def)
qed

interpretation squeeze: view_op "squeeze d" "squeeze_pull d"
proof
  fix l l' ix n
  assume v: "squeeze d l = Ok l'"
  have l': "d < length (ldims l)" "ldims l ! d = 1" "ldims l' = remove_at d (ldims l)"
      "stride l' = remove_at d (stride l)" "start_offset l' = start_offset l"
    using v by (auto simp: squeeze_def from_dims_def rank_def split: if_splits)
  have base: "ldims l = insert_at d 1 (ldims l')" using insert_remove_at [OF l'(1)] l' by simp
  show "layout_wf l \<Longrightarrow> layout_wf l'" using l' by (simp add: layout_wf_def)
  have len: "length ix = length (ldims l')" if "valid_ix (ldims l') ix" by (rule valid_ix_length [OF that])
  show "valid_ix (ldims l) (squeeze_pull d l ix)" if ix: "valid_ix (ldims l') ix"
  proof -
    have "valid_ix (insert_at d 1 (ldims l')) (insert_at d 0 ix)"
      by (subst valid_insert_at) (use len [OF ix] ix l' in simp_all)
    then show ?thesis unfolding base [symmetric] squeeze_pull_def .
  qed
  assume ib: "in_bounds n l" and ix: "valid_ix (ldims l') ix"
  have wf: "length (stride l) = length (ldims l)" using in_boundsD(1) [OF ib] by (simp add: layout_wf_def)
  then have "stride l = insert_at d (stride l ! d) (stride l')" using insert_remove_at [of d "stride l"] l' by simp
  then show "offset l' ix = offset l (squeeze_pull d l ix)"
    using len [OF ix] l' wf dot_insert [of d ix "stride l'" 0 "stride l ! d"]
    by (simp add: offset_def squeeze_pull_def)
qed


fun bcast_pull :: "nat list \<Rightarrow> nat list \<Rightarrow> nat list \<Rightarrow> nat list" where
  "bcast_pull (dst # dsts) (src # srcs) (i # ix) = (if dst = src then i else 0) # bcast_pull dsts srcs ix"
| "bcast_pull _ _ _ = []"

definition broadcast_pull :: "shape \<Rightarrow> layout \<Rightarrow> nat list \<Rightarrow> nat list" where
  "broadcast_pull s l ix =
     (let added = rank s - rank (shape l) in bcast_pull (drop added (dims s)) (ldims l) (drop added ix))"

lemma bcast_strides_length:
  "bcast_strides dst src st = Some out \<Longrightarrow> length dst = length src \<Longrightarrow> length st = length src \<Longrightarrow>
   length out = length src"
  by (induction dst src st arbitrary: out rule: bcast_strides.induct) (auto split: if_splits)

lemma bcast_pull_valid:
  "bcast_strides dst src st = Some out \<Longrightarrow> length dst = length src \<Longrightarrow> length st = length src \<Longrightarrow>
   valid_ix dst ix \<Longrightarrow> valid_ix src (bcast_pull dst src ix)"
proof (induction dst src st arbitrary: out ix rule: bcast_strides.induct)
  case (1 dst dsts src srcs st sts)
  obtain i ix' where ix: "ix = i # ix'" using 1(6) by (cases ix) (auto simp: valid_ix_def)
  have v: "i < dst" "valid_ix dsts ix'" using 1(6) by (auto simp: ix valid_ix_Cons)
  show ?case
  proof (cases "dst = src")
    case True
    then show ?thesis using 1 v by (auto simp: ix valid_ix_Cons)
  next
    case False
    then show ?thesis using 1 v by (auto simp: ix valid_ix_Cons split: if_splits)
  qed
qed (auto simp: valid_ix_def)

lemma bcast_pull_dot:
  "bcast_strides dst src st = Some out \<Longrightarrow> length dst = length src \<Longrightarrow> length st = length src \<Longrightarrow>
   length ix = length dst \<Longrightarrow> dot ix out = dot (bcast_pull dst src ix) st"
proof (induction dst src st arbitrary: out ix rule: bcast_strides.induct)
  case (1 dst dsts src srcs st sts)
  obtain i ix' where ix: "ix = i # ix'" using 1(6) by (cases ix) auto
  show ?case using 1 by (auto simp: ix split: if_splits)
qed auto

interpretation broadcast: view_op "broadcast_as s" "broadcast_pull s"
proof
  fix l l' ix n
  assume v: "broadcast_as s l = Ok l'"
  let ?a = "rank s - rank (shape l)"
  obtain st where st: "bcast_strides (drop ?a (dims s)) (ldims l) (stride l) = Some st"
    and l': "rank (shape l) \<le> rank s" "shape l' = s" "stride l' = replicate ?a 0 @ st"
      "start_offset l' = start_offset l"
    using v by (auto simp: broadcast_as_def Let_def split: if_splits option.splits)
  have len: "length (drop ?a (dims s)) = length (ldims l)" using l'(1) by (simp add: rank_def)
  show "layout_wf l'" if "layout_wf l"
    using bcast_strides_length [OF st len] that l' by (simp add: layout_wf_def rank_def)
  have tail: "valid_ix (drop ?a (dims s)) (drop ?a ix)" if "valid_ix (dims s) ix"
    using that valid_ix_length [OF that] valid_ix_append [of "take ?a ix" "take ?a (dims s)" "drop ?a (dims s)" "drop ?a ix"]
    by simp
  show "valid_ix (ldims l) (broadcast_pull s l ix)" if "layout_wf l" "valid_ix (ldims l') ix"
    using bcast_pull_valid [OF st len _ tail] that l' by (simp add: layout_wf_def broadcast_pull_def Let_def)
  assume ib: "in_bounds n l" and ix: "valid_ix (ldims l') ix"
  have wf: "length (stride l) = length (ldims l)" using in_boundsD(1) [OF ib] by (simp add: layout_wf_def)
  have lx: "length ix = rank s" using valid_ix_length [OF ix] l' by (simp add: rank_def)
  have zeros: "dot xs (replicate k 0) = 0" for xs k
  proof (induction k arbitrary: xs)
    case (Suc k)
    then show ?case by (cases xs) auto
  qed simp
  have "dot ix (replicate ?a 0 @ st) = dot (drop ?a ix) st"
    using dot_append [of "take ?a ix" "replicate ?a 0" "drop ?a ix" st] lx zeros by simp
  then show "offset l' ix = offset l (broadcast_pull s l ix)"
    using bcast_pull_dot [OF st len wf, of "drop ?a ix"] l' len lx
    by (simp add: offset_def broadcast_pull_def Let_def rank_def)
qed


section \<open>Chains of views\<close>

datatype view_call =
    Narrow nat nat nat | Transpose nat nat | Permute "nat list"
  | Unsqueeze nat | Squeeze nat | Flip nat | BroadcastAs shape

fun apply_view :: "view_call \<Rightarrow> layout \<Rightarrow> layout ir_result" where
  "apply_view (Narrow d start len) = narrow d start len"
| "apply_view (Transpose d1 d2) = transpose d1 d2"
| "apply_view (Permute idxs) = permute idxs"
| "apply_view (Unsqueeze d) = unsqueeze d"
| "apply_view (Squeeze d) = squeeze d"
| "apply_view (Flip d) = flip d"
| "apply_view (BroadcastAs s) = broadcast_as s"

fun pull_view :: "view_call \<Rightarrow> layout \<Rightarrow> nat list \<Rightarrow> nat list" where
  "pull_view (Narrow d start len) = narrow_pull d start"
| "pull_view (Transpose d1 d2) = swap_pull d1 d2"
| "pull_view (Permute idxs) = permute_pull idxs"
| "pull_view (Unsqueeze d) = unsqueeze_pull d"
| "pull_view (Squeeze d) = squeeze_pull d"
| "pull_view (Flip d) = flip_pull d"
| "pull_view (BroadcastAs s) = broadcast_pull s"

interpretation one_view: view_op "apply_view c" "pull_view c"
  by (cases c)
    (simp_all add: narrow.view_op_axioms transpose.view_op_axioms permute.view_op_axioms
      unsqueeze.view_op_axioms squeeze.view_op_axioms flip.view_op_axioms broadcast.view_op_axioms)

fun apply_views :: "view_call list \<Rightarrow> layout \<Rightarrow> layout ir_result" where
  "apply_views [] l = Ok l"
| "apply_views (c # cs) l = rust_bind (apply_view c l) (apply_views cs)"

text \<open>The index of the base that an index of the last view stands for.\<close>

fun pull_views :: "view_call list \<Rightarrow> layout \<Rightarrow> nat list \<Rightarrow> nat list" where
  "pull_views [] l ix = ix"
| "pull_views (c # cs) l ix = (case apply_view c l of
     Ok l1 \<Rightarrow> pull_view c l (pull_views cs l1 ix) | _ \<Rightarrow> ix)"

lemma pull_views_valid:
  "apply_views cs l = Ok l' \<Longrightarrow> layout_wf l \<Longrightarrow> valid_ix (ldims l') ix \<Longrightarrow> valid_ix (ldims l) (pull_views cs l ix)"
proof (induction cs arbitrary: l)
  case (Cons c cs)
  obtain l1 where l1: "apply_view c l = Ok l1" "apply_views cs l1 = Ok l'" using Cons.prems(1) by auto
  have "layout_wf l1" by (rule one_view.view_wf [OF l1(1) Cons.prems(2)])
  from one_view.pull_valid [OF l1(1) Cons.prems(2) Cons.IH [OF l1(2) this Cons.prems(3)]]
  show ?case using l1(1) by simp
qed simp

interpretation views: view_op "apply_views cs" "pull_views cs"
proof
  fix l l' ix n
  show "layout_wf l'" if "apply_views cs l = Ok l'" "layout_wf l"
    using that by (induction cs arbitrary: l) (auto dest: one_view.view_wf)
  show "valid_ix (ldims l) (pull_views cs l ix)"
    if "apply_views cs l = Ok l'" "layout_wf l" "valid_ix (ldims l') ix"
    using that by (rule pull_views_valid)
  show "offset l' ix = offset l (pull_views cs l ix)"
    if "apply_views cs l = Ok l'" "in_bounds n l" "valid_ix (ldims l') ix"
    using that
  proof (induction cs arbitrary: l)
    case (Cons c cs)
    obtain l1 where l1: "apply_view c l = Ok l1" "apply_views cs l1 = Ok l'" using Cons.prems(1) by auto
    have ib: "in_bounds n l1" by (rule one_view.view_in_bounds [OF l1(1) Cons.prems(2)])
    have wf: "layout_wf l1" by (rule in_boundsD(1) [OF ib])
    have "valid_ix (ldims l1) (pull_views cs l1 ix)" by (rule pull_views_valid [OF l1(2) wf Cons.prems(3)])
    from one_view.pull_offset [OF l1(1) Cons.prems(2) this] show ?case
      using Cons.IH [OF l1(2) ib Cons.prems(3)] l1(1) by simp
  qed simp
qed

end
