(* ===== verification/StridedIndex.thy ===== *)
theory StridedIndex
  imports Layout
begin

text \<open>
  The strided iterator (\<open>fuel-ir/src/strided_index.rs\<close>) and the block decompositions of a layout
  (\<open>strided_blocks\<close> and \<open>offsets_b\<close> of \<open>fuel-ir/src/layout.rs\<close>). The reference is the row-major list
  of storage offsets \<open>offs\<close>; the iterator and both decompositions enumerate exactly it.
\<close>

section \<open>The iterator\<close>

record strided_index =
  next_storage_index :: "int option"
  multi_index :: "nat list"
  si_dims :: "nat list"
  si_stride :: "int list"
  remaining :: nat

definition strided_new :: "nat list \<Rightarrow> int list \<Rightarrow> nat \<Rightarrow> strided_index" where
  "strided_new ds st off = (let n = prod_list ds in
     \<lparr>next_storage_index = (if n = 0 then None else Some (int off)),
      multi_index = replicate (length ds) 0, si_dims = ds, si_stride = st, remaining = n\<rparr>)"

definition from_layout :: "layout \<Rightarrow> strided_index" where
  "from_layout l = strided_new (ldims l) (stride l) (start_offset l)"

text \<open>The loop of \<open>next\<close> over the axes from the last to the first.\<close>

fun advance :: "(nat \<times> nat \<times> int) list \<Rightarrow> int \<Rightarrow> nat list \<times> int \<times> bool" where
  "advance [] off = ([], off, False)"
| "advance ((m, hi, s) # rest) off =
     (if m + 1 < hi then ((m + 1) # map fst rest, off + s, True)
      else (case advance rest (off - int m * s) of (ms, off', updated) \<Rightarrow> (0 # ms, off', updated)))"

definition strided_next :: "strided_index \<Rightarrow> (nat option \<times> strided_index) ir_result" where
  "strided_next it = (case next_storage_index it of
     None \<Rightarrow> Ok (None, it)
   | Some off \<Rightarrow>
       (case advance (rev (zip (multi_index it) (zip (si_dims it) (si_stride it)))) off of
         (ms, off', updated) \<Rightarrow>
           if remaining it = 0 then Panic
           else Ok (Some (as_usize off),
             it\<lparr>multi_index := rev ms @ drop (length ms) (multi_index it),
                remaining := remaining it - 1,
                next_storage_index := (if updated then Some off' else None)\<rparr>)))"

text \<open>Draining the iterator, with the number of calls to \<open>next\<close> as fuel.\<close>

fun drain :: "nat \<Rightarrow> strided_index \<Rightarrow> nat list ir_result" where
  "drain 0 it = Err Msg"
| "drain (Suc n) it = rust_bind (strided_next it) (\<lambda>(x, it'). case x of
     None \<Rightarrow> Ok []
   | Some v \<Rightarrow> rust_bind (drain n it') (\<lambda>vs. Ok (v # vs)))"

section \<open>Block decompositions\<close>

datatype strided_blocks =
    SingleBlock nat nat
  | MultipleBlocks strided_index nat

fun block_scan :: "nat \<Rightarrow> nat \<Rightarrow> (int \<times> nat) list \<Rightarrow> nat \<times> nat" where
  "block_scan len cnt [] = (len, cnt)"
| "block_scan len cnt ((s, d) # sds) =
     (if s \<noteq> int len then (len, cnt) else block_scan (len * d) (cnt + 1) sds)"

definition strided_blocks_of :: "layout \<Rightarrow> strided_blocks" where
  "strided_blocks_of l =
     (case block_scan 1 0 (rev (zip (stride l) (ldims l))) of (len, cnt) \<Rightarrow>
        let index_dims = length (ldims l) - cnt in
        if index_dims = 0 then SingleBlock (start_offset l) len
        else MultipleBlocks (strided_new (take index_dims (ldims l)) (take index_dims (stride l)) (start_offset l)) len)"

record contiguous_offsets_with_broadcast =
  cb_start :: nat
  cb_len :: nat
  left_broadcast :: nat
  right_broadcast :: nat

fun zero_run :: "nat \<Rightarrow> nat \<Rightarrow> (int \<times> nat) list \<Rightarrow> nat \<times> nat" where
  "zero_run cnt acc [] = (cnt, acc)"
| "zero_run cnt acc ((s, d) # sds) = (if s \<noteq> 0 then (cnt, acc) else zero_run (cnt + 1) (acc * d) sds)"

fun strict_run :: "nat \<Rightarrow> (int \<times> nat) list \<Rightarrow> nat option" where
  "strict_run len [] = Some len"
| "strict_run len ((s, d) # sds) = (if s \<noteq> int len then None else strict_run (len * d) sds)"

definition offsets_b :: "layout \<Rightarrow> contiguous_offsets_with_broadcast option" where
  "offsets_b l =
     (let sds = zip (stride l) (ldims l); n = length (ldims l) in
      case zero_run 0 1 sds of (start_cont, left) \<Rightarrow>
        if start_cont = n
        then Some \<lparr>cb_start = start_offset l, cb_len = 1, left_broadcast = left, right_broadcast = 1\<rparr>
        else (case zero_run 0 1 (rev sds) of (tail, right) \<Rightarrow>
          let end_cont = n - tail;
              inner = zip (take (end_cont - start_cont) (drop start_cont (stride l)))
                          (take (end_cont - start_cont) (drop start_cont (ldims l)))
          in map_option (\<lambda>len. \<lparr>cb_start = start_offset l, cb_len = len,
                 left_broadcast = left, right_broadcast = right\<rparr>)
               (strict_run 1 (rev inner))))"

section \<open>The reference enumeration\<close>

fun indices :: "nat list \<Rightarrow> nat list list" where
  "indices [] = [[]]"
| "indices (d # ds) = concat (map (\<lambda>i. map ((#) i) (indices ds)) [0..<d])"

definition offs :: "nat list \<Rightarrow> int list \<Rightarrow> int \<Rightarrow> int list" where
  "offs ds st off = map (\<lambda>ix. off + dot ix st) (indices ds)"

lemma length_indices [simp]: "length (indices ds) = prod_list ds"
  by (induction ds) (auto simp: length_concat comp_def sum_list_triv)

lemma set_indices: "set (indices ds) = {ix. valid_ix ds ix}"
proof (induction ds)
  case Nil
  then show ?case by (auto simp: valid_ix_def)
next
  case (Cons d ds)
  have "valid_ix (d # ds) ix \<longleftrightarrow> (\<exists>i ix'. ix = i # ix' \<and> i < d \<and> valid_ix ds ix')" for ix
    by (cases ix) (auto simp: valid_ix_def)
  then show ?case using Cons by auto
qed

lemma offs_Nil [simp]: "offs [] st off = [off]"
  by (simp add: offs_def)

lemma offs_Cons:
  "offs (d # ds) (s # st) off = concat (map (\<lambda>i. offs ds st (off + int i * s)) [0..<d])"
  by (simp add: offs_def map_concat comp_def add.assoc)

lemma concat_map_concat: "concat (map f (concat xss)) = concat (map (\<lambda>xs. concat (map f xs)) xss)"
  by (induction xss) auto

lemma offs_append:
  "length ds = length st \<Longrightarrow>
   offs (ds @ ds') (st @ st') off = concat (map (offs ds' st') (offs ds st off))"
proof (induction ds st arbitrary: off rule: list_induct2)
  case (Cons d ds s st)
  then show ?case by (simp add: offs_Cons concat_map_concat comp_def)
qed simp

lemma offs_contiguous:
  "contiguous_axes ds st \<Longrightarrow> offs ds st off = map (\<lambda>k. off + int k) [0..<prod_list ds]"
proof (induction ds st arbitrary: off rule: contiguous_axes.induct)
  case (2 d ds s st)
  let ?n = "prod_list ds"
  have ih: "offs ds st o' = map (\<lambda>k. o' + int k) [0..<?n]" for o' using 2 by simp
  have "concat (map (\<lambda>i. map (\<lambda>k. off + int i * s + int k) [0..<?n]) [0..<m]) =
      map (\<lambda>k. off + int k) [0..<m * ?n]" if "m \<le> d" for m
    using that
  proof (induction m)
    case (Suc m)
    have "int m * s = int (m * ?n)"
    proof (cases "1 < d")
      case True
      then show ?thesis using 2(2) by simp
    next
      case False
      then show ?thesis using Suc.prems by simp
    qed
    then have "map (\<lambda>k. off + int m * s + int k) [0..<?n] = map (\<lambda>k. off + int k) [m * ?n..<m * ?n + ?n]"
      by (simp add: map_add_upt [symmetric] comp_def ac_simps)
    moreover have "[0..<Suc m * ?n] = [0..<m * ?n] @ [m * ?n..<m * ?n + ?n]"
      using upt_add_eq_append [of 0 "m * ?n" ?n] by (simp add: add.commute)
    ultimately show ?case using Suc by simp
  qed simp
  from this [of d] show ?case by (simp add: offs_Cons ih)
qed auto


section \<open>The iterator enumerates the offsets in row-major order\<close>

fun next_ix :: "nat list \<Rightarrow> nat list \<Rightarrow> nat list option" where
  "next_ix (d # ds) (i # ix) = (case next_ix ds ix of
     Some ix' \<Rightarrow> Some (i # ix')
   | None \<Rightarrow> if i + 1 < d then Some ((i + 1) # replicate (length ix) 0) else None)"
| "next_ix _ _ = None"

lemma next_ix_length: "next_ix ds ix = Some ix' \<Longrightarrow> length ix' = length ix"
  by (induction ds ix arbitrary: ix' rule: next_ix.induct) (auto split: option.splits if_splits)

lemma advance_append:
  "advance (xs @ ys) off = (case advance xs off of (ms, off', updated) \<Rightarrow>
     if updated then (ms @ map fst ys, off', True)
     else (case advance ys off' of (ms', off'', u) \<Rightarrow> (ms @ ms', off'', u)))"
  by (induction xs off rule: advance.induct) (auto split: prod.splits)

lemma advance_next_ix:
  "length ix = length ds \<Longrightarrow> length st = length ds \<Longrightarrow>
   advance (rev (zip ix (zip ds st))) off =
     (case next_ix ds ix of
        Some ix' \<Rightarrow> (rev ix', off + dot ix' st - dot ix st, True)
      | None \<Rightarrow> (replicate (length ds) 0, off - dot ix st, False))"
proof (induction ix ds arbitrary: st off rule: list_induct2)
  case (Cons i ix d ds)
  obtain s st' where st: "st = s # st'" using Cons.prems by (cases st) auto
  have "rev (map fst (zip ix (zip ds st'))) = rev ix" using Cons.hyps Cons.prems by (simp add: st)
  then show ?case
    using Cons.IH [of st'] Cons.prems Cons.hyps
    by (auto simp: st advance_append rev_map [symmetric] replicate_append_same algebra_simps
        split: option.splits)
qed simp

fun linked :: "('a \<Rightarrow> 'a option) \<Rightarrow> 'a list \<Rightarrow> bool" where
  "linked f [] = True"
| "linked f [x] = (f x = None)"
| "linked f (x # y # zs) = (f x = Some y \<and> linked f (y # zs))"

lemma linked_block:
  assumes "linked (next_ix ds) xs" and "\<And>x. x \<in> set xs \<Longrightarrow> length x = length ds" and "xs \<noteq> []"
    and "rest = [] \<Longrightarrow> \<not> Suc i < d" and "rest \<noteq> [] \<Longrightarrow> Suc i < d \<and> hd rest = Suc i # replicate (length ds) 0"
    and "linked (next_ix (d # ds)) rest"
  shows "linked (next_ix (d # ds)) (map ((#) i) xs @ rest)"
  using assms
proof (induction xs rule: induct_list012)
  case (2 x)
  then show ?case by (cases rest) auto
next
  case (3 x y zs)
  then show ?case by auto
qed simp

lemma indices_hd: "0 < prod_list ds \<Longrightarrow> indices ds \<noteq> [] \<and> hd (indices ds) = replicate (length ds) 0"
proof (induction ds)
  case (Cons d ds)
  then have "indices ds \<noteq> []" "hd (indices ds) = replicate (length ds) 0" "0 < d" by auto
  then show ?case by (cases "indices ds") (auto simp: upt_conv_Cons)
qed simp

lemma linked_indices: "linked (next_ix ds) (indices ds)"
proof (induction ds)
  case (Cons d ds)
  show ?case
  proof (cases "indices ds = []")
    case False
    then have pos: "0 < prod_list ds" using length_indices [of ds] by (metis length_greater_0_conv)
    have len: "\<And>x. x \<in> set (indices ds) \<Longrightarrow> length x = length ds"
      by (simp add: set_indices valid_ix_length)
    have "linked (next_ix (d # ds)) (concat (map (\<lambda>i. map ((#) i) (indices ds)) [d - k..<d]))" if "k \<le> d" for k
      using that
    proof (induction k)
      case (Suc k)
      let ?rest = "concat (map (\<lambda>i. map ((#) i) (indices ds)) [d - k..<d])"
      have up: "[d - Suc k..<d] = (d - Suc k) # [d - k..<d]" using Suc.prems by (simp add: upt_conv_Cons Suc_diff_Suc)
      have a: "?rest = [] \<Longrightarrow> \<not> Suc (d - Suc k) < d" using False Suc.prems by (cases k) auto
      have b: "?rest \<noteq> [] \<Longrightarrow> Suc (d - Suc k) < d \<and> hd ?rest = Suc (d - Suc k) # replicate (length ds) 0"
        using Suc.prems indices_hd [OF pos] by (cases k) (auto simp: upt_conv_Cons hd_append hd_map Suc_diff_Suc)
      have c: "linked (next_ix (d # ds)) ?rest" using Suc by simp
      have "linked (next_ix (d # ds)) (map ((#) (d - Suc k)) (indices ds) @ ?rest)"
        by (rule linked_block [OF Cons.IH len False]) (assumption, fact a, fact b, fact c)
      then show ?case by (simp add: up)
    qed simp
    from this [of d] show ?thesis by simp
  next
    case True
    then have "indices (d # ds) = []" by auto
    then show ?thesis by (simp only: linked.simps)
  qed
qed simp

lemma drain_linked:
  assumes "linked (next_ix ds) (ix # rest)" and "length ix = length ds" and "length st = length ds"
    and "n = length (ix # rest)" and "n \<le> fuel"
  shows "drain (Suc fuel) \<lparr>next_storage_index = Some (off + dot ix st), multi_index = ix, si_dims = ds,
      si_stride = st, remaining = n\<rparr> = Ok (map (\<lambda>ix. as_usize (off + dot ix st)) (ix # rest))"
  using assms
proof (induction rest arbitrary: ix n fuel)
  case Nil
  then obtain f where "next_ix ds ix = None" "fuel = Suc f" by (cases fuel) auto
  then show ?case
    using Nil advance_next_ix [of ix ds st "off + dot ix st"] by (simp add: strided_next_def)
next
  case (Cons ix' rest)
  have nx: "next_ix ds ix = Some ix'" and fuel: "fuel = Suc (fuel - 1)" using Cons.prems by auto
  have len: "length ix' = length ds" using next_ix_length [OF nx] Cons.prems by simp
  have "drain (Suc (fuel - 1)) \<lparr>next_storage_index = Some (off + dot ix' st), multi_index = ix', si_dims = ds,
      si_stride = st, remaining = n - 1\<rparr> = Ok (map (\<lambda>ix. as_usize (off + dot ix st)) (ix' # rest))"
    by (rule Cons.IH) (use Cons.prems len in auto)
  then show ?case
    using Cons.prems nx len advance_next_ix [of ix ds st "off + dot ix st"] fuel
    by (simp add: strided_next_def)
qed

lemma drain_offs:
  assumes "length st = length ds" and "prod_list ds < fuel"
  shows "drain fuel (strided_new ds st start) = Ok (map as_usize (offs ds st (int start)))"
proof (cases "prod_list ds = 0")
  case True
  then have "indices ds = []" by (metis length_0_conv length_indices)
  then show ?thesis using assms True by (cases fuel) (auto simp: strided_new_def strided_next_def offs_def)
next
  case False
  then obtain ix rest where ir: "indices ds = ix # rest" "ix = replicate (length ds) 0"
    using indices_hd [of ds] by (cases "indices ds") auto
  obtain f where f: "fuel = Suc f" using assms(2) by (cases fuel) auto
  have "drain (Suc f) \<lparr>next_storage_index = Some (int start + dot ix st), multi_index = ix, si_dims = ds,
      si_stride = st, remaining = prod_list ds\<rparr> = Ok (map (\<lambda>ix. as_usize (int start + dot ix st)) (ix # rest))"
    by (rule drain_linked)
      (use linked_indices [of ds] ir assms f length_indices [of ds] in \<open>auto simp del: length_indices\<close>)
  then show ?thesis using False ir f by (simp add: strided_new_def offs_def comp_def)
qed


section \<open>The decompositions enumerate the same offsets\<close>

lemma concat_rows:
  "concat (map (\<lambda>k. map (\<lambda>i. f (k * d + i)) [0..<d]) [0..<m]) = map f [0..<m * d]"
proof (induction m)
  case (Suc m)
  have "map f [m * d..<m * d + d] = map (\<lambda>i. f (m * d + i)) [0..<d]"
    by (simp add: map_add_upt [symmetric] comp_def add.commute)
  moreover have "[0..<Suc m * d] = [0..<m * d] @ [m * d..<m * d + d]"
    using upt_add_eq_append [of 0 "m * d" d] by (simp add: add.commute)
  ultimately show ?case using Suc by simp
qed simp

lemma block_scan_shift: "block_scan a (Suc c) xs = (fst (block_scan a c xs), Suc (snd (block_scan a c xs)))"
proof (induction xs arbitrary: a c)
  case (Cons x xs)
  then show ?case by (cases x) auto
qed simp

text \<open>The axes a scan accepts enumerate one arithmetic progression, of step the initial length.\<close>

lemma block_scan_spec:
  assumes "length st = length ds" and "block_scan len 0 (rev (zip st ds)) = (blen, cnt)"
  shows "cnt \<le> length ds \<and> blen = len * prod_list (drop (length ds - cnt) ds) \<and>
    (\<forall>off. offs (drop (length ds - cnt) ds) (drop (length ds - cnt) st) off =
      map (\<lambda>k. off + int (len * k)) [0..<prod_list (drop (length ds - cnt) ds)])"
  using assms
proof (induction ds arbitrary: st len blen cnt rule: rev_induct)
  case (snoc d ds)
  obtain s st' where st: "st = st' @ [s]" "length st' = length ds"
    using snoc.prems(1) by (cases st rule: rev_cases) auto
  show ?case
  proof (cases "s = int len")
    case True
    obtain b c where bc: "block_scan (len * d) 0 (rev (zip st' ds)) = (b, c)" by fastforce
    let ?m = "length ds - c"
    have ih: "c \<le> length ds" "b = len * d * prod_list (drop ?m ds)"
        "\<And>off. offs (drop ?m ds) (drop ?m st') off = map (\<lambda>k. off + int (len * d * k)) [0..<prod_list (drop ?m ds)]"
      using snoc.IH [OF st(2) bc] by auto
    have c: "cnt = Suc c" "blen = b" using snoc.prems(2) bc st True by (auto simp: block_scan_shift)
    have "offs (drop ?m ds @ [d]) (drop ?m st' @ [s]) off =
        map (\<lambda>k. off + int (len * k)) [0..<prod_list (drop ?m ds) * d]" for off
    proof -
      have "offs (drop ?m ds @ [d]) (drop ?m st' @ [s]) off =
          concat (map (\<lambda>k. offs [d] [s] (off + int (len * d * k))) [0..<prod_list (drop ?m ds)])"
        using st(2) by (simp add: offs_append ih(3) comp_def)
      also have "\<dots> = concat (map (\<lambda>k. map (\<lambda>i. off + int (len * (k * d + i))) [0..<d]) [0..<prod_list (drop ?m ds)])"
        by (intro arg_cong [of _ _ concat] map_cong refl) (simp add: offs_Cons True algebra_simps)
      also have "\<dots> = map (\<lambda>k. off + int (len * k)) [0..<prod_list (drop ?m ds) * d]"
        by (rule concat_rows [of "\<lambda>k. off + int (len * k)"])
      finally show ?thesis .
    qed
    then show ?thesis using c st ih(1,2) by simp
  next
    case False
    then show ?thesis using snoc.prems(2) st by auto
  qed
qed auto


lemma blocks_offs:
  assumes wf: "layout_wf l" and scan: "block_scan 1 0 (rev (zip (stride l) (ldims l))) = (len, cnt)"
  defines "k \<equiv> length (ldims l) - cnt"
  shows "offs (ldims l) (stride l) off =
    concat (map (\<lambda>o'. map (\<lambda>i. o' + int i) [0..<len]) (offs (take k (ldims l)) (take k (stride l)) off))"
proof -
  have st: "length (stride l) = length (ldims l)" using wf by (simp add: layout_wf_def)
  have sp: "cnt \<le> length (ldims l)" "len = prod_list (drop k (ldims l))"
      "\<And>off. offs (drop k (ldims l)) (drop k (stride l)) off = map (\<lambda>i. off + int i) [0..<len]"
    using block_scan_spec [OF st scan] by (auto simp: k_def)
  have "offs (take k (ldims l) @ drop k (ldims l)) (take k (stride l) @ drop k (stride l)) off =
      concat (map (offs (drop k (ldims l)) (drop k (stride l))) (offs (take k (ldims l)) (take k (stride l)) off))"
    using st by (intro offs_append) simp
  then show ?thesis by (simp add: sp(3) cong: map_cong)
qed

lemma zero_run_spec:
  "zero_run c a xs = (c + length (takeWhile (\<lambda>x. fst x = 0) xs),
     a * prod_list (map snd (takeWhile (\<lambda>x. fst x = 0) xs)))"
proof (induction xs arbitrary: c a)
  case (Cons x xs)
  then show ?case by (cases x) auto
qed simp

lemma strict_run_block: "strict_run len xs = Some l \<Longrightarrow> block_scan len c xs = (l, c + length xs)"
proof (induction xs arbitrary: len c)
  case (Cons x xs)
  then show ?case by (cases x) (auto split: if_splits)
qed simp

lemma offs_zero:
  "length st = length ds \<Longrightarrow> (\<And>s. s \<in> set st \<Longrightarrow> s = 0) \<Longrightarrow> offs ds st off = replicate (prod_list ds) off"
proof (induction st ds arbitrary: off rule: list_induct2)
  case (Cons s st d ds)
  have rep: "concat (map (\<lambda>i. replicate n off) [0..<d]) = replicate (d * n) off" for n
    by (induction d) (auto simp: replicate_add [symmetric] add.commute)
  have "s = 0" "\<And>off. offs ds st off = replicate (prod_list ds) off" using Cons by auto
  then show ?case by (simp add: offs_Cons rep)
qed simp

text \<open>The zero-stride prefix of the axes, as its strides and dimensions.\<close>

lemma zero_prefix:
  fixes ds :: "nat list" and st :: "int list"
  assumes "length st = length ds"
  defines "z \<equiv> length (takeWhile (\<lambda>x. fst x = 0) (zip st ds))"
  shows "z \<le> length ds" and "s \<in> set (take z st) \<Longrightarrow> s = 0"
    and "prod_list (map snd (takeWhile (\<lambda>x. fst x = 0) (zip st ds))) = prod_list (take z ds)"
proof -
  have tw: "takeWhile (\<lambda>x. fst x = 0) (zip st ds) = zip (take z st) (take z ds)"
    unfolding z_def by (metis take_zip takeWhile_eq_take)
  show "z \<le> length ds" unfolding z_def using length_takeWhile_le [of _ "zip st ds"] assms(1) by simp
  have len: "length (take z st) = length (take z ds)" using assms(1) by simp
  show "s = 0" if "s \<in> set (take z st)"
  proof -
    have "s \<in> set (map fst (takeWhile (\<lambda>x. fst x = 0) (zip st ds)))" using that len by (simp add: tw)
    then show ?thesis using set_takeWhileD by fastforce
  qed
  show "prod_list (map snd (takeWhile (\<lambda>x. fst x = 0) (zip st ds))) = prod_list (take z ds)"
    using len by (simp add: tw)
qed


lemma zero_suffix:
  fixes ds :: "nat list" and st :: "int list"
  assumes len: "length st = length ds"
  defines "t \<equiv> length (takeWhile (\<lambda>x. fst x = 0) (rev (zip st ds)))"
  shows "t \<le> length ds" and "s \<in> set (drop (length ds - t) st) \<Longrightarrow> s = 0"
    and "prod_list (map snd (takeWhile (\<lambda>x. fst x = 0) (rev (zip st ds)))) = prod_list (drop (length ds - t) ds)"
proof -
  have z: "rev (zip st ds) = zip (rev st) (rev ds)" using len by (simp add: zip_rev)
  note zp = zero_prefix [of "rev st" "rev ds", folded z, folded t_def, simplified, OF len]
  show "t \<le> length ds" using zp(1) by simp
  show "s = 0" if "s \<in> set (drop (length ds - t) st)"
    using zp(2) [of s] that len by (simp add: take_rev)
  show "prod_list (map snd (takeWhile (\<lambda>x. fst x = 0) (rev (zip st ds)))) = prod_list (drop (length ds - t) ds)"
    using zp(3) by (simp add: take_rev prod_list_rev)
qed

lemma offs_three:
  assumes "length st = length ds" and "a \<le> e" and "e \<le> length ds"
  shows "offs ds st off = concat (map (\<lambda>o1. concat (map (offs (drop e ds) (drop e st))
      (offs (take (e - a) (drop a ds)) (take (e - a) (drop a st)) o1))) (offs (take a ds) (take a st) off))"
proof -
  have split: "xs = take a xs @ take (e - a) (drop a xs) @ drop e xs" for xs :: "'b list"
    using assms(2) by (metis append_take_drop_id drop_drop le_add_diff_inverse2)
  have "offs ds st off = concat (map (offs (take (e - a) (drop a ds) @ drop e ds) (take (e - a) (drop a st) @ drop e st))
      (offs (take a ds) (take a st) off))"
    by (subst split [of ds], subst split [of st], rule offs_append) (use assms in simp)
  moreover have "offs (take (e - a) (drop a ds) @ drop e ds) (take (e - a) (drop a st) @ drop e st) =
      (\<lambda>o1. concat (map (offs (drop e ds) (drop e st)) (offs (take (e - a) (drop a ds)) (take (e - a) (drop a st)) o1)))"
    using assms by (intro ext offs_append) simp
  ultimately show ?thesis by simp
qed

lemma offsets_b_offs:
  assumes wf: "layout_wf l" and cb: "offsets_b l = Some cb"
  shows "offs (ldims l) (stride l) (int (start_offset l)) =
    concat (replicate (left_broadcast cb) (concat (map (\<lambda>k. replicate (right_broadcast cb) (int (cb_start cb + k)))
      [0..<cb_len cb])))"
proof -
  define ds st where "ds = ldims l" and "st = stride l"
  have len: "length st = length ds" using wf by (simp add: layout_wf_def ds_def st_def)
  define a t where "a = length (takeWhile (\<lambda>x. fst x = 0) (zip st ds))"
    and "t = length (takeWhile (\<lambda>x. fst x = 0) (rev (zip st ds)))"
  note zp = zero_prefix [OF len, folded a_def] and zs = zero_suffix [OF len, folded t_def]
  let ?s = "int (start_offset l)"
  show ?thesis
  proof (cases "a = length ds")
    case True
    then have "cb = \<lparr>cb_start = start_offset l, cb_len = 1, left_broadcast = prod_list ds, right_broadcast = 1\<rparr>"
      using cb zp(3) by (simp add: offsets_b_def Let_def zero_run_spec ds_def [symmetric] st_def [symmetric] a_def [symmetric])
    moreover have "offs ds st ?s = replicate (prod_list ds) ?s"
      using zp(2) True len by (intro offs_zero) auto
    moreover have "concat (replicate n [x]) = replicate n x" for n and x :: int by (induction n) auto
    ultimately show ?thesis by (simp add: ds_def st_def)
  next
    case False
    then have lt: "a < length ds" using zp(1) by simp
    have nz: "st ! a \<noteq> 0"
      using nth_length_takeWhile [of "\<lambda>x. fst x = 0" "zip st ds"] lt len by (simp add: a_def [symmetric])
    define e where "e = length ds - t"
    have "a < e"
    proof (rule ccontr)
      assume "\<not> a < e"
      then have "st ! a \<in> set (drop e st)" using lt len by (force simp: in_set_conv_nth intro: exI [of _ "a - e"])
      then show False using zs(2) nz by (simp add: e_def)
    qed
    let ?B = "take (e - a) (drop a ds)" and ?sB = "take (e - a) (drop a st)"
    obtain m where m: "strict_run 1 (rev (zip ?sB ?B)) = Some m"
      and cb': "cb = \<lparr>cb_start = start_offset l, cb_len = m, left_broadcast = prod_list (take a ds),
          right_broadcast = prod_list (drop e ds)\<rparr>"
      using cb False zp(3) zs(3)
      by (auto simp: offsets_b_def Let_def zero_run_spec ds_def [symmetric] st_def [symmetric]
          a_def [symmetric] t_def [symmetric] e_def [symmetric] simp del: diff_diff_left)
    have lB: "length ?sB = length ?B" using len by simp
    have "block_scan 1 0 (rev (zip ?sB ?B)) = (m, length ?B)"
      using strict_run_block [OF m, of 0] lB by simp
    from block_scan_spec [OF lB this]
    have B: "offs ?B ?sB off = map (\<lambda>k. off + int k) [0..<m]" for off by simp
    have A: "offs (take a ds) (take a st) ?s = replicate (prod_list (take a ds)) ?s"
      using zp(2) len by (intro offs_zero) auto
    have C: "offs (drop e ds) (drop e st) off = replicate (prod_list (drop e ds)) off" for off
      using zs(2) len by (intro offs_zero) (auto simp: e_def)
    have "e \<le> length ds" by (simp add: e_def)
    from offs_three [OF len less_imp_le [OF \<open>a < e\<close>] this, of ?s] show ?thesis
      by (simp add: A B C cb' comp_def ds_def [symmetric] st_def [symmetric])
  qed
qed

end
