(* ===== verification/LayoutProperties.thy ===== *)
theory LayoutProperties
  imports StridedIndex
begin

text \<open>
  The properties of shapes, layouts and strided iteration: what an iterator visits, when a layout
  is one run of storage, what a chain of views may touch, the decompositions kernels use, and the
  shape arithmetic of broadcasting, reshaping and runtime extents.
\<close>

section \<open>Iteration\<close>


definition sample_layout :: layout where
  "sample_layout = \<lparr>shape = from_dims [2, 3], stride = [3, 1], start_offset = 4\<rparr>"

lemma sample_in_bounds: "in_bounds 10 sample_layout"
proof -
  have "valid_ix [2, 3] ix \<longleftrightarrow> (\<exists>i j. ix = [i, j] \<and> i < 2 \<and> j < 3)" for ix
    by (auto simp: valid_ix_def list_all2_Cons2)
  then show ?thesis
    by (auto simp: in_bounds_def layout_wf_def sample_layout_def from_dims_def offset_def)
qed



text \<open>
  Contiguity is sound: when \<open>contiguous_offsets\<close> returns a range, the offsets of the indices in
  row-major order are exactly the numbers of that range, in order, so a kernel may treat the layout
  as one slice.
\<close>

theorem contiguous_offsets_sound:
  assumes "contiguous_offsets l = Some (a, b)"
  shows "map (offset l) (indices (ldims l)) = map int [a..<b]"
proof -
  have c: "contiguous_axes (ldims l) (stride l)" and ab: "a = start_offset l" "b = a + prod_list (ldims l)"
    using assms by (auto simp: contiguous_offsets_def is_contiguous_axes elem_count_def split: if_splits)
  have "map (offset l) (indices (ldims l)) = offs (ldims l) (stride l) (int a)"
    by (simp add: offs_def offset_def ab fun_eq_iff)
  also have "\<dots> = map (\<lambda>k. int a + int k) [0..<prod_list (ldims l)]" by (rule offs_contiguous [OF c])
  also have "\<dots> = map int (map (\<lambda>k. k + a) [0..<prod_list (ldims l)])" by simp
  also have "\<dots> = map int [a..<b]" by (simp only: map_add_upt ab(2) add.commute)
  finally show ?thesis .
qed

theorem contiguous_offsets_sound_witness:
  "contiguous_offsets sample_layout = Some (4, 10) \<and> map (offset sample_layout) (indices [2, 3]) = map int [4..<10]"
proof -
  have "contiguous_offsets sample_layout = Some (4, 10)"
    by (simp add: contiguous_offsets_def sample_layout_def from_dims_def is_contiguous_def elem_count_def)
  from contiguous_offsets_sound [OF this] this show ?thesis by (simp add: sample_layout_def from_dims_def)
qed

section \<open>Views\<close>

text \<open>
  C28: Views never leave the buffer: any chain of narrow, transpose, permute, unsqueeze, squeeze, flip
  and broadcast that succeeds on a layout within a buffer gives a layout within the same buffer, and
  every element the view reads is the element of the base at the index the chain stands for.
\<close>

theorem views_stay_in_bounds:
  assumes "apply_views cs l = Ok l'" and "in_bounds n l"
  shows "in_bounds n l' \<and> (\<forall>ix. valid_ix (ldims l') ix \<longrightarrow>
    valid_ix (ldims l) (pull_views cs l ix) \<and> read_at buf l' ix = read_at buf l (pull_views cs l ix))"
  using views.view_in_bounds [OF assms] views.view_reads [OF assms]
    views.pull_valid [OF assms(1) in_boundsD(1) [OF assms(2)]] by blast

theorem views_stay_in_bounds_witness:
  "\<exists>l'. apply_views [Flip 1, Transpose 0 1, Narrow 0 1 2] sample_layout = Ok l' \<and> in_bounds 10 l' \<and>
     read_at [0 .. 9 :: int] l' [0, 1] = 8"
proof -
  let ?cs = "[Flip 1, Transpose 0 1, Narrow 0 1 2]"
  have ok: "apply_views ?cs sample_layout =
      Ok \<lparr>shape = from_dims [2, 2], stride = [- 1, 3], start_offset = 5\<rparr>" (is "_ = Ok ?l")
    by (simp add: sample_layout_def from_dims_def flip_def transpose_def narrow_def rank_def swap_def as_usize_def)
  have "pull_views ?cs sample_layout [0, 1] = [1, 1]"
    by (simp add: sample_layout_def from_dims_def flip_def transpose_def narrow_def rank_def swap_def as_usize_def
        narrow_pull_def swap_pull_def flip_pull_def)
  moreover have "valid_ix (ldims ?l) [0, 1]" by (simp add: valid_ix_def from_dims_def)
  ultimately have "in_bounds 10 ?l \<and> read_at [0 .. 9 :: int] ?l [0, 1] = read_at [0 .. 9] sample_layout [1, 1]"
    using views_stay_in_bounds [OF ok sample_in_bounds, of "[0 .. 9 :: int]"] by simp
  moreover have "read_at [0 .. 9 :: int] sample_layout [1, 1] = 8"
    by (simp add: read_at_def sample_layout_def offset_def)
  ultimately show ?thesis using ok by auto
qed

text \<open>
  Inverse views: flipping the same axis twice gives the layout back, for any start offset that
  fits the machine word and also when the layout is empty, and squeezing an inserted axis gives
  back dimensions, strides and offset.
\<close>

theorem view_inverses:
  assumes "start_offset l < 2 ^ 64"
  shows "(flip d l = Ok l1 \<longrightarrow> flip d l1 = Ok l) \<and>
    (unsqueeze d l = Ok l1 \<longrightarrow> squeeze d l1 = Ok (l\<lparr>shape := from_dims (ldims l)\<rparr>))"
proof (intro conjI impI)
  have u: "int (as_usize z) = z mod 2 ^ 64" for z by (simp add: as_usize_def)
  show "flip d l1 = Ok l" if v: "flip d l = Ok l1"
  proof -
    let ?sh = "if 1 < ldims l ! d then (int (ldims l ! d) - 1) * stride l ! d else 0"
    have l1: "d < rank (shape l)" "d < length (stride l)" "shape l1 = shape l"
        "stride l1 = (stride l)[d := - (stride l ! d)]" "start_offset l1 = as_usize (int (start_offset l) + ?sh)"
      using v by (auto simp: flip_def Let_def split: if_splits)
    have "as_usize (int (start_offset l1) - ?sh) = start_offset l"
      unfolding l1(5) u using assms by (simp add: as_usize_def mod_diff_left_eq)
    then show ?thesis using l1 by (auto simp: flip_def Let_def intro!: layout.equality)
  qed
  show "squeeze d l1 = Ok (l\<lparr>shape := from_dims (ldims l)\<rparr>)" if v: "unsqueeze d l = Ok l1"
    using v by (auto simp: unsqueeze_def squeeze_def from_dims_def rank_def insert_at_def nth_append split: if_splits)
      (auto simp: insert_at_def [symmetric])
qed

theorem view_inverses_witness:
  "\<exists>l1. flip 0 sample_layout = Ok l1 \<and> flip 0 l1 = Ok sample_layout"
proof -
  have "flip 0 sample_layout = Ok (sample_layout\<lparr>stride := [- 3, 1], start_offset := 7\<rparr>)"
    by (simp add: flip_def sample_layout_def from_dims_def rank_def as_usize_def)
  moreover have "start_offset sample_layout < 2 ^ 64" by (simp add: sample_layout_def)
  ultimately show ?thesis using view_inverses [of sample_layout 0] by blast
qed


section \<open>Decompositions used by kernels\<close>







text \<open>
  \<open>offsets_b\<close> describes the layout exactly: repeating the run of storage left-broadcast times,
  with each element repeated right-broadcast times, is the row-major sequence of offsets.
\<close>

theorem offsets_b_exact:
  assumes "layout_wf l" and "offsets_b l = Some cb"
  shows "map (offset l) (indices (ldims l)) =
    concat (replicate (left_broadcast cb)
      (concat (map (\<lambda>k. replicate (right_broadcast cb) (int (cb_start cb + k))) [0..<cb_len cb])))"
proof -
  have "map (offset l) (indices (ldims l)) = offs (ldims l) (stride l) (int (start_offset l))"
    by (simp add: offs_def offset_def fun_eq_iff)
  then show ?thesis using offsets_b_offs [OF assms] by simp
qed

theorem offsets_b_exact_witness:
  "let l = \<lparr>shape = from_dims [2, 2, 2], stride = [0, 1, 0], start_offset = 3\<rparr> in
   offsets_b l \<noteq> None \<and> map (offset l) (indices [2, 2, 2]) = [3, 3, 4, 4, 3, 3, 4, 4]"
proof -
  let ?l = "\<lparr>shape = from_dims [2, 2, 2], stride = [0, 1, 0], start_offset = 3\<rparr>"
  have wf: "layout_wf ?l" by (simp add: layout_wf_def from_dims_def)
  have ob: "offsets_b ?l = Some \<lparr>cb_start = 3, cb_len = 2, left_broadcast = 2, right_broadcast = 2\<rparr>"
    by (simp add: offsets_b_def from_dims_def)
  from offsets_b_exact [OF wf ob] show ?thesis
    using ob by (simp add: from_dims_def numeral_2_eq_2)
qed

section \<open>Shape arithmetic\<close>

text \<open>
  Binary broadcasting: the result does not depend on the order of the operands, and a layout of
  either operand's shape can be broadcast to the result, whose views then stay within the operand's
  buffer.
\<close>

lemma bcast_value_sym: "(bcast_value l r n i = Ok v) = (bcast_value r l n i = Ok v)"
  by (auto simp: bcast_value_def Let_def split: if_splits)

lemma bcast_dims:
  assumes "broadcast_shape_binary_op a b = Ok c"
  shows "rank c = max (rank a) (rank b)"
    and "i < rank c \<Longrightarrow> bcast_value (dims a) (dims b) (rank c) i = Ok (dims c ! i)"
proof -
  obtain ds where ds: "rust_map (bcast_value (dims a) (dims b) (max (rank a) (rank b))) [0..<max (rank a) (rank b)] = Ok ds"
      "c = from_dims ds"
    using assms by (auto simp: broadcast_shape_binary_op_def Let_def rank_def)
  then show r: "rank c = max (rank a) (rank b)" by (auto simp: rust_map_Ok_iff rank_def from_dims_def)
  show "bcast_value (dims a) (dims b) (rank c) i = Ok (dims c ! i)" if "i < rank c"
    using ds that r by (auto simp: rust_map_Ok_iff from_dims_def)
qed

lemma bcast_strides_total:
  "length dst = length src \<Longrightarrow> (\<And>i. i < length src \<Longrightarrow> dst ! i = src ! i \<or> src ! i = 1) \<Longrightarrow>
   bcast_strides dst src st \<noteq> None"
proof (induction dst src st rule: bcast_strides.induct)
  case (1 dst dsts src srcs st sts)
  have "dst = src \<or> src = 1" using 1(4) [of 0] by simp
  moreover have "\<And>i. i < length srcs \<Longrightarrow> dsts ! i = srcs ! i \<or> srcs ! i = 1" using 1(4) [of "Suc _"] by simp
  ultimately show ?case using 1(1,2,3) by (cases "dst = src") auto
qed auto

lemma bcast_left_broadcastable:
  assumes "broadcast_shape_binary_op a b = Ok c" and "shape l = a"
  shows "\<exists>l'. broadcast_as c l = Ok l'"
proof -
  note bd = bcast_dims [OF assms(1)]
  let ?k = "rank c - rank a"
  have le: "rank a \<le> rank c" using bd(1) by simp
  have "drop ?k (dims c) ! i = dims a ! i \<or> dims a ! i = 1" if i: "i < length (dims a)" for i
  proof -
    have "bcast_value (dims a) (dims b) (rank c) (?k + i) = Ok (dims c ! (?k + i))"
      by (rule bd(2)) (use i le in \<open>simp add: rank_def\<close>)
    moreover have "aligned_dim (dims a) (rank c - (?k + i)) = dims a ! i"
      using i le by (auto simp: aligned_dim_def rank_def)
    ultimately show ?thesis using le by (auto simp: bcast_value_def Let_def rank_def split: if_splits)
  qed
  then have "bcast_strides (drop ?k (dims c)) (dims a) (stride l) \<noteq> None"
    using le by (intro bcast_strides_total) (auto simp: rank_def)
  then show ?thesis using assms(2) le by (auto simp: broadcast_as_def Let_def split: option.splits)
qed

lemma bcast_comm:
  assumes "broadcast_shape_binary_op a b = Ok c"
  shows "broadcast_shape_binary_op b a = Ok c"
proof -
  let ?n = "max (length (dims a)) (length (dims b))"
  obtain ds where ds: "rust_map (bcast_value (dims a) (dims b) ?n) [0..<?n] = Ok ds" "c = from_dims ds"
    using assms by (auto simp: broadcast_shape_binary_op_def Let_def)
  have "rust_map (bcast_value (dims b) (dims a) ?n) [0..<?n] = Ok ds"
    using ds(1) by (simp add: rust_map_Ok_iff bcast_value_sym [of "dims b"])
  then show ?thesis using ds(2) by (simp add: broadcast_shape_binary_op_def Let_def max.commute)
qed

theorem broadcast_binary_sound:
  assumes "broadcast_shape_binary_op a b = Ok c" and "in_bounds n l" and "shape l = a \<or> shape l = b"
  shows "broadcast_shape_binary_op b a = Ok c \<and> (\<exists>l'. broadcast_as c l = Ok l' \<and> in_bounds n l')"
  using bcast_comm [OF assms(1)] bcast_left_broadcastable [OF assms(1), of l]
    bcast_left_broadcastable [OF bcast_comm [OF assms(1)], of l] assms(2,3) broadcast.view_in_bounds by blast

theorem broadcast_binary_sound_witness:
  "broadcast_shape_binary_op (from_dims [4, 1, 3]) (from_dims [2, 3]) = Ok (from_dims [4, 2, 3]) \<and>
   (\<exists>l'. broadcast_as (from_dims [4, 2, 3]) sample_layout = Ok l' \<and> in_bounds 10 l')"
proof -
  have "broadcast_shape_binary_op (from_dims [4, 1, 3]) (from_dims [2, 3]) = Ok (from_dims [4, 2, 3])" by code_simp
  from broadcast_binary_sound [OF this sample_in_bounds] this show ?thesis by (simp add: sample_layout_def)
qed

text \<open>
  Reshaping with an inferred dimension keeps the number of elements: whenever it succeeds the
  product of the new dimensions is the element count, and it fails exactly when the given
  dimensions have a zero or do not divide it.
\<close>

theorem into_shape_elements:
  "(case into_shape before after el of
      Ok s \<Rightarrow> prod_list (before @ after) \<noteq> 0 \<and> elem_count (dims s) = el \<and> take (length before) (dims s) = before \<and> drop (Suc (length before)) (dims s) = after
    | Err e \<Rightarrow> \<not> (prod_list (before @ after) \<noteq> 0 \<and> prod_list (before @ after) dvd el)
    | Panic \<Rightarrow> False)"
  by (auto simp: into_shape_def hole_size_def from_dims_def elem_count_def dvd_eq_mod_eq_0 split: if_splits)

text \<open>
  Runtime extents: marking an axis dynamic keeps the capacity the shape reports, and resolving
  the shape after the symbol is bound gives the bound value on that axis, the old dimensions
  elsewhere, and no dynamic axis; rebinding the symbol to another value is refused.
\<close>

theorem dynamic_axis_resolve:
  assumes "dyn_axes sh = None" and "i < rank sh" and "sym_bind s v env = Ok env'" and "w \<noteq> v"
  shows "\<exists>sh'. with_dynamic_axis i lo s sh = Ok sh' \<and> dims sh' = dims sh \<and>
    extent_of sh' i = Ok (Range lo (dims sh ! i) s) \<and>
    shape_resolve env' sh' = Ok (from_dims ((dims sh)[i := v])) \<and> sym_bind s w env' = Err Msg"
  using assms
  by (auto simp: with_dynamic_axis_def rank_def extent_of_def shape_resolve_def sym_get_def sym_bind_def
      from_dims_def split: option.splits if_splits)

theorem dynamic_axis_resolve_witness:
  "\<exists>sh'. with_dynamic_axis 1 0 7 (from_dims [2, 64]) = Ok sh' \<and>
     shape_resolve [(7, 5)] sh' = Ok (from_dims [2, 5]) \<and> sym_bind 7 6 [(7, 5)] = Err Msg"
proof -
  have "sym_bind 7 5 [] = Ok [(7, 5)]" by (simp add: sym_bind_def)
  from dynamic_axis_resolve [OF _ _ this, of "from_dims [2, 64]" 1 6 0] show ?thesis
    by (auto simp: from_dims_def rank_def)
qed

end
