(* ===== verification/Scheduler.thy ===== *)
theory Scheduler
  imports Float64 "HOL-Library.Multiset"
begin

text \<open>
  The memory-aware request scheduler (\<open>fuel-inference/src/scheduler.rs\<close>): a byte budget, the active
  slots, and a wait queue served by priority and submission order. The binary heap is the list of
  its elements with \<open>heap_pop\<close> removing the greatest in the order of \<open>RequestInfo\<close>; the sums of byte
  counts are checked against the width of \<open>usize\<close>.
\<close>

section \<open>Requests\<close>

datatype priority = Low | Normal | High | Critical

fun prio_rank :: "priority \<Rightarrow> nat" where
  "prio_rank Low = 0"
| "prio_rank Normal = 1"
| "prio_rank High = 2"
| "prio_rank Critical = 3"

instantiation priority :: linorder
begin

definition less_eq_priority :: "priority \<Rightarrow> priority \<Rightarrow> bool" where
  "less_eq_priority a b \<longleftrightarrow> prio_rank a \<le> prio_rank b"

definition less_priority :: "priority \<Rightarrow> priority \<Rightarrow> bool" where
  "less_priority a b \<longleftrightarrow> prio_rank a < prio_rank b"

instance
proof
  fix a b :: priority
  show "a \<le> b \<Longrightarrow> b \<le> a \<Longrightarrow> a = b" by (cases a; cases b) (auto simp: less_eq_priority_def)
qed (auto simp: less_eq_priority_def less_priority_def)

end

record request_info =
  req_id :: string
  estimated_bytes :: nat
  priority :: priority
  submission_order :: nat

definition request_new :: "string \<Rightarrow> nat \<Rightarrow> priority \<Rightarrow> request_info" where
  "request_new i n pr = \<lparr>req_id = i, estimated_bytes = n, priority = pr, submission_order = 0\<rparr>"

text \<open>The order of the heap: higher priority first, then earlier submission.\<close>

definition req_le :: "request_info \<Rightarrow> request_info \<Rightarrow> bool" where
  "req_le a b \<longleftrightarrow> priority a < priority b \<or> priority a = priority b \<and> submission_order b \<le> submission_order a"

record slot_handle =
  slot_id :: string
  reserved_bytes :: nat

record memory_scheduler =
  total_budget :: nat
  used :: nat
  active :: "(string \<times> nat) list"
  wait_queue :: "request_info list"
  pressure_threshold :: f64
  next_order :: nat

type_synonym 'a sched_act = "(memory_scheduler, 'a, unit) act"

section \<open>Operations\<close>

definition scheduler_new :: "nat \<Rightarrow> memory_scheduler" where
  "scheduler_new budget = \<lparr>total_budget = budget, used = 0, active = [], wait_queue = [],
     pressure_threshold = F64_fin 7205759403792794 53, next_order = 0\<rparr>"

definition with_pressure_threshold :: "f64 \<Rightarrow> memory_scheduler \<Rightarrow> (memory_scheduler, unit) rust" where
  "with_pressure_threshold t s = (if f64_unit_range t then Ok (s\<lparr>pressure_threshold := t\<rparr>) else Panic)"

definition usage_fraction :: "memory_scheduler \<Rightarrow> nat \<times> nat" where
  "usage_fraction s = (if total_budget s = 0 then (1, 0) else f64_div (used s) (total_budget s))"

definition under_pressure :: "memory_scheduler \<Rightarrow> bool" where
  "under_pressure s = f64_ge (usage_fraction s) (pressure_threshold s)"

definition remaining_bytes :: "memory_scheduler \<Rightarrow> nat" where
  "remaining_bytes s = total_budget s - used s"

definition admit_slot :: "request_info \<Rightarrow> slot_handle sched_act" where
  "admit_slot r = act_bind (act_set (\<lambda>s. s\<lparr>used := used s + estimated_bytes r,
       active := AList.update (req_id r) (estimated_bytes r) (active s)\<rparr>)) (\<lambda>_.
     act_ret \<lparr>slot_id = req_id r, reserved_bytes = estimated_bytes r\<rparr>)"

definition queue_push :: "request_info \<Rightarrow> unit sched_act" where
  "queue_push r = act_set (\<lambda>s. s\<lparr>wait_queue := r # wait_queue s\<rparr>)"

definition try_admit :: "request_info \<Rightarrow> slot_handle option sched_act" where
  "try_admit req0 = act_bind (act_get next_order) (\<lambda>n.
     let req = req0\<lparr>submission_order := n\<rparr> in
     act_bind (usize_add n 1) (\<lambda>n'.
     act_bind (act_set (\<lambda>s. s\<lparr>next_order := n'\<rparr>)) (\<lambda>_.
     act_bind (act_get under_pressure) (\<lambda>pressed.
     if pressed \<and> priority req < High
     then act_bind (queue_push req) (\<lambda>_. act_ret None)
     else act_bind (act_get used) (\<lambda>u.
          act_bind (usize_add u (estimated_bytes req)) (\<lambda>sum.
          act_bind (act_get total_budget) (\<lambda>b.
          if b < sum then act_bind (queue_push req) (\<lambda>_. act_ret None)
          else act_bind (admit_slot req) (\<lambda>h. act_ret (Some h)))))))))"

definition release :: "string \<Rightarrow> bool sched_act" where
  "release i = act_bind (act_get (\<lambda>s. map_of (active s) i)) (\<lambda>e.
     case e of None \<Rightarrow> act_ret False
     | Some n \<Rightarrow> act_bind (act_set (\<lambda>s. s\<lparr>active := AList.delete i (active s), used := used s - n\<rparr>)) (\<lambda>_.
         act_ret True))"

fun heap_best :: "request_info \<Rightarrow> request_info list \<Rightarrow> request_info" where
  "heap_best r [] = r"
| "heap_best r (x # xs) = heap_best (if req_le x r then r else x) xs"

definition heap_pop :: "request_info list \<Rightarrow> (request_info \<times> request_info list) option" where
  "heap_pop q = (case q of [] \<Rightarrow> None | r # rs \<Rightarrow> let b = heap_best r rs in Some (b, remove1 b q))"

lemma heap_best_mem: "heap_best r rs \<in> set (r # rs)"
  by (induction rs arbitrary: r) (auto split: if_splits)

lemma heap_pop_length: "heap_pop q = Some (r, q') \<Longrightarrow> length q' < length q"
proof -
  assume p: "heap_pop q = Some (r, q')"
  then have "r \<in> set q" "q' = remove1 r q"
    using heap_best_mem [of "hd q" "tl q"] by (auto simp: heap_pop_def Let_def split: list.splits)
  then show ?thesis using length_pos_if_in_set [of r q] by (simp add: length_remove1)
qed

text \<open>One pass of the loop of \<open>drain_queue\<close> over a popped request: admitted, or kept for later.\<close>

definition drain_one :: "request_info \<Rightarrow> slot_handle option sched_act" where
  "drain_one r = act_bind (act_get under_pressure) (\<lambda>pressed.
     if pressed \<and> priority r < High then act_ret None
     else act_bind (act_get used) (\<lambda>u.
          act_bind (usize_add u (estimated_bytes r)) (\<lambda>sum.
          act_bind (act_get total_budget) (\<lambda>b.
          if sum \<le> b then act_bind (admit_slot r) (\<lambda>h. act_ret (Some h)) else act_ret None))))"

function drain_loop ::
  "request_info list \<Rightarrow> request_info list \<Rightarrow> slot_handle list \<Rightarrow> slot_handle list sched_act" where
  "drain_loop q remaining admitted = (case heap_pop q of
     None \<Rightarrow> act_bind (act_set (\<lambda>s. s\<lparr>wait_queue := remaining\<rparr>)) (\<lambda>_. act_ret admitted)
   | Some rq \<Rightarrow> act_bind (drain_one (fst rq)) (\<lambda>h. case h of
       Some h \<Rightarrow> drain_loop (snd rq) remaining (admitted @ [h])
     | None \<Rightarrow> drain_loop (snd rq) (fst rq # remaining) admitted))"
  by pat_completeness simp
termination
  by (relation "measure (\<lambda>(q, _, _). length q)") (auto dest: heap_pop_length)

declare drain_loop.simps [simp del]

definition drain_queue :: "slot_handle list sched_act" where
  "drain_queue = act_bind (act_get wait_queue) (\<lambda>q.
     act_bind (act_set (\<lambda>s. s\<lparr>wait_queue := []\<rparr>)) (\<lambda>_. drain_loop q [] []))"

definition update_usage :: "string \<Rightarrow> nat \<Rightarrow> bool sched_act" where
  "update_usage i n = act_bind (act_get (\<lambda>s. map_of (active s) i)) (\<lambda>e.
     case e of None \<Rightarrow> act_ret False
     | Some old \<Rightarrow> act_bind (act_get used) (\<lambda>u.
         if u < old then act_panic
         else act_bind (usize_add (u - old) n) (\<lambda>new_used.
              act_bind (act_get total_budget) (\<lambda>b.
              if b < new_used then act_ret False
              else act_bind (act_set (\<lambda>s. s\<lparr>used := new_used, active := AList.update i n (active s)\<rparr>)) (\<lambda>_.
                   act_ret True)))))"


section \<open>The order of the wait queue\<close>

lemma req_le_total: "req_le a b \<or> req_le b a"
  by (auto simp: req_le_def)

lemma req_le_trans: "req_le a b \<Longrightarrow> req_le b c \<Longrightarrow> req_le a c"
  by (auto simp: req_le_def)

lemma req_le_refl: "req_le a a"
  by (simp add: req_le_def)

lemma heap_best_greatest: "x \<in> set (r # rs) \<Longrightarrow> req_le x (heap_best r rs)"
proof (induction rs arbitrary: r x)
  case (Cons y ys)
  let ?m = "if req_le y r then r else y"
  have m: "req_le ?m (heap_best ?m ys)" by (rule Cons.IH) simp
  have "req_le r ?m" "req_le y ?m" using req_le_total [of y r] req_le_refl by auto
  then have "req_le r (heap_best ?m ys)" "req_le y (heap_best ?m ys)" using m req_le_trans by blast+
  then show ?case using Cons by auto
qed (simp add: req_le_refl)

lemma heap_pop_None [simp]: "heap_pop q = None \<longleftrightarrow> q = []"
  by (simp add: heap_pop_def Let_def split: list.split)

lemma heap_pop_mset: "heap_pop q = Some (r, q') \<Longrightarrow> mset q = add_mset r (mset q')"
  using heap_best_mem [of "hd q" "tl q"]
  by (auto simp: heap_pop_def Let_def split: list.splits if_splits)

lemma heap_pop_greatest: "heap_pop q = Some (r, q') \<Longrightarrow> x \<in> set q \<Longrightarrow> req_le x r"
  using heap_best_greatest [of x "hd q" "tl q"] by (auto simp: heap_pop_def Let_def split: list.splits)

section \<open>The ledger of the scheduler\<close>

text \<open>The bytes in use are those of the active slots and never exceed the budget.\<close>

definition sched_core :: "memory_scheduler \<Rightarrow> bool" where
  "sched_core s \<longleftrightarrow> keys_distinct (active s) \<and> used s = map_sum id (active s) \<and>
     used s \<le> total_budget s \<and> total_budget s < 2 ^ 64"

text \<open>
  The waiting requests: distinct identifiers, none of them active, in distinct submission order,
  and with estimates that can be added to the budget without overflow.
\<close>

definition queue_ok :: "request_info list \<Rightarrow> memory_scheduler \<Rightarrow> bool" where
  "queue_ok q s \<longleftrightarrow> distinct (map req_id q) \<and> distinct (map submission_order q) \<and>
     (\<forall>r \<in> set q. map_of (active s) (req_id r) = None \<and> estimated_bytes r + total_budget s < 2 ^ 64 \<and>
        submission_order r < next_order s)"

definition sched_inv :: "memory_scheduler \<Rightarrow> bool" where
  "sched_inv s \<longleftrightarrow> sched_core s \<and> queue_ok (wait_queue s) s"

lemmas sched_defs = sched_inv_def sched_core_def queue_ok_def

text \<open>What keeps a request waiting: pressure for the lower priorities, or too few bytes left.\<close>

definition blocked :: "memory_scheduler \<Rightarrow> request_info \<Rightarrow> bool" where
  "blocked s r \<longleftrightarrow> under_pressure s \<and> priority r < High \<or> total_budget s < used s + estimated_bytes r"

definition handle_for :: "request_info \<Rightarrow> slot_handle" where
  "handle_for r = \<lparr>slot_id = req_id r, reserved_bytes = estimated_bytes r\<rparr>"

definition admit_state :: "request_info \<Rightarrow> memory_scheduler \<Rightarrow> memory_scheduler" where
  "admit_state r s = s\<lparr>used := used s + estimated_bytes r,
     active := AList.update (req_id r) (estimated_bytes r) (active s)\<rparr>"

lemma admit_state_simps [simp]:
  "used (admit_state r s) = used s + estimated_bytes r"
  "total_budget (admit_state r s) = total_budget s"
  "wait_queue (admit_state r s) = wait_queue s"
  "pressure_threshold (admit_state r s) = pressure_threshold s"
  "next_order (admit_state r s) = next_order s"
  "map_of (active (admit_state r s)) i = (if i = req_id r then Some (estimated_bytes r) else map_of (active s) i)"
  by (simp_all add: admit_state_def)

lemma core_admit:
  assumes "sched_core s" and "\<not> blocked s r" and "map_of (active s) (req_id r) = None"
  shows "sched_core (admit_state r s)"
  using assms map_sum_update [of "active s" id "req_id r" "estimated_bytes r"]
  by (auto simp: sched_core_def blocked_def admit_state_def)

lemma admit_slot_wp [wp_simps]: "act_wp (admit_slot r) Q E s = Q (handle_for r) (admit_state r s)"
  by (simp add: admit_slot_def wp_simps handle_for_def admit_state_def)

lemma queue_push_wp [wp_simps]: "act_wp (queue_push r) Q E s = Q () (s\<lparr>wait_queue := r # wait_queue s\<rparr>)"
  by (simp add: queue_push_def wp_simps)

lemma queue_ok_mset: "mset q = mset q' \<Longrightarrow> queue_ok q s = queue_ok q' s"
  unfolding queue_ok_def
  by (metis mset_eq_setD mset_eq_imp_distinct_iff mset_map)

lemma queue_okD:
  assumes "queue_ok (r # q) s"
  shows "queue_ok q s" and "map_of (active s) (req_id r) = None" and "estimated_bytes r + total_budget s < 2 ^ 64"
  using assms by (auto simp: queue_ok_def)

lemma queue_ok_admit: "queue_ok (r # q) s \<Longrightarrow> queue_ok q (admit_state r s)"
  by (auto simp: queue_ok_def image_iff)

lemma blocked_mono:
  assumes "blocked s r" and "used s \<le> used t" and "total_budget t = total_budget s"
    and "pressure_threshold t = pressure_threshold s"
  shows "blocked t r"
  using assms f64_ge_div_mono [of "used s" "total_budget s" "pressure_threshold s" "used t"]
  by (auto simp: blocked_def under_pressure_def usage_fraction_def split: if_splits)

section \<open>What each operation does\<close>

lemma drain_one_wp:
  assumes "sched_core s" and "estimated_bytes r + total_budget s < 2 ^ 64"
  shows "act_wp (drain_one r) (\<lambda>h t. case h of
      None \<Rightarrow> blocked s r \<and> t = s
    | Some h \<Rightarrow> \<not> blocked s r \<and> h = handle_for r \<and> t = admit_state r s) (\<lambda>_ _. False) s"
  using assms by (auto simp: drain_one_def wp_simps blocked_def sched_core_def)

text \<open>
  The result of draining: the admitted requests \<open>as\<close>, in order, and the state they leave; what is
  kept waiting is still blocked in that state.
\<close>

definition drained ::
  "request_info list \<Rightarrow> request_info list \<Rightarrow> memory_scheduler \<Rightarrow> request_info list \<Rightarrow> memory_scheduler \<Rightarrow> bool" where
  "drained q rem s as t \<longleftrightarrow>
     mset as + mset (wait_queue t) = mset q + mset rem \<and>
     set as \<subseteq> set q \<and> sorted_wrt (\<lambda>a b. req_le b a) as \<and>
     sched_core t \<and> queue_ok (wait_queue t) t \<and>
     used t = used s + sum_list (map estimated_bytes as) \<and>
     total_budget t = total_budget s \<and> pressure_threshold t = pressure_threshold s \<and>
     next_order t = next_order s \<and>
     (\<forall>i. map_of (active t) i \<noteq> None \<longleftrightarrow> map_of (active s) i \<noteq> None \<or> i \<in> req_id ` set as) \<and>
     (\<forall>r \<in> set (wait_queue t). blocked t r)"

lemma drained_skip:
  assumes "drained q' (r # rem) s as t" and "mset q = add_mset r (mset q')"
  shows "drained q rem s as t"
  using assms mset_eq_setD [of q "r # q'"] by (auto simp: drained_def)

lemma drained_admit:
  assumes d: "drained q' rem (admit_state r s) as t" and m: "mset q = add_mset r (mset q')"
    and top: "\<And>x. x \<in> set q \<Longrightarrow> req_le x r"
  shows "drained q rem s (r # as) t"
proof -
  have set: "set q = insert r (set q')" using m mset_eq_setD [of q "r # q'"] by simp
  then show ?thesis using d m top unfolding drained_def by auto
qed

definition drain_post where
  "drain_post q rem adm s hs t \<longleftrightarrow> (\<exists>as. hs = adm @ map handle_for as \<and> drained q rem s as t)"

lemma drain_skip_wp:
  assumes "act_wp m (drain_post q' (r # rem) adm s) (\<lambda>_ _. False) s" and "mset q = add_mset r (mset q')"
  shows "act_wp m (drain_post q rem adm s) (\<lambda>_ _. False) s"
  using assms(1) by (rule wp_mono) (auto simp: drain_post_def intro: drained_skip [OF _ assms(2)])

lemma drain_admit_wp:
  assumes "act_wp m (drain_post q' rem (adm @ [handle_for r]) (admit_state r s)) (\<lambda>_ _. False) u"
    and m: "mset q = add_mset r (mset q')" and top: "\<And>x. x \<in> set q \<Longrightarrow> req_le x r"
  shows "act_wp m (drain_post q rem adm s) (\<lambda>_ _. False) u"
  using assms(1)
proof (rule wp_mono)
  fix hs t
  assume "drain_post q' rem (adm @ [handle_for r]) (admit_state r s) hs t"
  then obtain as where "hs = adm @ map handle_for (r # as)" "drained q' rem (admit_state r s) as t"
    by (auto simp: drain_post_def)
  then show "drain_post q rem adm s hs t" using drained_admit [OF _ m top] unfolding drain_post_def by blast
qed auto

lemma drain_loop_wp:
  assumes "sched_core s" and "queue_ok (q @ rem) s" and "\<forall>r \<in> set rem. blocked s r"
  shows "act_wp (drain_loop q rem adm) (drain_post q rem adm s) (\<lambda>_ _. False) s"
  using assms
proof (induction q rem adm arbitrary: s rule: drain_loop.induct)
  case (1 q rem adm)
  show ?case
  proof (cases "heap_pop q")
    case None
    have "drained q rem s [] (s\<lparr>wait_queue := rem\<rparr>)"
      using 1(3,4,5) None
      by (auto simp: drained_def sched_core_def queue_ok_def blocked_def under_pressure_def usage_fraction_def)
    then show ?thesis unfolding drain_loop.simps [of q] None option.case by (auto simp: wp_simps drain_post_def)
  next
    case (Some rq)
    obtain r q' where rq: "rq = (r, q')" by fastforce
    have pop: "heap_pop q = Some (r, q')" using Some rq by simp
    note m = heap_pop_mset [OF pop] and top = heap_pop_greatest [OF pop]
    have perm: "mset (q @ rem) = mset (r # q' @ rem)" "mset (q @ rem) = mset (q' @ r # rem)" using m by simp_all
    have ok: "queue_ok (r # q' @ rem) s" "queue_ok (q' @ r # rem) s"
      using 1(4) queue_ok_mset [OF perm(1)] queue_ok_mset [OF perm(2)] by simp_all
    have body: "act_wp (case h of Some h \<Rightarrow> drain_loop q' rem (adm @ [h]) | None \<Rightarrow> drain_loop q' (r # rem) adm)
        (drain_post q rem adm s) (\<lambda>_ _. False) u"
      if h: "case h of None \<Rightarrow> blocked s r \<and> u = s
          | Some h \<Rightarrow> \<not> blocked s r \<and> h = handle_for r \<and> u = admit_state r s" for h u
    proof (cases h)
      case None
      have "act_wp (drain_loop q' (r # rem) adm) (drain_post q' (r # rem) adm s) (\<lambda>_ _. False) s"
        using 1(1) [OF Some] rq 1(3,5) ok(2) h None by simp
      then show ?thesis using drain_skip_wp [OF _ m] h None by simp
    next
      case h': (Some h')
      then have u: "u = admit_state r s" "h' = handle_for r" "\<not> blocked s r" using h by auto
      have "sched_core u" unfolding u by (rule core_admit [OF 1(3) u(3) queue_okD(2) [OF ok(1)]])
      moreover have "queue_ok (q' @ rem) u" unfolding u by (rule queue_ok_admit [OF ok(1)])
      moreover have "\<forall>x \<in> set rem. blocked u x" using 1(5) blocked_mono [of s _ u] by (auto simp: u)
      ultimately have "act_wp (drain_loop q' rem (adm @ [h'])) (drain_post q' rem (adm @ [h']) u) (\<lambda>_ _. False) u"
        using 1(2) [OF Some] rq by simp
      then show ?thesis using drain_admit_wp [OF _ m top] u h' by simp
    qed
    show ?thesis
      unfolding drain_loop.simps [of q] pop option.case fst_conv snd_conv wp_bind
      by (rule wp_mono [OF drain_one_wp [OF 1(3) queue_okD(3) [OF ok(1)]]]) (rule body, auto)
  qed
qed

lemma drain_queue_wp:
  assumes "sched_inv s"
  shows "act_wp drain_queue (drain_post (wait_queue s) [] [] s) (\<lambda>_ _. False) s"
proof -
  let ?s = "s\<lparr>wait_queue := []\<rparr>"
  have "sched_core ?s" "queue_ok (wait_queue s @ []) ?s" using assms by (auto simp: sched_defs)
  then have "act_wp (drain_loop (wait_queue s) [] []) (drain_post (wait_queue s) [] [] ?s) (\<lambda>_ _. False) ?s"
    by (intro drain_loop_wp) auto
  moreover have "drain_post (wait_queue s) [] [] ?s = drain_post (wait_queue s) [] [] s"
    by (simp add: drain_post_def drained_def fun_eq_iff)
  ultimately show ?thesis by (simp add: drain_queue_def wp_simps)
qed

lemma try_admit_wp:
  assumes "sched_inv s" and "estimated_bytes r + total_budget s < 2 ^ 64" and "next_order s + 1 < 2 ^ 64"
    and fresh: "map_of (active s) (req_id r) = None" "req_id r \<notin> req_id ` set (wait_queue s)"
  shows "act_wp (try_admit r) (\<lambda>h t. sched_inv t \<and> total_budget t = total_budget s \<and>
      (let r' = r\<lparr>submission_order := next_order s\<rparr> in
       if blocked s r then h = None \<and> active t = active s \<and> used t = used s \<and> wait_queue t = r' # wait_queue s
       else h = Some (handle_for r) \<and> used t = used s + estimated_bytes r \<and> wait_queue t = wait_queue s \<and>
         active t = AList.update (req_id r) (estimated_bytes r) (active s))) (\<lambda>_ _. False) s"
proof -
  let ?r = "r\<lparr>submission_order := next_order s\<rparr>" and ?s = "s\<lparr>next_order := next_order s + 1\<rparr>"
  have core: "sched_core ?s" and q: "queue_ok (wait_queue s) ?s" "queue_ok (?r # wait_queue s) ?s"
    using assms by (fastforce simp: sched_defs)+
  have b: "blocked ?s ?r = blocked s r" by (simp add: blocked_def under_pressure_def usage_fraction_def)
  have adm: "sched_inv (admit_state ?r ?s)" if "\<not> blocked s r"
    using core_admit [OF core, of ?r] queue_ok_admit [OF q(2)] that fresh(1) b by (simp add: sched_inv_def)
  have push: "sched_inv (?s\<lparr>wait_queue := ?r # wait_queue s\<rparr>)"
    using core q(2) by (simp add: sched_defs)
  show ?thesis
    using adm push assms(1,2,3)
    by (auto simp: try_admit_def wp_simps Let_def blocked_def under_pressure_def usage_fraction_def
        sched_inv_def sched_core_def handle_for_def admit_state_def)
qed

lemma release_wp:
  assumes "sched_inv s"
  shows "act_wp (release i) (\<lambda>b t. sched_inv t \<and> total_budget t = total_budget s \<and> wait_queue t = wait_queue s \<and>
      b = (map_of (active s) i \<noteq> None) \<and> used t + opt_val id (map_of (active s) i) = used s \<and>
      map_of (active t) = (map_of (active s)) (i := None)) (\<lambda>_ _. False) s"
proof (cases "map_of (active s) i")
  case None
  then show ?thesis using assms by (auto simp: release_def wp_simps)
next
  case (Some n)
  have d: "keys_distinct (active s)" "used s = map_sum id (active s)" using assms by (auto simp: sched_defs)
  have sum: "map_sum id (AList.delete i (active s)) + n = used s"
    using map_sum_delete [OF d(1), of id i] Some d(2) by simp
  then have "sched_core (s\<lparr>active := AList.delete i (active s), used := used s - n\<rparr>)"
    using assms d(1) by (auto simp: sched_defs)
  moreover have "queue_ok (wait_queue s) (s\<lparr>active := AList.delete i (active s), used := used s - n\<rparr>)"
    using assms by (auto simp: sched_defs)
  ultimately show ?thesis using Some sum by (auto simp: release_def wp_simps sched_inv_def fun_eq_iff)
qed

lemma update_usage_wp:
  assumes "sched_inv s" and "n + total_budget s < 2 ^ 64"
  shows "act_wp (update_usage i n) (\<lambda>b t. sched_inv t \<and> total_budget t = total_budget s \<and> wait_queue t = wait_queue s \<and>
      (if b then map_of (active s) i \<noteq> None \<and> map_of (active t) = (map_of (active s)) (i \<mapsto> n) else t = s))
    (\<lambda>_ _. False) s"
proof (cases "map_of (active s) i")
  case None
  then show ?thesis using assms by (auto simp: update_usage_def wp_simps)
next
  case (Some old)
  have d: "keys_distinct (active s)" "used s = map_sum id (active s)" "used s \<le> total_budget s"
    using assms by (auto simp: sched_defs)
  have le: "old \<le> used s" using map_sum_ge [OF Some, of id] d(2) by simp
  have sum: "map_sum id (AList.update i n (active s)) = used s - old + n"
    using map_sum_update [OF d(1), of id i n] Some d(2) le by simp
  let ?t = "s\<lparr>used := used s - old + n, active := AList.update i n (active s)\<rparr>"
  have "sched_inv ?t" if "used s - old + n \<le> total_budget s"
    using assms(1) that sum Some d(1) by (auto simp: sched_defs)
  moreover have "used s - old + n < 2 ^ 64" using assms(2) d(3) le by linarith
  ultimately show ?thesis using Some le assms(1) by (auto simp: update_usage_def wp_simps fun_eq_iff)
qed

section \<open>The scheduler as a state machine\<close>

datatype sched_call = TryAdmit request_info | Release string | DrainQueue | UpdateUsage string nat

fun sched_run :: "sched_call \<Rightarrow> unit sched_act" where
  "sched_run (TryAdmit r) = forget (try_admit r)"
| "sched_run (Release i) = forget (release i)"
| "sched_run DrainQueue = forget drain_queue"
| "sched_run (UpdateUsage i n) = forget (update_usage i n)"

text \<open>
  What a client respects: a new request has an identifier that is neither active nor waiting, and
  byte counts, added to the budget, and the submission counter stay within the machine word.
\<close>

fun sched_client_ok :: "sched_call \<Rightarrow> memory_scheduler \<Rightarrow> bool" where
  "sched_client_ok (TryAdmit r) s = (map_of (active s) (req_id r) = None \<and> req_id r \<notin> req_id ` set (wait_queue s) \<and>
     estimated_bytes r + total_budget s < 2 ^ 64 \<and> next_order s + 1 < 2 ^ 64)"
| "sched_client_ok (UpdateUsage i n) s = (n + total_budget s < 2 ^ 64)"
| "sched_client_ok _ s = True"

inductive sched_step :: "memory_scheduler \<Rightarrow> memory_scheduler \<Rightarrow> bool" where
  sched_stepI: "sched_client_ok c s \<Longrightarrow> sched_run c s = (r, t) \<Longrightarrow> sched_step s t"

inductive_cases sched_stepE: "sched_step s t"

lemma sched_run_wp:
  assumes "sched_inv s" and "sched_client_ok c s"
  shows "act_wp (sched_run c) (\<lambda>_ t. sched_inv t \<and> total_budget t = total_budget s) (\<lambda>_ _. False) s"
proof (cases c)
  case (TryAdmit r)
  then show ?thesis using wp_mono [OF try_admit_wp [OF assms(1)]] assms(2) by (auto simp: wp_simps)
next
  case (Release i)
  then show ?thesis using wp_mono [OF release_wp [OF assms(1), of i]] by (auto simp: wp_simps)
next
  case DrainQueue
  show ?thesis unfolding DrainQueue sched_run.simps wp_forget
    by (rule wp_mono [OF drain_queue_wp [OF assms(1)]]) (auto simp: drain_post_def drained_def sched_inv_def)
next
  case (UpdateUsage i n)
  then show ?thesis using wp_mono [OF update_usage_wp [OF assms(1)]] assms(2) by (auto simp: wp_simps)
qed

interpretation sched: stepped_system sched_step "\<lambda>s. sched_inv s \<and> total_budget s = b" for b
proof
  fix s t
  assume inv: "sched_inv s \<and> total_budget s = b" and "sched_step s t"
  then obtain c r where c: "sched_client_ok c s" "sched_run c s = (r, t)" by (auto elim: sched_stepE)
  have "act_wp (sched_run c) (\<lambda>_ t. sched_inv t \<and> total_budget t = total_budget s) (\<lambda>_ _. False) s"
    using inv c(1) sched_run_wp by blast
  then show "sched_inv t \<and> total_budget t = b" using c(2) inv by (cases r) (auto simp: act_wp_def)
qed

lemma sched_inv_new: "b < 2 ^ 64 \<Longrightarrow> sched_inv (scheduler_new b)"
  by (simp add: sched_defs scheduler_new_def)

lemma sched_inv_threshold: "with_pressure_threshold t s = Ok s' \<Longrightarrow> sched_inv s \<Longrightarrow> sched_inv s' \<and> total_budget s' = total_budget s"
  by (auto simp: with_pressure_threshold_def sched_defs split: if_splits)

lemma sched_reachable_inv:
  assumes "b < 2 ^ 64" and "with_pressure_threshold t (scheduler_new b) = Ok s0" and "rtranclp sched_step s0 s"
  shows "sched_inv s \<and> total_budget s = b"
  using sched.invar_steps [OF assms(3), of b] sched_inv_threshold [OF assms(2) sched_inv_new [OF assms(1)]]
  by (simp add: scheduler_new_def)

end
