(* ===== verification/TieredStore.thy ===== *)
theory TieredStore
  imports Prelude "HOL-Library.Multiset"
begin

text \<open>
  The tiered segment store (\<open>fuel-inference/src/tiered_storage.rs\<close>): segments on three tiers, two of
  them with byte budgets, with a usage counter per tier. The contract is the specification at the
  end, which has no counters and recomputes each tier's bytes from the segments; the store with its
  counters refines it.
\<close>

section \<open>Data\<close>

datatype tier = Gpu | Cpu | Disk

fun tier_rank :: "tier \<Rightarrow> nat" where
  "tier_rank Gpu = 0"
| "tier_rank Cpu = 1"
| "tier_rank Disk = 2"

definition is_faster_than :: "tier \<Rightarrow> tier \<Rightarrow> bool" where
  "is_faster_than a b \<longleftrightarrow> tier_rank a < tier_rank b"

record segment_meta =
  seg_key :: string
  position_range :: "nat \<times> nat"
  size_bytes :: nat
  seg_tier :: tier
  access_count :: nat

definition segment_new :: "string \<Rightarrow> nat \<times> nat \<Rightarrow> nat \<Rightarrow> segment_meta" where
  "segment_new k pos n =
     \<lparr>seg_key = k, position_range = pos, size_bytes = n, seg_tier = Gpu, access_count = 0\<rparr>"

definition num_positions :: "segment_meta \<Rightarrow> nat" where
  "num_positions m = snd (position_range m) - fst (position_range m)"

record tier_transfer =
  tr_key :: string
  tr_from :: tier
  tr_to :: tier
  tr_size :: nat
  tr_positions :: "nat \<times> nat"

record tiered_store =
  gpu_budget :: nat
  cpu_budget :: nat
  gpu_used :: nat
  cpu_used :: nat
  disk_used :: nat
  segments :: "(string \<times> segment_meta) list"

type_synonym 'a store_act = "(tiered_store, 'a, unit) act"

section \<open>Operations\<close>

definition store_new :: "nat \<Rightarrow> nat \<Rightarrow> tiered_store" where
  "store_new g c = \<lparr>gpu_budget = g, cpu_budget = c, gpu_used = 0, cpu_used = 0, disk_used = 0, segments = []\<rparr>"

fun has_budget :: "tier \<Rightarrow> nat \<Rightarrow> bool store_act" where
  "has_budget Gpu n = act_bind (act_get gpu_used) (\<lambda>u. act_bind (usize_add u n) (\<lambda>sum.
     act_get (\<lambda>s. sum \<le> gpu_budget s)))"
| "has_budget Cpu n = act_bind (act_get cpu_used) (\<lambda>u. act_bind (usize_add u n) (\<lambda>sum.
     act_get (\<lambda>s. sum \<le> cpu_budget s)))"
| "has_budget Disk n = act_ret True"

fun add_usage :: "tier \<Rightarrow> nat \<Rightarrow> unit store_act" where
  "add_usage Gpu n = act_bind (act_get gpu_used) (\<lambda>u. act_bind (usize_add u n) (\<lambda>sum. act_set (\<lambda>s. s\<lparr>gpu_used := sum\<rparr>)))"
| "add_usage Cpu n = act_bind (act_get cpu_used) (\<lambda>u. act_bind (usize_add u n) (\<lambda>sum. act_set (\<lambda>s. s\<lparr>cpu_used := sum\<rparr>)))"
| "add_usage Disk n = act_bind (act_get disk_used) (\<lambda>u. act_bind (usize_add u n) (\<lambda>sum. act_set (\<lambda>s. s\<lparr>disk_used := sum\<rparr>)))"

text \<open>\<open>saturating_sub\<close> is subtraction on the naturals.\<close>

fun sub_usage :: "tier \<Rightarrow> nat \<Rightarrow> unit store_act" where
  "sub_usage Gpu n = act_set (\<lambda>s. s\<lparr>gpu_used := gpu_used s - n\<rparr>)"
| "sub_usage Cpu n = act_set (\<lambda>s. s\<lparr>cpu_used := cpu_used s - n\<rparr>)"
| "sub_usage Disk n = act_set (\<lambda>s. s\<lparr>disk_used := disk_used s - n\<rparr>)"

definition store_register :: "segment_meta \<Rightarrow> tier \<Rightarrow> bool store_act" where
  "store_register m t = act_bind (act_get (\<lambda>s. map_of (segments s) (seg_key m))) (\<lambda>e.
     if e \<noteq> None then act_ret False
     else act_bind (has_budget t (size_bytes m)) (\<lambda>ok.
       if \<not> ok then act_ret False
       else act_bind (add_usage t (size_bytes m)) (\<lambda>_.
            act_bind (act_set (\<lambda>s. s\<lparr>segments := AList.update (seg_key m) (m\<lparr>seg_tier := t\<rparr>) (segments s)\<rparr>)) (\<lambda>_.
            act_ret True))))"

text \<open>\<open>get_mut(key).unwrap()\<close> followed by an update of the segment in place.\<close>

definition modify_segment :: "string \<Rightarrow> (segment_meta \<Rightarrow> segment_meta) \<Rightarrow> unit store_act" where
  "modify_segment k f = act_bind (act_get (\<lambda>s. map_of (segments s) k)) (\<lambda>e.
     case e of None \<Rightarrow> act_panic
     | Some m \<Rightarrow> act_set (\<lambda>s. s\<lparr>segments := AList.update k (f m) (segments s)\<rparr>))"

definition bump_access :: "segment_meta \<Rightarrow> segment_meta store_act" where
  "bump_access m = act_bind (usize_add (access_count m) 1) (\<lambda>n. act_ret (m\<lparr>access_count := n\<rparr>))"

definition transfer_of :: "string \<Rightarrow> segment_meta \<Rightarrow> tier \<Rightarrow> tier_transfer" where
  "transfer_of k m t = \<lparr>tr_key = k, tr_from = seg_tier m, tr_to = t, tr_size = size_bytes m,
     tr_positions = position_range m\<rparr>"

definition demote :: "string \<Rightarrow> tier \<Rightarrow> tier_transfer option store_act" where
  "demote k t = act_bind (act_get (\<lambda>s. map_of (segments s) k)) (\<lambda>e.
     case e of None \<Rightarrow> act_ret None
     | Some m \<Rightarrow>
         if is_faster_than t (seg_tier m) \<or> t = seg_tier m then act_ret None
         else act_bind (has_budget t (size_bytes m)) (\<lambda>ok.
           if \<not> ok then act_ret None
           else act_bind (sub_usage (seg_tier m) (size_bytes m)) (\<lambda>_.
                act_bind (add_usage t (size_bytes m)) (\<lambda>_.
                act_bind (modify_segment k (\<lambda>x. x\<lparr>seg_tier := t\<rparr>)) (\<lambda>_.
                act_ret (Some (transfer_of k m t)))))))"

definition promote :: "string \<Rightarrow> tier \<Rightarrow> tier_transfer option store_act" where
  "promote k t = act_bind (act_get (\<lambda>s. map_of (segments s) k)) (\<lambda>e.
     case e of None \<Rightarrow> act_ret None
     | Some m \<Rightarrow>
         if is_faster_than (seg_tier m) t \<or> seg_tier m = t then act_ret None
         else act_bind (has_budget t (size_bytes m)) (\<lambda>ok.
           if \<not> ok then act_ret None
           else act_bind (sub_usage (seg_tier m) (size_bytes m)) (\<lambda>_.
                act_bind (add_usage t (size_bytes m)) (\<lambda>_.
                act_bind (bump_access m) (\<lambda>m'.
                act_bind (modify_segment k (\<lambda>x. x\<lparr>seg_tier := t, access_count := access_count m'\<rparr>)) (\<lambda>_.
                act_ret (Some (transfer_of k m t))))))))"

definition store_remove :: "string \<Rightarrow> segment_meta option store_act" where
  "store_remove k = act_bind (act_get (\<lambda>s. map_of (segments s) k)) (\<lambda>e.
     case e of None \<Rightarrow> act_ret None
     | Some m \<Rightarrow> act_bind (act_set (\<lambda>s. s\<lparr>segments := AList.delete k (segments s)\<rparr>)) (\<lambda>_.
         act_bind (sub_usage (seg_tier m) (size_bytes m)) (\<lambda>_. act_ret (Some m))))"

definition touch :: "string \<Rightarrow> bool store_act" where
  "touch k = act_bind (act_get (\<lambda>s. map_of (segments s) k)) (\<lambda>e.
     case e of None \<Rightarrow> act_ret False
     | Some m \<Rightarrow> act_bind (bump_access m) (\<lambda>m'.
         act_bind (modify_segment k (\<lambda>_. m')) (\<lambda>_. act_ret True)))"

text \<open>The loop that collects keys until enough bytes are covered.\<close>

fun demotion_keys :: "nat \<Rightarrow> nat \<Rightarrow> segment_meta list \<Rightarrow> (string list, unit) rust" where
  "demotion_keys freed needed [] = Ok []"
| "demotion_keys freed needed (m # ms) =
     (if needed \<le> freed then Ok []
      else if 2 ^ 64 \<le> freed + size_bytes m then Panic
      else rust_bind (demotion_keys (freed + size_bytes m) needed ms) (\<lambda>ks. Ok (seg_key m # ks)))"

definition candidates_for_demotion :: "tiered_store \<Rightarrow> tier \<Rightarrow> nat \<Rightarrow> (string list, unit) rust" where
  "candidates_for_demotion s t needed =
     demotion_keys 0 needed (sort_key access_count (filter (\<lambda>m. seg_tier m = t) (map snd (segments s))))"

definition gpu_free :: "tiered_store \<Rightarrow> nat" where
  "gpu_free s = gpu_budget s - gpu_used s"

definition cpu_free :: "tiered_store \<Rightarrow> nat" where
  "cpu_free s = cpu_budget s - cpu_used s"

section \<open>Calls\<close>

datatype store_call =
  Register segment_meta tier | Demote string tier | Promote string tier | Remove string | Touch string

datatype store_reply = Flag bool | Transfer "tier_transfer option" | Segment "segment_meta option"

definition reply :: "('a \<Rightarrow> store_reply) \<Rightarrow> 'a store_act \<Rightarrow> store_reply store_act" where
  "reply f m = act_bind m (\<lambda>a. act_ret (f a))"

fun store_run :: "store_call \<Rightarrow> store_reply store_act" where
  "store_run (Register m t) = reply Flag (store_register m t)"
| "store_run (Demote k t) = reply Transfer (demote k t)"
| "store_run (Promote k t) = reply Transfer (promote k t)"
| "store_run (Remove k) = reply Segment (store_remove k)"
| "store_run (Touch k) = reply Flag (touch k)"

section \<open>Specification without counters\<close>

definition tier_bytes :: "tier \<Rightarrow> (string \<times> segment_meta) list \<Rightarrow> nat" where
  "tier_bytes t segs = map_sum (\<lambda>m. if seg_tier m = t then size_bytes m else 0) segs"

fun fits :: "nat \<Rightarrow> nat \<Rightarrow> tier \<Rightarrow> nat \<Rightarrow> (string \<times> segment_meta) list \<Rightarrow> bool" where
  "fits g c Gpu n segs = (tier_bytes Gpu segs + n \<le> g)"
| "fits g c Cpu n segs = (tier_bytes Cpu segs + n \<le> c)"
| "fits g c Disk n segs = True"

fun spec_call ::
  "nat \<Rightarrow> nat \<Rightarrow> store_call \<Rightarrow> (string \<times> segment_meta) list \<Rightarrow> store_reply \<times> (string \<times> segment_meta) list" where
  "spec_call g c (Register m t) segs =
     (if map_of segs (seg_key m) = None \<and> fits g c t (size_bytes m) segs
      then (Flag True, AList.update (seg_key m) (m\<lparr>seg_tier := t\<rparr>) segs) else (Flag False, segs))"
| "spec_call g c (Demote k t) segs = (case map_of segs k of
     None \<Rightarrow> (Transfer None, segs)
   | Some m \<Rightarrow> if is_faster_than (seg_tier m) t \<and> fits g c t (size_bytes m) segs
       then (Transfer (Some (transfer_of k m t)), AList.update k (m\<lparr>seg_tier := t\<rparr>) segs)
       else (Transfer None, segs))"
| "spec_call g c (Promote k t) segs = (case map_of segs k of
     None \<Rightarrow> (Transfer None, segs)
   | Some m \<Rightarrow> if is_faster_than t (seg_tier m) \<and> fits g c t (size_bytes m) segs
       then (Transfer (Some (transfer_of k m t)),
             AList.update k (m\<lparr>seg_tier := t, access_count := access_count m + 1\<rparr>) segs)
       else (Transfer None, segs))"
| "spec_call g c (Remove k) segs = (Segment (map_of segs k), AList.delete k segs)"
| "spec_call g c (Touch k) segs = (case map_of segs k of
     None \<Rightarrow> (Flag False, segs)
   | Some m \<Rightarrow> (Flag True, AList.update k (m\<lparr>access_count := access_count m + 1\<rparr>) segs))"

text \<open>
  What a client respects: the bytes of all segments together, and each access counter, stay within
  the machine word.
\<close>

fun store_client_ok :: "store_call \<Rightarrow> tiered_store \<Rightarrow> bool" where
  "store_client_ok (Register m t) s = (map_sum size_bytes (segments s) + size_bytes m < 2 ^ 64)"
| "store_client_ok (Promote k t) s = (opt_val access_count (map_of (segments s) k) + 1 < 2 ^ 64)"
| "store_client_ok (Touch k) s = (opt_val access_count (map_of (segments s) k) + 1 < 2 ^ 64)"
| "store_client_ok _ s = True"

section \<open>The counters\<close>

fun used_of :: "tier \<Rightarrow> tiered_store \<Rightarrow> nat" where
  "used_of Gpu s = gpu_used s"
| "used_of Cpu s = cpu_used s"
| "used_of Disk s = disk_used s"

fun set_used :: "tier \<Rightarrow> nat \<Rightarrow> tiered_store \<Rightarrow> tiered_store" where
  "set_used Gpu n s = s\<lparr>gpu_used := n\<rparr>"
| "set_used Cpu n s = s\<lparr>cpu_used := n\<rparr>"
| "set_used Disk n s = s\<lparr>disk_used := n\<rparr>"

fun budget_ok :: "tier \<Rightarrow> nat \<Rightarrow> tiered_store \<Rightarrow> bool" where
  "budget_ok Gpu n s = (n \<le> gpu_budget s)"
| "budget_ok Cpu n s = (n \<le> cpu_budget s)"
| "budget_ok Disk n s = True"

lemma used_of_set [simp]: "used_of t (set_used t' n s) = (if t = t' then n else used_of t s)"
  by (cases t; cases t') simp_all

lemma set_used_simps [simp]:
  "segments (set_used t n s) = segments s"
  "gpu_budget (set_used t n s) = gpu_budget s"
  "cpu_budget (set_used t n s) = cpu_budget s"
  "budget_ok u k (set_used t n s) = budget_ok u k s"
  by (cases t; cases u; simp)+

lemma segments_simps [simp]:
  "used_of t (s\<lparr>segments := x\<rparr>) = used_of t s"
  "budget_ok t n (s\<lparr>segments := x\<rparr>) = budget_ok t n s"
  by (cases t; simp)+

lemma has_budget_wp: "used_of t s + n < 2 ^ 64 \<Longrightarrow> act_wp (has_budget t n) Q E s = Q (budget_ok t (used_of t s + n) s) s"
  by (cases t) (simp_all add: wp_simps)

lemma add_usage_wp [wp_simps]:
  "act_wp (add_usage t n) Q E s \<longleftrightarrow> used_of t s + n < 2 ^ 64 \<and> Q () (set_used t (used_of t s + n) s)"
  by (cases t) (simp_all add: wp_simps)

lemma sub_usage_wp [wp_simps]: "act_wp (sub_usage t n) Q E s = Q () (set_used t (used_of t s - n) s)"
  by (cases t) (simp_all add: wp_simps)

lemma reply_wp [wp_simps]: "act_wp (reply f m) Q E s = act_wp m (\<lambda>a. Q (f a)) E s"
  by (simp add: reply_def act_wp_def act_bind_def act_ret_def split: prod.splits rust.splits)

definition store_inv :: "tiered_store \<Rightarrow> bool" where
  "store_inv s \<longleftrightarrow> keys_distinct (segments s) \<and> (\<forall>k m. map_of (segments s) k = Some m \<longrightarrow> seg_key m = k) \<and>
     (\<forall>t. used_of t s = tier_bytes t (segments s) \<and> budget_ok t (used_of t s) s) \<and>
     map_sum size_bytes (segments s) < 2 ^ 64"

lemma fits_budget:
  "used_of t s = tier_bytes t (segments s) \<Longrightarrow>
   fits (gpu_budget s) (cpu_budget s) t n (segments s) = budget_ok t (used_of t s + n) s"
  by (cases t) simp_all

lemma tier_bytes_update:
  "keys_distinct segs \<Longrightarrow>
   tier_bytes t (AList.update k v segs) + opt_val (\<lambda>m. if seg_tier m = t then size_bytes m else 0) (map_of segs k) =
   tier_bytes t segs + (if seg_tier v = t then size_bytes v else 0)"
  unfolding tier_bytes_def by (rule map_sum_update)

lemma tier_bytes_delete:
  "keys_distinct segs \<Longrightarrow>
   tier_bytes t (AList.delete k segs) + opt_val (\<lambda>m. if seg_tier m = t then size_bytes m else 0) (map_of segs k) =
   tier_bytes t segs"
  unfolding tier_bytes_def by (rule map_sum_delete)

lemma tier_bytes_other:
  assumes "map_of segs k = Some m" and "seg_tier m \<noteq> t"
  shows "tier_bytes t segs + size_bytes m \<le> map_sum size_bytes segs"
  using assms
proof (induction segs)
  case (Cons kv segs)
  have "tier_bytes t segs \<le> map_sum size_bytes segs" unfolding tier_bytes_def map_sum_def by (rule sum_list_mono) auto
  then show ?case using Cons by (auto simp: tier_bytes_def split: if_splits)
qed simp

lemma tier_bytes_le: "tier_bytes t segs \<le> map_sum size_bytes segs"
  unfolding tier_bytes_def map_sum_def by (rule sum_list_mono) auto

lemma budget_ok_mono: "budget_ok t n s \<Longrightarrow> n' \<le> n \<Longrightarrow> budget_ok t n' s"
  by (cases t) auto

lemma store_invD:
  assumes "store_inv s"
  shows "keys_distinct (segments s)" and "map_of (segments s) k = Some m \<Longrightarrow> seg_key m = k"
    and "used_of t s = tier_bytes t (segments s)" and "budget_ok t (used_of t s) s"
    and "map_sum size_bytes (segments s) < 2 ^ 64"
  using assms unfolding store_inv_def by blast+

text \<open>Moving a segment to another tier moves its bytes.\<close>

lemma store_inv_move:
  assumes inv: "store_inv s" and m: "map_of (segments s) k = Some m" and t: "seg_tier m \<noteq> t"
    and ok: "budget_ok t (used_of t s + size_bytes m) s"
    and v: "seg_key v = k" "size_bytes v = size_bytes m" "seg_tier v = t"
  shows "store_inv ((set_used t (used_of t s + size_bytes m)
    (set_used (seg_tier m) (used_of (seg_tier m) s - size_bytes m) s))\<lparr>segments := AList.update k v (segments s)\<rparr>)"
    (is "store_inv ?t")
proof -
  note D = store_invD [OF inv]
  have u: "used_of x ?t = tier_bytes x (segments ?t)" for x
    using tier_bytes_update [OF D(1), of x k v] m t v(2,3) D(3) [of x] by auto
  moreover have "budget_ok x (used_of x ?t) ?t" for x
    using ok D(4) [of x] budget_ok_mono [OF D(4) [of x], of "used_of x s - size_bytes m"] t by auto
  moreover have "map_sum size_bytes (segments ?t) = map_sum size_bytes (segments s)"
    using map_sum_update [OF D(1), of size_bytes k v] m v(2) by simp
  ultimately show ?thesis using D(1,2,5) v(1) unfolding store_inv_def by auto
qed

lemma is_faster_than_iff: "\<not> (is_faster_than a b \<or> a = b) \<longleftrightarrow> is_faster_than b a"
  by (cases a; cases b) (simp_all add: is_faster_than_def)

lemma is_faster_than_neq: "is_faster_than a b \<Longrightarrow> a \<noteq> b"
  by (auto simp: is_faster_than_def)

abbreviation store_post where
  "store_post c s \<equiv> (\<lambda>r t. store_inv t \<and> gpu_budget t = gpu_budget s \<and> cpu_budget t = cpu_budget s \<and>
     spec_call (gpu_budget s) (cpu_budget s) c (segments s) = (r, segments t))"

lemma register_wp:
  assumes inv: "store_inv s" and c: "store_client_ok (Register m t) s"
  shows "act_wp (store_run (Register m t)) (store_post (Register m t) s) (\<lambda>_ _. False) s"
proof (cases "map_of (segments s) (seg_key m)")
  case (Some x)
  then show ?thesis using inv by (simp add: store_register_def wp_simps)
next
  case None
  note D = store_invD [OF inv]
  let ?m = "m\<lparr>seg_tier := t\<rparr>"
  let ?t = "(set_used t (used_of t s + size_bytes m) s)\<lparr>segments := AList.update (seg_key m) ?m (segments s)\<rparr>"
  have lt: "used_of t s + size_bytes m < 2 ^ 64"
    using c D(3) [of t] tier_bytes_le [of t "segments s"] by simp
  have "store_inv ?t" if ok: "budget_ok t (used_of t s + size_bytes m) s"
  proof -
    have "used_of x ?t = tier_bytes x (segments ?t)" for x
      using tier_bytes_update [OF D(1), of x "seg_key m" ?m] None D(3) [of x] by auto
    moreover have "budget_ok x (used_of x ?t) ?t" for x using ok D(4) [of x] by simp
    moreover have "map_sum size_bytes (segments ?t) < 2 ^ 64"
      using map_sum_update [OF D(1), of size_bytes "seg_key m" ?m] None c by simp
    ultimately show ?thesis using D(1,2) unfolding store_inv_def by auto
  qed
  then show ?thesis using None inv lt fits_budget [OF D(3), of t "size_bytes m"]
    by (simp add: store_register_def wp_simps has_budget_wp [OF lt])
qed

lemma demote_wp:
  assumes inv: "store_inv s"
  shows "act_wp (store_run (Demote k t)) (store_post (Demote k t) s) (\<lambda>_ _. False) s"
proof (cases "map_of (segments s) k")
  case None
  then show ?thesis using inv by (simp add: demote_def wp_simps)
next
  case (Some m)
  note D = store_invD [OF inv]
  show ?thesis
  proof (cases "is_faster_than (seg_tier m) t")
    case True
    then have ne: "seg_tier m \<noteq> t" and no: "\<not> (is_faster_than t (seg_tier m) \<or> t = seg_tier m)"
      using is_faster_than_neq is_faster_than_iff by blast+
    have lt: "used_of t s + size_bytes m < 2 ^ 64"
      using tier_bytes_other [OF Some ne] D(3) [of t] D(5) by simp
    show ?thesis
      using Some True ne no lt inv fits_budget [OF D(3), of t "size_bytes m"] D(2) [OF Some]
        store_inv_move [OF inv Some ne, of "m\<lparr>seg_tier := t\<rparr>"]
      by (simp add: demote_def wp_simps has_budget_wp modify_segment_def)
  next
    case False
    then have no: "is_faster_than t (seg_tier m) \<or> t = seg_tier m" using is_faster_than_iff by blast
    show ?thesis using Some False inv by (simp add: demote_def wp_simps if_P [OF no])
  qed
qed

lemma promote_wp:
  assumes inv: "store_inv s" and c: "store_client_ok (Promote k t) s"
  shows "act_wp (store_run (Promote k t)) (store_post (Promote k t) s) (\<lambda>_ _. False) s"
proof (cases "map_of (segments s) k")
  case None
  then show ?thesis using inv by (simp add: promote_def wp_simps)
next
  case (Some m)
  note D = store_invD [OF inv]
  show ?thesis
  proof (cases "is_faster_than t (seg_tier m)")
    case True
    then have ne: "seg_tier m \<noteq> t" and no: "\<not> (is_faster_than (seg_tier m) t \<or> seg_tier m = t)"
      using is_faster_than_neq is_faster_than_iff by blast+
    have lt: "used_of t s + size_bytes m < 2 ^ 64"
      using tier_bytes_other [OF Some ne] D(3) [of t] D(5) by simp
    show ?thesis
      using Some True ne no lt inv c fits_budget [OF D(3), of t "size_bytes m"] D(2) [OF Some]
        store_inv_move [OF inv Some ne, of "m\<lparr>seg_tier := t, access_count := Suc (access_count m)\<rparr>"]
      by (simp add: promote_def wp_simps has_budget_wp modify_segment_def bump_access_def)
  next
    case False
    then have no: "is_faster_than (seg_tier m) t \<or> seg_tier m = t" using is_faster_than_iff by blast
    show ?thesis using Some False inv by (simp add: promote_def wp_simps if_P [OF no])
  qed
qed

lemma remove_wp:
  assumes inv: "store_inv s"
  shows "act_wp (store_run (Remove k)) (store_post (Remove k) s) (\<lambda>_ _. False) s"
proof (cases "map_of (segments s) k")
  case None
  then have "AList.delete k (segments s) = segments s" by (intro delete_id) (simp add: map_of_eq_None_iff)
  then show ?thesis using None inv by (simp add: store_remove_def wp_simps)
next
  case (Some m)
  note D = store_invD [OF inv]
  let ?t = "set_used (seg_tier m) (used_of (seg_tier m) s - size_bytes m) (s\<lparr>segments := AList.delete k (segments s)\<rparr>)"
  have "used_of x ?t = tier_bytes x (segments ?t)" for x
    using tier_bytes_delete [OF D(1), of x k] Some D(3) [of x] by auto
  moreover have "budget_ok x (used_of x ?t) ?t" for x
    using budget_ok_mono [OF D(4) [of x], of "used_of x s - size_bytes m"] D(4) [of x] by auto
  moreover have "map_sum size_bytes (segments ?t) < 2 ^ 64"
    using map_sum_delete [OF D(1), of size_bytes k] Some D(5) by simp
  ultimately have "store_inv ?t" using D(1,2) unfolding store_inv_def by auto
  then show ?thesis using Some by (simp add: store_remove_def wp_simps)
qed

lemma touch_wp:
  assumes inv: "store_inv s" and c: "store_client_ok (Touch k) s"
  shows "act_wp (store_run (Touch k)) (store_post (Touch k) s) (\<lambda>_ _. False) s"
proof (cases "map_of (segments s) k")
  case None
  then show ?thesis using inv by (simp add: touch_def wp_simps)
next
  case (Some m)
  note D = store_invD [OF inv]
  let ?m = "m\<lparr>access_count := Suc (access_count m)\<rparr>"
  let ?t = "s\<lparr>segments := AList.update k ?m (segments s)\<rparr>"
  have "used_of x ?t = tier_bytes x (segments ?t)" for x
    using tier_bytes_update [OF D(1), of x k ?m] Some D(3) [of x] by (auto split: if_splits)
  moreover have "map_sum size_bytes (segments ?t) = map_sum size_bytes (segments s)"
    using map_sum_update [OF D(1), of size_bytes k ?m] Some by simp
  ultimately have "store_inv ?t" using D D(2) [OF Some] unfolding store_inv_def by auto
  then show ?thesis using Some c by (simp add: touch_def wp_simps bump_access_def modify_segment_def)
qed

lemma store_run_wp:
  assumes "store_inv s" and "store_client_ok c s"
  shows "act_wp (store_run c) (store_post c s) (\<lambda>_ _. False) s"
  using assms register_wp demote_wp promote_wp remove_wp touch_wp by (cases c) blast+

inductive store_step :: "tiered_store \<Rightarrow> tiered_store \<Rightarrow> bool" where
  store_stepI: "store_client_ok c s \<Longrightarrow> store_run c s = (r, t) \<Longrightarrow> store_step s t"

inductive_cases store_stepE: "store_step s t"

interpretation store: stepped_system store_step "\<lambda>s. store_inv s \<and> gpu_budget s = g \<and> cpu_budget s = c" for g c
proof
  fix s t
  assume inv: "store_inv s \<and> gpu_budget s = g \<and> cpu_budget s = c" and "store_step s t"
  then obtain cl r where cl: "store_client_ok cl s" "store_run cl s = (r, t)" by (auto elim: store_stepE)
  have "act_wp (store_run cl) (store_post cl s) (\<lambda>_ _. False) s"
    using inv cl(1) store_run_wp by blast
  then show "store_inv t \<and> gpu_budget t = g \<and> cpu_budget t = c" using cl(2) inv by (cases r) (auto simp: act_wp_def)
qed

lemma store_inv_new: "store_inv (store_new g c)"
proof -
  have "used_of t (store_new g c) = 0" for t by (cases t) (simp_all add: store_new_def)
  moreover have "budget_ok t 0 s" for t s by (cases t) simp_all
  ultimately show ?thesis by (simp add: store_inv_def tier_bytes_def) (simp add: store_new_def)
qed

lemma store_reachable_inv:
  assumes "rtranclp store_step (store_new g c) s"
  shows "store_inv s \<and> gpu_budget s = g \<and> cpu_budget s = c"
  using store.invar_steps [OF assms, of g c] store_inv_new by (simp add: store_new_def)

section \<open>Candidates for demotion\<close>

lemma demotion_keys_spec:
  assumes "freed + sum_list (map size_bytes ms) < 2 ^ 64"
  shows "\<exists>n. demotion_keys freed needed ms = Ok (map seg_key (take n ms)) \<and> n \<le> length ms \<and>
    (n < length ms \<longrightarrow> needed \<le> freed + sum_list (map size_bytes (take n ms))) \<and>
    (\<forall>j < n. freed + sum_list (map size_bytes (take j ms)) < needed)"
  using assms
proof (induction ms arbitrary: freed)
  case (Cons m ms)
  show ?case
  proof (cases "needed \<le> freed")
    case True
    then show ?thesis by (intro exI [of _ 0]) simp
  next
    case False
    have "(freed + size_bytes m) + sum_list (map size_bytes ms) < 2 ^ 64" using Cons.prems by simp
    from Cons.IH [OF this] obtain n where
      n: "demotion_keys (freed + size_bytes m) needed ms = Ok (map seg_key (take n ms))" "n \<le> length ms"
        "n < length ms \<longrightarrow> needed \<le> freed + size_bytes m + sum_list (map size_bytes (take n ms))"
        "\<forall>j < n. freed + size_bytes m + sum_list (map size_bytes (take j ms)) < needed"
      by blast
    have "freed + sum_list (map size_bytes (take j (m # ms))) < needed" if "j < Suc n" for j
      using that n(4) False by (cases j) (auto simp: add.assoc)
    then show ?thesis using n False Cons.prems by (intro exI [of _ "Suc n"]) (auto simp: add.assoc)
  qed
qed simp

lemma sum_list_sort_key: "sum_list (map f (sort_key g xs)) = (sum_list (map f xs) :: nat)"
  by (metis mset_map mset_sort sum_mset_sum_list)

lemma tier_bytes_filter:
  "tier_bytes t segs = sum_list (map size_bytes (filter (\<lambda>m. seg_tier m = t) (map snd segs)))"
  by (induction segs) (auto simp: tier_bytes_def)

end
