(* ===== verification/PrefixCache.thy ===== *)
theory PrefixCache
  imports Prelude "HOL-Library.Multiset"
begin

text \<open>
  The prefix cache (\<open>fuel-inference/src/prefix_cache.rs\<close>): key-value states of token prefixes under
  the 64-bit hash of the prefix, with a capacity and least-recently-used eviction by access stamps.
  The hash of the standard library is the parameter \<open>hash\<close>; the tensors are the type variable. The
  contract is a list in order of recency without stamps, which the cache refines.
\<close>

section \<open>Data and operations\<close>

type_synonym token = nat
type_synonym prefix_hash = nat

record 'kv cache_entry =
  kv_states :: "'kv list"
  seq_len :: nat
  last_access :: nat

record 'kv prefix_cache =
  entries :: "(prefix_hash \<times> 'kv cache_entry) list"
  max_entries :: nat
  access_counter :: nat

type_synonym ('kv, 'a) cache_act = "('kv prefix_cache, 'a, unit) act"

definition cache_new :: "nat \<Rightarrow> 'kv prefix_cache" where
  "cache_new n = \<lparr>entries = [], max_entries = max n 1, access_counter = 0\<rparr>"

definition cache_lookup :: "(token list \<Rightarrow> prefix_hash) \<Rightarrow> token list \<Rightarrow> ('kv, 'kv list option) cache_act" where
  "cache_lookup hash tokens = act_bind (act_get (\<lambda>c. map_of (entries c) (hash tokens))) (\<lambda>e.
     case e of None \<Rightarrow> act_ret None
     | Some entry \<Rightarrow> act_bind (act_get access_counter) (\<lambda>n. act_bind (usize_add n 1) (\<lambda>n'.
         act_bind (act_set (\<lambda>c. c\<lparr>access_counter := n',
           entries := AList.update (hash tokens) (entry\<lparr>last_access := n'\<rparr>) (entries c)\<rparr>)) (\<lambda>_.
         act_ret (Some (kv_states entry))))))"

text \<open>\<open>min_by_key\<close> on the access stamps; the first of equal ones.\<close>

fun oldest :: "prefix_hash \<times> 'kv cache_entry \<Rightarrow> (prefix_hash \<times> 'kv cache_entry) list \<Rightarrow> prefix_hash \<times> 'kv cache_entry" where
  "oldest b [] = b"
| "oldest b (x # xs) = oldest (if last_access (snd x) < last_access (snd b) then x else b) xs"

definition evict_lru :: "('kv, unit) cache_act" where
  "evict_lru = act_set (\<lambda>c. case entries c of [] \<Rightarrow> c
     | x # xs \<Rightarrow> c\<lparr>entries := AList.delete (fst (oldest x xs)) (entries c)\<rparr>)"

definition cache_insert :: "(token list \<Rightarrow> prefix_hash) \<Rightarrow> token list \<Rightarrow> 'kv list \<Rightarrow> ('kv, unit) cache_act" where
  "cache_insert hash tokens kvs = act_bind (act_get (\<lambda>c.
       map_of (entries c) (hash tokens) = None \<and> max_entries c \<le> length (entries c))) (\<lambda>full.
     act_bind (if full then evict_lru else act_ret ()) (\<lambda>_.
     act_bind (act_get access_counter) (\<lambda>n. act_bind (usize_add n 1) (\<lambda>n'.
     act_set (\<lambda>c. c\<lparr>access_counter := n', entries := AList.update (hash tokens)
       \<lparr>kv_states = kvs, seq_len = length tokens, last_access = n'\<rparr> (entries c)\<rparr>)))))"

definition cache_clear :: "('kv, unit) cache_act" where
  "cache_clear = act_set (\<lambda>c. c\<lparr>entries := [], access_counter := 0\<rparr>)"

definition cache_contains :: "(token list \<Rightarrow> prefix_hash) \<Rightarrow> token list \<Rightarrow> 'kv prefix_cache \<Rightarrow> bool" where
  "cache_contains hash tokens c = (map_of (entries c) (hash tokens) \<noteq> None)"

definition cached_seq_len :: "(token list \<Rightarrow> prefix_hash) \<Rightarrow> token list \<Rightarrow> 'kv prefix_cache \<Rightarrow> nat option" where
  "cached_seq_len hash tokens c = map_option seq_len (map_of (entries c) (hash tokens))"

text \<open>The loop over the lengths from \<open>n\<close> down to 1.\<close>

fun probe :: "(token list \<Rightarrow> prefix_hash) \<Rightarrow> token list \<Rightarrow> nat \<Rightarrow> ('kv, (nat \<times> 'kv list) option) cache_act" where
  "probe hash tokens 0 = act_ret None"
| "probe hash tokens (Suc n) = act_bind (cache_lookup hash (take (Suc n) tokens)) (\<lambda>r.
     case r of Some kv \<Rightarrow> act_ret (Some (Suc n, kv)) | None \<Rightarrow> probe hash tokens n)"

definition longest_prefix_match ::
  "(token list \<Rightarrow> prefix_hash) \<Rightarrow> token list \<Rightarrow> ('kv, (nat \<times> 'kv list) option) cache_act" where
  "longest_prefix_match hash tokens = probe hash tokens (length tokens)"

section \<open>Calls\<close>

datatype 'kv cache_call =
  Lookup "token list" | Insert "token list" "'kv list" | Clear | LongestPrefixMatch "token list"

datatype 'kv cache_reply = Found "'kv list option" | Match "(nat \<times> 'kv list) option" | Unit

fun cache_run :: "(token list \<Rightarrow> prefix_hash) \<Rightarrow> 'kv cache_call \<Rightarrow> ('kv, 'kv cache_reply) cache_act" where
  "cache_run hash (Lookup toks) = act_bind (cache_lookup hash toks) (\<lambda>r. act_ret (Found r))"
| "cache_run hash (Insert toks kvs) = act_bind (cache_insert hash toks kvs) (\<lambda>_. act_ret Unit)"
| "cache_run hash Clear = act_bind cache_clear (\<lambda>_. act_ret Unit)"
| "cache_run hash (LongestPrefixMatch toks) = act_bind (longest_prefix_match hash toks) (\<lambda>r. act_ret (Match r))"

section \<open>Specification: a list in order of recency\<close>

type_synonym 'kv lru = "(prefix_hash \<times> 'kv list) list"

definition to_front :: "prefix_hash \<Rightarrow> 'kv list \<Rightarrow> 'kv lru \<Rightarrow> 'kv lru" where
  "to_front h kvs xs = (h, kvs) # filter (\<lambda>x. fst x \<noteq> h) xs"

definition lru_lookup :: "prefix_hash \<Rightarrow> 'kv lru \<Rightarrow> 'kv list option \<times> 'kv lru" where
  "lru_lookup h xs = (case map_of xs h of None \<Rightarrow> (None, xs) | Some kvs \<Rightarrow> (Some kvs, to_front h kvs xs))"

definition longest_cached :: "(token list \<Rightarrow> prefix_hash) \<Rightarrow> token list \<Rightarrow> nat \<Rightarrow> 'kv lru \<Rightarrow> nat" where
  "longest_cached hash toks n xs =
     Max (insert 0 {m. 1 \<le> m \<and> m \<le> n \<and> map_of xs (hash (take m toks)) \<noteq> None})"

fun lru_call :: "nat \<Rightarrow> (token list \<Rightarrow> prefix_hash) \<Rightarrow> 'kv cache_call \<Rightarrow> 'kv lru \<Rightarrow> 'kv cache_reply \<times> 'kv lru" where
  "lru_call cap hash (Lookup toks) xs = (let (r, ys) = lru_lookup (hash toks) xs in (Found r, ys))"
| "lru_call cap hash (Insert toks kvs) xs = (Unit, take cap (to_front (hash toks) kvs xs))"
| "lru_call cap hash Clear xs = (Unit, [])"
| "lru_call cap hash (LongestPrefixMatch toks) xs =
     (let m = longest_cached hash toks (length toks) xs in
      if m = 0 then (Match None, xs)
      else let (r, ys) = lru_lookup (hash (take m toks)) xs in (Match (map_option (Pair m) r), ys))"

section \<open>The entries by age\<close>

abbreviation stamp :: "prefix_hash \<times> 'kv cache_entry \<Rightarrow> nat" where
  "stamp x \<equiv> last_access (snd x)"

definition by_age :: "(prefix_hash \<times> 'kv cache_entry) list \<Rightarrow> (prefix_hash \<times> 'kv cache_entry) list" where
  "by_age m = sort_key stamp m"

definition lru_view :: "'kv prefix_cache \<Rightarrow> 'kv lru" where
  "lru_view c = rev (map (\<lambda>x. (fst x, kv_states (snd x))) (by_age (entries c)))"

definition cache_inv :: "'kv prefix_cache \<Rightarrow> bool" where
  "cache_inv c \<longleftrightarrow> keys_distinct (entries c) \<and> inj_on stamp (set (entries c)) \<and>
     (\<forall>x \<in> set (entries c). stamp x \<le> access_counter c) \<and>
     length (entries c) \<le> max_entries c \<and> 1 \<le> max_entries c"

lemma set_by_age [simp]: "set (by_age m) = set m"
  by (simp add: by_age_def)

lemma length_by_age [simp]: "length (by_age m) = length m"
  by (simp add: by_age_def)

lemma keys_by_age: "keys_distinct m \<Longrightarrow> keys_distinct (by_age m)"
  unfolding by_age_def by (metis mset_eq_imp_distinct_iff mset_map mset_sort)

lemma map_of_by_age: "keys_distinct m \<Longrightarrow> map_of (by_age m) = map_of m"
  using map_of_inject_set [OF keys_by_age, of m m] by simp

lemma map_of_view: "keys_distinct (entries c) \<Longrightarrow> map_of (lru_view c) h = map_option kv_states (map_of (entries c) h)"
proof -
  assume d: "keys_distinct (entries c)"
  have "map_of (rev xs) = map_of xs" if "keys_distinct xs" for xs :: "'a lru"
    using that map_of_inject_set [of "rev xs" xs] by (simp add: rev_map [symmetric])
  moreover have "keys_distinct (map (\<lambda>x. (fst x, kv_states (snd x))) (by_age (entries c)))"
    using keys_by_age [OF d] by (simp add: comp_def)
  moreover have "map_of (map (\<lambda>x. (fst x, kv_states (snd x))) xs) h = map_option kv_states (map_of xs h)"
    for xs :: "(nat \<times> 'a cache_entry) list" by (induction xs) auto
  ultimately show ?thesis using map_of_by_age [OF d] by (simp add: lru_view_def)
qed

lemma delete_filter: "AList.delete k m = filter (\<lambda>x. fst x \<noteq> k) m"
  by (induction m) auto

lemma mset_update:
  "keys_distinct m \<Longrightarrow> mset (AList.update k v m) = add_mset (k, v) (mset (filter (\<lambda>x. fst x \<noteq> k) m))"
proof (induction m)
  case (Cons x m)
  show ?case
  proof (cases "fst x = k")
    case True
    then have "filter (\<lambda>y. fst y \<noteq> k) m = m" using Cons.prems by (intro filter_True) (auto simp: image_iff)
    then show ?thesis using True by (cases x) simp
  next
    case False
    then show ?thesis using Cons by (cases x) simp
  qed
qed simp

text \<open>A fresh stamp puts an entry last by age, wherever it was.\<close>

lemma by_age_update:
  assumes d: "keys_distinct m" and i: "inj_on stamp (set m)" and new: "\<And>x. x \<in> set m \<Longrightarrow> stamp x < last_access v"
  shows "by_age (AList.update k v m) = filter (\<lambda>x. fst x \<noteq> k) (by_age m) @ [(k, v)]"
    and "inj_on stamp (set (AList.update k v m))"
proof -
  let ?f = "filter (\<lambda>x. fst x \<noteq> k)"
  have m: "mset (AList.update k v m) = mset (?f (by_age m) @ [(k, v)])"
    by (simp add: mset_update [OF d] by_age_def filter_sort)
  have set: "set (AList.update k v m) = insert (k, v) (set (?f m))"
    using mset_eq_setD [OF m] by simp
  show inj: "inj_on stamp (set (AList.update k v m))"
    unfolding set using i new by (fastforce simp: inj_on_def)
  have "sorted (map stamp (?f (by_age m)))" by (simp add: by_age_def filter_sort)
  then have "sorted (map stamp (?f (by_age m) @ [(k, v)]))"
    using new by (auto simp: sorted_append intro: less_imp_le)
  then show "by_age (AList.update k v m) = ?f (by_age m) @ [(k, v)]"
    unfolding by_age_def [of "AList.update k v m"] by (rule sort_key_inj_key_eq [OF m inj])
qed

lemma oldest_mem: "oldest b xs \<in> set (b # xs)"
  by (induction xs arbitrary: b) (auto split: if_splits)

lemma oldest_least: "y \<in> set (b # xs) \<Longrightarrow> stamp (oldest b xs) \<le> stamp y"
proof (induction xs arbitrary: b y)
  case (Cons x xs)
  let ?b = "if stamp x < stamp b then x else b"
  have "stamp (oldest ?b xs) \<le> stamp ?b" by (rule Cons.IH) simp
  then have "stamp (oldest ?b xs) \<le> stamp x" "stamp (oldest ?b xs) \<le> stamp b" by (auto split: if_splits)
  moreover have "stamp (oldest ?b xs) \<le> stamp y" if "y \<in> set xs" using that by (intro Cons.IH) simp
  ultimately show ?case using Cons.prems unfolding oldest.simps list.set by blast
qed simp

text \<open>Eviction removes the first entry by age.\<close>

lemma by_age_evict:
  assumes d: "keys_distinct m" and i: "inj_on stamp (set m)" and m: "m = x # xs"
  shows "by_age (AList.delete (fst (oldest x xs)) m) = tl (by_age m)"
proof -
  have "length (by_age m) = Suc (length xs)" by (simp only: length_by_age m list.size)
  then obtain y ys where y: "by_age m = y # ys" by (cases "by_age m") auto
  have set: "set m = insert y (set ys)" using arg_cong [OF y, of set] by simp
  have "sorted (map stamp (y # ys))" unfolding y [symmetric] by (simp add: by_age_def)
  then have "stamp y \<le> stamp z" if "z \<in> set m" for z using that set by auto
  moreover have "y \<in> set m" using set by simp
  ultimately have "stamp y = stamp (oldest x xs)"
    using oldest_least [of y x xs] oldest_mem [of x xs] m by (simp add: order_antisym)
  then have "oldest x xs = y" using i \<open>y \<in> set m\<close> oldest_mem [of x xs] m by (auto simp: inj_on_def)
  moreover have "fst z \<noteq> fst y" if "z \<in> set ys" for z
    using keys_by_age [OF d] y that by (auto simp: image_iff)
  then have "filter (\<lambda>z. fst z \<noteq> fst y) ys = ys" by simp
  then have "filter (\<lambda>z. fst z \<noteq> fst y) (by_age m) = tl (by_age m)" by (simp add: y)
  ultimately show ?thesis by (simp add: delete_filter by_age_def filter_sort)
qed

section \<open>Every call refines the specification\<close>

lemma cache_invD:
  assumes "cache_inv c"
  shows "keys_distinct (entries c)" and "inj_on stamp (set (entries c))"
    and "x \<in> set (entries c) \<Longrightarrow> stamp x \<le> access_counter c"
    and "length (entries c) \<le> max_entries c" and "1 \<le> max_entries c"
  using assms by (auto simp: cache_inv_def)

lemma map_of_viewD: "cache_inv c \<Longrightarrow> map_of (lru_view c) h = map_option kv_states (map_of (entries c) h)"
  by (rule map_of_view) (rule cache_invD(1))

lemma length_view [simp]: "length (lru_view c) = length (entries c)"
  by (simp add: lru_view_def)

text \<open>Storing an entry under a fresh stamp.\<close>

lemma store_fresh:
  fixes c :: "'kv prefix_cache"
  assumes d: "keys_distinct (entries c)" and i: "inj_on stamp (set (entries c))"
    and st: "\<And>x. x \<in> set (entries c) \<Longrightarrow> stamp x \<le> access_counter c"
    and room: "length (AList.update h v (entries c)) \<le> max_entries c" and v: "last_access v = access_counter c + 1"
  defines "c' \<equiv> c\<lparr>access_counter := access_counter c + 1, entries := AList.update h v (entries c)\<rparr>"
  shows "cache_inv c'" and "lru_view c' = to_front h (kv_states v) (lru_view c)"
proof -
  have new: "stamp x < last_access v" if "x \<in> set (entries c)" for x using st [OF that] v by simp
  note u = by_age_update [OF d i new, of h]
  have "set (AList.update h v (entries c)) \<subseteq> insert (h, v) (set (entries c))"
    using arg_cong [OF mset_update [OF d, of h v], of set_mset] by auto
  then have "stamp x \<le> access_counter c + 1" if "x \<in> set (AList.update h v (entries c))" for x
    using that st v by fastforce
  moreover have "AList.update h v (entries c) \<noteq> []" by (cases "entries c") auto
  then have "1 \<le> length (AList.update h v (entries c))" by (simp add: Suc_leI)
  ultimately show "cache_inv c'" using d room u(2) unfolding c'_def cache_inv_def by (auto intro: order_trans)
  show "lru_view c' = to_front h (kv_states v) (lru_view c)"
    by (simp add: c'_def lru_view_def to_front_def u(1) rev_filter [symmetric] filter_map comp_def)
qed

lemma length_update_present: "map_of m k = Some w \<Longrightarrow> length (AList.update k v m) = length m"
  by (simp add: length_update)

abbreviation cache_post where
  "cache_post hash cl c \<equiv> (\<lambda>r d. cache_inv d \<and> max_entries d = max_entries c \<and>
     lru_call (max_entries c) hash cl (lru_view c) = (r, lru_view d))"

lemma cache_lookup_wp:
  assumes inv: "cache_inv c" and lt: "access_counter c + 1 < 2 ^ 64"
  shows "act_wp (cache_lookup hash toks) (\<lambda>r d. cache_inv d \<and> max_entries d = max_entries c \<and>
      lru_lookup (hash toks) (lru_view c) = (r, lru_view d) \<and> (r = None \<longrightarrow> d = c)) (\<lambda>_ _. False) c"
proof (cases "map_of (entries c) (hash toks)")
  case None
  then show ?thesis using inv map_of_viewD [OF inv, of "hash toks"]
    by (simp add: cache_lookup_def wp_simps lru_lookup_def)
next
  case (Some e)
  note D = cache_invD [OF inv]
  have "length (AList.update (hash toks) (e\<lparr>last_access := access_counter c + 1\<rparr>) (entries c)) \<le> max_entries c"
    using D(4) length_update_present [OF Some] by simp
  note f = store_fresh [OF D(1,2,3) this]
  show ?thesis using Some lt f map_of_viewD [OF inv, of "hash toks"]
    by (simp add: cache_lookup_def wp_simps lru_lookup_def)
qed

lemma evict_view:
  assumes inv: "cache_inv c" and full: "max_entries c \<le> length (entries c)"
  defines "d \<equiv> (case entries c of [] \<Rightarrow> c | x # xs \<Rightarrow> c\<lparr>entries := AList.delete (fst (oldest x xs)) (entries c)\<rparr>)"
  shows "keys_distinct (entries d)" and "set (entries d) \<subseteq> set (entries c)"
    and "length (entries d) + 1 = max_entries c" and "lru_view d = butlast (lru_view c)"
    and "access_counter d = access_counter c" and "max_entries d = max_entries c"
proof -
  note D = cache_invD [OF inv]
  obtain x xs where m: "entries c = x # xs" using full D(5) by (cases "entries c") auto
  have d: "d = c\<lparr>entries := AList.delete (fst (oldest x xs)) (entries c)\<rparr>" by (simp add: d_def m)
  note ev = by_age_evict [OF D(1,2) m]
  show "keys_distinct (entries d)" using D(1) by (simp add: d)
  show "set (entries d) \<subseteq> set (entries c)" by (simp add: d delete_filter)
  have "length (entries d) = length (entries c) - 1"
    using arg_cong [OF ev, of length] by (simp add: d)
  then show "length (entries d) + 1 = max_entries c" using D(4) full m by simp
  show "lru_view d = butlast (lru_view c)" by (simp add: d lru_view_def ev map_tl butlast_rev)
qed (auto simp: d_def split: list.split)

lemma cache_insert_wp:
  assumes inv: "cache_inv c" and lt: "access_counter c + 1 < 2 ^ 64"
  shows "act_wp (cache_insert hash toks kvs) (\<lambda>_ d. cache_inv d \<and> max_entries d = max_entries c \<and>
      lru_view d = take (max_entries c) (to_front (hash toks) kvs (lru_view c))) (\<lambda>_ _. False) c"
proof -
  note D = cache_invD [OF inv]
  let ?v = "\<lparr>kv_states = kvs, seq_len = length toks, last_access = access_counter c + 1\<rparr>"
  have len: "length (to_front (hash toks) kvs (lru_view c)) \<le> max_entries c"
    if "length (AList.update (hash toks) ?v (entries c)) \<le> max_entries c"
    using arg_cong [OF store_fresh(2) [OF D(1,2,3) that], of length] that by simp
  show ?thesis
  proof (cases "map_of (entries c) (hash toks) = None \<and> max_entries c \<le> length (entries c)")
    case False
    then have room: "length (AList.update (hash toks) ?v (entries c)) \<le> max_entries c"
      using D(4) by (auto simp: length_update split: option.splits)
    have no: "\<not> (map_of (entries c) (hash toks) = None \<and> max_entries c \<le> length (entries c))" by (rule False)
    show ?thesis using store_fresh [OF D(1,2,3) room] len [OF room] lt
      unfolding cache_insert_def wp_bind wp_get if_not_P [OF no] by (simp add: wp_simps)
  next
    case True
    define d where "d = (case entries c of [] \<Rightarrow> c | x # xs \<Rightarrow> c\<lparr>entries := AList.delete (fst (oldest x xs)) (entries c)\<rparr>)"
    note ev = evict_view [OF inv conjunct2 [OF True], folded d_def]
    have room: "length (AList.update (hash toks) ?v (entries d)) \<le> max_entries d"
      using ev(3,6) by (simp add: length_update)
    have "inj_on stamp (set (entries d))" using D(2) ev(2) by (rule inj_on_subset)
    moreover have "stamp x \<le> access_counter d" if "x \<in> set (entries d)" for x
      using D(3) [OF subsetD [OF ev(2) that]] ev(5) by simp
    ultimately have f: "cache_inv (d\<lparr>access_counter := access_counter d + 1, entries := AList.update (hash toks) ?v (entries d)\<rparr>)"
        "lru_view (d\<lparr>access_counter := access_counter d + 1, entries := AList.update (hash toks) ?v (entries d)\<rparr>) =
           to_front (hash toks) kvs (lru_view d)"
      using store_fresh [OF ev(1) _ _ room] ev(5) by auto
    have absent: "fst x \<noteq> hash toks" if "x \<in> set (lru_view c)" for x
    proof -
      have "map_of (lru_view c) (hash toks) = None" using True map_of_viewD [OF inv, of "hash toks"] by simp
      then have "hash toks \<notin> fst ` set (lru_view c)" by (simp only: map_of_eq_None_iff not_False_eq_True)
      then show ?thesis using that by (metis image_eqI)
    qed
    then have "to_front (hash toks) kvs (lru_view d) = take (max_entries c) (to_front (hash toks) kvs (lru_view c))"
      using ev(3,4) D(4) True by (auto simp: to_front_def butlast_conv_take take_Cons' in_set_butlastD dest: in_set_takeD cong: filter_cong)
    then show ?thesis using f lt ev(5,6)
      unfolding cache_insert_def wp_bind wp_get if_P [OF True]
      by (simp add: wp_simps evict_lru_def d_def [symmetric])
  qed
qed

lemma longest_cached_Suc:
  "longest_cached hash toks (Suc n) xs =
   (if map_of xs (hash (take (Suc n) toks)) \<noteq> None then Suc n else longest_cached hash toks n xs)"
proof -
  let ?S = "\<lambda>n. {m. 1 \<le> m \<and> m \<le> n \<and> map_of xs (hash (take m toks)) \<noteq> None}"
  show ?thesis
  proof (cases "map_of xs (hash (take (Suc n) toks)) = None")
    case True
    then have "?S (Suc n) = ?S n" by (auto simp: le_Suc_eq)
    then show ?thesis using True by (simp add: longest_cached_def)
  next
    case False
    have "Max (insert 0 (?S (Suc n))) = Suc n"
      using False by (intro Max_eqI) (auto intro: finite_subset [of _ "{.. Suc n}"])
    then show ?thesis using False by (simp add: longest_cached_def)
  qed
qed

lemma longest_cached_0 [simp]: "longest_cached hash toks 0 xs = 0"
proof -
  have "{m :: nat. 1 \<le> m \<and> m \<le> 0 \<and> map_of xs (hash (take m toks)) \<noteq> None} = {}" by auto
  then show ?thesis unfolding longest_cached_def by (simp only: Max_singleton)
qed

lemma probe_wp:
  assumes inv: "cache_inv c" and lt: "access_counter c + 1 < 2 ^ 64"
  shows "act_wp (probe hash toks n) (\<lambda>r d. cache_inv d \<and> max_entries d = max_entries c \<and>
      (let m = longest_cached hash toks n (lru_view c) in
       if m = 0 then r = None \<and> d = c
       else \<exists>kvs. r = Some (m, kvs) \<and> lru_lookup (hash (take m toks)) (lru_view c) = (Some kvs, lru_view d)))
    (\<lambda>_ _. False) c"
proof (induction n)
  case 0
  then show ?case using inv by (simp add: wp_simps)
next
  case (Suc n)
  show ?case
  proof (cases "map_of (lru_view c) (hash (take (Suc n) toks))")
    case None
    have "act_wp (cache_lookup hash (take (Suc n) toks)) (\<lambda>r d. r = None \<and> d = c) (\<lambda>_ _. False) c"
      using cache_lookup_wp [OF inv lt, of hash "take (Suc n) toks"] by (rule wp_mono) (auto simp: lru_lookup_def None)
    then show ?thesis unfolding probe.simps wp_bind
      by (rule wp_mono) (use Suc None in \<open>auto simp: longest_cached_Suc\<close>)
  next
    case (Some kvs)
    then show ?thesis unfolding probe.simps wp_bind
      by (intro wp_mono [OF cache_lookup_wp [OF inv lt]]) (auto simp: lru_lookup_def wp_simps longest_cached_Suc)
  qed
qed

lemma cache_run_wp:
  assumes inv: "cache_inv c" and lt: "access_counter c + 1 < 2 ^ 64"
  shows "act_wp (cache_run hash cl) (cache_post hash cl c) (\<lambda>_ _. False) c"
proof (cases cl)
  case (Lookup toks)
  then show ?thesis using wp_mono [OF cache_lookup_wp [OF assms]]
    by (auto simp: wp_bind wp_ret split: prod.splits)
next
  case (Insert toks kvs)
  then show ?thesis using wp_mono [OF cache_insert_wp [OF assms]] by (auto simp: wp_bind wp_ret)
next
  case Clear
  have "1 \<le> max_entries c" by (rule cache_invD(5) [OF inv])
  then show ?thesis using Clear by (simp add: cache_clear_def wp_simps cache_inv_def lru_view_def by_age_def)
next
  case (LongestPrefixMatch toks)
  show ?thesis unfolding LongestPrefixMatch cache_run.simps wp_bind longest_prefix_match_def
    by (rule wp_mono [OF probe_wp [OF assms]]) (auto simp: wp_ret Let_def split: if_splits)
qed

inductive cache_step :: "(token list \<Rightarrow> prefix_hash) \<Rightarrow> 'kv prefix_cache \<Rightarrow> 'kv prefix_cache \<Rightarrow> bool" for hash where
  cache_stepI: "access_counter c + 1 < 2 ^ 64 \<Longrightarrow> cache_run hash cl c = (r, d) \<Longrightarrow> cache_step hash c d"

inductive_cases cache_stepE: "cache_step hash c d"

interpretation cache: stepped_system "cache_step hash" "\<lambda>c. cache_inv c \<and> max_entries c = n" for hash n
proof
  fix c d
  assume inv: "cache_inv c \<and> max_entries c = n" and "cache_step hash c d"
  then obtain cl r where cl: "access_counter c + 1 < 2 ^ 64" "cache_run hash cl c = (r, d)" by (auto elim: cache_stepE)
  have "act_wp (cache_run hash cl) (cache_post hash cl c) (\<lambda>_ _. False) c"
    using inv cl(1) cache_run_wp by blast
  then show "cache_inv d \<and> max_entries d = n" using cl(2) inv by (cases r) (auto simp: act_wp_def)
qed

lemma cache_reachable_inv:
  assumes "rtranclp (cache_step hash) (cache_new n) c"
  shows "cache_inv c \<and> max_entries c = max n 1"
  using cache.invar_steps [OF assms, of "max n 1"] by (simp add: cache_inv_def cache_new_def)

end
