(* ===== verification/Prefill.thy ===== *)
theory Prefill
  imports Prelude
begin

text \<open>
  Splitting a prompt into chunks (\<open>fuel-inference/src/chunked_prefill.rs\<close>) and drafting a
  continuation by looking up the last tokens in the history (\<open>fuel-inference/src/ngram_draft.rs\<close>).
\<close>

section \<open>Chunked prefill\<close>

record prefill_chunk =
  chunk_tokens :: "nat list"
  index_pos :: nat
  is_last :: bool
  chunk_idx :: nat
  total_chunks :: nat

record chunked_prefill =
  prompt :: "nat list"
  chunk_size :: nat
  current_pos :: nat
  num_chunks :: nat
  current_chunk :: nat

type_synonym 'a prefill_act = "(chunked_prefill, 'a, unit) act"

definition prefill_new :: "nat list \<Rightarrow> nat \<Rightarrow> (chunked_prefill, unit) rust" where
  "prefill_new toks n = (if n = 0 then Panic
     else Ok \<lparr>prompt = toks, chunk_size = n, current_pos = 0,
            num_chunks = (if toks = [] then 0 else div_ceil (length toks) n), current_chunk = 0\<rparr>)"

definition next_chunk :: "prefill_chunk option prefill_act" where
  "next_chunk = act_bind (act_get (\<lambda>s. s)) (\<lambda>s.
     if length (prompt s) \<le> current_pos s then act_ret None
     else act_bind (usize_add (current_pos s) (chunk_size s)) (\<lambda>sum.
       let start = current_pos s; stop = min sum (length (prompt s)) in
       act_bind (act_set (\<lambda>s. s\<lparr>current_pos := stop, current_chunk := current_chunk s + 1\<rparr>)) (\<lambda>_.
       act_ret (Some \<lparr>chunk_tokens = take (stop - start) (drop start (prompt s)), index_pos = start,
         is_last = (length (prompt s) \<le> stop), chunk_idx = current_chunk s, total_chunks = num_chunks s\<rparr>))))"

definition is_done :: "chunked_prefill \<Rightarrow> bool" where
  "is_done s \<longleftrightarrow> length (prompt s) \<le> current_pos s"

definition remaining_chunks :: "chunked_prefill \<Rightarrow> (nat, unit) rust" where
  "remaining_chunks s = (if num_chunks s < current_chunk s then Panic else Ok (num_chunks s - current_chunk s))"

definition prefill_reset :: "unit prefill_act" where
  "prefill_reset = act_set (\<lambda>s. s\<lparr>current_pos := 0, current_chunk := 0\<rparr>)"

text \<open>The loop \<open>while let Some(chunk) = prefill.next_chunk()\<close>, with a bound on its iterations.\<close>

fun prefill_loop :: "nat \<Rightarrow> prefill_chunk list \<Rightarrow> prefill_chunk list option prefill_act" where
  "prefill_loop 0 acc = act_ret None"
| "prefill_loop (Suc fuel) acc = act_bind next_chunk (\<lambda>c.
     case c of None \<Rightarrow> act_ret (Some acc) | Some c \<Rightarrow> prefill_loop fuel (acc @ [c]))"

text \<open>The chunk with index \<open>i\<close>, without state.\<close>

definition nth_chunk :: "nat list \<Rightarrow> nat \<Rightarrow> nat \<Rightarrow> prefill_chunk" where
  "nth_chunk toks n i = \<lparr>chunk_tokens = take n (drop (i * n) toks), index_pos = i * n,
     is_last = (i + 1 = div_ceil (length toks) n), chunk_idx = i, total_chunks = div_ceil (length toks) n\<rparr>"

definition prefill_at :: "nat list \<Rightarrow> nat \<Rightarrow> nat \<Rightarrow> chunked_prefill" where
  "prefill_at toks n i = \<lparr>prompt = toks, chunk_size = n, current_pos = min (i * n) (length toks),
     num_chunks = div_ceil (length toks) n, current_chunk = i\<rparr>"

lemma lt_div_ceil_iff: "0 < b \<Longrightarrow> i < div_ceil a b \<longleftrightarrow> i * b < a"
  using div_ceil_le_iff [of b a i] by linarith

lemma next_chunk_at:
  assumes n: "0 < n" "n < 2 ^ 64" and len: "length toks < 2 ^ 63"
  shows "next_chunk (prefill_at toks n i) =
    (if i < div_ceil (length toks) n then (Ok (Some (nth_chunk toks n i)), prefill_at toks n (i + 1))
     else (Ok None, prefill_at toks n i))"
proof (cases "i < div_ceil (length toks) n")
  case False
  then have "length toks \<le> i * n" using n by (simp add: lt_div_ceil_iff)
  then show ?thesis using False
    by (simp add: next_chunk_def act_bind_def act_get_def act_ret_def prefill_at_def)
next
  case True
  then have lt: "i * n < length toks" using n by (simp add: lt_div_ceil_iff)
  have "i * n + n < 2 ^ 64"
  proof (cases i)
    case (Suc j)
    then have "n \<le> i * n" by simp
    moreover have "(2 :: nat) ^ 64 = 2 ^ 63 + 2 ^ 63" by simp
    ultimately show ?thesis using lt len by linarith
  qed (use n in simp)
  moreover have "length toks \<le> i * n + n \<longleftrightarrow> i + 1 = div_ceil (length toks) n"
    using True n div_ceil_le_iff [of n "length toks" "i + 1"] by (auto simp: add.commute)
  moreover have "take (min (i * n + n) (length toks) - i * n) (drop (i * n) toks) = take n (drop (i * n) toks)"
    using lt by (simp add: min_def)
  ultimately show ?thesis using True lt
    by (simp add: next_chunk_def act_bind_def act_get_def act_set_def act_ret_def usize_add_def prefill_at_def
        nth_chunk_def Let_def min_absorb1 less_imp_le add.commute)
qed

lemma prefill_loop_at:
  assumes n: "0 < n" "n < 2 ^ 64" and len: "length toks < 2 ^ 63"
    and "i \<le> div_ceil (length toks) n" and "div_ceil (length toks) n - i < fuel"
  shows "prefill_loop fuel acc (prefill_at toks n i) =
    (Ok (Some (acc @ map (nth_chunk toks n) [i..<div_ceil (length toks) n])), prefill_at toks n (div_ceil (length toks) n))"
  using assms(4,5)
proof (induction fuel arbitrary: i acc)
  case (Suc fuel)
  show ?case
  proof (cases "i < div_ceil (length toks) n")
    case True
    then show ?thesis using Suc.IH [of "Suc i" "acc @ [nth_chunk toks n i]"] Suc.prems next_chunk_at [OF n len, of i]
      by (simp add: act_bind_def upt_conv_Cons)
  next
    case False
    then show ?thesis using Suc.prems next_chunk_at [OF n len, of i]
      by (simp add: act_bind_def act_ret_def)
  qed
qed simp

lemma concat_chunks:
  "concat (map (\<lambda>i. take n (drop (i * n) toks)) [0..<k]) = take (k * n) toks"
proof (induction k)
  case (Suc k)
  then show ?case using take_add [of "k * n" n toks] by (simp add: add.commute)
qed simp

section \<open>Drafting by n-gram lookup\<close>

record ngram_drafter =
  max_ngram :: nat
  min_ngram :: nat
  max_draft :: nat

definition drafter_new :: "nat \<Rightarrow> nat \<Rightarrow> nat \<Rightarrow> ngram_drafter" where
  "drafter_new mx mn md = (let mx' = max mx 1 in
     \<lparr>max_ngram = mx', min_ngram = min (max mn 1) mx', max_draft = max md 1\<rparr>)"

definition slice :: "nat list \<Rightarrow> nat \<Rightarrow> nat \<Rightarrow> nat list" where
  "slice xs a b = take (b - a) (drop a xs)"

text \<open>The inner loop over the start positions below \<open>k\<close>, from the last one down.\<close>

fun draft_at :: "nat \<Rightarrow> nat list \<Rightarrow> nat \<Rightarrow> nat \<Rightarrow> nat list option" where
  "draft_at md h n 0 = None"
| "draft_at md h n (Suc p) =
     (if slice h p (p + n) = drop (length h - n) h
      then (let start = p + n; stop = min (start + md) (length h) in
            if start < stop then Some (slice h start stop) else draft_at md h n p)
      else draft_at md h n p)"

text \<open>The outer loop over the suffix lengths from \<open>n\<close> down to \<open>min_ngram\<close>; \<open>n + 1\<close> is an addition in \<open>usize\<close>.\<close>

fun draft_from :: "ngram_drafter \<Rightarrow> nat list \<Rightarrow> nat \<Rightarrow> (nat list, unit) rust" where
  "draft_from d h n =
     (if n < min_ngram d then Ok []
      else if 2 ^ 64 \<le> n + 1 then Panic
      else if length h < n + 1 then (if n = 0 then Ok [] else draft_from d h (n - 1))
      else case draft_at (max_draft d) h n (length h - n) of
          Some xs \<Rightarrow> Ok xs
        | None \<Rightarrow> if n = 0 then Ok [] else draft_from d h (n - 1))"

declare draft_from.simps [simp del]

definition draft :: "ngram_drafter \<Rightarrow> nat list \<Rightarrow> (nat list, unit) rust" where
  "draft d h = draft_from d h (max_ngram d)"

datatype logprob = Zero | Neg_inf

definition one_hot_logprobs :: "nat list \<Rightarrow> nat \<Rightarrow> logprob list list" where
  "one_hot_logprobs ds vocab = map (\<lambda>t. let row = replicate vocab Neg_inf in
     if t < vocab then row[t := Zero] else row) ds"

text \<open>The suffix of length \<open>n\<close> occurs at \<open>p\<close>, before its own position.\<close>

definition occurs_at :: "nat list \<Rightarrow> nat \<Rightarrow> nat \<Rightarrow> bool" where
  "occurs_at h n p \<longleftrightarrow> p + n < length h \<and> take n (drop p h) = drop (length h - n) h"

lemma draft_at_spec:
  assumes "0 < md" and "n < length h" and "k \<le> length h - n"
  shows "case draft_at md h n k of
      Some xs \<Rightarrow> \<exists>p < k. occurs_at h n p \<and> (\<forall>q < k. p < q \<longrightarrow> \<not> occurs_at h n q) \<and> xs = take md (drop (p + n) h)
    | None \<Rightarrow> \<forall>q < k. \<not> occurs_at h n q"
  using assms(3)
proof (induction k)
  case (Suc p)
  have ih: "case draft_at md h n p of
      Some xs \<Rightarrow> \<exists>p' < p. occurs_at h n p' \<and> (\<forall>q < p. p' < q \<longrightarrow> \<not> occurs_at h n q) \<and> xs = take md (drop (p' + n) h)
    | None \<Rightarrow> \<forall>q < p. \<not> occurs_at h n q"
    using Suc by simp
  have lt: "p + n < length h" using Suc.prems assms(2) by simp
  show ?case
  proof (cases "occurs_at h n p")
    case True
    have "take (min (p + n + md) (length h) - (p + n)) (drop (p + n) h) = take md (drop (p + n) h)"
      using lt by (simp add: min_def)
    moreover have "p + n < min (p + n + md) (length h)" using lt assms(1) by simp
    moreover have "slice h p (p + n) = drop (length h - n) h" using True by (simp add: occurs_at_def slice_def)
    ultimately have "draft_at md h n (Suc p) = Some (take md (drop (p + n) h))" by (simp add: slice_def Let_def)
    then show ?thesis using True by auto
  next
    case False
    then have "draft_at md h n (Suc p) = draft_at md h n p" using lt by (auto simp: occurs_at_def slice_def)
    then show ?thesis using ih False by (auto split: option.splits simp: less_Suc_eq)
  qed
qed simp

text \<open>
  What the drafter promises for suffixes of at most \<open>n\<close> tokens: the longest suffix that occurs
  earlier, at its most recent occurrence, and the tokens that followed it; or nothing.
\<close>

definition draft_ok :: "ngram_drafter \<Rightarrow> nat list \<Rightarrow> nat \<Rightarrow> nat list \<Rightarrow> bool" where
  "draft_ok d h n xs \<longleftrightarrow>
     (\<exists>m p. min_ngram d \<le> m \<and> m \<le> n \<and> occurs_at h m p \<and> xs = take (max_draft d) (drop (p + m) h) \<and>
        (\<forall>q > p. \<not> occurs_at h m q) \<and> (\<forall>m' q. m < m' \<and> m' \<le> n \<longrightarrow> \<not> occurs_at h m' q)) \<or>
     (\<forall>m q. min_ngram d \<le> m \<and> m \<le> n \<longrightarrow> \<not> occurs_at h m q) \<and> xs = []"

lemma draft_ok_Suc:
  assumes "draft_ok d h n xs" and "\<And>q. \<not> occurs_at h (Suc n) q"
  shows "draft_ok d h (Suc n) xs"
  using assms unfolding draft_ok_def by (metis le_Suc_eq)

lemma draft_from_spec:
  assumes md: "0 < max_draft d" and mn: "0 < min_ngram d" and lt: "n + 1 < 2 ^ 64"
  shows "\<exists>xs. draft_from d h n = Ok xs \<and> draft_ok d h n xs"
  using lt
proof (induction n)
  case 0
  then show ?case using mn draft_from.simps [of d h 0] by (simp add: draft_ok_def)
next
  case (Suc n)
  let ?at = "draft_at (max_draft d) h (Suc n) (length h - Suc n)"
  consider (short) "Suc n < min_ngram d"
    | (found) xs where "min_ngram d \<le> Suc n" "Suc n < length h" "?at = Some xs"
    | (skip) "min_ngram d \<le> Suc n" "Suc n < length h \<Longrightarrow> ?at = None"
    by (cases ?at) force+
  then show ?case
  proof cases
    case short
    then show ?thesis using draft_from.simps [of d h "Suc n"] by (auto simp: draft_ok_def)
  next
    case found
    have "draft_from d h (Suc n) = Ok xs" using found Suc.prems draft_from.simps [of d h "Suc n"] by simp
    moreover obtain p where "occurs_at h (Suc n) p" "\<forall>q < length h - Suc n. p < q \<longrightarrow> \<not> occurs_at h (Suc n) q"
        "xs = take (max_draft d) (drop (p + Suc n) h)"
      using draft_at_spec [OF md found(2) order_refl] found(3) by auto
    moreover have "\<not> occurs_at h (Suc n) q" if "\<not> q < length h - Suc n" for q using that by (auto simp: occurs_at_def)
    ultimately show ?thesis using found(1) unfolding draft_ok_def by (metis le_refl not_le)
  next
    case skip
    have "\<not> occurs_at h (Suc n) q" for q
    proof (cases "Suc n < length h")
      case True
      then show ?thesis using draft_at_spec [OF md True order_refl] skip(2)
        by (cases "q < length h - Suc n") (auto simp: occurs_at_def)
    qed (simp add: occurs_at_def)
    moreover have "draft_from d h (Suc n) = draft_from d h n"
      using skip Suc.prems draft_from.simps [of d h "Suc n"] by auto
    ultimately show ?thesis using Suc draft_ok_Suc by auto
  qed
qed

lemma draft_from_panic: "min_ngram d \<le> n \<Longrightarrow> 2 ^ 64 \<le> n + 1 \<Longrightarrow> draft_from d h n = Panic"
  unfolding draft_from.simps [of d h n] by (simp only: not_less [symmetric] if_False if_True simp_thms)

end
