(* ===== verification/InferenceProperties.thy ===== *)
theory InferenceProperties
  imports Scheduler TieredStore PrefixCache Prefill
begin

text \<open>
  The properties of the serving layer: admission of requests under a byte budget and the order in
  which waiting requests are admitted.
\<close>

section \<open>The memory-aware scheduler\<close>

text \<open>
  C30: In every scheduler reachable by client calls, the bytes in use are the sum of the active
  reservations and stay within the budget, the waiting requests have distinct identifiers and none of
  them is active, and no call a client may make next panics.
\<close>

theorem sched_reachable_budget:
  assumes "b < 2 ^ 64" and "with_pressure_threshold t (scheduler_new b) = Ok s0"
    and "rtranclp sched_step s0 s" and "sched_client_ok c s"
  shows "used s = map_sum id (active s) \<and> used s \<le> b \<and> keys_distinct (active s) \<and>
    distinct (map req_id (wait_queue s)) \<and> (\<forall>r \<in> set (wait_queue s). map_of (active s) (req_id r) = None) \<and>
    fst (sched_run c s) \<noteq> Panic"
  using sched_reachable_inv [OF assms(1-3)] wp_no_panic [OF sched_run_wp [OF _ assms(4)]]
  by (auto simp: sched_defs)

definition half_full :: memory_scheduler where
  "half_full = \<lparr>total_budget = 100, used = 60, active = [(''x'', 60)], wait_queue = [],
     pressure_threshold = F64_fin 1 1, next_order = 1\<rparr>"

theorem sched_reachable_budget_witness:
  "used half_full \<le> 100 \<and> fst (sched_run (TryAdmit (request_new ''y'' 70 Low)) half_full) \<noteq> Panic"
proof -
  let ?s0 = "(scheduler_new 100)\<lparr>pressure_threshold := F64_fin 1 1\<rparr>"
  have w: "with_pressure_threshold (F64_fin 1 1) (scheduler_new 100) = Ok ?s0"
    by (simp add: with_pressure_threshold_def f64_unit_range_def)
  have "sched_run (TryAdmit (request_new ''x'' 60 High)) ?s0 = (Ok (), half_full)"
    by (simp add: try_admit_def forget_def act_bind_def act_get_def act_set_def act_ret_def usize_add_def
        admit_slot_def scheduler_new_def request_new_def half_full_def Let_def)
  then have "rtranclp sched_step ?s0 half_full"
    by (intro r_into_rtranclp sched_stepI [of "TryAdmit (request_new ''x'' 60 High)"])
      (simp_all add: scheduler_new_def request_new_def)
  from sched_reachable_budget [OF _ w this, of "TryAdmit (request_new ''y'' 70 Low)"]
  show ?thesis by (simp add: half_full_def request_new_def)
qed

text \<open>
  C31: Draining the queue returns normally, admits requests in the order of the heap (priority, then
  submission), loses none, stays within the budget, and is maximal: a request that still waits is
  blocked in the final state, either by memory pressure on its priority or by its size.
\<close>

theorem drain_queue_maximal:
  assumes "sched_inv s"
  shows "\<exists>as t. drain_queue s = (Ok (map handle_for as), t) \<and>
    mset as + mset (wait_queue t) = mset (wait_queue s) \<and> sorted_wrt (\<lambda>a b. req_le b a) as \<and>
    used t = used s + sum_list (map estimated_bytes as) \<and> used t \<le> total_budget s \<and>
    (\<forall>r \<in> set (wait_queue t). under_pressure t \<and> priority r < High \<or> total_budget s < used t + estimated_bytes r)"
proof -
  obtain hs t where "drain_queue s = (Ok hs, t)" "drain_post (wait_queue s) [] [] s hs t"
    using drain_queue_wp [OF assms] by (rule wp_total)
  moreover from this(2) obtain as where "hs = map handle_for as" "drained (wait_queue s) [] s as t"
    by (auto simp: drain_post_def)
  moreover from this(2) have "used t \<le> total_budget s" by (auto simp: drained_def sched_core_def)
  ultimately show ?thesis
    by (intro exI [of _ as] exI [of _ t]) (auto simp: drained_def blocked_def)
qed

definition waiting :: memory_scheduler where
  "waiting = half_full\<lparr>wait_queue := [request_new ''a'' 50 High,
     (request_new ''b'' 30 Critical)\<lparr>submission_order := 1\<rparr>], next_order := 2\<rparr>"

theorem drain_queue_maximal_witness:
  "\<exists>as t. drain_queue waiting = (Ok (map handle_for as), t) \<and> length as + length (wait_queue t) = 2 \<and>
     sorted_wrt (\<lambda>a b. req_le b a) as \<and> used t = 60 + sum_list (map estimated_bytes as) \<and> used t \<le> 100"
proof -
  have "sched_inv waiting" by (simp add: waiting_def half_full_def request_new_def sched_defs)
  from drain_queue_maximal [OF this] obtain as t where
    d: "drain_queue waiting = (Ok (map handle_for as), t)" "sorted_wrt (\<lambda>a b. req_le b a) as"
      "used t = used waiting + sum_list (map estimated_bytes as)" "used t \<le> total_budget waiting"
    and m: "mset as + mset (wait_queue t) = mset (wait_queue waiting)"
    by (elim exE conjE)
  have "length as + length (wait_queue t) = length (wait_queue waiting)"
    using arg_cong [OF m, of size] by simp
  then show ?thesis using d by (intro exI [of _ as] exI [of _ t]) (simp add: waiting_def half_full_def)
qed

section \<open>Tiered storage\<close>

text \<open>
  C32: The store with its usage counters refines the specification without counters: on every
  reachable store each call returns normally, with the reply and the segments of the specification,
  and the counters are the bytes of the segments on their tier, within the two budgets.
\<close>

theorem store_refines_spec:
  assumes "rtranclp store_step (store_new g c) s" and "store_client_ok cl s"
  shows "\<exists>r t. store_run cl s = (Ok r, t) \<and> spec_call g c cl (segments s) = (r, segments t) \<and>
    gpu_used s = tier_bytes Gpu (segments s) \<and> cpu_used s = tier_bytes Cpu (segments s) \<and>
    disk_used s = tier_bytes Disk (segments s) \<and> gpu_used s \<le> g \<and> cpu_used s \<le> c"
proof -
  note inv = store_reachable_inv [OF assms(1)]
  obtain r t where "store_run cl s = (Ok r, t)" "store_post cl s r t"
    using store_run_wp [OF _ assms(2)] inv by (auto elim!: wp_total)
  then show ?thesis
    using inv store_invD(3) [of s Gpu] store_invD(3) [of s Cpu] store_invD(3) [of s Disk]
      store_invD(4) [of s Gpu] store_invD(4) [of s Cpu] by auto
qed

definition one_segment :: tiered_store where
  "one_segment = (store_new 100 50)\<lparr>gpu_used := 40, segments := [(''a'', segment_new ''a'' (0, 8) 40)]\<rparr>"

lemma one_segment_reachable: "rtranclp store_step (store_new 100 50) one_segment"
  by (rule r_into_rtranclp, rule store_stepI [of "Register (segment_new ''a'' (0, 8) 40) Gpu"])
    (simp_all add: one_segment_def store_new_def segment_new_def reply_def store_register_def
      act_bind_def act_get_def act_set_def act_ret_def usize_add_def)

theorem store_refines_spec_witness:
  "\<exists>t. store_run (Demote ''a'' Cpu) one_segment =
     (Ok (Transfer (Some (transfer_of ''a'' (segment_new ''a'' (0, 8) 40) Cpu))), t) \<and> gpu_used one_segment = 40"
  using store_refines_spec [OF one_segment_reachable, of "Demote ''a'' Cpu"]
  by (auto simp: one_segment_def store_new_def segment_new_def is_faster_than_def tier_bytes_def)

text \<open>
  The candidates for demotion are the least accessed segments of the tier: they are a prefix of
  its segments in order of access count, they cover the bytes needed whenever the tier has that many,
  and no shorter prefix does. The call never panics on a reachable store.
\<close>

theorem candidates_least_accessed:
  assumes "rtranclp store_step (store_new g c) s"
  shows "\<exists>chosen rest. candidates_for_demotion s t needed = Ok (map seg_key chosen) \<and>
    mset (chosen @ rest) = mset (filter (\<lambda>m. seg_tier m = t) (map snd (segments s))) \<and>
    sorted (map access_count (chosen @ rest)) \<and>
    (rest \<noteq> [] \<longrightarrow> needed \<le> sum_list (map size_bytes chosen)) \<and>
    (chosen \<noteq> [] \<longrightarrow> sum_list (map size_bytes (butlast chosen)) < needed)"
proof -
  let ?all = "sort_key access_count (filter (\<lambda>m. seg_tier m = t) (map snd (segments s)))"
  have "sum_list (map size_bytes ?all) < 2 ^ 64"
    using store_invD(5) [of s] store_reachable_inv [OF assms] tier_bytes_le [of t "segments s"]
    by (simp add: sum_list_sort_key tier_bytes_filter)
  then obtain n where n: "demotion_keys 0 needed ?all = Ok (map seg_key (take n ?all))" "n \<le> length ?all"
      "n < length ?all \<longrightarrow> needed \<le> sum_list (map size_bytes (take n ?all))"
      "\<forall>j < n. sum_list (map size_bytes (take j ?all)) < needed"
    using demotion_keys_spec [of 0 ?all needed] by auto
  show ?thesis
  proof (intro exI conjI impI)
    show "candidates_for_demotion s t needed = Ok (map seg_key (take n ?all))"
      using n(1) by (simp only: candidates_for_demotion_def)
    show "sum_list (map size_bytes (butlast (take n ?all))) < needed" if "take n ?all \<noteq> []"
      using n(2) n(4) [rule_format, of "n - 1"] that by (cases n) (simp_all only: butlast_take, auto)
    show "needed \<le> sum_list (map size_bytes (take n ?all))" if "drop n ?all \<noteq> []"
      using n(3) that by simp
  qed (simp_all only: append_take_drop_id mset_sort sorted_sort_key)
qed

theorem candidates_least_accessed_witness:
  "\<exists>ks. candidates_for_demotion one_segment Gpu 10 = Ok ks \<and> ks = [''a'']"
proof -
  obtain chosen rest where c: "candidates_for_demotion one_segment Gpu 10 = Ok (map seg_key chosen)"
      "mset (chosen @ rest) = mset (filter (\<lambda>m. seg_tier m = Gpu) (map snd (segments one_segment)))"
      "rest \<noteq> [] \<longrightarrow> 10 \<le> sum_list (map size_bytes chosen)"
    using candidates_least_accessed [OF one_segment_reachable, of Gpu 10] by (elim exE conjE)
  have "mset (chosen @ rest) = {# segment_new ''a'' (0, 8) 40 #}"
    using c(2) by (simp add: one_segment_def segment_new_def)
  then show ?thesis using c(1,3) by (cases chosen; cases rest) (auto simp: segment_new_def)
qed

section \<open>The prefix cache\<close>

text \<open>
  C33: The stamped hash table refines a least-recently-used list: on every reachable cache each call
  returns normally, its reply and the order of recency it leaves are those of the list specification,
  in which an insertion moves the prefix to the front and cuts the list at the capacity, a hit moves
  the entry to the front, and the longest cached prefix of a prompt is the one found.
\<close>

theorem prefix_cache_refines_lru:
  assumes "rtranclp (cache_step hash) (cache_new n) c" and "access_counter c + 1 < 2 ^ 64"
  shows "\<exists>r d. cache_run hash cl c = (Ok r, d) \<and>
    lru_call (max n 1) hash cl (lru_view c) = (r, lru_view d) \<and> length (lru_view d) \<le> max n 1"
proof -
  note inv = cache_reachable_inv [OF assms(1)]
  obtain r d where "cache_run hash cl c = (Ok r, d)" "cache_post hash cl c r d"
    using cache_run_wp [OF conjunct1 [OF inv] assms(2)] by (rule wp_total)
  then show ?thesis using inv cache_invD(4) [of d] by auto
qed

theorem prefix_cache_refines_lru_witness:
  "\<exists>r d. cache_run sum_list (Insert [1, 2] [True]) (cache_new 0) = (Ok r, d) \<and> lru_view d = [(3, [True])]"
  using prefix_cache_refines_lru [of sum_list 0 "cache_new 0" "Insert [1, 2] [True]"]
  by (auto simp: cache_new_def lru_view_def by_age_def to_front_def)

section \<open>Prefill and drafting\<close>

text \<open>
  C34: Driving a chunked prefill to its end takes \<open>num_chunks\<close> steps and one more that answers none,
  never panics, and yields chunks that concatenate to the prompt: none is empty, all but the last
  have the chunk size, each starts at its index times the chunk size, and exactly the last is marked.
\<close>

theorem prefill_covers_prompt:
  assumes "0 < n" and "n < 2 ^ 64" and "length toks < 2 ^ 63" and "prefill_new toks n = Ok s"
    and "num_chunks s < fuel"
  shows "\<exists>cs t. prefill_loop fuel [] s = (Ok (Some cs), t) \<and> is_done t \<and> remaining_chunks t = Ok 0 \<and>
    length cs = num_chunks s \<and> concat (map chunk_tokens cs) = toks \<and>
    (\<forall>i < length cs. index_pos (cs ! i) = i * n \<and> chunk_idx (cs ! i) = i \<and>
       (is_last (cs ! i) \<longleftrightarrow> i + 1 = length cs) \<and>
       0 < length (chunk_tokens (cs ! i)) \<and> length (chunk_tokens (cs ! i)) \<le> n \<and>
       (i + 1 < length cs \<longrightarrow> length (chunk_tokens (cs ! i)) = n))"
proof -
  let ?k = "div_ceil (length toks) n"
  have s: "s = prefill_at toks n 0" and k: "num_chunks s = ?k"
    using assms(1,4) by (auto simp: prefill_new_def prefill_at_def split: if_splits)
  have loop: "prefill_loop fuel [] s = (Ok (Some (map (nth_chunk toks n) [0..<?k])), prefill_at toks n ?k)"
    unfolding s using prefill_loop_at [OF assms(1-3), of 0 fuel "[]"] assms(5) k by simp
  have ge: "length toks \<le> ?k * n" using assms(1) by (rule div_ceil_mult_ge)
  then have "concat (map chunk_tokens (map (nth_chunk toks n) [0..<?k])) = toks"
    using concat_chunks [of n toks ?k] by (simp add: nth_chunk_def comp_def)
  moreover have "i * n < length toks" if "i < ?k" for i using that assms(1) by (simp add: lt_div_ceil_iff)
  moreover have "Suc i * n < length toks" if "Suc i < ?k" for i using that assms(1) by (simp only: lt_div_ceil_iff)
  moreover have "is_done (prefill_at toks n ?k)" "remaining_chunks (prefill_at toks n ?k) = Ok 0"
    using ge by (simp_all add: is_done_def remaining_chunks_def prefill_at_def)
  ultimately show ?thesis using loop k assms(1)
    by (intro exI [of _ "map (nth_chunk toks n) [0..<?k]"] exI [of _ "prefill_at toks n ?k"])
      (auto simp: nth_chunk_def less_diff_conv)
qed

theorem prefill_covers_prompt_witness:
  "\<exists>cs s t. prefill_new [5, 6, 7] 2 = Ok s \<and> prefill_loop 3 [] s = (Ok (Some cs), t) \<and> length cs = 2 \<and>
     concat (map chunk_tokens cs) = [5, 6, 7] \<and> is_last (cs ! 1)"
proof -
  define s where "s = \<lparr>prompt = [5, 6, 7 :: nat], chunk_size = 2, current_pos = 0, num_chunks = 2, current_chunk = 0\<rparr>"
  have new: "prefill_new [5, 6, 7] 2 = Ok s" by (simp add: prefill_new_def div_ceil_def s_def)
  have n: "num_chunks s = 2" by (simp add: s_def)
  obtain cs t where "prefill_loop 3 [] s = (Ok (Some cs), t)" "length cs = num_chunks s" "concat (map chunk_tokens cs) = [5, 6, 7]"
      "\<forall>i < length cs. index_pos (cs ! i) = i * 2 \<and> chunk_idx (cs ! i) = i \<and> (is_last (cs ! i) \<longleftrightarrow> i + 1 = length cs) \<and>
       0 < length (chunk_tokens (cs ! i)) \<and> length (chunk_tokens (cs ! i)) \<le> 2 \<and>
       (i + 1 < length cs \<longrightarrow> length (chunk_tokens (cs ! i)) = 2)"
    using prefill_covers_prompt [OF _ _ _ new, of 3] n by auto
  then show ?thesis using new n by (intro exI [of _ cs] exI [of _ s] exI [of _ t]) auto
qed



end
