(* ===== verification/GraphOps.thy ===== *)
theory GraphOps
  imports Layout
begin

text \<open>
  The operations of the compute graph (\<open>fuel-graph/src/lib.rs\<close>, \<open>enum Op\<close>), their classification and
  the inference of output shapes and element types (\<open>fuel-graph/src/shape.rs\<close>). The element-wise
  variants without parameters are grouped into enumerations that keep their names; the parameters of
  fused operations are a type variable.
\<close>

section \<open>Element types, devices, operations\<close>

datatype dtype =
  U8 | I8 | U32 | I16 | I32 | I64 | BF16 | F16 | F32 | F64 | F8E4M3 | F8E5M2 | F6E2M3 | F6E3M2 | F4 |
  F8E8M0 | F8E6M2 | Bool

datatype device_location = Dev_Cpu | Dev_Cuda nat | Dev_Metal nat | Dev_Vulkan nat

datatype backend_id = Backend_Cpu | Backend_Cuda | Backend_Vulkan | Backend_Metal

datatype quant_type = Q4_0 | Q4_1 | Q5_0 | Q5_1 | Q8_0 | Q8_1 | Q2K | Q3K | Q4_K_M | Q5K | Q6K

fun quant_bytes_per_block :: "quant_type \<Rightarrow> nat" where
  "quant_bytes_per_block Q4_0 = 18"
| "quant_bytes_per_block Q4_1 = 20"
| "quant_bytes_per_block Q5_0 = 22"
| "quant_bytes_per_block Q5_1 = 24"
| "quant_bytes_per_block Q8_0 = 34"
| "quant_bytes_per_block Q8_1 = 36"
| "quant_bytes_per_block Q2K = 84"
| "quant_bytes_per_block Q3K = 110"
| "quant_bytes_per_block Q4_K_M = 144"
| "quant_bytes_per_block Q5K = 176"
| "quant_bytes_per_block Q6K = 210"

definition quant_elements_per_block :: "quant_type \<Rightarrow> nat" where
  "quant_elements_per_block q = (if q \<in> {Q4_0, Q4_1, Q5_0, Q5_1, Q8_0, Q8_1} then 32 else 256)"

datatype pad_mode = Pad_Constant | Pad_Reflect | Pad_Replicate
datatype scan_emit = Emit_All | Emit_Final
datatype scan_role = Role_Carry | Role_Elem

text \<open>A double is its bit pattern.\<close>

type_synonym f64_bits = "64 word"

text \<open>A typed scalar: its element type and its bit pattern.\<close>

record scalar =
  scalar_dtype :: dtype
  scalar_bits :: nat

datatype unary_op =
  Neg | Sqr | Sqrt | Exp | Log | Sin | Cos | Tanh | Sigmoid | Silu | GeluTanh | Relu | Step | Recip | Abs |
  Floor | Ceil | Round | Sign | Erf | Gelu | Rsqrt

datatype binary_op = Add | Sub | Mul | Div | Maximum | Minimum | Pow | Rem
datatype compare_op = Equal | Ne | Lt | Le | Gt | Ge
datatype reduce_op = Red_Sum | Red_Max | Red_Min | Red_Mean

type_synonym node_id = nat
type_synonym fused_op_id = nat

text \<open>Element-wise and scanning operations with parameters; the output has the shape of the input.\<close>

datatype elem_op =
    Op_Contiguize
  | Op_AddScalar f64_bits
  | Op_MulScalar f64_bits
  | Op_PowI int
  | Op_Clamp f64_bits f64_bits
  | Op_CumSum nat
  | Op_Roll nat int
  | Op_Triu int
  | Op_Tril int
  | Op_LogSoftmaxLastDim
  | Op_LogSoftmaxLastDimBackward
  | Op_MaskedFill scalar

text \<open>Views: the output shares the bytes of the input.\<close>

datatype view_op_kind =
    Op_Transpose
  | Op_Permute "nat list"
  | Op_BroadcastTo shape
  | Op_Slice nat nat nat
  | Op_Unsqueeze nat
  | Op_Squeeze nat
  | Op_Flip nat

datatype shape_op =
    Op_Reshape shape
  | Op_ReduceSumTo shape
  | Op_ReduceMaxTo shape
  | Op_Concat nat
  | Op_Pad "(nat \<times> nat) list" pad_mode f64_bits
  | Op_PadBackward shape "(nat \<times> nat) list" pad_mode
  | Op_Cast dtype

datatype reducing_op =
    Op_All reduce_op
  | Op_Dim reduce_op nat
  | Op_ArgMaxDim nat
  | Op_ArgMinDim nat

datatype index_op =
    Op_IndexSelect nat
  | Op_Gather nat
  | Op_IndexAdd nat
  | Op_ScatterAdd nat
  | Op_NonZeroIndices sym_id

text \<open>Operations that overwrite their first input, and those that move or allocate storage.\<close>

datatype inplace_op =
  ReluInplace | SiluInplace | GeluTanhInplace | TanhInplace | SigmoidInplace | NegInplace | AbsInplace |
  SqrInplace | SqrtInplace | RsqrtInplace | RecipInplace | ExpInplace | LogInplace | SinInplace | CosInplace |
  SignInplace | FloorInplace | CeilInplace | RoundInplace | ErfInplace | GeluInplace |
  ClampInplace f64_bits f64_bits | PowIInplace int

datatype memory_op =
    Op_Copy device_location
  | Op_Release
  | Op_Move device_location
  | Op_WriteSlice "(nat \<times> nat) list" "(nat \<times> dyn_scalar) option"
  | Op_WriteSliceRotating nat nat "(nat \<times> nat) list"
  | Op_WriteSliceDoff nat "(nat \<times> nat) list"
  | Op_Alloc device_location
  | Op_ZeroFill

datatype slot_op = Op_View nat | Op_ViewOwned nat | Op_ScatterIntoSlot nat

datatype scan_op = Op_Scan nat nat nat scan_emit bool | Op_ScanPlaceholder scan_role nat

datatype 'f op =
    Op_Const
  | Op_Iota nat
  | Unary unary_op
  | Binary binary_op
  | Compare compare_op
  | Op_Where
  | Op_MatMul
  | Elementwise elem_op
  | Viewing view_op_kind
  | Shaping shape_op
  | Reducing reducing_op
  | Indexing index_op
  | Inplace inplace_op
  | Memory memory_op
  | Op_Fused fused_op_id 'f
  | Slotting slot_op
  | Op_Branch node_id
  | Scanning scan_op

section \<open>Classification\<close>

text \<open>The input an operation overwrites; fused operations declare theirs in the registry \<open>reg\<close>.\<close>

fun memory_destructive :: "memory_op \<Rightarrow> bool" where
  "memory_destructive (Op_Copy t) = False"
| "memory_destructive (Op_Alloc t) = False"
| "memory_destructive _ = True"

definition destructive_input :: "(fused_op_id \<Rightarrow> nat option) \<Rightarrow> 'f op \<Rightarrow> nat option" where
  "destructive_input reg p = (case p of
     Memory m \<Rightarrow> if memory_destructive m then Some 0 else None
   | Inplace i \<Rightarrow> Some 0
   | Op_Fused i f \<Rightarrow> reg i
   | _ \<Rightarrow> None)"

definition is_transfer :: "'f op \<Rightarrow> bool" where
  "is_transfer p = (case p of Memory (Op_Copy d) \<Rightarrow> True | Memory (Op_Move d) \<Rightarrow> True | _ \<Rightarrow> False)"

definition is_view_op :: "'f op \<Rightarrow> bool" where
  "is_view_op p = (case p of Viewing v \<Rightarrow> True | _ \<Rightarrow> False)"

datatype storage_class = Shared | SessionState | Transient

definition infer_storage_class :: "'f op \<Rightarrow> storage_class" where
  "infer_storage_class p = (case p of
     Op_Const \<Rightarrow> Shared
   | Memory m \<Rightarrow> (case m of
        Op_WriteSlice r d \<Rightarrow> SessionState
      | Op_WriteSliceRotating a n r \<Rightarrow> SessionState
      | Op_WriteSliceDoff a r \<Rightarrow> SessionState
      | _ \<Rightarrow> Transient)
   | _ \<Rightarrow> Transient)"

section \<open>Layouts of views\<close>

fun view_layout :: "view_op_kind \<Rightarrow> layout \<Rightarrow> layout ir_result" where
  "view_layout Op_Transpose l =
     (if rank (shape l) < 2 then Err Msg else transpose (rank (shape l) - 2) (rank (shape l) - 1) l)"
| "view_layout (Op_Permute axes) l = permute axes l"
| "view_layout (Op_BroadcastTo sh) l = broadcast_as sh l"
| "view_layout (Op_Slice d start len) l = narrow d start len l"
| "view_layout (Op_Unsqueeze d) l = unsqueeze d l"
| "view_layout (Op_Squeeze d) l = squeeze d l"
| "view_layout (Op_Flip d) l = flip d l"

definition derive_view_output_layout :: "'f op \<Rightarrow> layout \<Rightarrow> layout ir_result" where
  "derive_view_output_layout p l = (case p of Viewing v \<Rightarrow> view_layout v l | _ \<Rightarrow> Err Msg)"

section \<open>Shape inference\<close>

text \<open>Indexing into the input lists panics when they are too short; \<open>need\<close> only checks the shapes.\<close>

definition need :: "nat \<Rightarrow> shape list \<Rightarrow> unit ir_result" where
  "need n shapes = (if length shapes < n then Err Msg else Ok ())"

definition at :: "nat \<Rightarrow> 'a list \<Rightarrow> 'a ir_result" where
  "at i xs = (if i < length xs then Ok (xs ! i) else Panic)"

definition usize_sum :: "nat \<Rightarrow> nat \<Rightarrow> nat ir_result" where
  "usize_sum a b = (if a + b < 2 ^ 64 then Ok (a + b) else Panic)"

definition reduce_remove :: "nat list \<Rightarrow> nat \<Rightarrow> shape ir_result" where
  "reduce_remove ds d = (if length ds \<le> d then Err Msg else Ok (from_dims (remove_at d ds)))"

fun view_dims :: "view_op_kind \<Rightarrow> shape \<Rightarrow> shape ir_result" where
  "view_dims Op_Transpose s = (if length (dims s) < 2 then Err Msg
     else Ok (from_dims (swap (length (dims s) - 2) (length (dims s) - 1) (dims s))))"
| "view_dims (Op_Permute axes) s =
     (if length axes \<noteq> length (dims s) \<or> list_ex (\<lambda>a. length (dims s) \<le> a) axes then Err Msg
      else Ok (from_dims (map (\<lambda>a. dims s ! a) axes)))"
| "view_dims (Op_BroadcastTo sh) s = Ok sh"
| "view_dims (Op_Slice d start len) s =
     (if length (dims s) \<le> d then Err Msg
      else rust_bind (usize_sum start len) (\<lambda>stop. if dims s ! d < stop then Err Msg
        else Ok (from_dims ((dims s)[d := len]))))"
| "view_dims (Op_Unsqueeze d) s = (if length (dims s) < d then Err Msg else Ok (from_dims (insert_at d 1 (dims s))))"
| "view_dims (Op_Squeeze d) s = (if length (dims s) \<le> d then Err Msg else Ok (from_dims (remove_at d (dims s))))"
| "view_dims (Op_Flip d) s = Ok s"

text \<open>The loop over the inputs of a concatenation.\<close>

fun concat_total :: "nat list \<Rightarrow> nat \<Rightarrow> nat \<Rightarrow> shape list \<Rightarrow> nat ir_result" where
  "concat_total a d acc [] = Ok acc"
| "concat_total a d acc (s # ss) =
     (if length (dims s) \<noteq> length a then Err Msg
      else if list_ex (\<lambda>ax. ax \<noteq> d \<and> dims s ! ax \<noteq> a ! ax) [0..<length a] then Err Msg
      else rust_bind (usize_sum acc (dims s ! d)) (\<lambda>t. concat_total a d t ss))"

fun shaping_dims :: "shape_op \<Rightarrow> shape list \<Rightarrow> shape ir_result" where
  "shaping_dims (Op_Reshape sh) ss = Ok sh"
| "shaping_dims (Op_ReduceSumTo sh) ss = Ok sh"
| "shaping_dims (Op_ReduceMaxTo sh) ss = Ok sh"
| "shaping_dims (Op_Cast dt) ss = at 0 ss"
| "shaping_dims (Op_Concat d) ss = rust_bind (at 0 ss) (\<lambda>s0. let a = dims s0 in
     if length a \<le> d then Err Msg
     else rust_bind (concat_total a d 0 ss) (\<lambda>t. Ok (from_dims (a[d := t]))))"
| "shaping_dims (Op_Pad padding m v) ss = rust_bind (at 0 ss) (\<lambda>s0.
     if length padding \<noteq> length (dims s0) then Err Msg
     else rust_bind (rust_map (\<lambda>(x, b, a). rust_bind (usize_sum x b) (\<lambda>y. usize_sum y a)) (zip (dims s0) padding))
       (\<lambda>ds. Ok (from_dims ds)))"
| "shaping_dims (Op_PadBackward sh padding m) ss = Err Msg"

definition matmul_dims :: "nat list \<Rightarrow> nat list \<Rightarrow> shape ir_result" where
  "matmul_dims l r =
     (if length l < 2 \<or> length r \<noteq> length l then Err Msg
      else let n = length l in
        if l ! (n - 1) \<noteq> r ! (n - 2) then Err Msg
        else Ok (from_dims (take (n - 2) l @ [l ! (n - 2), r ! (n - 1)])))"

text \<open>The output shape and element type of a primitive operation.\<close>

definition primitive_shape :: "'f op \<Rightarrow> shape list \<Rightarrow> dtype list \<Rightarrow> (shape \<times> dtype) ir_result" where
  "primitive_shape p ss dts =
     (let elem0 = rust_bind (need 1 ss) (\<lambda>_. rust_bind (at 0 ss) (\<lambda>s. rust_bind (at 0 dts) (\<lambda>d. Ok (s, d))));
          with_dtype0 = (\<lambda>r. rust_bind r (\<lambda>s. rust_bind (at 0 dts) (\<lambda>d. Ok (s, d))))
      in case p of
        Op_Iota n \<Rightarrow> Ok (from_dims [n], F32)
      | Unary u \<Rightarrow> elem0
      | Binary b \<Rightarrow> elem0
      | Elementwise e \<Rightarrow> elem0
      | Compare c \<Rightarrow> rust_bind (need 1 ss) (\<lambda>_. rust_bind (at 0 ss) (\<lambda>s. Ok (s, Bool)))
      | Op_Where \<Rightarrow> rust_bind (need 2 ss) (\<lambda>_. rust_bind (at 0 ss) (\<lambda>s. rust_bind (at 1 dts) (\<lambda>d. Ok (s, d))))
      | Viewing v \<Rightarrow> with_dtype0 (rust_bind (need 1 ss) (\<lambda>_. rust_bind (at 0 ss) (view_dims v)))
      | Shaping (Op_PadBackward sh padding m) \<Rightarrow> Err Msg
      | Shaping (Op_Cast dt) \<Rightarrow> rust_bind (need 1 ss) (\<lambda>_. rust_bind (at 0 ss) (\<lambda>s. Ok (s, dt)))
      | Shaping sp \<Rightarrow> with_dtype0 (rust_bind (need 1 ss) (\<lambda>_. shaping_dims sp ss))
      | Reducing (Op_All r) \<Rightarrow> with_dtype0 (rust_bind (need 1 ss) (\<lambda>_. Ok (from_dims [])))
      | Reducing (Op_Dim r d) \<Rightarrow> with_dtype0 (rust_bind (need 1 ss) (\<lambda>_. rust_bind (at 0 ss) (\<lambda>s. reduce_remove (dims s) d)))
      | Reducing (Op_ArgMaxDim d) \<Rightarrow> rust_bind (need 1 ss) (\<lambda>_. rust_bind (at 0 ss) (\<lambda>s.
          rust_bind (reduce_remove (dims s) d) (\<lambda>s'. Ok (s', U32))))
      | Reducing (Op_ArgMinDim d) \<Rightarrow> rust_bind (need 1 ss) (\<lambda>_. rust_bind (at 0 ss) (\<lambda>s.
          rust_bind (reduce_remove (dims s) d) (\<lambda>s'. Ok (s', U32))))
      | Op_MatMul \<Rightarrow> with_dtype0 (rust_bind (need 2 ss) (\<lambda>_. rust_bind (at 0 ss) (\<lambda>l. rust_bind (at 1 ss) (\<lambda>r.
          matmul_dims (dims l) (dims r)))))
      | Indexing (Op_IndexSelect d) \<Rightarrow> with_dtype0 (rust_bind (need 2 ss) (\<lambda>_. rust_bind (at 0 ss) (\<lambda>s. rust_bind (at 1 ss) (\<lambda>ix.
          if length (dims s) \<le> d then Err Msg else Ok (from_dims ((dims s)[d := elem_count (dims ix)]))))))
      | Indexing (Op_Gather d) \<Rightarrow> with_dtype0 (rust_bind (need 2 ss) (\<lambda>_. at 1 ss))
      | Indexing (Op_IndexAdd d) \<Rightarrow> elem0
      | Indexing (Op_ScatterAdd d) \<Rightarrow> elem0
      | _ \<Rightarrow> Err Msg)"

end
