(* ===== verification/Graph.thy ===== *)
theory Graph
  imports GraphOps
begin

text \<open>
  The graph arena (\<open>fuel-graph/src/lib.rs\<close>, \<open>Graph\<close>): append-only nodes with side tables keyed by
  node, in-place redirection of inputs, topological order, reachability, branches with several arms,
  their collapse to one arm, and compaction with renumbering. A hash set is the list of its elements
  in the order they were inserted. The storage behind a node is a type variable.
\<close>

section \<open>Nodes and side tables\<close>

record 'f node =
  node_op :: "'f op"
  inputs :: "node_id list"
  node_shape :: shape
  node_dtype :: dtype

record output_view =
  byte_offset :: nat
  len_elements :: nat
  ov_dtype :: dtype
  ov_shape :: shape
  ov_layout :: layout

record ('f, 's) graph =
  graph_id :: nat
  nodes :: "'f node list"
  placements :: "(node_id \<times> device_location) list"
  side_effect_roots :: "node_id list"
  storage_map :: "(node_id \<times> 's) list"
  target_backends :: "(node_id \<times> backend_id) list"
  layouts :: "(node_id \<times> layout) list"
  node_output_views :: "(node_id \<times> output_view list) list"
  storage_classes :: "(node_id \<times> storage_class) list"
  node_matmul_row_count :: "(node_id \<times> dyn_scalar) list"

type_synonym ('f, 's, 'a) graph_act = "(('f, 's) graph, 'a, ir_error) act"

definition graph_new :: "nat \<Rightarrow> ('f, 's) graph" where
  "graph_new gid = \<lparr>graph_id = gid, nodes = [], placements = [], side_effect_roots = [], storage_map = [],
     target_backends = [], layouts = [], node_output_views = [], storage_classes = [], node_matmul_row_count = []\<rparr>"

text \<open>The setters assert that the node exists.\<close>

definition checked :: "node_id \<Rightarrow> (('f, 's) graph \<Rightarrow> ('f, 's) graph) \<Rightarrow> ('f, 's, unit) graph_act" where
  "checked i f = act_bind (act_get (\<lambda>g. i < length (nodes g))) (\<lambda>ok. if ok then act_set f else act_panic)"

definition set_target_backend :: "node_id \<Rightarrow> backend_id \<Rightarrow> ('f, 's, unit) graph_act" where
  "set_target_backend i b = checked i (\<lambda>g. g\<lparr>target_backends := AList.update i b (target_backends g)\<rparr>)"

definition set_storage_class :: "node_id \<Rightarrow> storage_class \<Rightarrow> ('f, 's, unit) graph_act" where
  "set_storage_class i c = checked i (\<lambda>g. g\<lparr>storage_classes := AList.update i c (storage_classes g)\<rparr>)"

definition set_matmul_row_count :: "node_id \<Rightarrow> dyn_scalar \<Rightarrow> ('f, 's, unit) graph_act" where
  "set_matmul_row_count i r = checked i (\<lambda>g. g\<lparr>node_matmul_row_count := AList.update i r (node_matmul_row_count g)\<rparr>)"

definition set_storage :: "node_id \<Rightarrow> 's \<Rightarrow> ('f, 's, unit) graph_act" where
  "set_storage i s = checked i (\<lambda>g. g\<lparr>storage_map := AList.update i s (storage_map g)\<rparr>)"

definition remove_storage :: "node_id \<Rightarrow> ('f, 's, 's option) graph_act" where
  "remove_storage i = act_bind (act_get (\<lambda>g. map_of (storage_map g) i)) (\<lambda>s.
     act_bind (act_set (\<lambda>g. g\<lparr>storage_map := AList.delete i (storage_map g)\<rparr>)) (\<lambda>_. act_ret s))"

definition set_placement :: "node_id \<Rightarrow> device_location \<Rightarrow> ('f, 's, unit) graph_act" where
  "set_placement i d = checked i (\<lambda>g. g\<lparr>placements := AList.update i d (placements g)\<rparr>)"

definition add_side_effect_root :: "node_id \<Rightarrow> ('f, 's, unit) graph_act" where
  "add_side_effect_root i = checked i (\<lambda>g.
     if i \<in> set (side_effect_roots g) then g else g\<lparr>side_effect_roots := side_effect_roots g @ [i]\<rparr>)"

definition storage_class_of :: "('f, 's) graph \<Rightarrow> node_id \<Rightarrow> storage_class ir_result" where
  "storage_class_of g i = (case map_of (storage_classes g) i of
     Some c \<Rightarrow> Ok c
   | None \<Rightarrow> if i < length (nodes g) then Ok (infer_storage_class (node_op (nodes g ! i))) else Panic)"

definition layout_of :: "('f, 's) graph \<Rightarrow> node_id \<Rightarrow> layout ir_result" where
  "layout_of g i = (case map_of (layouts g) i of
     Some l \<Rightarrow> Ok l
   | None \<Rightarrow> if i < length (nodes g) then Ok (contiguous (node_shape (nodes g ! i))) else Panic)"

text \<open>The debug assertion on the shape is a panic.\<close>

definition set_layout :: "node_id \<Rightarrow> layout \<Rightarrow> ('f, 's, unit) graph_act" where
  "set_layout i l = act_bind (act_get (\<lambda>g. i < length (nodes g) \<and> shape l = node_shape (nodes g ! i))) (\<lambda>ok.
     if ok then act_set (\<lambda>g. g\<lparr>layouts := AList.update i l (layouts g)\<rparr>) else act_panic)"

definition set_output_views :: "node_id \<Rightarrow> output_view list \<Rightarrow> ('f, 's, unit) graph_act" where
  "set_output_views i vs = act_bind (act_get nodes) (\<lambda>ns.
     if length ns \<le> i then act_err Msg
     else if vs = [] then act_err Msg
     else if ov_dtype (vs ! 0) \<noteq> node_dtype (ns ! i) then act_err Msg
     else if ov_shape (vs ! 0) \<noteq> node_shape (ns ! i) then act_err Msg
     else if list_ex (\<lambda>v. shape (ov_layout v) \<noteq> ov_shape v) vs then act_err Msg
     else act_set (\<lambda>g. g\<lparr>node_output_views := AList.update i vs (node_output_views g)\<rparr>))"

definition count_sym_of :: "'f node \<Rightarrow> sym_id option" where
  "count_sym_of n = (case node_op n of Indexing (Op_NonZeroIndices s) \<Rightarrow> Some s | _ \<Rightarrow> None)"

definition binds_data_determined_sym :: "('f, 's) graph \<Rightarrow> sym_id \<Rightarrow> bool" where
  "binds_data_determined_sym g s = list_ex (\<lambda>n. count_sym_of n = Some s) (nodes g)"

definition next_data_determined_sym :: "('f, 's) graph \<Rightarrow> sym_id ir_result" where
  "next_data_determined_sym g = (case List.map_filter count_sym_of (nodes g) of
     [] \<Rightarrow> Ok 0
   | s # ss \<Rightarrow> let m = fold max ss s in if m + 1 < 2 ^ 32 then Ok (m + 1) else Panic)"

section \<open>Building\<close>

text \<open>Appending a node; a view takes its layout from the layout of its first input.\<close>

definition push :: "'f node \<Rightarrow> ('f, 's, node_id) graph_act" where
  "push n = act_bind (act_get (\<lambda>g. length (nodes g))) (\<lambda>i.
     act_bind (act_set (\<lambda>g. g\<lparr>nodes := nodes g @ [n]\<rparr>)) (\<lambda>_.
     act_bind (case (is_view_op (node_op n), inputs n) of
         (True, j # js) \<Rightarrow> act_bind (act_get (\<lambda>g. (j < length (nodes g), layout_of g j))) (\<lambda>(inb, l).
           if \<not> inb then act_ret ()
           else (case rust_bind l (derive_view_output_layout (node_op n)) of
               Ok l' \<Rightarrow> set_layout i l' | Err e \<Rightarrow> act_ret () | Panic \<Rightarrow> act_panic))
       | _ \<Rightarrow> act_ret ()) (\<lambda>_.
     act_ret i)))"

definition redirect :: "node_id \<Rightarrow> node_id \<Rightarrow> 'f node \<Rightarrow> 'f node" where
  "redirect a b n = n\<lparr>inputs := map (\<lambda>i. if i = a then b else i) (inputs n)\<rparr>"

definition rewrite_input :: "node_id \<Rightarrow> node_id \<Rightarrow> node_id \<Rightarrow> ('f, 's, unit) graph_act" where
  "rewrite_input i a b = checked i (\<lambda>g. g\<lparr>nodes := (nodes g)[i := redirect a b (nodes g ! i)]\<rparr>)"

section \<open>Topological order\<close>

text \<open>
  The stack of the depth-first search holds nodes to visit (\<open>False\<close>) and nodes whose inputs have been
  pushed (\<open>True\<close>); its head is the top. Reading a node that does not exist panics.
\<close>

lemma unvisited_less:
  "i \<notin> set visited \<Longrightarrow> i < (n :: nat) \<Longrightarrow> card ({..<n} - set (i # visited)) < card ({..<n} - set visited)"
  by (intro psubset_card_mono) auto

function topo_loop ::
  "'f node list \<Rightarrow> (node_id \<times> bool) list \<Rightarrow> node_id list \<Rightarrow> node_id list \<Rightarrow> node_id list ir_result" where
  "topo_loop ns [] visited order = Ok order"
| "topo_loop ns ((i, True) # st) visited order = topo_loop ns st visited (order @ [i])"
| "topo_loop ns ((i, False) # st) visited order =
     (if i \<in> set visited then topo_loop ns st visited order
      else if length ns \<le> i then Panic
      else topo_loop ns (rev (map (\<lambda>c. (c, False)) (filter (\<lambda>c. c \<notin> set (i # visited)) (inputs (ns ! i)))) @ (i, True) # st)
             (i # visited) order)"
  by pat_completeness auto

termination
  by (relation "measures [\<lambda>(ns, st, visited, order). card ({..<length ns} - set visited), \<lambda>(ns, st, visited, order). length st]")
    (auto simp del: set_simps simp: not_le intro: unvisited_less)

definition topo_order_multi :: "('f, 's) graph \<Rightarrow> node_id list \<Rightarrow> node_id list ir_result" where
  "topo_order_multi g roots = topo_loop (nodes g) (rev (map (\<lambda>r. (r, False)) roots)) [] []"

definition topo_order :: "('f, 's) graph \<Rightarrow> node_id \<Rightarrow> node_id list ir_result" where
  "topo_order g root = topo_order_multi g [root]"

section \<open>Reachability\<close>

text \<open>
  The search that \<open>input_closure\<close> and \<open>forward_reachable\<close> share: nodes outside the arena are skipped,
  a node is expanded when it is first popped.
\<close>

function dfs :: "nat \<Rightarrow> (nat \<Rightarrow> nat list) \<Rightarrow> nat list \<Rightarrow> nat list \<Rightarrow> nat list" where
  "dfs b succ [] seen = seen"
| "dfs b succ (n # st) seen =
     (if b \<le> n \<or> n \<in> set seen then dfs b succ st seen
      else dfs b succ (rev (filter (\<lambda>c. c \<notin> set (n # seen)) (succ n)) @ st) (n # seen))"
  by pat_completeness auto

termination
  by (relation "measures [\<lambda>(b, succ, st, seen). card ({..<b} - set seen), \<lambda>(b, succ, st, seen). length st]")
    (auto simp del: set_simps simp: not_le intro: unvisited_less)

definition input_closure :: "'f node list \<Rightarrow> node_id list \<Rightarrow> node_id list" where
  "input_closure ns from = dfs (length ns) (\<lambda>i. inputs (ns ! i)) (rev from) []"

text \<open>The consumers of a node, in arena order, once per occurrence among the inputs.\<close>

definition consumers :: "'f node list \<Rightarrow> node_id \<Rightarrow> node_id list" where
  "consumers ns i = concat (map (\<lambda>k. map (\<lambda>_. k) (filter (\<lambda>j. j = i) (inputs (ns ! k)))) [0..<length ns])"

definition forward_reachable :: "'f node list \<Rightarrow> node_id \<Rightarrow> node_id list" where
  "forward_reachable ns from = dfs (length ns) (consumers ns) [from] []"

text \<open>Unlike the closure, the backward search reads every node it reaches.\<close>

function backward_loop :: "'f node list \<Rightarrow> node_id list \<Rightarrow> node_id list \<Rightarrow> node_id list ir_result" where
  "backward_loop ns [] seen = Ok seen"
| "backward_loop ns (n # st) seen =
     (if n \<in> set seen then backward_loop ns st seen
      else if length ns \<le> n then Panic
      else backward_loop ns (rev (filter (\<lambda>c. c \<notin> set (n # seen)) (inputs (ns ! n))) @ st) (n # seen))"
  by pat_completeness auto

termination
  by (relation "measures [\<lambda>(ns, st, seen). card ({..<length ns} - set seen), \<lambda>(ns, st, seen). length st]")
    (auto simp del: set_simps simp: not_le intro: unvisited_less)

definition backward_reachable :: "'f node list \<Rightarrow> node_id \<Rightarrow> node_id list ir_result" where
  "backward_reachable ns from = backward_loop ns [from] []"

section \<open>Compaction\<close>

definition branch_target :: "'f node \<Rightarrow> node_id option" where
  "branch_target n = (case node_op n of Op_Branch r \<Rightarrow> Some r | _ \<Rightarrow> None)"

definition participates :: "'f node list \<Rightarrow> node_id list \<Rightarrow> node_id \<Rightarrow> bool" where
  "participates ns reach i = (case branch_target (ns ! i) of
     None \<Rightarrow> False
   | Some r \<Rightarrow> r \<in> set reach \<or> list_ex (\<lambda>a. a \<in> set reach) (inputs (ns ! i)))"

lemma more_seeds_less:
  assumes "filter P [0..<n] \<noteq> []" and "\<And>i. P i \<Longrightarrow> i \<notin> set seeds"
  shows "card ({..<n} - set (seeds @ filter P [0..<n])) < card ({..<n} - set seeds)"
proof (rule psubset_card_mono)
  obtain i where "i < n" "P i" using assms(1) by (auto simp: filter_empty_conv)
  then show "{..<n} - set (seeds @ filter P [0..<n]) \<subset> {..<n} - set seeds" using assms(2) by fastforce
qed simp

text \<open>The loop that adds branches to the seeds until none participates any more.\<close>

function live_seeds :: "'f node list \<Rightarrow> node_id list \<Rightarrow> node_id list" where
  "live_seeds ns seeds =
     (let reach = input_closure ns seeds;
          new = filter (\<lambda>i. i \<notin> set seeds \<and> participates ns reach i) [0..<length ns]
      in if new = [] then seeds else live_seeds ns (seeds @ new))"
  by pat_completeness auto

termination
  by (relation "measure (\<lambda>(ns, seeds). card ({..<length ns} - set seeds))") (simp_all only: wf_measure in_measure prod.case, rule more_seeds_less, auto)

declare live_seeds.simps [simp del]

definition add_seed :: "nat \<Rightarrow> node_id \<Rightarrow> node_id list \<Rightarrow> node_id list" where
  "add_seed n i seeds = (if i < n \<and> i \<notin> set seeds then seeds @ [i] else seeds)"

definition live_set :: "('f, 's) graph \<Rightarrow> node_id list \<Rightarrow> node_id list" where
  "live_set g roots =
     (let ns = nodes g;
          seeds = live_seeds ns (fold (add_seed (length ns)) (roots @ side_effect_roots g) []);
          live = input_closure ns seeds;
          recon = List.map_filter (\<lambda>i. branch_target (ns ! i)) live
      in live @ filter (\<lambda>i. i \<notin> set live) (input_closure ns recon))"

type_synonym node_remap = "node_id option list"

definition remap_get :: "node_remap \<Rightarrow> node_id \<Rightarrow> node_id option" where
  "remap_get m i = (if i < length m then m ! i else None)"

definition remap_expect :: "node_remap \<Rightarrow> node_id \<Rightarrow> node_id ir_result" where
  "remap_expect m i = (case remap_get m i of Some j \<Rightarrow> Ok j | None \<Rightarrow> Panic)"

definition rekey :: "node_remap \<Rightarrow> (node_id \<times> 'v) list \<Rightarrow> (node_id \<times> 'v) list" where
  "rekey m table = fold (\<lambda>(old, v) out. case remap_get m old of
     Some new \<Rightarrow> AList.update new v out | None \<Rightarrow> out) table []"

fun assign_ids :: "node_id list \<Rightarrow> nat \<Rightarrow> node_id list \<Rightarrow> node_remap" where
  "assign_ids live next [] = []"
| "assign_ids live next (i # is) =
     (if i \<in> set live then Some next # assign_ids live (next + 1) is else None # assign_ids live next is)"

definition remap_node :: "node_remap \<Rightarrow> 'f node \<Rightarrow> 'f node ir_result" where
  "remap_node m n = rust_bind (rust_map (remap_expect m) (inputs n)) (\<lambda>ins.
     case node_op n of
       Op_Branch r \<Rightarrow> rust_bind (remap_expect m r) (\<lambda>r'. Ok (n\<lparr>inputs := ins, node_op := Op_Branch r'\<rparr>))
     | _ \<Rightarrow> Ok (n\<lparr>inputs := ins\<rparr>))"

definition keys_below :: "nat \<Rightarrow> (node_id \<times> 'v) list \<Rightarrow> bool" where
  "keys_below n table = list_all (\<lambda>kv. fst kv < n) table"

definition verify_no_dangling :: "('f, 's) graph \<Rightarrow> unit ir_result" where
  "verify_no_dangling g = (let n = length (nodes g) in
     if list_all (\<lambda>nd. list_all (\<lambda>i. i < n) (inputs nd) \<and>
            (case branch_target nd of None \<Rightarrow> True | Some r \<Rightarrow> r < n)) (nodes g) \<and>
        keys_below n (placements g) \<and> keys_below n (target_backends g) \<and> keys_below n (layouts g) \<and>
        keys_below n (storage_map g) \<and> keys_below n (node_output_views g) \<and> keys_below n (storage_classes g) \<and>
        list_all (\<lambda>i. i < n) (side_effect_roots g)
     then Ok () else Err Msg)"

definition compact :: "node_id list \<Rightarrow> ('f, 's) graph \<Rightarrow> (node_remap \<times> ('f, 's) graph) ir_result" where
  "compact roots g =
     (let live = live_set g roots;
          n = length (nodes g);
          m = assign_ids live 0 [0..<n]
      in rust_bind (rust_map (remap_node m) (map (\<lambda>i. nodes g ! i) (filter (\<lambda>i. m ! i \<noteq> None) [0..<n]))) (\<lambda>ns.
         rust_bind (rust_map (remap_expect m) (side_effect_roots g)) (\<lambda>roots'.
         let g' = g\<lparr>nodes := ns, placements := rekey m (placements g), target_backends := rekey m (target_backends g),
               layouts := rekey m (layouts g), storage_map := rekey m (storage_map g),
               node_output_views := rekey m (node_output_views g), storage_classes := rekey m (storage_classes g),
               node_matmul_row_count := rekey m (node_matmul_row_count g), side_effect_roots := roots'\<rparr>
         in if verify_no_dangling g' = Ok () then Ok (m, g') else Panic)))"

section \<open>Branches\<close>

record branch_builder =
  diverge :: node_id
  arms :: "node_id list"

definition open_branch :: "node_id \<Rightarrow> branch_builder" where
  "open_branch d = \<lparr>diverge = d, arms = []\<rparr>"

definition add_arm :: "node_id \<Rightarrow> branch_builder \<Rightarrow> branch_builder" where
  "add_arm e b = b\<lparr>arms := arms b @ [e]\<rparr>"

text \<open>The nodes on the paths from the diverge point to an arm's exit, without the diverge point.\<close>

definition arm_interior :: "'f node list \<Rightarrow> node_id \<Rightarrow> node_id list \<Rightarrow> node_id \<Rightarrow> node_id list ir_result" where
  "arm_interior ns d fwd exit = rust_bind (backward_reachable ns exit) (\<lambda>back.
     let interior = filter (\<lambda>i. i \<in> set fwd \<and> i \<noteq> d) back in
     if interior = [] then Err Msg else Ok interior)"

fun pairwise_disjoint :: "'a list list \<Rightarrow> bool" where
  "pairwise_disjoint [] = True"
| "pairwise_disjoint (x # xs) = (list_all (\<lambda>y. set x \<inter> set y = {}) xs \<and> pairwise_disjoint xs)"

definition check_branch :: "branch_builder \<Rightarrow> node_id \<Rightarrow> 'f node list \<Rightarrow> unit ir_result" where
  "check_branch b r ns =
     (let d = diverge b; fwd = forward_reachable ns d; a0 = ns ! (arms b ! 0) in
      if r = d then Err Msg
      else if r \<notin> set fwd then Err Msg
      else if list_ex (\<lambda>a. node_shape (ns ! a) \<noteq> node_shape a0 \<or> node_dtype (ns ! a) \<noteq> node_dtype a0) (tl (arms b)) then Err Msg
      else if arms b ! 0 \<notin> set (inputs (ns ! r)) then Err Msg
      else rust_bind (rust_map (arm_interior ns d fwd) (arms b)) (\<lambda>ints.
        if \<not> pairwise_disjoint ints then Err Msg
        else if list_ex (list_ex (\<lambda>m. list_ex (\<lambda>c. c \<notin> set (r # concat ints)) (consumers ns m))) ints then Err Msg
        else Ok ()))"

definition finalize_branches :: "branch_builder \<Rightarrow> node_id \<Rightarrow> ('f, 's, node_id option) graph_act" where
  "finalize_branches b r = act_bind (act_get nodes) (\<lambda>ns.
     if arms b = [] then act_err Msg
     else if length ns \<le> diverge b \<or> length ns \<le> r \<or> list_ex (\<lambda>a. length ns \<le> a) (arms b) then act_err Msg
     else if length (arms b) = 1 then act_ret None
     else (case check_branch b r ns of
         Ok _ \<Rightarrow> act_bind (push \<lparr>node_op = Op_Branch r, inputs = arms b,
             node_shape = node_shape (ns ! (arms b ! 0)), node_dtype = node_dtype (ns ! (arms b ! 0))\<rparr>) (\<lambda>i. act_ret (Some i))
       | Err e \<Rightarrow> act_err e
       | Panic \<Rightarrow> act_panic))"

definition collapse_variant_branch :: "node_id \<Rightarrow> nat \<Rightarrow> ('f, 's, unit) graph_act" where
  "collapse_variant_branch br w = act_bind (act_get nodes) (\<lambda>ns.
     if length ns \<le> br then act_err Msg
     else (case branch_target (ns ! br) of
         None \<Rightarrow> act_err Msg
       | Some r \<Rightarrow> let as = inputs (ns ! br) in
           if as = [] then act_err Msg
           else if length as \<le> w then act_err Msg
           else act_bind (if as ! w \<noteq> as ! 0 then rewrite_input r (as ! 0) (as ! w) else act_ret ()) (\<lambda>_.
                act_set (\<lambda>g. g\<lparr>nodes := (nodes g)[br := (nodes g ! br)\<lparr>inputs := [as ! w]\<rparr>]\<rparr>))))"

end
