(* ===== verification/GraphReach.thy ===== *)
theory GraphReach
  imports Graph
begin

text \<open>
  Reachability in the arena: the edges from a node to its inputs, what the searches compute, and the
  correctness of the topological order of an acyclic graph.
\<close>

section \<open>Edges\<close>

definition edges :: "'f node list \<Rightarrow> (node_id \<times> node_id) set" where
  "edges ns = {(i, j). i < length ns \<and> j \<in> set (inputs (ns ! i))}"

definition inputs_ok :: "'f node list \<Rightarrow> bool" where
  "inputs_ok ns \<longleftrightarrow> (\<forall>i < length ns. \<forall>j \<in> set (inputs (ns ! i)). j < length ns)"

lemma edges_in: "inputs_ok ns \<Longrightarrow> (i, j) \<in> edges ns \<Longrightarrow> i < length ns \<and> j < length ns"
  by (auto simp: edges_def inputs_ok_def)

lemma reach_in: "(i, j) \<in> (edges ns)\<^sup>* \<Longrightarrow> inputs_ok ns \<Longrightarrow> i < length ns \<Longrightarrow> j < length ns"
  by (induction rule: rtrancl_induct) (auto dest: edges_in)

lemma finite_edges: "finite (edges ns)"
proof -
  have "edges ns \<subseteq> (\<Union>i < length ns. Pair i ` set (inputs (ns ! i)))" by (auto simp: edges_def)
  then show ?thesis by (rule finite_subset) auto
qed

lemma acyclic_edges_wf: "acyclic (edges ns) \<Longrightarrow> wf ((edges ns)\<inverse>)"
  by (simp add: finite_acyclic_wf_converse finite_edges)

section \<open>The search\<close>

definition succ_edges :: "nat \<Rightarrow> (nat \<Rightarrow> nat list) \<Rightarrow> (nat \<times> nat) set" where
  "succ_edges b succ = {(i, j). i < b \<and> j < b \<and> j \<in> set (succ i)}"

text \<open>Every successor of a seen node is seen or on the stack.\<close>

definition frontier_ok :: "nat \<Rightarrow> (nat \<Rightarrow> nat list) \<Rightarrow> nat list \<Rightarrow> nat list \<Rightarrow> bool" where
  "frontier_ok b succ st seen \<longleftrightarrow>
     (\<forall>x \<in> set seen. \<forall>c \<in> set (succ x). c < b \<longrightarrow> c \<in> set seen \<union> set st)"

definition closed_under :: "nat \<Rightarrow> (nat \<Rightarrow> nat list) \<Rightarrow> nat set \<Rightarrow> bool" where
  "closed_under b succ S \<longleftrightarrow> (\<forall>x \<in> S. \<forall>c \<in> set (succ x). c < b \<longrightarrow> c \<in> S)"

lemma dfs_spec:
  assumes "frontier_ok b succ st seen"
  shows "set seen \<subseteq> set (dfs b succ st seen) \<and> {x \<in> set st. x < b} \<subseteq> set (dfs b succ st seen) \<and>
    closed_under b succ (set (dfs b succ st seen)) \<and>
    set (dfs b succ st seen) \<subseteq> set seen \<union> (succ_edges b succ)\<^sup>* `` {x \<in> set st. x < b}"
  using assms
proof (induction b succ st seen rule: dfs.induct)
  case (1 b succ seen)
  then show ?case by (auto simp: frontier_ok_def closed_under_def)
next
  case (2 b succ n st seen)
  let ?E = "succ_edges b succ"
  show ?case
  proof (cases "b \<le> n \<or> n \<in> set seen")
    case True
    have fr: "frontier_ok b succ st seen" using 2(3) True by (fastforce simp: frontier_ok_def)
    have d: "dfs b succ (n # st) seen = dfs b succ st seen" using True by simp
    have "?E\<^sup>* `` {x \<in> set st. x < b} \<subseteq> ?E\<^sup>* `` {x \<in> set (n # st). x < b}" by auto
    then show ?thesis using 2(1) [OF True fr] True unfolding d by auto
  next
    case False
    let ?st = "rev (filter (\<lambda>c. c \<notin> set (n # seen)) (succ n)) @ st"
    have fr: "frontier_ok b succ ?st (n # seen)" using 2(3) by (fastforce simp: frontier_ok_def)
    have d: "dfs b succ (n # st) seen = dfs b succ ?st (n # seen)" using False by simp
    have up: "?E\<^sup>* `` {x \<in> set ?st. x < b} \<subseteq> ?E\<^sup>* `` {x \<in> set (n # st). x < b}"
    proof
      fix y assume "y \<in> ?E\<^sup>* `` {x \<in> set ?st. x < b}"
      then obtain x where x: "(x, y) \<in> ?E\<^sup>*" "x \<in> set ?st" "x < b" by auto
      then have "x \<in> set st \<or> (n, x) \<in> ?E" using False by (auto simp: succ_edges_def)
      then show "y \<in> ?E\<^sup>* `` {x \<in> set (n # st). x < b}"
        using x False by (auto intro: converse_rtrancl_into_rtrancl)
    qed
    have n: "n \<in> ?E\<^sup>* `` {x \<in> set (n # st). x < b}" using False by auto
    define R where "R = set (dfs b succ ?st (n # seen))"
    have ih: "set (n # seen) \<subseteq> R" "{x \<in> set ?st. x < b} \<subseteq> R" "closed_under b succ R"
        "R \<subseteq> set (n # seen) \<union> ?E\<^sup>* `` {x \<in> set ?st. x < b}"
      using 2(2) [OF False fr] unfolding R_def by blast+
    have "set seen \<subseteq> R" using ih(1) by auto
    moreover have "{x \<in> set (n # st). x < b} \<subseteq> R" using ih(1,2) by auto
    moreover have "R \<subseteq> set seen \<union> ?E\<^sup>* `` {x \<in> set (n # st). x < b}" using ih(4) up n by auto
    ultimately show ?thesis using ih(3) unfolding d R_def by blast
  qed
qed

lemma set_dfs: "set (dfs b succ st []) = (succ_edges b succ)\<^sup>* `` {x \<in> set st. x < b}"
proof
  have sp: "{x \<in> set st. x < b} \<subseteq> set (dfs b succ st [])" "closed_under b succ (set (dfs b succ st []))"
      "set (dfs b succ st []) \<subseteq> (succ_edges b succ)\<^sup>* `` {x \<in> set st. x < b}"
    using dfs_spec [of b succ st "[]"] by (auto simp: frontier_ok_def)
  show "set (dfs b succ st []) \<subseteq> (succ_edges b succ)\<^sup>* `` {x \<in> set st. x < b}" by (rule sp(3))
  show "(succ_edges b succ)\<^sup>* `` {x \<in> set st. x < b} \<subseteq> set (dfs b succ st [])"
  proof
    fix y assume "y \<in> (succ_edges b succ)\<^sup>* `` {x \<in> set st. x < b}"
    then obtain x where x: "(x, y) \<in> (succ_edges b succ)\<^sup>*" and "x \<in> set (dfs b succ st [])" using sp(1) by blast
    from x this(2) show "y \<in> set (dfs b succ st [])"
      by (induction rule: rtrancl_induct) (use sp(2) in \<open>auto simp: succ_edges_def closed_under_def\<close>)
  qed
qed

lemma succ_edges_inputs: "inputs_ok ns \<Longrightarrow> succ_edges (length ns) (\<lambda>i. inputs (ns ! i)) = edges ns"
  by (auto simp: succ_edges_def edges_def inputs_ok_def)

lemma set_input_closure:
  assumes "inputs_ok ns" and "set from \<subseteq> {..<length ns}"
  shows "set (input_closure ns from) = (edges ns)\<^sup>* `` set from"
proof -
  have "{x \<in> set (rev from). x < length ns} = set from" using assms(2) by auto
  then show ?thesis unfolding input_closure_def set_dfs succ_edges_inputs [OF assms(1)] by simp
qed

lemma set_consumers: "set (consumers ns i) = {k. (k, i) \<in> edges ns}"
  by (auto simp: consumers_def edges_def)

lemma set_forward_reachable:
  assumes "inputs_ok ns" and "d < length ns"
  shows "set (forward_reachable ns d) = {k. (k, d) \<in> (edges ns)\<^sup>*}"
proof -
  have "succ_edges (length ns) (consumers ns) = (edges ns)\<inverse>"
    using edges_in [OF assms(1)] by (auto simp: set_consumers succ_edges_def)
  moreover have "{x \<in> set [d]. x < length ns} = {d}" using assms(2) by auto
  ultimately show ?thesis unfolding forward_reachable_def set_dfs by (auto simp: rtrancl_converse)
qed

lemma backward_loop_dfs:
  assumes "inputs_ok ns" and "set st \<subseteq> {..<length ns}"
  shows "backward_loop ns st seen = Ok (dfs (length ns) (\<lambda>i. inputs (ns ! i)) st seen)"
  using assms
proof (induction ns st seen rule: backward_loop.induct)
  case (2 ns n st seen)
  then show ?case by (cases "n \<in> set seen") (auto simp: inputs_ok_def)
qed simp

lemma backward_reachable_Ok:
  assumes "inputs_ok ns" and "i < length ns"
  obtains bk where "backward_reachable ns i = Ok bk" and "set bk = {j. (i, j) \<in> (edges ns)\<^sup>*}"
proof -
  have "{x \<in> set [i]. x < length ns} = {i}" using assms(2) by auto
  then have "set (dfs (length ns) (\<lambda>i. inputs (ns ! i)) [i] []) = {j. (i, j) \<in> (edges ns)\<^sup>*}"
    unfolding set_dfs succ_edges_inputs [OF assms(1)] by auto
  then show thesis using that backward_loop_dfs [OF assms(1), of "[i]" "[]"] assms(2)
    by (simp add: backward_reachable_def del: dfs.simps backward_loop.simps)
qed

section \<open>Topological order\<close>

text \<open>
  The stack below a set \<open>A\<close> of nodes: every opened node reaches all nodes above it, and its inputs
  are finished or above it.
\<close>

fun stack_ok :: "'f node list \<Rightarrow> node_id list \<Rightarrow> node_id set \<Rightarrow> (node_id \<times> bool) list \<Rightarrow> bool" where
  "stack_ok ns order A [] = True"
| "stack_ok ns order A ((n, opened) # st) =
     ((opened \<longrightarrow> set (inputs (ns ! n)) \<subseteq> set order \<union> A \<and> A \<subseteq> {x. (n, x) \<in> (edges ns)\<^sup>+}) \<and>
      stack_ok ns order (insert n A) st)"

definition opened :: "(node_id \<times> bool) list \<Rightarrow> node_id list" where
  "opened st = map fst (filter snd st)"

lemma opened_simps [simp]:
  "opened [] = []" "opened ((n, True) # st) = n # opened st" "opened ((n, False) # st) = opened st"
  "opened (map (\<lambda>c. (c, False)) cs @ st) = opened st" "opened (rev (map (\<lambda>c. (c, False)) cs) @ st) = opened st"
  by (auto simp: opened_def)

lemma stack_ok_finish:
  assumes "stack_ok ns order A' st" and "A \<subseteq> A'" and "A' - A \<subseteq> set order'" and "set order \<subseteq> set order'"
  shows "stack_ok ns order' A st"
  using assms
proof (induction ns order A' st arbitrary: A rule: stack_ok.induct)
  case (2 ns order A' n b st)
  have "stack_ok ns order' (insert n A) st" by (rule 2(1)) (use 2(2-5) in auto)
  then show ?case using 2(2-5) by auto
qed simp

lemma stack_ok_above: "stack_ok ns order A st \<Longrightarrow> i \<in> set (opened st) \<Longrightarrow> x \<in> A \<Longrightarrow> (i, x) \<in> (edges ns)\<^sup>+"
proof (induction ns order A st rule: stack_ok.induct)
  case (2 ns order A n b st)
  then show ?case by (cases b) auto
qed simp

lemma stack_ok_not_opened: "acyclic (edges ns) \<Longrightarrow> stack_ok ns order A st \<Longrightarrow> i \<in> A \<Longrightarrow> i \<notin> set (opened st)"
  using stack_ok_above [of ns order A st i i] by (auto simp: acyclic_def)

lemma stack_ok_more:
  assumes "stack_ok ns order A st" and "i \<in> A" and "B \<subseteq> {x. (i, x) \<in> edges ns}"
  shows "stack_ok ns order (A \<union> B) st"
  using assms
proof (induction ns order A st rule: stack_ok.induct)
  case (2 ns order A n b st)
  have "stack_ok ns order (insert n A \<union> B) st" using 2 by auto
  moreover have "B \<subseteq> {x. (n, x) \<in> (edges ns)\<^sup>+}" if b
    using 2(2,3,4) that by (auto intro: trancl_into_trancl)
  ultimately show ?case using 2(2) by auto
qed simp

lemma stack_ok_unopened: "stack_ok ns order A (map (\<lambda>c. (c, False)) cs @ st) = stack_ok ns order (set cs \<union> A) st"
  by (induction cs arbitrary: A) auto

definition ordered :: "'f node list \<Rightarrow> node_id list \<Rightarrow> bool" where
  "ordered ns order \<longleftrightarrow> (\<forall>k < length order. set (inputs (ns ! (order ! k))) \<subseteq> set (take k order))"

definition topo_inv :: "'f node list \<Rightarrow> (node_id \<times> bool) list \<Rightarrow> node_id list \<Rightarrow> node_id list \<Rightarrow> bool" where
  "topo_inv ns st visited order \<longleftrightarrow> set visited = set order \<union> set (opened st) \<and> distinct (order @ opened st) \<and>
     ordered ns order \<and> stack_ok ns order {} st \<and> fst ` set st \<subseteq> {..<length ns}"

lemma ordered_snoc: "ordered ns order \<Longrightarrow> set (inputs (ns ! i)) \<subseteq> set order \<Longrightarrow> ordered ns (order @ [i])"
  by (auto simp: ordered_def nth_append less_Suc_eq)

lemma topo_inv_finish: "topo_inv ns ((i, True) # st) visited order \<Longrightarrow> topo_inv ns st visited (order @ [i])"
  using stack_ok_finish [of ns order "{i}" st "{}" "order @ [i]"] by (auto simp: topo_inv_def intro: ordered_snoc)

lemma topo_inv_skip:
  assumes "topo_inv ns ((i, False) # st) visited order" and "i \<in> set visited" and "acyclic (edges ns)"
  shows "topo_inv ns st visited order"
proof -
  have "i \<in> set order" using assms stack_ok_not_opened [OF assms(3), of order "{i}" st i] by (auto simp: topo_inv_def)
  then have "stack_ok ns order {} st" using assms(1) stack_ok_finish [of ns order "{i}" st "{}" order] by (auto simp: topo_inv_def)
  then show ?thesis using assms(1) by (auto simp: topo_inv_def)
qed

lemma topo_inv_open:
  assumes inv: "topo_inv ns ((i, False) # st) visited order" and i: "i \<notin> set visited" and ac: "acyclic (edges ns)"
    and ok: "inputs_ok ns"
  shows "topo_inv ns (rev (map (\<lambda>c. (c, False)) (filter (\<lambda>c. c \<notin> set (i # visited)) (inputs (ns ! i)))) @ (i, True) # st)
    (i # visited) order"
proof -
  let ?cs = "rev (filter (\<lambda>c. c \<notin> set (i # visited)) (inputs (ns ! i)))"
  have st: "stack_ok ns order {i} st" and lt: "i < length ns" using inv by (auto simp: topo_inv_def)
  have e: "(i, c) \<in> edges ns" if "c \<in> set (inputs (ns ! i))" for c using that lt by (auto simp: edges_def)
  have "c \<in> set order \<union> set ?cs" if c: "c \<in> set (inputs (ns ! i))" for c
  proof (rule ccontr)
    assume no: "c \<notin> set order \<union> set ?cs"
    then have "c = i \<or> c \<in> set (opened st)" using c inv by (auto simp: topo_inv_def)
    then have "(c, i) \<in> (edges ns)\<^sup>*" using stack_ok_above [OF st, of c i] by auto
    then have "(i, i) \<in> (edges ns)\<^sup>+" using e [OF c] by (rule rtrancl_into_trancl2 [rotated])
    then show False using ac by (simp add: acyclic_def)
  qed
  moreover have "set ?cs \<subseteq> {x. (i, x) \<in> edges ns}" using e by auto
  ultimately have "stack_ok ns order {} (map (\<lambda>c. (c, False)) ?cs @ (i, True) # st)"
    using stack_ok_more [OF st, of i "set ?cs"] by (auto simp: stack_ok_unopened)
  then show ?thesis using inv i ok lt by (auto simp: topo_inv_def rev_map inputs_ok_def)
qed

lemma reach_sub:
  assumes "\<forall>y \<in> S. y \<in> T \<or> (\<exists>z \<in> T. (z, y) \<in> R)"
  shows "R\<^sup>* `` S \<subseteq> R\<^sup>* `` T"
proof
  fix x assume "x \<in> R\<^sup>* `` S"
  then obtain y where "y \<in> S" "(y, x) \<in> R\<^sup>*" by blast
  then show "x \<in> R\<^sup>* `` T" using assms converse_rtrancl_into_rtrancl [of _ y R x] by blast
qed

text \<open>The loop ends with an order of everything the stack and the opened nodes reach.\<close>

lemma topo_loop_spec:
  assumes "topo_inv ns st visited order" and "acyclic (edges ns)" and "inputs_ok ns"
  shows "\<exists>res. topo_loop ns st visited order = Ok res \<and> distinct res \<and> ordered ns res \<and>
    set order \<union> fst ` set st \<subseteq> set res \<and> set res \<subseteq> set order \<union> (edges ns)\<^sup>* `` (fst ` set st)"
  using assms
proof (induction ns st visited order rule: topo_loop.induct)
  case (1 ns visited order)
  then show ?case by (auto simp: topo_inv_def)
next
  case (2 ns i st visited order)
  then obtain res where "topo_loop ns st visited (order @ [i]) = Ok res" "distinct res" "ordered ns res"
      "set (order @ [i]) \<union> fst ` set st \<subseteq> set res" "set res \<subseteq> set (order @ [i]) \<union> (edges ns)\<^sup>* `` (fst ` set st)"
    using topo_inv_finish by blast
  then show ?case by (intro exI [of _ res]) auto
next
  case (3 ns i st visited order)
  show ?case
  proof (cases "i \<in> set visited")
    case True
    then have "i \<in> set order"
      using 3(3) stack_ok_not_opened [OF 3(4), of order "{i}" st i] by (auto simp: topo_inv_def)
    moreover obtain res where "topo_loop ns st visited order = Ok res" "distinct res" "ordered ns res"
        "set order \<union> fst ` set st \<subseteq> set res" "set res \<subseteq> set order \<union> (edges ns)\<^sup>* `` (fst ` set st)"
      using 3(1) [OF True topo_inv_skip [OF 3(3) True 3(4)] 3(4,5)] by blast
    moreover have "(edges ns)\<^sup>* `` (fst ` set st) \<subseteq> (edges ns)\<^sup>* `` (fst ` set ((i, False) # st))" by auto
    ultimately show ?thesis using True by (intro exI [of _ res]) auto
  next
    case False
    let ?st = "rev (map (\<lambda>c. (c, False)) (filter (\<lambda>c. c \<notin> set (i # visited)) (inputs (ns ! i)))) @ (i, True) # st"
    have lt: "\<not> length ns \<le> i" using 3(3) by (auto simp: topo_inv_def)
    have sub: "(edges ns)\<^sup>* `` (fst ` set ?st) \<subseteq> (edges ns)\<^sup>* `` (fst ` set ((i, False) # st))"
      by (rule reach_sub) (use lt in \<open>auto simp: edges_def\<close>)
    obtain res where r: "topo_loop ns ?st (i # visited) order = Ok res" "distinct res" "ordered ns res"
        "set order \<union> fst ` set ?st \<subseteq> set res" "set res \<subseteq> set order \<union> (edges ns)\<^sup>* `` (fst ` set ?st)"
      using 3(2) [OF False lt topo_inv_open [OF 3(3) False 3(4,5)] 3(4,5)] by blast
    have "topo_loop ns ((i, False) # st) visited order = Ok res" using r(1) False lt by simp
    moreover have "set order \<union> fst ` set ((i, False) # st) \<subseteq> set res" using r(4) by auto
    ultimately show ?thesis using r(2,3) order_trans [OF r(5) Un_mono [OF subset_refl sub]] by blast
  qed
qed

lemma ordered_closed:
  assumes "ordered ns order" and "x \<in> set order" and "(x, y) \<in> (edges ns)\<^sup>*"
  shows "y \<in> set order"
  using assms(3,2)
proof (induction rule: rtrancl_induct)
  case (step y z)
  then obtain k where "k < length order" "y = order ! k" by (auto simp: in_set_conv_nth)
  then show ?case using step(2) assms(1) by (auto simp: ordered_def edges_def dest: in_set_takeD)
qed simp

lemma topo_order_multi_spec:
  assumes "acyclic (edges (nodes g))" and "inputs_ok (nodes g)" and "set roots \<subseteq> {..<length (nodes g)}"
  obtains order where "topo_order_multi g roots = Ok order" and "distinct order" and "ordered (nodes g) order"
    and "set order = (edges (nodes g))\<^sup>* `` set roots"
proof -
  let ?st = "rev (map (\<lambda>r. (r, False)) roots)"
  have "stack_ok (nodes g) [] A (map (\<lambda>r. (r, False)) rs)" for A rs
    using stack_ok_unopened [of "nodes g" "[]" A rs "[]"] by simp
  then have "topo_inv (nodes g) ?st [] []"
    using assms(3) by (auto simp: topo_inv_def ordered_def opened_def rev_map rev_filter)
  from topo_loop_spec [OF this assms(1,2)] obtain order where o: "topo_order_multi g roots = Ok order"
      "distinct order" "ordered (nodes g) order" "set roots \<subseteq> set order" "set order \<subseteq> (edges (nodes g))\<^sup>* `` set roots"
    by (auto simp: topo_order_multi_def image_comp comp_def)
  moreover have "(edges (nodes g))\<^sup>* `` set roots \<subseteq> set order" using ordered_closed [OF o(3)] o(4) by blast
  ultimately show thesis using that by blast
qed

end
