(* ===== verification/GraphCompact.thy ===== *)
theory GraphCompact
  imports GraphReach
begin

text \<open>
  Compaction (\<open>compact_in_place\<close>): the live set is closed under inputs and merge targets, the renumbering
  lists the live nodes in order, every table is carried over, and the value of a live node under any
  local semantics is unchanged.
\<close>

section \<open>Values\<close>

definition erase_target :: "'f op \<Rightarrow> 'f op" where
  "erase_target p = (case p of Op_Branch r \<Rightarrow> Op_Branch 0 | _ \<Rightarrow> p)"

text \<open>What a node says by itself: everything recorded for it but the names of other nodes.\<close>

record ('f, 's) node_view =
  v_op :: "'f op"
  v_shape :: shape
  v_dtype :: dtype
  v_placement :: "device_location option"
  v_backend :: "backend_id option"
  v_layout :: "layout option"
  v_storage :: "'s option"
  v_outputs :: "output_view list option"
  v_class :: "storage_class option"
  v_rows :: "dyn_scalar option"

definition view_of :: "('f, 's) graph \<Rightarrow> node_id \<Rightarrow> ('f, 's) node_view" where
  "view_of g i = \<lparr>v_op = erase_target (node_op (nodes g ! i)), v_shape = node_shape (nodes g ! i),
     v_dtype = node_dtype (nodes g ! i), v_placement = map_of (placements g) i,
     v_backend = map_of (target_backends g) i, v_layout = map_of (layouts g) i,
     v_storage = map_of (storage_map g) i, v_outputs = map_of (node_output_views g) i,
     v_class = map_of (storage_classes g) i, v_rows = map_of (node_matmul_row_count g) i\<rparr>"

text \<open>The value of a node, given what a node computes from the values of its inputs.\<close>

inductive evals :: "(('f, 's) node_view \<Rightarrow> 'v list \<Rightarrow> 'v) \<Rightarrow> ('f, 's) graph \<Rightarrow> node_id \<Rightarrow> 'v \<Rightarrow> bool"
  for sem g where
  step: "i < length (nodes g) \<Longrightarrow> list_all2 (evals sem g) (inputs (nodes g ! i)) vs \<Longrightarrow> evals sem g i (sem (view_of g i) vs)"

inductive_cases evals_elim: "evals sem g i v"

lemma evals_unique: "evals sem g i v \<Longrightarrow> evals sem g i w \<Longrightarrow> v = w"
proof (induction arbitrary: w rule: evals.induct)
  case (step i vs)
  obtain ws where ws: "list_all2 (evals sem g) (inputs (nodes g ! i)) ws" "w = sem (view_of g i) ws"
    using step(3) by (auto elim: evals_elim)
  have "vs = ws" using step(2) ws(1)
    by (intro nth_equalityI) (auto simp: list_all2_conv_all_nth)
  then show ?case using ws(2) by simp
qed

lemma evals_total:
  assumes "acyclic (edges (nodes g))" and "inputs_ok (nodes g)" and "i < length (nodes g)"
  shows "\<exists>v. evals sem g i v"
  using acyclic_edges_wf [OF assms(1)] assms(3)
proof (induction i rule: wf_induct_rule)
  case (less i)
  have "\<forall>k < length (inputs (nodes g ! i)). \<exists>v. evals sem g (inputs (nodes g ! i) ! k) v"
    using less assms(2) by (auto simp: edges_def inputs_ok_def)
  then obtain f where "\<forall>k < length (inputs (nodes g ! i)). evals sem g (inputs (nodes g ! i) ! k) (f k)" by metis
  then have "list_all2 (evals sem g) (inputs (nodes g ! i)) (map f [0..<length (inputs (nodes g ! i))])"
    by (simp add: list_all2_conv_all_nth)
  then show ?case using less(2) by (blast intro: evals.step)
qed

text \<open>A partial renaming that keeps what each node says and the order of its inputs keeps values.\<close>

definition renames :: "(node_id \<Rightarrow> node_id option) \<Rightarrow> ('f, 's) graph \<Rightarrow> ('f, 's) graph \<Rightarrow> bool" where
  "renames h g g' \<longleftrightarrow> (\<forall>i j. h i = Some j \<longrightarrow> i < length (nodes g) \<and> j < length (nodes g') \<and> view_of g' j = view_of g i \<and>
     map Some (inputs (nodes g' ! j)) = map h (inputs (nodes g ! i)))"

lemma renames_inputs:
  "renames h g g' \<Longrightarrow> h i = Some j \<Longrightarrow> list_all2 (\<lambda>a b. h a = Some b) (inputs (nodes g ! i)) (inputs (nodes g' ! j))"
  by (auto simp: renames_def list_all2_conv_all_nth list_eq_iff_nth_eq)

lemma evals_renamed: "evals sem g i v \<Longrightarrow> renames h g g' \<Longrightarrow> h i = Some j \<Longrightarrow> evals sem g' j v"
proof (induction arbitrary: j rule: evals.induct)
  case (step i vs)
  have "list_all2 (evals sem g') (inputs (nodes g' ! j)) vs"
    using renames_inputs [OF step(3,4)] step(2,3) by (auto simp: list_all2_conv_all_nth)
  then show ?case using step(3,4) evals.step [of j g' sem vs] by (auto simp: renames_def)
qed

lemma evals_renamed_back: "evals sem g' j v \<Longrightarrow> renames h g g' \<Longrightarrow> h i = Some j \<Longrightarrow> evals sem g i v"
proof (induction arbitrary: i rule: evals.induct)
  case (step j vs)
  have "list_all2 (evals sem g) (inputs (nodes g ! i)) vs"
    using renames_inputs [OF step(3,4)] step(2,3) by (auto simp: list_all2_conv_all_nth)
  then show ?case using step(3,4) evals.step [of i g sem vs] by (auto simp: renames_def)
qed

section \<open>The live set\<close>

definition targets_ok :: "'f node list \<Rightarrow> bool" where
  "targets_ok ns \<longleftrightarrow> (\<forall>i < length ns. \<forall>r. branch_target (ns ! i) = Some r \<longrightarrow> r < length ns)"

definition tables_ok :: "('f, 's) graph \<Rightarrow> bool" where
  "tables_ok g \<longleftrightarrow> keys_distinct (placements g) \<and> keys_distinct (target_backends g) \<and> keys_distinct (layouts g) \<and>
     keys_distinct (storage_map g) \<and> keys_distinct (node_output_views g) \<and> keys_distinct (storage_classes g) \<and>
     keys_distinct (node_matmul_row_count g)"

text \<open>Every name in the graph is a node of the arena.\<close>

definition arena_ok :: "('f, 's) graph \<Rightarrow> bool" where
  "arena_ok g \<longleftrightarrow> inputs_ok (nodes g) \<and> targets_ok (nodes g) \<and> set (side_effect_roots g) \<subseteq> {..<length (nodes g)} \<and> tables_ok g"

text \<open>No node reads a branch, and no branch merges at a branch.\<close>

definition plain_branches :: "'f node list \<Rightarrow> bool" where
  "plain_branches ns \<longleftrightarrow> (\<forall>i < length ns. (\<forall>j \<in> set (inputs (ns ! i)). branch_target (ns ! j) = None) \<and>
     (\<forall>r. branch_target (ns ! i) = Some r \<longrightarrow> branch_target (ns ! r) = None))"

lemma live_seeds_in:
  "set seeds \<subseteq> {..<length ns} \<Longrightarrow> set seeds \<subseteq> set (live_seeds ns seeds) \<and> set (live_seeds ns seeds) \<subseteq> {..<length ns}"
proof (induction ns seeds rule: live_seeds.induct)
  case (1 ns seeds)
  let ?new = "filter (\<lambda>i. i \<notin> set seeds \<and> participates ns (input_closure ns seeds) i) [0..<length ns]"
  show ?case
  proof (cases "?new = []")
    case True
    then show ?thesis using 1(2) by (subst (1 2) live_seeds.simps) simp
  next
    case False
    have "set (seeds @ ?new) \<subseteq> {..<length ns}" using 1(2) by auto
    moreover have "live_seeds ns seeds = live_seeds ns (seeds @ ?new)"
      using False by (subst live_seeds.simps) (simp only: Let_def if_False)
    ultimately show ?thesis using 1(1) [OF refl refl False] by auto
  qed
qed

lemma set_fold_add_seed: "set (fold (add_seed n) xs seeds) = set seeds \<union> {i \<in> set xs. i < n}"
  by (induction xs arbitrary: seeds) (auto simp: add_seed_def)

text \<open>What compaction needs of a set of nodes.\<close>

definition live_closed :: "('f, 's) graph \<Rightarrow> node_id list \<Rightarrow> node_id set \<Rightarrow> bool" where
  "live_closed g roots L \<longleftrightarrow> set roots \<union> set (side_effect_roots g) \<subseteq> L \<and> L \<subseteq> {..<length (nodes g)} \<and>
     (\<forall>i \<in> L. set (inputs (nodes g ! i)) \<subseteq> L \<and> (\<forall>r. branch_target (nodes g ! i) = Some r \<longrightarrow> r \<in> L))"

lemma closure_branch:
  "(t, i) \<in> (edges ns)\<^sup>* \<Longrightarrow> plain_branches ns \<Longrightarrow> branch_target (ns ! t) = None \<Longrightarrow> branch_target (ns ! i) = None"
  by (induction rule: rtrancl_induct) (auto simp: plain_branches_def edges_def)

lemma live_set_closed:
  assumes ok: "arena_ok g" and plain: "plain_branches (nodes g)" and roots: "set roots \<subseteq> {..<length (nodes g)}"
  shows "live_closed g roots (set (live_set g roots))"
proof -
  let ?ns = "nodes g" and ?E = "edges (nodes g)"
  define seeds where "seeds = live_seeds ?ns (fold (add_seed (length ?ns)) (roots @ side_effect_roots g) [])"
  define live where "live = input_closure ?ns seeds"
  define recon where "recon = List.map_filter (\<lambda>i. branch_target (?ns ! i)) live"
  have in_ok: "inputs_ok ?ns" using ok by (simp add: arena_ok_def)
  have seeds: "set roots \<union> set (side_effect_roots g) \<subseteq> set seeds" "set seeds \<subseteq> {..<length ?ns}"
  proof -
    have "set (fold (add_seed (length ?ns)) (roots @ side_effect_roots g) []) = set roots \<union> set (side_effect_roots g)"
      using roots ok by (auto simp: set_fold_add_seed arena_ok_def simp del: fold_append)
    then show "set roots \<union> set (side_effect_roots g) \<subseteq> set seeds" "set seeds \<subseteq> {..<length ?ns}"
      using live_seeds_in [of "fold (add_seed (length ?ns)) (roots @ side_effect_roots g) []" ?ns] roots ok
      unfolding seeds_def by (simp_all add: arena_ok_def del: fold_append)
  qed
  have live: "set live = ?E\<^sup>* `` set seeds" unfolding live_def by (rule set_input_closure [OF in_ok seeds(2)])
  have live_in: "set live \<subseteq> {..<length ?ns}" using seeds(2) reach_in [OF _ in_ok] by (auto simp: live)
  have rc: "set recon = {r. \<exists>i \<in> set live. branch_target (?ns ! i) = Some r}"
    by (force simp: recon_def map_filter_def)
  have rc_in: "set recon \<subseteq> {..<length ?ns}" using ok live_in by (auto simp: rc arena_ok_def targets_ok_def)
  have L: "set (live_set g roots) = ?E\<^sup>* `` (set seeds \<union> set recon)"
    unfolding live_set_def Let_def seeds_def [symmetric] live_def [symmetric] recon_def [symmetric]
    using set_input_closure [OF in_ok rc_in] live by auto
  have tgt: "r \<in> ?E\<^sup>* `` (set seeds \<union> set recon)"
    if i: "i \<in> ?E\<^sup>* `` (set seeds \<union> set recon)" "branch_target (?ns ! i) = Some r" for i r
  proof -
    have "branch_target (?ns ! t) = None" if "t \<in> set recon" for t
      using that plain live_in by (auto simp: rc plain_branches_def)
    then have "i \<in> set live" using i closure_branch [OF _ plain, of _ i] by (fastforce simp: live)
    then have "r \<in> set recon" using i(2) by (auto simp: rc)
    then show ?thesis by auto
  qed
  have inp: "j \<in> ?E\<^sup>* `` S" if "i \<in> ?E\<^sup>* `` S" "(i, j) \<in> ?E" for i j S
    using that by (auto intro: rtrancl_into_rtrancl)
  have bd: "?E\<^sup>* `` (set seeds \<union> set recon) \<subseteq> {..<length ?ns}" using seeds(2) rc_in reach_in [OF _ in_ok] by auto
  have "set (inputs (?ns ! i)) \<subseteq> ?E\<^sup>* `` (set seeds \<union> set recon)" if "i \<in> ?E\<^sup>* `` (set seeds \<union> set recon)" for i
    using that bd inp [OF that] by (auto simp: edges_def)
  moreover have "set roots \<union> set (side_effect_roots g) \<subseteq> ?E\<^sup>* `` (set seeds \<union> set recon)" using seeds(1) by auto
  ultimately show ?thesis unfolding live_closed_def L using tgt bd by blast
qed

section \<open>The renumbering\<close>

lemma length_assign_ids [simp]: "length (assign_ids live k is) = length is"
  by (induction live k "is" rule: assign_ids.induct) auto

lemma assign_ids_nth:
  "j < length is \<Longrightarrow> assign_ids live k is ! j =
     (if is ! j \<in> set live then Some (k + length (filter (\<lambda>i. i \<in> set live) (take j is))) else None)"
proof (induction live k "is" arbitrary: j rule: assign_ids.induct)
  case (2 live k i "is")
  then show ?case by (cases j) auto
qed simp

definition survivors :: "node_id set \<Rightarrow> nat \<Rightarrow> node_id list" where
  "survivors L n = filter (\<lambda>i. i \<in> L) [0..<n]"

lemma survivors_props [simp]: "set (survivors L n) = {i \<in> L. i < n}" "distinct (survivors L n)"
  by (auto simp: survivors_def)

lemma survivors_sorted: "sorted_wrt (<) (survivors L n)"
  by (simp add: survivors_def sorted_wrt_filter)

lemma survivors_split: "i < n \<Longrightarrow> i \<in> L \<Longrightarrow> survivors L n ! length (filter (\<lambda>i. i \<in> L) (take i [0..<n])) = i \<and>
    length (filter (\<lambda>i. i \<in> L) (take i [0..<n])) < length (survivors L n)"
proof -
  assume a: "i < n" "i \<in> L"
  have "[0..<n] = take i [0..<n] @ i # drop (Suc i) [0..<n]" using a(1) id_take_nth_drop [of i "[0..<n]"] by simp
  then have "survivors L n = filter (\<lambda>i. i \<in> L) (take i [0..<n]) @ i # filter (\<lambda>i. i \<in> L) (drop (Suc i) [0..<n])"
    using a(2) by (metis survivors_def filter_append filter.simps(2))
  then show ?thesis by (simp add: nth_append)
qed

text \<open>The renumbering is the inverse of the list of survivors.\<close>

lemma remap_get_iff:
  "remap_get (assign_ids live 0 [0..<n]) i = Some j \<longleftrightarrow>
     j < length (survivors (set live) n) \<and> survivors (set live) n ! j = i"
proof
  assume "remap_get (assign_ids live 0 [0..<n]) i = Some j"
  then show "j < length (survivors (set live) n) \<and> survivors (set live) n ! j = i"
    using survivors_split [of i n "set live"] by (auto simp: remap_get_def assign_ids_nth split: if_splits)
next
  let ?k = "length (filter (\<lambda>i. i \<in> set live) (take i [0..<n]))"
  assume j: "j < length (survivors (set live) n) \<and> survivors (set live) n ! j = i"
  then have "i \<in> set live" "i < n" using nth_mem [of j "survivors (set live) n"] by auto
  moreover from this have "?k = j"
    using j survivors_split [of i n "set live"] nth_eq_iff_index_eq [of "survivors (set live) n" ?k j] by simp
  ultimately show "remap_get (assign_ids live 0 [0..<n]) i = Some j"
    by (auto simp: remap_get_def assign_ids_nth)
qed

lemma remap_get_live: "i \<in> set live \<Longrightarrow> i < n \<Longrightarrow> \<exists>j. remap_get (assign_ids live 0 [0..<n]) i = Some j"
  using survivors_split [of i n "set live"] by (auto simp: remap_get_iff)

lemma remap_inj:
  "remap_get (assign_ids live 0 [0..<n]) i = Some j \<Longrightarrow> remap_get (assign_ids live 0 [0..<n]) i' = Some j \<Longrightarrow> i = i'"
  by (simp add: remap_get_iff)

lemma remap_mono:
  assumes "remap_get (assign_ids live 0 [0..<n]) i = Some j" and "remap_get (assign_ids live 0 [0..<n]) i' = Some j'"
  shows "i < i' \<longleftrightarrow> j < j'"
proof -
  have less: "survivors (set live) n ! k < survivors (set live) n ! k'" if "k < k'" "k' < length (survivors (set live) n)" for k k'
    using that sorted_wrt_nth_less [OF survivors_sorted] by blast
  show ?thesis using assms less [of j j'] less [of j' j] by (cases j j' rule: linorder_cases) (auto simp: remap_get_iff)
qed

lemma keys_rekey:
  "fst ` set (fold (\<lambda>(old, v) out. case remap_get m old of Some new \<Rightarrow> AList.update new v out | None \<Rightarrow> out) t out)
     \<subseteq> {j. \<exists>i. remap_get m i = Some j} \<union> fst ` set out"
proof (induction t arbitrary: out)
  case (Cons kv t)
  show ?case
  proof (cases "remap_get m (fst kv)")
    case (Some new)
    then show ?thesis using Cons [of "AList.update new (snd kv) out"] by (auto simp: case_prod_beta dom_update)
  qed (use Cons [of out] in \<open>simp add: case_prod_beta\<close>)
qed simp

lemma map_of_rekey_fold:
  assumes inj: "\<And>i i' j. remap_get m i = Some j \<Longrightarrow> remap_get m i' = Some j \<Longrightarrow> i = i'"
    and "keys_distinct t" and "remap_get m i = Some j"
  shows "map_of (fold (\<lambda>(old, v) out. case remap_get m old of Some new \<Rightarrow> AList.update new v out | None \<Rightarrow> out) t out) j =
    (case map_of t i of Some v \<Rightarrow> Some v | None \<Rightarrow> map_of out j)"
  using assms(2,3)
proof (induction t arbitrary: out)
  case (Cons kv t)
  obtain k v where kv: "kv = (k, v)" by force
  show ?case
  proof (cases "k = i")
    case True
    then have "map_of t i = None" using Cons(2) kv by (auto simp: map_of_eq_None_iff)
    then show ?thesis using True Cons kv by simp
  next
    case False
    then have "remap_get m k \<noteq> Some j" using inj Cons(3) by blast
    then show ?thesis using False Cons kv by (auto split: option.splits)
  qed
qed simp

lemmas map_of_rekey = map_of_rekey_fold [where out = "[]", folded rekey_def, simplified]

lemma keys_distinct_rekey: "keys_distinct (rekey m t)"
proof -
  have "keys_distinct out \<Longrightarrow> keys_distinct
      (fold (\<lambda>(old, v) out. case remap_get m old of Some new \<Rightarrow> AList.update new v out | None \<Rightarrow> out) t out)" for out
    by (induction t arbitrary: out) (auto split: option.splits)
  then show ?thesis by (simp add: rekey_def)
qed

section \<open>Compaction\<close>

definition renamed :: "node_remap \<Rightarrow> 'f node \<Rightarrow> 'f node" where
  "renamed m n = n\<lparr>inputs := map (the \<circ> remap_get m) (inputs n),
     node_op := (case node_op n of Op_Branch r \<Rightarrow> Op_Branch (the (remap_get m r)) | p \<Rightarrow> p)\<rparr>"

lemma renamed_simps [simp]:
  "inputs (renamed m n) = map (the \<circ> remap_get m) (inputs n)" "node_shape (renamed m n) = node_shape n"
  "node_dtype (renamed m n) = node_dtype n" "erase_target (node_op (renamed m n)) = erase_target (node_op n)"
  "branch_target (renamed m n) = map_option (the \<circ> remap_get m) (branch_target n)"
  by (auto simp: renamed_def erase_target_def branch_target_def split: op.splits)

lemma expect_all: "set is \<subseteq> dom (remap_get m) \<Longrightarrow> rust_map (remap_expect m) is = Ok (map (the \<circ> remap_get m) is)"
  by (induction "is") (auto simp: remap_expect_def dom_def)

lemma remap_node_Ok:
  assumes "set (inputs n) \<union> set_option (branch_target n) \<subseteq> dom (remap_get m)"
  shows "remap_node m n = Ok (renamed m n)"
  using assms by (auto simp: remap_node_def expect_all renamed_def branch_target_def remap_expect_def dom_def split: op.splits)

lemma remap_nodes_Ok:
  assumes "\<forall>n \<in> set ns. set (inputs n) \<union> set_option (branch_target n) \<subseteq> dom (remap_get m)"
  shows "rust_map (remap_node m) ns = Ok (map (renamed m) ns)"
  using assms by (induction ns) (auto simp: remap_node_Ok)

definition compacted :: "node_remap \<Rightarrow> node_id list \<Rightarrow> ('f, 's) graph \<Rightarrow> ('f, 's) graph" where
  "compacted m kept g = g\<lparr>nodes := map (\<lambda>i. renamed m (nodes g ! i)) kept,
     placements := rekey m (placements g), target_backends := rekey m (target_backends g),
     layouts := rekey m (layouts g), storage_map := rekey m (storage_map g),
     node_output_views := rekey m (node_output_views g), storage_classes := rekey m (storage_classes g),
     node_matmul_row_count := rekey m (node_matmul_row_count g),
     side_effect_roots := map (the \<circ> remap_get m) (side_effect_roots g)\<rparr>"

lemma keys_below_rekey: "\<forall>i j. remap_get m i = Some j \<longrightarrow> j < n \<Longrightarrow> keys_below n (rekey m t)"
  using keys_rekey [of m t "[]"] by (force simp: keys_below_def rekey_def list_all_iff)

lemma live_dom: "set live \<subseteq> {..<n} \<Longrightarrow> set live \<subseteq> dom (remap_get (assign_ids live 0 [0..<n]))"
  using remap_get_live [of _ live n] by auto

lemma compact_Ok:
  assumes cl: "live_closed g roots (set (live_set g roots))"
  defines "m \<equiv> assign_ids (live_set g roots) 0 [0..<length (nodes g)]"
    and "kept \<equiv> survivors (set (live_set g roots)) (length (nodes g))"
  shows "compact roots g = Ok (m, compacted m kept g)" and "verify_no_dangling (compacted m kept g) = Ok ()"
proof -
  let ?L = "set (live_set g roots)" and ?n = "length (nodes g)"
  have dm: "?L \<subseteq> dom (remap_get m)"
    using cl unfolding m_def by (intro live_dom) (simp add: live_closed_def)
  have kept: "filter (\<lambda>i. m ! i \<noteq> None) [0..<?n] = kept"
    unfolding kept_def survivors_def m_def by (intro filter_cong) (auto simp: assign_ids_nth)
  have refs: "set (inputs (nodes g ! i)) \<union> set_option (branch_target (nodes g ! i)) \<subseteq> ?L" if "i \<in> set kept" for i
    using that cl by (auto simp: kept_def live_closed_def)
  have new: "\<forall>i j. remap_get m i = Some j \<longrightarrow> j < length kept" by (auto simp: m_def kept_def remap_get_iff)
  have lt: "the (remap_get m i) < length kept" if "i \<in> ?L" for i using that dm new by auto
  have ser: "set (side_effect_roots g) \<subseteq> ?L" using cl by (auto simp: live_closed_def)
  have "list_all (\<lambda>j. j < length kept) (inputs (renamed m (nodes g ! i))) \<and>
      (case branch_target (renamed m (nodes g ! i)) of None \<Rightarrow> True | Some r \<Rightarrow> r < length kept)" if "i \<in> set kept" for i
    using refs [OF that] lt by (cases "branch_target (nodes g ! i)") (auto simp: list_all_iff)
  then have "list_all (\<lambda>nd. list_all (\<lambda>j. j < length kept) (inputs nd) \<and>
      (case branch_target nd of None \<Rightarrow> True | Some r \<Rightarrow> r < length kept)) (map (\<lambda>i. renamed m (nodes g ! i)) kept)"
    unfolding list.pred_set list.set_map by blast
  moreover have "list_all (\<lambda>i. i < length kept) (map (the \<circ> remap_get m) (side_effect_roots g))"
    using ser lt by (auto simp: list_all_iff)
  ultimately show ver: "verify_no_dangling (compacted m kept g) = Ok ()"
    by (simp add: verify_no_dangling_def compacted_def Let_def keys_below_rekey [OF new] del: renamed_simps list.pred_map)
  have "rust_map (remap_node m) (map (\<lambda>i. nodes g ! i) kept) = Ok (map (\<lambda>i. renamed m (nodes g ! i)) kept)"
    using remap_nodes_Ok [of "map (\<lambda>i. nodes g ! i) kept" m] order_trans [OF refs dm] by (simp add: comp_def)
  moreover have "rust_map (remap_expect m) (side_effect_roots g) = Ok (map (the \<circ> remap_get m) (side_effect_roots g))"
    using ser dm by (intro expect_all) blast
  ultimately show "compact roots g = Ok (m, compacted m kept g)"
    using ver by (simp add: compact_def Let_def m_def [symmetric] kept compacted_def del: not_None_eq)
qed

lemma compacted_renames:
  fixes g :: "('f, 's) graph"
  assumes cl: "live_closed g roots (set (live_set g roots))" and tb: "tables_ok g"
  defines "m \<equiv> assign_ids (live_set g roots) 0 [0..<length (nodes g)]"
    and "kept \<equiv> survivors (set (live_set g roots)) (length (nodes g))"
  shows "renames (remap_get m) g (compacted m kept g)"
  unfolding renames_def
proof (intro allI impI)
  fix i j assume ij: "remap_get m i = Some j"
  then have k: "j < length kept" "kept ! j = i" by (auto simp: m_def kept_def remap_get_iff)
  then have i: "i \<in> set (live_set g roots)" "i < length (nodes g)" using nth_mem [OF k(1)] by (auto simp: kept_def)
  have inj: "remap_get m a = Some c \<Longrightarrow> remap_get m b = Some c \<Longrightarrow> a = b" for a b c
    unfolding m_def by (rule remap_inj)
  have tab: "map_of (rekey m t) j = map_of t i" if "keys_distinct t" for t :: "(node_id \<times> 'x) list"
    using map_of_rekey [OF inj that ij] by (auto split: option.splits)
  have "set (live_set g roots) \<subseteq> dom (remap_get m)" using cl unfolding m_def by (intro live_dom) (simp add: live_closed_def)
  then have "set (inputs (nodes g ! i)) \<subseteq> dom (remap_get m)" using cl i(1) by (meson live_closed_def order_trans)
  then have "map Some (map (the \<circ> remap_get m) (inputs (nodes g ! i))) = map (remap_get m) (inputs (nodes g ! i))"
    by (auto simp: dom_def)
  then show "i < length (nodes g) \<and> j < length (nodes (compacted m kept g)) \<and> view_of (compacted m kept g) j = view_of g i \<and>
      map Some (inputs (nodes (compacted m kept g) ! j)) = map (remap_get m) (inputs (nodes g ! i))"
    using i k tb by (simp add: compacted_def view_of_def tab tables_ok_def)
qed

text \<open>Without branches the live nodes are the ones the roots read.\<close>

lemma live_set_plain:
  assumes ok: "arena_ok g" and roots: "set roots \<subseteq> {..<length (nodes g)}"
    and nb: "\<forall>i < length (nodes g). branch_target (nodes g ! i) = None"
  shows "set (live_set g roots) = (edges (nodes g))\<^sup>* `` (set roots \<union> set (side_effect_roots g))"
proof -
  let ?ns = "nodes g" and ?s = "fold (add_seed (length (nodes g))) (roots @ side_effect_roots g) []"
  have in_ok: "inputs_ok ?ns" using ok by (simp add: arena_ok_def)
  have s: "set ?s = set roots \<union> set (side_effect_roots g)"
    using roots ok by (auto simp: set_fold_add_seed arena_ok_def simp del: fold_append)
  have s_in: "set ?s \<subseteq> {..<length ?ns}" using ok roots s by (simp add: arena_ok_def)
  have "participates ?ns reach i = False" if "i < length ?ns" for reach i using nb that by (simp add: participates_def)
  then have seeds: "live_seeds ?ns ?s = ?s" by (subst live_seeds.simps) (simp add: Let_def filter_empty_conv)
  have cl: "set (input_closure ?ns ?s) = (edges ?ns)\<^sup>* `` set ?s" by (rule set_input_closure [OF in_ok s_in])
  moreover have "set (input_closure ?ns ?s) \<subseteq> {..<length ?ns}"
    using s_in reach_in [OF _ in_ok] unfolding cl by blast
  then have "List.map_filter (\<lambda>i. branch_target (?ns ! i)) (input_closure ?ns ?s) = []"
    using nb by (auto simp: map_filter_def filter_empty_conv)
  moreover have "input_closure ?ns [] = []" by (simp add: input_closure_def)
  ultimately show ?thesis unfolding live_set_def Let_def seeds s by simp
qed

end
