(* ===== verification/GraphBranch.thy ===== *)
theory GraphBranch
  imports GraphCompact
begin

text \<open>
  Branches: what \<open>finalize_branches\<close> establishes about the arms of a branch, and that collapsing the
  branch to any arm keeps the graph acyclic and, when the arms agree, every value.
\<close>

section \<open>What a finalized branch satisfies\<close>

definition between :: "'f node list \<Rightarrow> node_id \<Rightarrow> node_id \<Rightarrow> node_id set" where
  "between ns d e = {i. (e, i) \<in> (edges ns)\<^sup>* \<and> (i, d) \<in> (edges ns)\<^sup>* \<and> i \<noteq> d}"

definition single_entry :: "'f node list \<Rightarrow> node_id \<Rightarrow> node_id list \<Rightarrow> node_id \<Rightarrow> bool" where
  "single_entry ns d as r \<longleftrightarrow> r \<noteq> d \<and> (r, d) \<in> (edges ns)\<^sup>* \<and> as ! 0 \<in> set (inputs (ns ! r)) \<and>
     (\<forall>k < length as. between ns d (as ! k) \<noteq> {}) \<and>
     (\<forall>k k'. k < k' \<longrightarrow> k' < length as \<longrightarrow> between ns d (as ! k) \<inter> between ns d (as ! k') = {}) \<and>
     (\<forall>k < length as. \<forall>i \<in> between ns d (as ! k). \<forall>c. (c, i) \<in> edges ns \<longrightarrow>
        c = r \<or> (\<exists>k' < length as. c \<in> between ns d (as ! k'))) \<and>
     (\<forall>k < length as. node_shape (ns ! (as ! k)) = node_shape (ns ! (as ! 0)) \<and>
        node_dtype (ns ! (as ! k)) = node_dtype (ns ! (as ! 0)))"

lemma pairwise_disjoint_sorted: "pairwise_disjoint xs = sorted_wrt (\<lambda>x y. set x \<inter> set y = {}) xs"
  by (induction xs) (auto simp: list_all_iff)

lemma arm_interior_Ok:
  assumes "inputs_ok ns" and "d < length ns" and "e < length ns"
  shows "arm_interior ns d (forward_reachable ns d) e \<noteq> Panic"
    and "arm_interior ns d (forward_reachable ns d) e = Ok ar \<Longrightarrow> set ar = between ns d e \<and> ar \<noteq> []"
proof -
  obtain bk where bk: "backward_reachable ns e = Ok bk" "set bk = {j. (e, j) \<in> (edges ns)\<^sup>*}"
    by (rule backward_reachable_Ok [OF assms(1,3)])
  define xs where "xs = filter (\<lambda>i. i \<in> set (forward_reachable ns d) \<and> i \<noteq> d) bk"
  have xs: "set xs = between ns d e"
    unfolding xs_def set_filter set_forward_reachable [OF assms(1,2)] bk(2) between_def by blast
  have e: "arm_interior ns d (forward_reachable ns d) e = (if xs = [] then Err Msg else Ok xs)"
    by (simp only: arm_interior_def bk(1) rust_bind.simps xs_def Let_def)
  show "arm_interior ns d (forward_reachable ns d) e \<noteq> Panic" unfolding e by simp
  show "arm_interior ns d (forward_reachable ns d) e = Ok ar \<Longrightarrow> set ar = between ns d e \<and> ar \<noteq> []"
    using xs unfolding e by (simp split: if_splits)
qed

lemma check_branch_single_entry:
  assumes ok: "inputs_ok ns" "d < length ns" "\<forall>a \<in> set as. a < length ns" and ne: "as \<noteq> []"
    and chk: "check_branch \<lparr>diverge = d, arms = as\<rparr> r ns = Ok ()"
  shows "single_entry ns d as r"
proof -
  let ?fwd = "forward_reachable ns d"
  obtain ints where ints: "rust_map (arm_interior ns d ?fwd) as = Ok ints"
    and c: "r \<noteq> d" "r \<in> set ?fwd" "as ! 0 \<in> set (inputs (ns ! r))" "pairwise_disjoint ints"
      "\<forall>a \<in> set (tl as). node_shape (ns ! a) = node_shape (ns ! (as ! 0)) \<and> node_dtype (ns ! a) = node_dtype (ns ! (as ! 0))"
      "\<forall>ar \<in> set ints. \<forall>m \<in> set ar. \<forall>c \<in> set (consumers ns m). c \<in> set (r # concat ints)"
    using chk by (auto simp: check_branch_def Let_def list_ex_iff split: if_splits)
  have len: "length ints = length as" using ints by (simp add: rust_map_Ok_iff)
  have ar: "set (ints ! k) = between ns d (as ! k)" "ints ! k \<noteq> []" if "k < length as" for k
    using that ints arm_interior_Ok(2) [OF ok(1,2), of "as ! k" "ints ! k"] ok(3) by (auto simp: rust_map_Ok_iff)
  have "c' = r \<or> (\<exists>k' < length as. c' \<in> between ns d (as ! k'))"
    if "k < length as" "i \<in> between ns d (as ! k)" "(c', i) \<in> edges ns" for k i c'
  proof -
    have "ints ! k \<in> set ints" "i \<in> set (ints ! k)" "c' \<in> set (consumers ns i)"
      using that len ar(1) [OF that(1)] by (simp_all add: set_consumers)
    then have "c' = r \<or> (\<exists>k' < length as. c' \<in> set (ints ! k'))" using c(6) len by (fastforce simp: in_set_conv_nth)
    then show ?thesis using ar(1) by blast
  qed
  moreover have "node_shape (ns ! (as ! k)) = node_shape (ns ! (as ! 0)) \<and> node_dtype (ns ! (as ! k)) = node_dtype (ns ! (as ! 0))"
    if "k < length as" for k
  proof (cases k)
    case (Suc j)
    then have "as ! k \<in> set (tl as)" using that by (metis Suc_less_eq2 length_tl nth_mem nth_tl diff_Suc_1)
    then show ?thesis using c(5) by simp
  qed simp
  moreover have "between ns d (as ! k) \<noteq> {}" if "k < length as" for k using ar [OF that] by auto
  moreover have "between ns d (as ! k) \<inter> between ns d (as ! k') = {}" if "k < k'" "k' < length as" for k k'
    using c(4) that ar(1) [of k, symmetric] ar(1) [of k', symmetric] len
    by (simp add: pairwise_disjoint_sorted sorted_wrt_iff_nth_less)
  ultimately show ?thesis using c(1-3) ok unfolding single_entry_def by (simp add: set_forward_reachable)
qed

text \<open>The exit of one arm never reads the merge: it would read every other arm.\<close>

lemma single_entry_no_cycle:
  assumes "single_entry ns d as r" and "k < length as" and "0 < k" and "r < length ns"
  shows "(as ! k, r) \<notin> (edges ns)\<^sup>*"
proof
  assume a: "(as ! k, r) \<in> (edges ns)\<^sup>*"
  have "(r, as ! 0) \<in> edges ns" using assms(1,4) by (simp add: single_entry_def edges_def)
  with a have "(as ! k, as ! 0) \<in> (edges ns)\<^sup>*" by simp
  moreover obtain i where "i \<in> between ns d (as ! 0)"
    using assms(1,2) unfolding single_entry_def by (metis all_not_in_conv gr_implies_not_zero neq0_conv)
  ultimately have "i \<in> between ns d (as ! k)" by (auto simp: between_def)
  moreover have "between ns d (as ! 0) \<inter> between ns d (as ! k) = {}" using assms(1-3) by (simp add: single_entry_def)
  ultimately show False using \<open>i \<in> between ns d (as ! 0)\<close> by blast
qed

section \<open>Adding a branch\<close>

lemma push_plain: "\<not> is_view_op (node_op n) \<Longrightarrow> push n g = (Ok (length (nodes g)), g\<lparr>nodes := nodes g @ [n]\<rparr>)"
  by (simp add: push_def act_bind_def act_get_def act_set_def act_ret_def)

definition branch_node :: "'f node list \<Rightarrow> branch_builder \<Rightarrow> node_id \<Rightarrow> 'f node" where
  "branch_node ns b r = \<lparr>node_op = Op_Branch r, inputs = arms b,
     node_shape = node_shape (ns ! (arms b ! 0)), node_dtype = node_dtype (ns ! (arms b ! 0))\<rparr>"

lemma check_branch_no_panic:
  assumes "inputs_ok ns" "diverge b < length ns" "\<forall>a \<in> set (arms b). a < length ns"
  shows "check_branch b r ns \<noteq> Panic"
proof -
  have "rust_map (arm_interior ns (diverge b) (forward_reachable ns (diverge b))) as \<noteq> Panic" if "set as \<subseteq> set (arms b)" for as
    using that
  proof (induction as)
    case (Cons a as)
    then have "arm_interior ns (diverge b) (forward_reachable ns (diverge b)) a \<noteq> Panic"
      using arm_interior_Ok(1) [OF assms(1,2), of a] assms(3) by simp
    then show ?case using Cons
      by (cases "arm_interior ns (diverge b) (forward_reachable ns (diverge b)) a";
          cases "rust_map (arm_interior ns (diverge b) (forward_reachable ns (diverge b))) as") auto
  qed simp
  from this [OF subset_refl] show ?thesis
    by (cases "rust_map (arm_interior ns (diverge b) (forward_reachable ns (diverge b))) (arms b)")
      (auto simp: check_branch_def Let_def)
qed

lemma wp_finalize_branches:
  assumes ok: "inputs_ok (nodes g)"
  shows "act_wp (finalize_branches b r)
    (\<lambda>res g'. case res of
        None \<Rightarrow> g' = g \<and> length (arms b) = 1
      | Some br \<Rightarrow> br = length (nodes g) \<and> g' = g\<lparr>nodes := nodes g @ [branch_node (nodes g) b r]\<rparr> \<and>
          2 \<le> length (arms b) \<and> r < length (nodes g) \<and> set (arms b) \<subseteq> {..<length (nodes g)} \<and>
          single_entry (nodes g) (diverge b) (arms b) r)
    (\<lambda>e g'. g' = g) g"
proof -
  let ?ns = "nodes g"
  show ?thesis
  proof (cases "arms b = [] \<or> length ?ns \<le> diverge b \<or> length ?ns \<le> r \<or> list_ex (\<lambda>a. length ?ns \<le> a) (arms b) \<or>
      length (arms b) = 1")
    case True
    then show ?thesis by (auto simp: finalize_branches_def wp_simps)
  next
    case False
    then have in_ok: "diverge b < length ?ns" "\<forall>a \<in> set (arms b). a < length ?ns" "r < length ?ns" "2 \<le> length (arms b)"
      by (simp_all add: list_ex_iff not_le) (cases "arms b" rule: remdups_adj.cases, simp_all)
    have push: "push \<lparr>node_op = Op_Branch r, inputs = arms b, node_shape = node_shape (?ns ! (arms b ! 0)),
        node_dtype = node_dtype (?ns ! (arms b ! 0))\<rparr> g = (Ok (length ?ns), g\<lparr>nodes := ?ns @ [branch_node ?ns b r]\<rparr>)"
      by (simp add: push_plain is_view_op_def branch_node_def)
    show ?thesis
    proof (cases "check_branch b r ?ns")
      case (Ok u)
      then have "single_entry ?ns (diverge b) (arms b) r"
        using check_branch_single_entry [OF ok in_ok(1,2), of r] False by (cases b) simp
      then show ?thesis using False in_ok Ok push
        by (auto simp: finalize_branches_def act_wp_def act_bind_def act_get_def act_ret_def)
    qed (use False check_branch_no_panic [OF ok in_ok(1,2), of r] in \<open>auto simp: finalize_branches_def wp_simps\<close>)
  qed
qed

section \<open>Collapsing to an arm\<close>

definition collapsed :: "'f node list \<Rightarrow> node_id \<Rightarrow> node_id \<Rightarrow> node_id \<Rightarrow> node_id \<Rightarrow> 'f node list" where
  "collapsed ns br r a0 aw = ns[r := redirect a0 aw (ns ! r), br := (ns ! br)\<lparr>inputs := [aw]\<rparr>]"

lemma redirect_same [simp]: "redirect a a n = n"
  by (simp add: redirect_def map_idI)

lemma collapse_variant_branch_Ok:
  assumes "br < length (nodes g)" and "branch_target (nodes g ! br) = Some r" and "r < length (nodes g)" and "r \<noteq> br"
    and "w < length (inputs (nodes g ! br))"
  shows "collapse_variant_branch br w g =
    (Ok (), g\<lparr>nodes := collapsed (nodes g) br r (inputs (nodes g ! br) ! 0) (inputs (nodes g ! br) ! w)\<rparr>)"
  using assms
  by (auto simp: collapse_variant_branch_def act_bind_def act_get_def act_set_def act_ret_def rewrite_input_def checked_def
      collapsed_def Let_def)

lemma edges_collapsed:
  assumes "inputs_ok ns" and "r < length ns"
  shows "edges (collapsed (ns @ [bn]) (length ns) r a0 aw) \<subseteq> insert (length ns, aw) (insert (r, aw) (edges ns))"
  using assms by (auto simp: edges_def collapsed_def redirect_def nth_list_update nth_append less_Suc_eq split: if_splits)

lemma acyclic_collapsed:
  assumes ok: "inputs_ok ns" and ac: "acyclic (edges ns)" and se: "single_entry ns d as r" and r: "r < length ns"
    and w: "w < length as" and in_as: "set as \<subseteq> {..<length ns}"
  shows "acyclic (edges (collapsed (ns @ [bn]) (length ns) r (as ! 0) (as ! w)))"
proof -
  let ?R = "insert (r, as ! w) (edges ns)"
  have "acyclic ?R"
  proof (cases "w = 0")
    case True
    then have "(r, as ! w) \<in> edges ns" using se r by (simp add: single_entry_def edges_def)
    then show ?thesis using ac by (simp add: insert_absorb)
  next
    case False
    then show ?thesis using ac single_entry_no_cycle [OF se w _ r] by (simp add: acyclic_insert)
  qed
  moreover have aw: "as ! w < length ns" using w in_as nth_mem by blast
  moreover have "x < length ns" if "(as ! w, x) \<in> ?R\<^sup>*" for x
    using that by (induction rule: rtrancl_induct) (use aw ok in \<open>auto dest: edges_in\<close>)
  ultimately have "acyclic (insert (length ns, as ! w) ?R)" by (auto simp: acyclic_insert)
  then show ?thesis using edges_collapsed [OF ok r] by (rule acyclic_subset)
qed

text \<open>When the arms agree, reading the winner in place of the first arm changes no value.\<close>

lemma evals_collapsed:
  fixes g :: "('f, 's) graph"
  assumes ac: "acyclic (edges ns')" and r: "r < length (nodes g)" and ok: "inputs_ok (nodes g)"
    and ns': "ns' = collapsed (nodes g @ [bn]) (length (nodes g)) r a0 aw"
    and same: "evals sem g a0 v0" "evals sem g aw v0"
  shows "i < length (nodes g) \<Longrightarrow> evals sem g i v \<Longrightarrow> evals sem (g\<lparr>nodes := ns'\<rparr>) i v"
  using acyclic_edges_wf [OF ac]
proof (induction i arbitrary: v rule: wf_induct_rule)
  case (less i)
  let ?g' = "g\<lparr>nodes := ns'\<rparr>"
  obtain vs where vs: "list_all2 (evals sem g) (inputs (nodes g ! i)) vs" "v = sem (view_of g i) vs"
    using less(3) by (auto elim: evals_elim)
  have i': "i < length ns'" using less(2) by (simp add: ns' collapsed_def)
  have ins: "inputs (ns' ! i) = map (\<lambda>j. if i = r \<and> j = a0 then aw else j) (inputs (nodes g ! i))"
    using less(2) r by (auto simp: ns' collapsed_def redirect_def nth_list_update nth_append map_idI)
  have view: "view_of ?g' i = view_of g i"
    using less(2) r by (auto simp: view_of_def ns' collapsed_def redirect_def nth_list_update nth_append)
  have in_g: "x < length (nodes g)" if "evals sem g x u" for x u using that by (auto elim: evals_elim)
  have "evals sem ?g' (inputs (ns' ! i) ! k) (vs ! k)" if k: "k < length (inputs (nodes g ! i))" for k
  proof -
    let ?x = "inputs (nodes g ! i) ! k"
    have x: "evals sem g ?x (vs ! k)" using vs(1) k by (simp add: list_all2_conv_all_nth)
    have "evals sem g (if i = r \<and> ?x = a0 then aw else ?x) (vs ! k)"
      using x same evals_unique [OF same(1), of "vs ! k"] by auto
    moreover have "(i, inputs (ns' ! i) ! k) \<in> edges ns'"
      using i' k nth_mem [of k "inputs (ns' ! i)"] arg_cong [OF ins, of length] by (simp add: edges_def)
    ultimately show ?thesis using less(1) in_g k by (simp add: ins)
  qed
  then have "list_all2 (evals sem ?g') (inputs (nodes ?g' ! i)) vs" using vs(1) ins by (simp add: list_all2_conv_all_nth)
  then show ?case using evals.step [of i ?g' sem vs] i' view vs(2) by simp
qed

end
