(* ===== verification/GraphViews.thy ===== *)
theory GraphViews
  imports GraphBranch
begin

text \<open>
  Views in the graph: the layout of a view node has the shape that shape inference gives, so appending
  a view never trips the assertion on its layout, and reads go to the elements of its input.
\<close>

section \<open>View operations are views of layouts\<close>

fun view_pull :: "view_op_kind \<Rightarrow> layout \<Rightarrow> nat list \<Rightarrow> nat list" where
  "view_pull Op_Transpose l = swap_pull (rank (shape l) - 2) (rank (shape l) - 1) l"
| "view_pull (Op_Permute axes) l = permute_pull axes l"
| "view_pull (Op_BroadcastTo sh) l = broadcast_pull sh l"
| "view_pull (Op_Slice d start len) l = narrow_pull d start l"
| "view_pull (Op_Unsqueeze d) l = unsqueeze_pull d l"
| "view_pull (Op_Squeeze d) l = squeeze_pull d l"
| "view_pull (Op_Flip d) l = flip_pull d l"

lemma view_layout_eta:
  "view_layout (Op_Permute axes) = permute axes" "view_pull (Op_Permute axes) = permute_pull axes"
  "view_layout (Op_BroadcastTo sh) = broadcast_as sh" "view_pull (Op_BroadcastTo sh) = broadcast_pull sh"
  "view_layout (Op_Slice d start len) = narrow d start len" "view_pull (Op_Slice d start len) = narrow_pull d start"
  "view_layout (Op_Unsqueeze d) = unsqueeze d" "view_pull (Op_Unsqueeze d) = unsqueeze_pull d"
  "view_layout (Op_Squeeze d) = squeeze d" "view_pull (Op_Squeeze d) = squeeze_pull d"
  "view_layout (Op_Flip d) = flip d" "view_pull (Op_Flip d) = flip_pull d"
  by (simp_all add: fun_eq_iff)

lemma last_two_view: "view_op (view_layout Op_Transpose) (view_pull Op_Transpose)"
  by unfold_locales (auto split: if_splits dest: transpose.view_wf transpose.pull_valid transpose.pull_offset)

interpretation graph_view: view_op "view_layout v" "view_pull v"
  by (cases v) (simp_all only: view_layout_eta last_two_view narrow.view_op_axioms permute.view_op_axioms
    unsqueeze.view_op_axioms squeeze.view_op_axioms flip.view_op_axioms broadcast.view_op_axioms)

section \<open>Agreement with shape inference\<close>

lemma is_permutation_range: "is_permutation xs n \<Longrightarrow> length xs = n \<and> (\<forall>a \<in> set xs. a < n)"
  using is_permutation_distinct(2) [of xs n] by (auto simp: is_permutation_def)

lemma view_layout_dims: "view_layout v l = Ok l' \<Longrightarrow> view_dims v (shape l) = Ok (shape l')"
  by (cases v) (auto simp: transpose_def permute_def broadcast_as_def narrow_def unsqueeze_def squeeze_def
      flip_def rank_def Let_def list_ex_iff usize_sum_def swap_def dest!: is_permutation_range split: if_splits option.splits)

lemma view_layout_no_panic:
  "layout_wf l \<Longrightarrow> view_dims v (shape l) = Ok s \<Longrightarrow> view_layout v l \<noteq> Panic"
  by (cases v) (auto simp: transpose_def permute_def broadcast_as_def narrow_def unsqueeze_def squeeze_def
      flip_def rank_def Let_def usize_sum_def layout_wf_def split: if_splits option.splits)

section \<open>Layouts of nodes\<close>

text \<open>Every recorded layout belongs to a node and has its shape.\<close>

definition layouts_ok :: "('f, 's) graph \<Rightarrow> bool" where
  "layouts_ok g \<longleftrightarrow> (\<forall>i l. map_of (layouts g) i = Some l \<longrightarrow>
     i < length (nodes g) \<and> shape l = node_shape (nodes g ! i) \<and> layout_wf l)"

text \<open>A view reads one earlier node and has the shape and type that inference gives.\<close>

definition view_typed :: "'f node list \<Rightarrow> 'f node \<Rightarrow> bool" where
  "view_typed ns n \<longleftrightarrow> is_view_op (node_op n) \<longrightarrow> (\<exists>j. inputs n = [j] \<and> j < length ns \<and>
     primitive_shape (node_op n) [node_shape (ns ! j)] [node_dtype (ns ! j)] = Ok (node_shape n, node_dtype n))"

lemma layout_of_ok:
  assumes "layouts_ok g" and "j < length (nodes g)"
  obtains l where "layout_of g j = Ok l" and "shape l = node_shape (nodes g ! j)" and "layout_wf l"
proof (cases "map_of (layouts g) j")
  case None
  then show thesis using assms(2) that [of "contiguous (node_shape (nodes g ! j))"]
    by (simp add: layout_of_def contiguous_def contiguous_with_offset_def layout_wf_def)
next
  case (Some l)
  then show thesis using assms that [of l] by (auto simp: layout_of_def layouts_ok_def)
qed

lemma primitive_shape_view:
  "primitive_shape (Viewing v) [s] [d] = Ok (s', d') \<longleftrightarrow> view_dims v s = Ok s' \<and> d' = d"
  by (auto simp: primitive_shape_def Let_def need_def at_def)

definition view_pushed :: "'f node \<Rightarrow> view_op_kind \<Rightarrow> layout \<Rightarrow> ('f, 's) graph \<Rightarrow> ('f, 's) graph" where
  "view_pushed n v l g = g\<lparr>nodes := nodes g @ [n],
     layouts := (case view_layout v l of Ok l' \<Rightarrow> AList.update (length (nodes g)) l' (layouts g) | _ \<Rightarrow> layouts g)\<rparr>"

lemma push_view:
  assumes ok: "layouts_ok g" and n: "node_op n = Viewing v" "view_typed (nodes g) n" "inputs n = [j]"
    and l: "layout_of g j = Ok l"
  shows "push n g = (Ok (length (nodes g)), view_pushed n v l g)"
proof -
  have j: "j < length (nodes g)" and s: "view_dims v (node_shape (nodes g ! j)) = Ok (node_shape n)"
    using n by (auto simp: view_typed_def is_view_op_def primitive_shape_view)
  have lw: "shape l = node_shape (nodes g ! j)" "layout_wf l" using layout_of_ok [OF ok j] l by auto
  have l1: "layout_of (g\<lparr>nodes := nodes g @ [n]\<rparr>) j = Ok l"
    using l j by (auto simp: layout_of_def nth_append split: option.splits)
  have "view_layout v l \<noteq> Panic" using view_layout_no_panic [OF lw(2)] s lw(1) by simp
  moreover have "shape l' = node_shape n" if "view_layout v l = Ok l'" for l'
    using view_layout_dims [OF that] s lw(1) by simp
  ultimately show ?thesis using n j l1
    by (cases "view_layout v l") (auto simp: push_def act_bind_def act_get_def act_set_def act_ret_def is_view_op_def
      derive_view_output_layout_def set_layout_def view_pushed_def)
qed

lemma view_pushed_ok:
  assumes ok: "layouts_ok g" and n: "node_op n = Viewing v" "view_typed (nodes g) n" "inputs n = [j]"
    and l: "layout_of g j = Ok l"
  shows "layouts_ok (view_pushed n v l g)"
proof -
  have j: "j < length (nodes g)" and s: "view_dims v (node_shape (nodes g ! j)) = Ok (node_shape n)"
    using n by (auto simp: view_typed_def is_view_op_def primitive_shape_view)
  have lw: "shape l = node_shape (nodes g ! j)" "layout_wf l" using layout_of_ok [OF ok j] l by auto
  have new: "shape l' = node_shape n \<and> layout_wf l'" if "view_layout v l = Ok l'" for l'
    using view_layout_dims [OF that] graph_view.view_wf [OF that lw(2)] s lw(1) by simp
  have old: "i < length (nodes g) \<and> shape l'' = node_shape ((nodes g @ [n]) ! i) \<and> layout_wf l''"
    if "map_of (layouts g) i = Some l''" for i l'' using ok that by (simp add: layouts_ok_def nth_append)
  show ?thesis unfolding layouts_ok_def
  proof (intro allI impI)
    fix i l'' assume m: "map_of (layouts (view_pushed n v l g)) i = Some l''"
    then consider "map_of (layouts g) i = Some l''" | "i = length (nodes g)" "view_layout v l = Ok l''"
      by (auto simp: view_pushed_def split: rust.splits if_splits)
    then show "i < length (nodes (view_pushed n v l g)) \<and>
        shape l'' = node_shape (nodes (view_pushed n v l g) ! i) \<and> layout_wf l''"
      by cases (use old [of i l''] new [of l''] in \<open>simp_all add: view_pushed_def\<close>)
  qed
qed

end
