(* ===== verification/GraphMachine.thy ===== *)
theory GraphMachine
  imports GraphViews
begin

text \<open>
  The graph arena as a state machine: appending nodes, writing side tables, adding branches and
  compacting, in any order. Every name stays in the arena, the graph stays acyclic, no node reads a
  branch, and every recorded layout has the shape of its node.
\<close>

section \<open>Steps\<close>

definition reads_plain :: "'f node list \<Rightarrow> node_id list \<Rightarrow> bool" where
  "reads_plain ns is \<longleftrightarrow> (\<forall>i \<in> set is. i < length ns \<and> branch_target (ns ! i) = None)"

inductive graph_step :: "('f, 's) graph \<Rightarrow> ('f, 's) graph \<Rightarrow> bool" where
  Push: "push n g = (res, g') \<Longrightarrow> reads_plain (nodes g) (inputs n) \<Longrightarrow> branch_target n = None \<Longrightarrow>
    view_typed (nodes g) n \<Longrightarrow> graph_step g g'"
| SetPlacement: "set_placement i d g = (res, g') \<Longrightarrow> graph_step g g'"
| SetTargetBackend: "set_target_backend i be g = (res, g') \<Longrightarrow> graph_step g g'"
| SetStorageClass: "set_storage_class i c g = (res, g') \<Longrightarrow> graph_step g g'"
| SetMatmulRowCount: "set_matmul_row_count i rc g = (res, g') \<Longrightarrow> graph_step g g'"
| SetStorage: "set_storage i st g = (res, g') \<Longrightarrow> graph_step g g'"
| RemoveStorage: "remove_storage i g = (out, g') \<Longrightarrow> graph_step g g'"
| AddRoot: "add_side_effect_root i g = (res, g') \<Longrightarrow> graph_step g g'"
| SetLayout: "set_layout i l g = (res, g') \<Longrightarrow> layout_wf l \<Longrightarrow> graph_step g g'"
| SetOutputViews: "set_output_views i vs g = (res, g') \<Longrightarrow> graph_step g g'"
| Finalize: "finalize_branches b r g = (out', g') \<Longrightarrow> reads_plain (nodes g) (arms b) \<Longrightarrow>
    branch_target (nodes g ! r) = None \<Longrightarrow> graph_step g g'"
| Compact: "compact roots g = Ok (m, g') \<Longrightarrow> set roots \<subseteq> {..<length (nodes g)} \<Longrightarrow> graph_step g g'"

definition graph_inv :: "('f, 's) graph \<Rightarrow> bool" where
  "graph_inv g \<longleftrightarrow> arena_ok g \<and> plain_branches (nodes g) \<and> acyclic (edges (nodes g)) \<and> layouts_ok g"

lemma graph_inv_new: "graph_inv (graph_new gid)"
  by (simp add: graph_inv_def graph_new_def arena_ok_def inputs_ok_def targets_ok_def tables_ok_def plain_branches_def
      edges_def layouts_ok_def acyclic_def)

section \<open>Appending\<close>

lemma acyclic_source:
  assumes "acyclic R" and "x \<notin> snd ` R \<union> S"
  shows "acyclic (R \<union> {x} \<times> S)"
proof -
  let ?R = "R \<union> {x} \<times> S"
  have tgt: "b \<noteq> x" if "(a, b) \<in> ?R\<^sup>+" for a b
    using that assms(2) by (induction rule: trancl_induct) (auto simp: image_iff)
  have "(a, b) \<in> R\<^sup>+" if "(a, b) \<in> ?R\<^sup>+" "a \<noteq> x" for a b using that
  proof (induction rule: trancl_induct)
    case (step y z)
    then show ?case using tgt [OF step(1)] by (auto intro: trancl_into_trancl)
  qed auto
  then show ?thesis using tgt assms(1) unfolding acyclic_def by blast
qed

lemma edges_snoc: "inputs_ok ns \<Longrightarrow> edges (ns @ [n]) = edges ns \<union> {length ns} \<times> set (inputs n)"
  by (auto simp: edges_def nth_append less_Suc_eq)

text \<open>The shape of the arena after a node is appended.\<close>

definition arena_shape :: "'f node list \<Rightarrow> bool" where
  "arena_shape ns \<longleftrightarrow> inputs_ok ns \<and> targets_ok ns \<and> plain_branches ns \<and> acyclic (edges ns)"

lemma arena_shape_snoc:
  assumes ns: "arena_shape ns" and ins: "reads_plain ns (inputs n)"
    and tgt: "\<forall>r. branch_target n = Some r \<longrightarrow> r < length ns \<and> branch_target (ns ! r) = None"
  shows "arena_shape (ns @ [n])"
proof -
  have ok: "inputs_ok ns" using ns by (simp add: arena_shape_def)
  have "acyclic (edges (ns @ [n]))" unfolding edges_snoc [OF ok]
    using ns ins edges_in [OF ok, of _ "length ns"] by (intro acyclic_source) (auto simp: arena_shape_def reads_plain_def)
  moreover have "inputs_ok (ns @ [n])"
    using ok ins by (auto simp: inputs_ok_def reads_plain_def nth_append less_Suc_eq)
  moreover have "targets_ok (ns @ [n])"
    using ns tgt by (auto simp: arena_shape_def targets_ok_def nth_append less_Suc_eq)
  moreover have "plain_branches (ns @ [n])" unfolding plain_branches_def
  proof (intro allI impI conjI ballI)
    fix i j assume i: "i < length (ns @ [n])" and j: "j \<in> set (inputs ((ns @ [n]) ! i))"
    then have "j < length ns \<and> branch_target (ns ! j) = None"
      using ns ins by (auto simp: arena_shape_def plain_branches_def inputs_ok_def reads_plain_def nth_append split: if_splits)
    then show "branch_target ((ns @ [n]) ! j) = None" by (simp add: nth_append)
  next
    fix i r assume i: "i < length (ns @ [n])" and r: "branch_target ((ns @ [n]) ! i) = Some r"
    have "r < length ns \<and> branch_target (ns ! r) = None"
    proof (cases "i < length ns")
      case True
      then have "branch_target (ns ! i) = Some r" using r by (simp add: nth_append)
      then show ?thesis using ns True unfolding arena_shape_def plain_branches_def targets_ok_def by blast
    qed (use i r tgt in \<open>simp add: nth_append less_Suc_eq\<close>)
    then show "branch_target ((ns @ [n]) ! r) = None" by (simp add: nth_append)
  qed
  ultimately show ?thesis by (simp add: arena_shape_def)
qed

lemma graph_inv_iff:
  "graph_inv g \<longleftrightarrow> arena_shape (nodes g) \<and> set (side_effect_roots g) \<subseteq> {..<length (nodes g)} \<and> tables_ok g \<and> layouts_ok g"
  by (auto simp: graph_inv_def arena_shape_def arena_ok_def)

lemma layouts_ok_snoc: "layouts_ok g \<Longrightarrow> layouts_ok (g\<lparr>nodes := nodes g @ [n]\<rparr>)"
  by (force simp: layouts_ok_def nth_append)

lemma graph_inv_snoc:
  assumes "graph_inv g" and "reads_plain (nodes g) (inputs n)"
    and "\<forall>r. branch_target n = Some r \<longrightarrow> r < length (nodes g) \<and> branch_target (nodes g ! r) = None"
  shows "graph_inv (g\<lparr>nodes := nodes g @ [n]\<rparr>)"
  using assms arena_shape_snoc [of "nodes g" n] layouts_ok_snoc [of g n] by (auto simp: graph_inv_iff tables_ok_def)

lemma graph_inv_push:
  assumes inv: "graph_inv g" and p: "push n g = (res, g')" and ins: "reads_plain (nodes g) (inputs n)"
    and bt: "branch_target n = None" and vt: "view_typed (nodes g) n"
  shows "graph_inv g'"
proof (cases "is_view_op (node_op n)")
  case False
  then show ?thesis using p graph_inv_snoc [OF inv ins] bt by (simp add: push_plain)
next
  case True
  then obtain v where v: "node_op n = Viewing v" by (auto simp: is_view_op_def split: op.splits)
  obtain j where j: "inputs n = [j]" "j < length (nodes g)" using vt True by (auto simp: view_typed_def)
  have lo: "layouts_ok g" using inv by (simp add: graph_inv_def)
  obtain l where l: "layout_of g j = Ok l" by (rule layout_of_ok [OF lo j(2)])
  have g': "g' = view_pushed n v l g" using p push_view [OF lo v vt j(1) l] by simp
  have "graph_inv (g\<lparr>nodes := nodes g @ [n]\<rparr>)" using graph_inv_snoc [OF inv ins] bt by simp
  then show ?thesis using view_pushed_ok [OF lo v vt j(1) l] unfolding g'
    by (auto simp: graph_inv_iff view_pushed_def tables_ok_def split: rust.splits)
qed

section \<open>Side tables\<close>

lemma graph_inv_checked:
  assumes "graph_inv g" and "checked i f g = (res, g')" and "i < length (nodes g) \<Longrightarrow> graph_inv (f g)"
  shows "graph_inv g'"
  using assms by (auto simp: checked_def act_bind_def act_get_def act_set_def act_panic_def split: if_splits)

lemma graph_inv_tables:
  assumes "graph_inv g" and "nodes g' = nodes g" and "side_effect_roots g' = side_effect_roots g" and "tables_ok g'" and "layouts g' = layouts g"
  shows "graph_inv g'"
  using assms by (simp add: graph_inv_iff layouts_ok_def)

lemma graph_inv_table_setters:
  assumes inv: "graph_inv g"
  shows "set_placement i d g = (res, g') \<Longrightarrow> graph_inv g'"
    and "set_target_backend i be g = (res, g') \<Longrightarrow> graph_inv g'"
    and "set_storage_class i c g = (res, g') \<Longrightarrow> graph_inv g'"
    and "set_matmul_row_count i rc g = (res, g') \<Longrightarrow> graph_inv g'"
    and "set_storage i st g = (res, g') \<Longrightarrow> graph_inv g'"
    and "remove_storage i g = (out, g') \<Longrightarrow> graph_inv g'"
    and "add_side_effect_root i g = (res, g') \<Longrightarrow> graph_inv g'"
proof -
  have t: "tables_ok g" using inv by (simp add: graph_inv_iff)
  note via = graph_inv_checked [OF inv] and tab = graph_inv_tables [OF inv]
  show "set_placement i d g = (res, g') \<Longrightarrow> graph_inv g'"
    unfolding set_placement_def by (erule via, rule tab) (use t in \<open>simp_all add: tables_ok_def\<close>)
  show "set_target_backend i be g = (res, g') \<Longrightarrow> graph_inv g'"
    unfolding set_target_backend_def by (erule via, rule tab) (use t in \<open>simp_all add: tables_ok_def\<close>)
  show "set_storage_class i c g = (res, g') \<Longrightarrow> graph_inv g'"
    unfolding set_storage_class_def by (erule via, rule tab) (use t in \<open>simp_all add: tables_ok_def\<close>)
  show "set_matmul_row_count i rc g = (res, g') \<Longrightarrow> graph_inv g'"
    unfolding set_matmul_row_count_def by (erule via, rule tab) (use t in \<open>simp_all add: tables_ok_def\<close>)
  show "set_storage i st g = (res, g') \<Longrightarrow> graph_inv g'"
    unfolding set_storage_def by (erule via, rule tab) (use t in \<open>simp_all add: tables_ok_def\<close>)
  show "remove_storage i g = (out, g') \<Longrightarrow> graph_inv g'"
    by (rule tab) (use t in \<open>auto simp: tables_ok_def remove_storage_def act_bind_def act_get_def act_set_def act_ret_def\<close>)
  show "add_side_effect_root i g = (res, g') \<Longrightarrow> graph_inv g'"
    unfolding add_side_effect_root_def
    by (erule via) (use inv in \<open>auto simp: graph_inv_iff tables_ok_def layouts_ok_def\<close>)
qed

lemma graph_inv_set_layout:
  assumes inv: "graph_inv g" and s: "set_layout i l g = (res, g')" and wf: "layout_wf l"
  shows "graph_inv g'"
proof (cases "i < length (nodes g) \<and> shape l = node_shape (nodes g ! i)")
  case True
  then have "g' = g\<lparr>layouts := AList.update i l (layouts g)\<rparr>"
    using s by (simp add: set_layout_def act_bind_def act_get_def act_set_def)
  then show ?thesis using True inv wf by (auto simp: graph_inv_iff tables_ok_def layouts_ok_def)
qed (use inv s in \<open>auto simp: set_layout_def act_bind_def act_get_def act_panic_def\<close>)

lemma graph_inv_set_output_views:
  assumes inv: "graph_inv g" and s: "set_output_views i vs g = (res, g')"
  shows "graph_inv g'"
proof -
  have "g' = g \<or> g' = g\<lparr>node_output_views := AList.update i vs (node_output_views g)\<rparr>"
    using s by (auto simp: set_output_views_def act_bind_def act_get_def act_set_def act_err_def split: if_splits)
  then show ?thesis using inv by (auto simp: graph_inv_iff tables_ok_def layouts_ok_def)
qed

section \<open>Branches and compaction\<close>

lemma graph_inv_finalize:
  assumes inv: "graph_inv g" and f: "finalize_branches b r g = (res, g')" and as: "reads_plain (nodes g) (arms b)"
    and r: "branch_target (nodes g ! r) = None"
  shows "graph_inv g'"
proof -
  have "inputs_ok (nodes g)" using inv by (simp add: graph_inv_iff arena_shape_def)
  note wp = wpI_result [OF wp_finalize_branches [OF this, of b r], unfolded f]
  then consider "g' = g" | "r < length (nodes g)" "g' = g\<lparr>nodes := nodes g @ [branch_node (nodes g) b r]\<rparr>"
    by (auto split: rust.splits option.splits)
  then show ?thesis
  proof cases
    case 2
    then show ?thesis using graph_inv_snoc [OF inv, of "branch_node (nodes g) b r"] as r
      by (simp add: branch_node_def branch_target_def)
  qed (use inv in simp)
qed

lemma renames_acyclic:
  assumes rn: "renames h g g'" and onto: "\<forall>j < length (nodes g'). \<exists>i. h i = Some j" and ac: "acyclic (edges (nodes g))"
    and inj: "\<forall>a b j. h a = Some j \<longrightarrow> h b = Some j \<longrightarrow> a = b"
  shows "acyclic (edges (nodes g'))"
proof -
  have edge: "\<exists>i'. h i' = Some j' \<and> (i, i') \<in> edges (nodes g)" if e: "(j, j') \<in> edges (nodes g')" "h i = Some j" for i j j'
  proof -
    obtain k where k: "k < length (inputs (nodes g' ! j))" "inputs (nodes g' ! j) ! k = j'"
      using e(1) by (auto simp: edges_def in_set_conv_nth)
    have "list_all2 (\<lambda>a b. h a = Some b) (inputs (nodes g ! i)) (inputs (nodes g' ! j))" by (rule renames_inputs [OF rn e(2)])
    then have "h (inputs (nodes g ! i) ! k) = Some j'" "k < length (inputs (nodes g ! i))"
      using k by (auto simp: list_all2_conv_all_nth)
    then show ?thesis using rn e(2) by (auto simp: edges_def renames_def)
  qed
  have path: "(j, j') \<in> (edges (nodes g'))\<^sup>+ \<Longrightarrow> h i = Some j \<Longrightarrow> \<exists>i'. h i' = Some j' \<and> (i, i') \<in> (edges (nodes g))\<^sup>+" for i j j'
  proof (induction rule: trancl_induct)
    case (base y)
    then show ?case using edge by blast
  next
    case (step y z)
    then obtain i' where "h i' = Some y" "(i, i') \<in> (edges (nodes g))\<^sup>+" by blast
    then show ?case using edge [OF step(2)] by (meson trancl_into_trancl)
  qed
  show ?thesis unfolding acyclic_def
  proof (intro allI notI)
    fix j assume j: "(j, j) \<in> (edges (nodes g'))\<^sup>+"
    then have "j < length (nodes g')" by (auto simp: edges_def dest: tranclD)
    then obtain i where i: "h i = Some j" using onto by blast
    then have "(i, i) \<in> (edges (nodes g))\<^sup>+" using path [OF j i] inj by blast
    then show False using ac by (simp add: acyclic_def)
  qed
qed

lemma renames_input:
  assumes "renames h g g'" and "h i = Some j" and "j' \<in> set (inputs (nodes g' ! j))"
  obtains i' where "h i' = Some j'" and "i' \<in> set (inputs (nodes g ! i))"
  using renames_inputs [OF assms(1,2)] assms(3) by (fastforce simp: list_all2_conv_all_nth in_set_conv_nth)

lemma layouts_ok_renamed:
  assumes rn: "renames h g g'" and lay: "layouts_ok g" and keys: "\<forall>j \<in> fst ` set (layouts g'). \<exists>i. h i = Some j"
  shows "layouts_ok g'"
  unfolding layouts_ok_def
proof (intro allI impI)
  fix j l assume l: "map_of (layouts g') j = Some l"
  then have "j \<in> fst ` set (layouts g')" by (force dest: map_of_SomeD)
  then obtain i where i: "h i = Some j" using keys by blast
  then have v: "view_of g' j = view_of g i" and j: "j < length (nodes g')" using rn by (auto simp: renames_def)
  then have "map_of (layouts g) i = Some l" "node_shape (nodes g' ! j) = node_shape (nodes g ! i)"
    using l by (auto simp: view_of_def)
  then show "j < length (nodes g') \<and> shape l = node_shape (nodes g' ! j) \<and> layout_wf l"
    using lay j by (auto simp: layouts_ok_def)
qed

lemma verify_no_dangling_D:
  assumes "verify_no_dangling g = Ok ()"
  shows "inputs_ok (nodes g)" and "targets_ok (nodes g)" and "set (side_effect_roots g) \<subseteq> {..<length (nodes g)}"
proof -
  let ?n = "length (nodes g)"
  have all: "\<forall>nd \<in> set (nodes g). (\<forall>i \<in> set (inputs nd). i < ?n) \<and>
      (case branch_target nd of None \<Rightarrow> True | Some r \<Rightarrow> r < ?n)" and ser: "\<forall>i \<in> set (side_effect_roots g). i < ?n"
    using assms by (simp_all add: verify_no_dangling_def Let_def list_all_iff split: if_splits)
  show "inputs_ok (nodes g)" using all nth_mem unfolding inputs_ok_def by blast
  show "targets_ok (nodes g)" using all nth_mem unfolding targets_ok_def by fastforce
  show "set (side_effect_roots g) \<subseteq> {..<?n}" using ser by auto
qed

lemma graph_inv_compact:
  assumes inv: "graph_inv g" and roots: "set roots \<subseteq> {..<length (nodes g)}"
  obtains m g' where "compact roots g = Ok (m, g')" and "graph_inv g'" and "renames (remap_get m) g g'"
    and "verify_no_dangling g' = Ok ()" and "m = assign_ids (live_set g roots) 0 [0..<length (nodes g)]"
    and "length (nodes g') = length (survivors (set (live_set g roots)) (length (nodes g)))"
proof -
  define m where "m = assign_ids (live_set g roots) 0 [0..<length (nodes g)]"
  define kept where "kept = survivors (set (live_set g roots)) (length (nodes g))"
  define g' where "g' = compacted m kept g"
  have arena: "arena_ok g" and plain: "plain_branches (nodes g)" and ac: "acyclic (edges (nodes g))" and lay: "layouts_ok g"
    using inv by (simp_all add: graph_inv_def)
  have tb: "tables_ok g" using arena by (simp add: arena_ok_def)
  have cl: "live_closed g roots (set (live_set g roots))" by (rule live_set_closed [OF arena plain roots])
  have ok: "compact roots g = Ok (m, g')" and ver: "verify_no_dangling g' = Ok ()"
    unfolding m_def kept_def g'_def using compact_Ok [OF cl] by simp_all
  have rn: "renames (remap_get m) g g'" unfolding m_def kept_def g'_def by (rule compacted_renames [OF cl tb])
  have len: "length (nodes g') = length kept" by (simp add: g'_def compacted_def)
  have iff: "remap_get m i = Some j \<longleftrightarrow> j < length kept \<and> kept ! j = i" for i j
    unfolding m_def kept_def by (rule remap_get_iff)
  have node: "nodes g' ! j = renamed m (nodes g ! i)" if "remap_get m i = Some j" for i j
    using that by (auto simp: iff g'_def compacted_def)
  have onto: "\<forall>j < length (nodes g'). \<exists>i. remap_get m i = Some j" by (simp add: len iff)
  have "acyclic (edges (nodes g'))" by (rule renames_acyclic [OF rn _ ac]) (auto simp: len iff)
  moreover have "inputs_ok (nodes g') \<and> targets_ok (nodes g') \<and> set (side_effect_roots g') \<subseteq> {..<length (nodes g')}"
    using verify_no_dangling_D [OF ver] by blast
  moreover have "plain_branches (nodes g')" unfolding plain_branches_def
  proof (intro allI impI conjI ballI)
    fix j j' assume "j < length (nodes g')" and j': "j' \<in> set (inputs (nodes g' ! j))"
    then obtain i where i: "remap_get m i = Some j" using onto by blast
    obtain i' where i': "remap_get m i' = Some j'" "i' \<in> set (inputs (nodes g ! i))" by (rule renames_input [OF rn i j'])
    have "i < length (nodes g)" using rn i by (simp add: renames_def)
    then show "branch_target (nodes g' ! j') = None"
      using plain i' node [OF i'(1)] by (simp add: plain_branches_def)
  next
    fix j r' assume "j < length (nodes g')" and r': "branch_target (nodes g' ! j) = Some r'"
    then obtain i where i: "remap_get m i = Some j" using onto by blast
    then obtain r where r: "branch_target (nodes g ! i) = Some r" "r' = the (remap_get m r)" using r' node [OF i] by auto
    have iL: "i \<in> set (live_set g roots)" "i < length (nodes g)"
      using i nth_mem [of j kept] by (auto simp: iff kept_def)
    then have "r \<in> set (live_set g roots)" "r < length (nodes g)" using cl r(1) unfolding live_closed_def by blast+
    then have "remap_get m r = Some r'" using remap_get_live [of r "live_set g roots"] r(2) by (fastforce simp: m_def)
    moreover have "branch_target (nodes g ! r) = None" using plain iL r(1) by (simp add: plain_branches_def)
    ultimately show "branch_target (nodes g' ! r') = None" using node by simp
  qed
  moreover have "layouts_ok g'"
    using keys_rekey [of m "layouts g" "[]"]
    by (intro layouts_ok_renamed [OF rn lay]) (auto simp: g'_def compacted_def rekey_def)
  moreover have "tables_ok g'" by (simp add: g'_def compacted_def tables_ok_def keys_distinct_rekey)
  ultimately have "graph_inv g'" by (simp add: graph_inv_iff arena_shape_def)
  then show thesis using that ok rn ver len by (simp add: m_def kept_def)
qed

section \<open>The machine\<close>

lemma graph_inv_step: "graph_inv g \<Longrightarrow> graph_step g g' \<Longrightarrow> graph_inv g'"
proof (erule graph_step.cases)
  fix roots m and ga gb :: "('a, 'b) graph"
  assume "graph_inv g" "g = ga" "g' = gb" "compact roots ga = Ok (m, gb)" "set roots \<subseteq> {..<length (nodes ga)}"
  then show "graph_inv g'" using graph_inv_compact [of g roots] by (metis Pair_inject rust.inject(1))
qed (auto dest: graph_inv_push graph_inv_table_setters graph_inv_set_layout graph_inv_set_output_views graph_inv_finalize)

interpretation arena: stepped_system graph_step graph_inv
  by unfold_locales (rule graph_inv_step)

lemma reachable_graph_inv: "rtranclp graph_step (graph_new gid) g \<Longrightarrow> graph_inv g"
  by (rule arena.invar_steps [OF _ graph_inv_new])

end
