(* ===== verification/GraphSamples.thy ===== *)
theory GraphSamples
  imports GraphMachine
begin

text \<open>
  Small graphs on which the properties of the arena and of its passes are evaluated: nodes that read
  earlier nodes only, without side tables.
\<close>

section \<open>Graphs in index order\<close>

text \<open>A graph whose nodes only read earlier nodes is acyclic.\<close>

definition index_ordered :: "'f node list \<Rightarrow> bool" where
  "index_ordered ns = list_all (\<lambda>i. list_all (\<lambda>j. j < i) (inputs (ns ! i))) [0..<length ns]"

lemma index_ordered_acyclic:
  assumes "index_ordered ns"
  shows "acyclic (edges ns)" and "inputs_ok ns"
proof -
  have lt: "\<forall>i < length ns. \<forall>j \<in> set (inputs (ns ! i)). j < i" using assms by (auto simp: index_ordered_def list_all_iff)
  then have "edges ns \<subseteq> less_than\<inverse>" by (auto simp: edges_def)
  then show "acyclic (edges ns)" by (rule acyclic_subset [rotated]) (simp add: wf_acyclic)
  show "inputs_ok ns" using lt by (fastforce simp: inputs_ok_def)
qed

definition arena_of :: "'f node list \<Rightarrow> ('f, 's) graph" where
  "arena_of ns = (graph_new 0)\<lparr>nodes := ns\<rparr>"

lemma nodes_arena_of [simp]: "nodes (arena_of ns) = ns"
  by (simp add: arena_of_def)

lemma arena_of_inv:
  assumes "index_ordered ns" and "list_all (\<lambda>n. branch_target n = None) ns"
  shows "graph_inv (arena_of ns)"
proof -
  note ac = index_ordered_acyclic [OF assms(1)]
  have "branch_target (ns ! i) = None" if "i < length ns" for i using that assms(2) by (simp add: list_all_length)
  then have "plain_branches ns" "targets_ok ns" using ac(2) by (auto simp: plain_branches_def targets_ok_def inputs_ok_def)
  then show ?thesis using ac by (simp add: graph_inv_def arena_ok_def arena_of_def graph_new_def tables_ok_def layouts_ok_def)
qed

section \<open>Nodes\<close>

definition leaf :: "'f node" where
  "leaf = \<lparr>node_op = Op_Const, inputs = [], node_shape = from_dims [2], node_dtype = F32\<rparr>"

definition unary :: "unary_op \<Rightarrow> node_id \<Rightarrow> 'f node" where
  "unary u i = \<lparr>node_op = Unary u, inputs = [i], node_shape = from_dims [2], node_dtype = F32\<rparr>"

definition binary :: "binary_op \<Rightarrow> node_id \<Rightarrow> node_id \<Rightarrow> 'f node" where
  "binary f i j = \<lparr>node_op = Binary f, inputs = [i, j], node_shape = from_dims [2], node_dtype = F32\<rparr>"

definition diamond :: "(unit, unit) graph" where
  "diamond = (graph_new 0)\<lparr>nodes := [leaf, unary Neg 0, unary Exp 0, unary Relu 1, unary Sqr 0]\<rparr>"

lemma diamond_inv: "graph_inv diamond"
proof -
  have "graph_inv (arena_of [leaf, unary Neg 0, unary Exp 0, unary Relu 1, unary Sqr 0] :: (unit, unit) graph)"
    by (rule arena_of_inv) (simp_all add: index_ordered_def upt_rec leaf_def unary_def branch_target_def)
  then show ?thesis by (simp add: arena_of_def diamond_def)
qed

end
