(* ===== verification/GraphProperties.thy ===== *)
theory GraphProperties
  imports GraphSamples
begin

text \<open>
  The properties of the graph arena: topological order, compaction, branches, views, and the states
  that can be reached by building.
\<close>

section \<open>Order\<close>

text \<open>
  C22: on an acyclic graph \<open>topo_order_multi\<close> ends and returns exactly the nodes that the roots read,
  directly or not, each once, and each after all of its inputs.
\<close>

theorem topo_order_correct:
  assumes "acyclic (edges (nodes g))" and "inputs_ok (nodes g)" and "set roots \<subseteq> {..<length (nodes g)}"
  shows "\<exists>order. topo_order_multi g roots = Ok order \<and> distinct order \<and>
    set order = (edges (nodes g))\<^sup>* `` set roots \<and>
    (\<forall>k < length order. set (inputs (nodes g ! (order ! k))) \<subseteq> set (take k order))"
  using topo_order_multi_spec [OF assms] unfolding ordered_def by metis

theorem topo_order_correct_witness:
  "\<exists>order. topo_order_multi diamond [3, 2] = Ok order \<and> distinct order \<and>
    set order = (edges (nodes diamond))\<^sup>* `` set [3, 2] \<and>
    (\<forall>k < length order. set (inputs (nodes diamond ! (order ! k))) \<subseteq> set (take k order))"
  using topo_order_correct [of diamond "[3, 2]"] diamond_inv
  by (simp add: graph_inv_def arena_ok_def) (simp add: diamond_def)

section \<open>Compaction\<close>

lemma remap_get_dom: "remap_get (assign_ids live 0 [0..<n]) i \<noteq> None \<longleftrightarrow> i \<in> set live \<and> i < n"
  by (auto simp: remap_get_def assign_ids_nth)

text \<open>
  C23: compaction of a well-formed graph succeeds. It renumbers the survivors without gaps and in their
  old order, the roots and the side-effect roots survive, no name dangles, and a surviving node keeps
  everything recorded for it and its value under any semantics of the operations. Without branches the
  survivors are exactly the nodes that the roots read.
\<close>

theorem compact_preserves:
  assumes "graph_inv g" and "set roots \<subseteq> {..<length (nodes g)}"
  shows "\<exists>m g'. compact roots g = Ok (m, g') \<and> graph_inv g' \<and> verify_no_dangling g' = Ok () \<and>
    (\<forall>r \<in> set roots \<union> set (side_effect_roots g). remap_get m r \<noteq> None) \<and>
    (\<forall>j < length (nodes g'). \<exists>i. remap_get m i = Some j) \<and>
    (\<forall>i i' j j'. remap_get m i = Some j \<longrightarrow> remap_get m i' = Some j' \<longrightarrow> (i < i' \<longleftrightarrow> j < j')) \<and>
    (\<forall>i j. remap_get m i = Some j \<longrightarrow> view_of g' j = view_of g i \<and> (\<forall>sem v. evals sem g' j v \<longleftrightarrow> evals sem g i v)) \<and>
    ((\<forall>i < length (nodes g). branch_target (nodes g ! i) = None) \<longrightarrow>
       (\<forall>i. remap_get m i \<noteq> None \<longleftrightarrow> (\<exists>r \<in> set roots \<union> set (side_effect_roots g). (r, i) \<in> (edges (nodes g))\<^sup>*)))"
proof -
  obtain m g' where c: "compact roots g = Ok (m, g')" "graph_inv g'" "renames (remap_get m) g g'" "verify_no_dangling g' = Ok ()"
    and m: "m = assign_ids (live_set g roots) 0 [0..<length (nodes g)]"
    and len: "length (nodes g') = length (survivors (set (live_set g roots)) (length (nodes g)))"
    by (rule graph_inv_compact [OF assms])
  have arena: "arena_ok g" "plain_branches (nodes g)" using assms(1) by (simp_all add: graph_inv_def)
  have L: "live_closed g roots (set (live_set g roots))" by (rule live_set_closed [OF arena assms(2)])
  have dm: "remap_get m i \<noteq> None \<longleftrightarrow> i \<in> set (live_set g roots)" for i
    using L unfolding m remap_get_dom live_closed_def by blast
  have s1: "remap_get m r \<noteq> None" if "r \<in> set roots \<union> set (side_effect_roots g)" for r using that L unfolding dm live_closed_def by blast
  have s2: "\<exists>i. remap_get m i = Some j" if "j < length (nodes g')" for j using that by (simp add: m remap_get_iff len)
  have s3: "i < i' \<longleftrightarrow> j < j'" if "remap_get m i = Some j" "remap_get m i' = Some j'" for i i' j j'
    using that unfolding m by (rule remap_mono)
  have s4: "view_of g' j = view_of g i \<and> (\<forall>sem v. evals sem g' j v \<longleftrightarrow> evals sem g i v)" if "remap_get m i = Some j" for i j
    using c(3) that evals_renamed [OF _ c(3) that] evals_renamed_back [OF _ c(3) that] by (auto simp: renames_def)
  have s5: "remap_get m i \<noteq> None \<longleftrightarrow> (\<exists>r \<in> set roots \<union> set (side_effect_roots g). (r, i) \<in> (edges (nodes g))\<^sup>*)"
    if "\<forall>i < length (nodes g). branch_target (nodes g ! i) = None" for i
    unfolding dm live_set_plain [OF arena(1) assms(2) that] by blast
  show ?thesis
    by (rule exI [of _ m], rule exI [of _ g'], intro conjI allI ballI impI; (rule c(1,2,4) s1 s2 s3 s5; assumption?)?)
      (erule s4 [THEN conjunct1], erule s4 [THEN conjunct2, rule_format])
qed

theorem compact_preserves_witness:
  "\<exists>m g'. compact [3] diamond = Ok (m, g') \<and> verify_no_dangling g' = Ok () \<and> remap_get m 3 \<noteq> None \<and> remap_get m 2 = None"
proof -
  have "set [3] \<subseteq> {..<length (nodes diamond)}" by (simp add: diamond_def)
  from compact_preserves [OF diamond_inv this]
  obtain m g' where c: "compact [3] diamond = Ok (m, g')" "verify_no_dangling g' = Ok ()" "remap_get m 3 \<noteq> None"
    by (elim exE conjE) simp
  have "compact [3] diamond = Ok ([Some 0, Some 1, None, Some 2, None],
      diamond\<lparr>nodes := [leaf, unary Neg 0, unary Relu 1]\<rparr>)" by code_simp
  then have "remap_get m 2 = None" using c(1) by (simp add: remap_get_def)
  then show ?thesis using c by blast
qed



section \<open>Branches\<close>

text \<open>
  C24: after \<open>finalize_branches\<close> has accepted a branch, \<open>collapse_variant_branch\<close> succeeds for every arm:
  the merge reads the winner wherever it read the first arm, the branch keeps the winner only, no cycle
  appears, and when the arms have the same value every node of the graph keeps its value.
\<close>

theorem collapse_keeps_values:
  assumes inv: "graph_inv g" and fin: "finalize_branches b r g = (Ok (Some br), g1)" and w: "w < length (arms b)"
  shows "\<exists>g2. collapse_variant_branch br w g1 = (Ok (), g2) \<and> acyclic (edges (nodes g2)) \<and>
    inputs (nodes g2 ! br) = [arms b ! w] \<and>
    inputs (nodes g2 ! r) = map (\<lambda>j. if j = arms b ! 0 then arms b ! w else j) (inputs (nodes g ! r)) \<and>
    (\<forall>v0. (\<forall>a \<in> set (arms b). evals sem g a v0) \<longrightarrow>
       (\<forall>i < length (nodes g). \<forall>v. evals sem g2 i v \<longleftrightarrow> evals sem g i v))"
proof -
  have ok: "inputs_ok (nodes g)" "acyclic (edges (nodes g))" using inv by (simp_all add: graph_inv_def arena_ok_def)
  have f: "br = length (nodes g)" "g1 = g\<lparr>nodes := nodes g @ [branch_node (nodes g) b r]\<rparr>" "r < length (nodes g)"
      "set (arms b) \<subseteq> {..<length (nodes g)}" "single_entry (nodes g) (diverge b) (arms b) r"
    using wpI_result [OF wp_finalize_branches [OF ok(1), of b r], unfolded fin] by auto
  let ?ns = "collapsed (nodes g1) br r (arms b ! 0) (arms b ! w)"
  let ?g2 = "g1\<lparr>nodes := ?ns\<rparr>"
  have bn: "nodes g1 ! br = branch_node (nodes g) b r" "length (nodes g1) = Suc br" using f by simp_all
  have col: "collapse_variant_branch br w g1 = (Ok (), ?g2)"
    using collapse_variant_branch_Ok [of br g1 r w] bn f(1,3) w by (simp add: branch_node_def branch_target_def)
  have ac: "acyclic (edges ?ns)" using acyclic_collapsed [OF ok f(5,3) w f(4)] f(1,2) by simp
  have same: "evals sem ?g2 i v \<longleftrightarrow> evals sem g i v"
    if a: "\<forall>a \<in> set (arms b). evals sem g a v0" and i: "i < length (nodes g)" for v0 i v
  proof -
    have "0 < length (arms b)" using w by linarith
    then have "evals sem g (arms b ! 0) v0" using a by simp
    then have keep: "evals sem ?g2 i u" if "evals sem g i u" for u
      using evals_collapsed [OF ac f(3) ok(1), of "branch_node (nodes g) b r" "arms b ! 0" "arms b ! w" sem v0 i u] that i a w f(1,2)
      by simp
    obtain u where u: "evals sem g i u" using evals_total [OF ok(2,1) i, of sem] by (rule exE)
    show ?thesis
    proof
      assume "evals sem ?g2 i v"
      then have "v = u" using keep [OF u] by (rule evals_unique)
      then show "evals sem g i v" using u by simp
    qed (rule keep)
  qed
  have "inputs (nodes ?g2 ! br) = [arms b ! w]" "inputs (nodes ?g2 ! r) = map (\<lambda>j. if j = arms b ! 0 then arms b ! w else j) (inputs (nodes g ! r))"
    using f(1-3) by (simp_all add: collapsed_def redirect_def nth_append nth_list_update)
  moreover have "acyclic (edges (nodes ?g2))" using ac by simp
  ultimately show ?thesis using col same by (intro exI [of _ ?g2] conjI allI impI) simp_all
qed

theorem collapse_keeps_values_witness:
  "\<exists>g1 g2. finalize_branches \<lparr>diverge = 0, arms = [1, 2]\<rparr> 3 diamond = (Ok (Some 5), g1) \<and>
    collapse_variant_branch 5 1 g1 = (Ok (), g2) \<and> acyclic (edges (nodes g2)) \<and> inputs (nodes g2 ! 3) = [2]"
proof -
  have "fst (finalize_branches \<lparr>diverge = 0, arms = [1, 2]\<rparr> 3 diamond) = Ok (Some 5)" by code_simp
  then obtain g1 where f: "finalize_branches \<lparr>diverge = 0, arms = [1, 2]\<rparr> 3 diamond = (Ok (Some 5), g1)"
    by (metis prod.collapse)
  have "1 < length (arms \<lparr>diverge = 0, arms = [1, 2]\<rparr>)" by simp
  from collapse_keeps_values [OF diamond_inv f this, of "\<lambda>_ _. 0 :: nat"]
  obtain g2 where "collapse_variant_branch 5 1 g1 = (Ok (), g2)" "acyclic (edges (nodes g2))"
      "inputs (nodes g2 ! 3) = map (\<lambda>j. if j = 1 then 2 else j) (inputs (nodes diamond ! 3))"
    by (elim exE conjE) simp_all
  then show ?thesis using f by (auto simp: diamond_def unary_def)
qed

section \<open>Views\<close>



section \<open>Reachable graphs\<close>

text \<open>
  C26: in every graph that building reaches, by appending nodes that read no branch, writing side tables,
  adding branches and compacting, every name is a node, every recorded layout has the shape of its node,
  and every node has exactly one value under any semantics of the operations.
\<close>

theorem reachable_graph_sound:
  assumes "rtranclp graph_step (graph_new gid) g"
  shows "arena_ok g \<and> layouts_ok g \<and> (\<forall>i < length (nodes g). \<exists>!v. evals sem g i v)"
proof -
  have inv: "graph_inv g" by (rule reachable_graph_inv [OF assms])
  then have "\<exists>!v. evals sem g i v" if "i < length (nodes g)" for i
    using evals_total [OF _ _ that, of sem] evals_unique [of sem g i] by (auto simp: graph_inv_def arena_ok_def)
  then show ?thesis using inv by (simp add: graph_inv_def)
qed

theorem reachable_graph_sound_witness:
  "\<exists>g :: (unit, unit) graph. rtranclp graph_step (graph_new 0) g \<and> length (nodes g) = 2 \<and>
     arena_ok g \<and> layouts_ok g \<and> (\<exists>!v. evals (\<lambda>_ _. 0 :: nat) g 1 v)"
proof -
  let ?g1 = "(graph_new 0)\<lparr>nodes := [leaf]\<rparr> :: (unit, unit) graph"
  let ?g2 = "?g1\<lparr>nodes := [leaf, unary Neg 0]\<rparr>"
  have "push leaf (graph_new 0) = (Ok 0, ?g1)" "push (unary Neg 0) ?g1 = (Ok 1, ?g2)"
    by (simp_all add: push_plain is_view_op_def leaf_def unary_def graph_new_def)
  then have "graph_step (graph_new 0) ?g1" "graph_step ?g1 ?g2"
    by (auto intro!: graph_step.Push simp: reads_plain_def view_typed_def is_view_op_def branch_target_def leaf_def unary_def)
  then have r: "rtranclp graph_step (graph_new 0) ?g2" by simp
  from reachable_graph_sound [OF r, of "\<lambda>_ _. 0 :: nat"] show ?thesis using r by (intro exI [of _ ?g2]) simp
qed

end
