(* ===== verification/GraphExtend.thy ===== *)
theory GraphExtend
  imports GraphMachine
begin

text \<open>
  Growing the arena: appending nodes changes neither what is recorded for the earlier nodes nor their
  values. The passes that rewrite a graph append nodes and redirect their callers.
\<close>

section \<open>Results as actions\<close>

definition act_result :: "('a, 'e) rust \<Rightarrow> ('s, 'a, 'e) act" where
  "act_result r s = (r, s)"

lemma wp_result [wp_simps]:
  "act_wp (act_result r) Q E s = (case r of Ok a \<Rightarrow> Q a s | Err e \<Rightarrow> E e s | Panic \<Rightarrow> False)"
  by (simp add: act_wp_def act_result_def split: rust.splits)

text \<open>The rules without the state, for use below an abstraction.\<close>

lemma wp_funs:
  "act_wp (act_bind m f) Q E = act_wp m (\<lambda>a. act_wp (f a) Q E) E"
  "act_wp (act_ret a) Q E = Q a"
  by (rule ext, simp add: wp_bind) (rule ext, simp add: wp_ret)

section \<open>Consumers within an order\<close>

text \<open>The nodes of an order that read a node, once per occurrence among their inputs.\<close>

definition consumers_in :: "'f node list \<Rightarrow> node_id list \<Rightarrow> node_id \<Rightarrow> node_id list" where
  "consumers_in ns order i = concat (map (\<lambda>k. map (\<lambda>_. k) (filter (\<lambda>j. j = i) (inputs (ns ! k)))) order)"

lemma set_consumers_in: "set (consumers_in ns order i) = {k \<in> set order. i \<in> set (inputs (ns ! k))}"
  by (auto simp: consumers_in_def)

section \<open>The value of a node as a function\<close>

definition val :: "(('f, 's) node_view \<Rightarrow> 'v list \<Rightarrow> 'v) \<Rightarrow> ('f, 's) graph \<Rightarrow> node_id \<Rightarrow> 'v" where
  "val sem g i = (THE v. evals sem g i v)"

lemma graph_inv_parts:
  assumes "graph_inv g"
  shows "inputs_ok (nodes g)" and "acyclic (edges (nodes g))" and "layouts_ok g"
  using assms by (simp_all add: graph_inv_iff arena_shape_def)

lemma evals_val: "graph_inv g \<Longrightarrow> i < length (nodes g) \<Longrightarrow> evals sem g i v \<longleftrightarrow> v = val sem g i"
  using evals_total [OF graph_inv_parts(2,1), of g i sem] theI [of "evals sem g i"] evals_unique
  unfolding val_def by metis

lemma val_step:
  assumes inv: "graph_inv g" and i: "i < length (nodes g)"
  shows "val sem g i = sem (view_of g i) (map (val sem g) (inputs (nodes g ! i)))"
proof -
  have "evals sem g j (val sem g j)" if "j \<in> set (inputs (nodes g ! i))" for j
    using evals_val [OF inv, of j sem] graph_inv_parts(1) [OF inv] that i by (simp add: inputs_ok_def)
  then have "list_all2 (evals sem g) (inputs (nodes g ! i)) (map (val sem g) (inputs (nodes g ! i)))"
    by (simp add: list_all2_conv_all_nth)
  from evals.step [OF i this] show ?thesis using evals_val [OF inv i, of sem] by metis
qed

lemma evals_cong:
  "evals sem g i v \<Longrightarrow> nodes g' = nodes g \<Longrightarrow> (\<And>i. i < length (nodes g) \<Longrightarrow> sem (view_of g' i) = sem (view_of g i)) \<Longrightarrow> evals sem g' i v"
proof (induction rule: evals.induct)
  case (step i vs)
  have "list_all2 (evals sem g') (inputs (nodes g' ! i)) vs" using step by (auto intro: list_all2_mono)
  then have "evals sem g' i (sem (view_of g' i) vs)" using step by (intro evals.step) auto
  then show ?case using step by simp
qed

lemma val_cong:
  assumes "nodes g' = nodes g" and "\<And>i. i < length (nodes g) \<Longrightarrow> sem (view_of g' i) = sem (view_of g i)"
  shows "val sem g' i = val sem g i"
proof -
  have "evals sem g' i v \<longleftrightarrow> evals sem g i v" for v
    using evals_cong [of sem g i v g'] evals_cong [of sem g' i v g] assms by auto
  then show ?thesis by (simp add: val_def)
qed

section \<open>Extension\<close>

definition extends :: "('f, 's) graph \<Rightarrow> ('f, 's) graph \<Rightarrow> bool" where
  "extends g g' \<longleftrightarrow> (\<exists>ns. nodes g' = nodes g @ ns) \<and> (\<forall>i < length (nodes g). view_of g' i = view_of g i)"

lemma extends_refl [simp]: "extends g g"
  by (simp add: extends_def)

lemma extends_length: "extends g g' \<Longrightarrow> length (nodes g) \<le> length (nodes g')"
  by (auto simp: extends_def)

lemma extends_nth: "extends g g' \<Longrightarrow> i < length (nodes g) \<Longrightarrow> nodes g' ! i = nodes g ! i"
  by (auto simp: extends_def nth_append)

lemma extends_trans: "extends g g' \<Longrightarrow> extends g' g'' \<Longrightarrow> extends g g''"
  using extends_length [of g g'] by (auto simp: extends_def)

lemma evals_extends: "evals sem g i v \<Longrightarrow> extends g g' \<Longrightarrow> evals sem g' i v"
proof (induction rule: evals.induct)
  case (step i vs)
  have "list_all2 (evals sem g') (inputs (nodes g' ! i)) vs"
    using step by (auto simp: extends_nth intro: list_all2_mono)
  then have "evals sem g' i (sem (view_of g' i) vs)" using extends_length [OF step(3)] step(1) by (intro evals.step) auto
  then show ?case using step by (simp add: extends_def)
qed

lemma val_extends:
  assumes "graph_inv g" and "graph_inv g'" and "extends g g'" and "i < length (nodes g)"
  shows "val sem g' i = val sem g i"
proof -
  have "evals sem g i (val sem g i)" using evals_val [OF assms(1,4), of sem] by blast
  then have "evals sem g' i (val sem g i)" using assms(3) by (rule evals_extends)
  then show ?thesis using evals_val [OF assms(2), of i sem] assms(3,4) extends_length [OF assms(3)] by simp
qed

section \<open>Appending a node\<close>

definition pushed :: "'f node \<Rightarrow> ('f, 's) graph \<Rightarrow> ('f, 's) graph \<Rightarrow> bool" where
  "pushed n g g' \<longleftrightarrow> graph_inv g' \<and> extends g g' \<and> nodes g' = nodes g @ [n]"

definition pushable :: "('f, 's) graph \<Rightarrow> 'f node \<Rightarrow> bool" where
  "pushable g n \<longleftrightarrow> reads_plain (nodes g) (inputs n) \<and> view_typed (nodes g) n \<and>
     (\<forall>r. branch_target n = Some r \<longrightarrow> r < length (nodes g) \<and> branch_target (nodes g ! r) = None)"

lemma view_of_snoc: "i < length (nodes g) \<Longrightarrow> view_of (g\<lparr>nodes := nodes g @ [n]\<rparr>) i = view_of g i"
  by (simp add: view_of_def nth_append)

lemma push_pushed:
  assumes inv: "graph_inv g" and n: "pushable g n"
  shows "\<exists>g'. push n g = (Ok (length (nodes g)), g') \<and> pushed n g g'"
proof (cases "is_view_op (node_op n)")
  case False
  then show ?thesis using graph_inv_snoc [OF inv] n view_of_snoc [of _ g n]
    by (simp add: push_plain pushed_def extends_def pushable_def)
next
  case True
  then obtain v where v: "node_op n = Viewing v" by (auto simp: is_view_op_def split: op.splits)
  have vt: "view_typed (nodes g) n" and bt: "branch_target n = None"
    using n v by (simp_all add: pushable_def branch_target_def)
  obtain j where j: "inputs n = [j]" "j < length (nodes g)" using vt True by (auto simp: view_typed_def)
  have lo: "layouts_ok g" by (rule graph_inv_parts(3) [OF inv])
  obtain l where l: "layout_of g j = Ok l" by (rule layout_of_ok [OF lo j(2)])
  have p: "push n g = (Ok (length (nodes g)), view_pushed n v l g)" by (rule push_view [OF lo v vt j(1) l])
  have "view_of (view_pushed n v l g) i = view_of g i" if "i < length (nodes g)" for i
    using that by (auto simp: view_of_def view_pushed_def nth_append split: rust.splits)
  then have "extends g (view_pushed n v l g)" by (simp add: extends_def view_pushed_def)
  moreover have "graph_inv (view_pushed n v l g)"
    using graph_inv_push [OF inv p _ bt vt] n by (simp add: pushable_def)
  ultimately show ?thesis using p by (auto simp: pushed_def view_pushed_def)
qed

lemma wp_push:
  assumes "graph_inv g" and "pushable g n" and "\<And>g'. pushed n g g' \<Longrightarrow> Q (length (nodes g)) g'"
  shows "act_wp (push n) Q E g"
  using push_pushed [OF assms(1,2)] assms(3) by (auto simp: act_wp_def)

lemma val_pushed:
  assumes "graph_inv g" and "pushed n g g'" and "reads_plain (nodes g) (inputs n)"
  shows "val sem g' (length (nodes g)) = sem (view_of g' (length (nodes g))) (map (val sem g) (inputs n))"
proof -
  have "val sem g' j = val sem g j" if "j \<in> set (inputs n)" for j
    using that assms val_extends [OF assms(1), of g' j sem] by (auto simp: pushed_def reads_plain_def)
  then show ?thesis using val_step [of g' "length (nodes g)" sem] assms(2)
    by (simp add: pushed_def cong: map_cong)
qed

end
