(* ===== verification/GraphRewrite.thy ===== *)
theory GraphRewrite
  imports GraphExtend
begin

text \<open>
  Passes that rewrite a graph by appending nodes: the walk in topological order they share, the contract
  of one visit as a locale, and the rebuilding of a node over replaced inputs.
\<close>

section \<open>Rewriting passes\<close>

text \<open>
  A pass visits the nodes the roots reach in topological order and records for each the node that takes
  its place. A node without an entry stands for itself.
\<close>

type_synonym replacement = "(node_id \<times> node_id) list"

definition mapped :: "replacement \<Rightarrow> node_id \<Rightarrow> node_id" where
  "mapped m i = (case map_of m i of Some j \<Rightarrow> j | None \<Rightarrow> i)"

definition walk :: "('acc \<Rightarrow> node_id \<Rightarrow> ('f, 's, 'acc) graph_act) \<Rightarrow> ('acc \<Rightarrow> replacement) \<Rightarrow> 'acc \<Rightarrow> node_id list \<Rightarrow>
    ('f, 's, node_id list) graph_act" where
  "walk visit remap_of acc roots = act_bind (act_get (\<lambda>g. topo_order_multi g roots)) (\<lambda>order.
     act_bind (act_result order) (\<lambda>order.
     act_bind (act_fold visit acc order) (\<lambda>acc'. act_ret (map (mapped (remap_of acc')) roots))))"

definition remap_ok :: "(('f, 's) node_view \<Rightarrow> 'v list \<Rightarrow> 'v) \<Rightarrow> ('f, 's) graph \<Rightarrow> replacement \<Rightarrow> bool" where
  "remap_ok sem g m \<longleftrightarrow> (\<forall>i j. map_of m i = Some j \<longrightarrow> i < length (nodes g) \<and> j < length (nodes g) \<and>
     val sem g j = val sem g i \<and> (branch_target (nodes g ! i) = None \<longrightarrow> branch_target (nodes g ! j) = None))"

lemma remap_ok_extends:
  assumes "remap_ok sem g m" and "graph_inv g" and "graph_inv g'" and "extends g g'"
  shows "remap_ok sem g' m"
proof -
  note ext = val_extends [OF assms(2,3,4), of _ sem] extends_nth [OF assms(4)]
  show ?thesis unfolding remap_ok_def
  proof (intro allI impI)
    fix i j assume "map_of m i = Some j"
    then have "i < length (nodes g) \<and> j < length (nodes g) \<and> val sem g j = val sem g i \<and>
        (branch_target (nodes g ! i) = None \<longrightarrow> branch_target (nodes g ! j) = None)"
      using assms(1) unfolding remap_ok_def by blast
    then show "i < length (nodes g') \<and> j < length (nodes g') \<and> val sem g' j = val sem g' i \<and>
        (branch_target (nodes g' ! i) = None \<longrightarrow> branch_target (nodes g' ! j) = None)"
      using ext extends_length [OF assms(4)] by auto
  qed
qed

lemma remap_ok_update:
  "remap_ok sem g m \<Longrightarrow> i < length (nodes g) \<Longrightarrow> j < length (nodes g) \<Longrightarrow> val sem g j = val sem g i \<Longrightarrow>
   (branch_target (nodes g ! i) = None \<Longrightarrow> branch_target (nodes g ! j) = None) \<Longrightarrow> remap_ok sem g (AList.update i j m)"
  by (auto simp: remap_ok_def)

lemma mapped_same:
  assumes "remap_ok sem g m" and "i < length (nodes g)"
  shows "mapped m i < length (nodes g)" and "val sem g (mapped m i) = val sem g i"
    and "branch_target (nodes g ! i) = None \<Longrightarrow> branch_target (nodes g ! mapped m i) = None"
  using assms by (auto simp: mapped_def remap_ok_def split: option.splits)

text \<open>The inputs of a node, redirected, have the values of the inputs.\<close>

lemma mapped_inputs:
  assumes "remap_ok sem g m" and "graph_inv g" and "i < length (nodes g)"
  shows "reads_plain (nodes g) (map (mapped m) (inputs (nodes g ! i)))"
    and "map (val sem g) (map (mapped m) (inputs (nodes g ! i))) = map (val sem g) (inputs (nodes g ! i))"
proof -
  have "j < length (nodes g)" "branch_target (nodes g ! j) = None" if "j \<in> set (inputs (nodes g ! i))" for j
    using that assms(2,3) by (auto simp: graph_inv_def arena_ok_def inputs_ok_def plain_branches_def)
  then show "reads_plain (nodes g) (map (mapped m) (inputs (nodes g ! i)))"
    and "map (val sem g) (map (mapped m) (inputs (nodes g ! i))) = map (val sem g) (inputs (nodes g ! i))"
    using mapped_same [OF assms(1)] by (auto simp: reads_plain_def)
qed

locale rewrite_pass =
  fixes visit :: "'acc \<Rightarrow> node_id \<Rightarrow> ('f, 's, 'acc) graph_act"
    and remap_of :: "'acc \<Rightarrow> replacement"
    and inv :: "'acc \<Rightarrow> ('f, 's) graph \<Rightarrow> bool"
    and sem :: "('f, 's) node_view \<Rightarrow> 'v list \<Rightarrow> 'v"
    and base :: nat
  assumes inv_graph: "inv acc g \<Longrightarrow> graph_inv g"
    and inv_remap: "inv acc g \<Longrightarrow> remap_ok sem g (remap_of acc)"
    and visit_ok: "inv acc g \<Longrightarrow> x < base \<Longrightarrow> base \<le> length (nodes g) \<Longrightarrow> x \<notin> dom (map_of (remap_of acc)) \<Longrightarrow>
      set (inputs (nodes g ! x)) \<subseteq> dom (map_of (remap_of acc)) \<Longrightarrow>
      act_wp (visit acc x) (\<lambda>acc' g'. inv acc' g' \<and> extends g g' \<and>
        dom (map_of (remap_of acc')) = insert x (dom (map_of (remap_of acc)))) (\<lambda>_ _. False) g"
begin

lemma visit_all:
  assumes inv: "inv acc g" and base: "base = length (nodes g)" and ord: "ordered (nodes g) order" "distinct order"
    and ins: "set order \<subseteq> {..<length (nodes g)}" and fresh: "dom (map_of (remap_of acc)) = {}"
  shows "act_wp (act_fold visit acc order)
    (\<lambda>acc' g'. inv acc' g' \<and> extends g g' \<and> dom (map_of (remap_of acc')) = set order) (\<lambda>_ _. False) g"
proof -
  let ?I = "\<lambda>acc xs h. \<exists>pre. order = pre @ xs \<and> inv acc h \<and> extends g h \<and> dom (map_of (remap_of acc)) = set pre"
  show ?thesis
  proof (rule wp_fold [where I = ?I])
    fix acc x xs h assume "?I acc (x # xs) h"
    then obtain pre where d: "order = pre @ x # xs" "inv acc h" "extends g h" "dom (map_of (remap_of acc)) = set pre" by blast
    have x: "x < length (nodes g)" "x \<notin> set pre" using ins ord(2) d(1) by auto
    have "set (inputs (nodes g ! x)) \<subseteq> set pre"
      using ord(1) [unfolded ordered_def, rule_format, of "length pre"] d(1) by simp
    then have "set (inputs (nodes h ! x)) \<subseteq> dom (map_of (remap_of acc))" using d(4) extends_nth [OF d(3) x(1)] by auto
    then have "act_wp (visit acc x) (\<lambda>acc' g'. inv acc' g' \<and> extends h g' \<and>
        dom (map_of (remap_of acc')) = insert x (dom (map_of (remap_of acc)))) (\<lambda>_ _. False) h"
      by (intro visit_ok [OF d(2)]) (use x d(4) base extends_length [OF d(3)] in simp_all)
    then show "act_wp (visit acc x) (\<lambda>acc' h. ?I acc' xs h) (\<lambda>_ _. False) h"
    proof (rule wp_mono)
      fix acc' h' assume a: "inv acc' h' \<and> extends h h' \<and> dom (map_of (remap_of acc')) = insert x (dom (map_of (remap_of acc)))"
      then show "?I acc' xs h'" using d extends_trans [OF d(3), of h'] by (intro exI [of _ "pre @ [x]"]) auto
    qed
  qed (use inv fresh in auto)
qed

text \<open>The pass succeeds, only appends, and each new root has the value of the old root.\<close>

lemma walk_sound:
  assumes inv: "inv acc g" and base: "base = length (nodes g)" and roots: "set roots \<subseteq> {..<length (nodes g)}"
    and fresh: "dom (map_of (remap_of acc)) = {}"
  obtains roots' g' acc' where "walk visit remap_of acc roots g = (Ok roots', g')" and "inv acc' g'" and "extends g g'"
    and "roots' = map (mapped (remap_of acc')) roots"
    and "map (val sem g') roots' = map (val sem g) roots" and "set roots' \<subseteq> {..<length (nodes g')}"
    and "dom (map_of (remap_of acc')) = (edges (nodes g))\<^sup>* `` set roots"
proof -
  note gi = inv_graph [OF inv]
  obtain order where o: "topo_order_multi g roots = Ok order" "distinct order" "ordered (nodes g) order"
      "set order = (edges (nodes g))\<^sup>* `` set roots"
    by (rule topo_order_multi_spec [OF graph_inv_parts(2,1) [OF gi] roots])
  have "set order \<subseteq> {..<length (nodes g)}"
    using o(4) roots reach_in [OF _ graph_inv_parts(1) [OF gi]] by auto
  note wp = visit_all [OF inv base o(3,2) this fresh]
  obtain acc' g' where f: "act_fold visit acc order g = (Ok acc', g')" and r: "inv acc' g'" "extends g g'"
      "dom (map_of (remap_of acc')) = set order"
    by (rule wp_total [OF wp]) auto
  have m: "remap_ok sem g' (remap_of acc')" by (rule inv_remap [OF r(1)])
  have "mapped (remap_of acc') i < length (nodes g') \<and> val sem g' (mapped (remap_of acc') i) = val sem g i" if "i \<in> set roots" for i
  proof -
    have i: "i < length (nodes g)" using that roots by auto
    then have "i < length (nodes g')" using extends_length [OF r(2)] by simp
    from mapped_same(1,2) [OF m this] show ?thesis
      using val_extends [OF gi inv_graph [OF r(1)] r(2) i, of sem] by simp
  qed
  then show thesis using f r o(1,4)
    by (intro that [of "map (mapped (remap_of acc')) roots" g' acc'])
      (auto simp: walk_def act_bind_def act_get_def act_result_def act_ret_def)
qed

end

section \<open>Operations and their values\<close>

lemma list_all2_mono': "list_all2 P xs ys \<Longrightarrow> (\<And>x y. x \<in> set xs \<Longrightarrow> P x y \<Longrightarrow> Q x y) \<Longrightarrow> list_all2 Q xs ys"
  by (auto simp: list_all2_conv_all_nth)

text \<open>
  Constants get their value from what is recorded for the node, every other operation computes it from
  the values of its inputs alone.
\<close>

definition op_sem :: "(('f, 's) node_view \<Rightarrow> 'v) \<Rightarrow> ('f op \<Rightarrow> 'v list \<Rightarrow> 'v) \<Rightarrow> ('f, 's) node_view \<Rightarrow> 'v list \<Rightarrow> 'v" where
  "op_sem konst compute v vs = (if v_op v = Op_Const then konst v else compute (v_op v) vs)"

text \<open>Every value has the shape and the element type recorded for its node.\<close>

definition typed :: "('v \<Rightarrow> shape \<times> dtype) \<Rightarrow> (('f, 's) node_view \<Rightarrow> 'v list \<Rightarrow> 'v) \<Rightarrow> ('f, 's) graph \<Rightarrow> bool" where
  "typed vty sem g \<longleftrightarrow> (\<forall>i v. evals sem g i v \<longrightarrow> vty v = (node_shape (nodes g ! i), node_dtype (nodes g ! i)))"

text \<open>Constants have no inputs and views the shape that inference gives.\<close>

definition well_formed :: "'f node list \<Rightarrow> 'f node \<Rightarrow> bool" where
  "well_formed ns n \<longleftrightarrow> view_typed ns n \<and> (node_op n = Op_Const \<longrightarrow> inputs n = [])"

definition all_well_formed :: "'f node list \<Rightarrow> bool" where
  "all_well_formed ns \<longleftrightarrow> (\<forall>n \<in> set ns. well_formed ns n)"

lemma not_const: "all_well_formed ns \<Longrightarrow> k < length ns \<Longrightarrow> i \<in> set (inputs (ns ! k)) \<Longrightarrow> node_op (ns ! k) \<noteq> Op_Const"
  using nth_mem [of k ns] by (fastforce simp: all_well_formed_def well_formed_def)

definition pass_inv :: "('v \<Rightarrow> shape \<times> dtype) \<Rightarrow> (('f, 's) node_view \<Rightarrow> 'v) \<Rightarrow> ('f op \<Rightarrow> 'v list \<Rightarrow> 'v) \<Rightarrow>
    replacement \<Rightarrow> ('f, 's) graph \<Rightarrow> bool" where
  "pass_inv vty konst compute m g \<longleftrightarrow> graph_inv g \<and> all_well_formed (nodes g) \<and> typed vty (op_sem konst compute) g \<and>
     remap_ok (op_sem konst compute) g m"

lemma typed_val:
  "graph_inv g \<Longrightarrow> typed vty sem g \<longleftrightarrow>
     (\<forall>i < length (nodes g). vty (val sem g i) = (node_shape (nodes g ! i), node_dtype (nodes g ! i)))"
  unfolding typed_def using evals_val [of g _ sem] by (metis evals.cases)

lemma pass_inv_ty:
  "pass_inv vty konst compute m g \<Longrightarrow> i < length (nodes g) \<Longrightarrow>
   vty (val (op_sem konst compute) g i) = (node_shape (nodes g ! i), node_dtype (nodes g ! i))"
  unfolding pass_inv_def using typed_val [of g vty "op_sem konst compute"] by blast

lemma pass_inv_parts:
  assumes "pass_inv vty konst compute m g"
  shows "graph_inv g" and "remap_ok (op_sem konst compute) g m"
  using assms by (simp_all add: pass_inv_def)

lemma val_op:
  assumes "graph_inv g" and "i < length (nodes g)" and "node_op (nodes g ! i) \<noteq> Op_Const"
  shows "val (op_sem konst compute) g i =
    compute (erase_target (node_op (nodes g ! i))) (map (val (op_sem konst compute) g) (inputs (nodes g ! i)))"
proof -
  have "v_op (view_of g i) \<noteq> Op_Const" using assms(3) by (simp add: view_of_def erase_target_def split: op.splits)
  then show ?thesis using val_step [OF assms(1,2), of "op_sem konst compute"] by (simp add: op_sem_def view_of_def)
qed

lemma view_typed_snoc: "view_typed ns n \<Longrightarrow> view_typed (ns @ ms) n"
  by (auto simp: view_typed_def nth_append)

lemma pass_inv_pushed:
  assumes inv: "pass_inv vty konst compute m g" and p: "pushed n g g'" and wf: "well_formed (nodes g) n"
    and ty: "vty (val (op_sem konst compute) g' (length (nodes g))) = (node_shape n, node_dtype n)"
  shows "pass_inv vty konst compute m g'"
proof -
  let ?sem = "op_sem konst compute"
  have gi: "graph_inv g" "graph_inv g'" and ex: "extends g g'" and ns: "nodes g' = nodes g @ [n]"
    using inv p by (auto simp: pass_inv_def pushed_def)
  have "vty (val ?sem g' i) = (node_shape (nodes g' ! i), node_dtype (nodes g' ! i))" if i: "i < length (nodes g')" for i
  proof (cases "i < length (nodes g)")
    case True
    then show ?thesis using pass_inv_ty [OF inv True] val_extends [OF gi ex True, of ?sem] extends_nth [OF ex True] by simp
  next
    case False
    then have "i = length (nodes g)" using i ns by simp
    then show ?thesis using ty ns by simp
  qed
  then have "typed vty ?sem g'" using typed_val [OF gi(2)] by blast
  moreover have "remap_ok ?sem g' m" using remap_ok_extends [OF pass_inv_parts(2) [OF inv] gi ex] .
  moreover have "all_well_formed (nodes g')" using inv wf
    by (auto simp: pass_inv_def all_well_formed_def well_formed_def ns intro: view_typed_snoc)
  ultimately show ?thesis using gi(2) by (simp add: pass_inv_def)
qed

lemma branch_target_ok:
  assumes "graph_inv g" and "x < length (nodes g)"
  shows "branch_target (nodes g ! x) = Some r \<Longrightarrow> r < length (nodes g) \<and> branch_target (nodes g ! r) = None"
  using assms unfolding graph_inv_def arena_ok_def targets_ok_def plain_branches_def by blast

text \<open>A node that can be read in place of another.\<close>

definition stands_for :: "(('f, 's) node_view \<Rightarrow> 'v list \<Rightarrow> 'v) \<Rightarrow> ('f, 's) graph \<Rightarrow> node_id \<Rightarrow> node_id \<Rightarrow> bool" where
  "stands_for sem g i j \<longleftrightarrow> j < length (nodes g) \<and> branch_target (nodes g ! j) = None \<and> val sem g j = val sem g i"

lemma stands_for_extends:
  assumes "stands_for sem g i j" and "graph_inv g" and "graph_inv g'" and "extends g g'" and "i < length (nodes g)"
  shows "stands_for sem g' i j"
  using assms(1,5) val_extends [OF assms(2-4), of _ sem] extends_nth [OF assms(4)] extends_length [OF assms(4)]
  by (simp add: stands_for_def)

lemma input_plain:
  assumes "graph_inv g" and "x < length (nodes g)" and "i \<in> set (inputs (nodes g ! x))"
  shows "i < length (nodes g)" and "branch_target (nodes g ! i) = None"
  using assms by (auto simp: graph_inv_def arena_ok_def inputs_ok_def plain_branches_def)

lemma mapped_stands_for:
  assumes "remap_ok sem g m" and "graph_inv g" and "x < length (nodes g)" and "i \<in> set (inputs (nodes g ! x))"
  shows "stands_for sem g i (mapped m i)"
  using mapped_same [OF assms(1) input_plain(1) [OF assms(2-4)]] input_plain(2) [OF assms(2-4)] by (simp add: stands_for_def)

text \<open>Rebuilding a node over inputs that stand for its inputs.\<close>

lemma rebuilt_well_formed:
  assumes inv: "pass_inv vty konst compute m g" and x: "x < length (nodes g)"
    and nc: "node_op (nodes g ! x) \<noteq> Op_Const"
    and ms: "list_all2 (stands_for (op_sem konst compute) g) (inputs (nodes g ! x)) ms"
  shows "well_formed (nodes g) ((nodes g ! x)\<lparr>inputs := ms\<rparr>)"
proof -
  let ?sem = "op_sem konst compute" and ?n = "nodes g ! x"
  have gi: "graph_inv g" by (rule pass_inv_parts(1) [OF inv])
  have "view_typed (nodes g) (?n\<lparr>inputs := ms\<rparr>)" unfolding view_typed_def
  proof
    assume "is_view_op (node_op (?n\<lparr>inputs := ms\<rparr>))"
    moreover have "view_typed (nodes g) ?n" using inv x by (simp add: pass_inv_def all_well_formed_def well_formed_def)
    ultimately obtain i where i: "inputs ?n = [i]"
        "primitive_shape (node_op ?n) [node_shape (nodes g ! i)] [node_dtype (nodes g ! i)] = Ok (node_shape ?n, node_dtype ?n)"
      by (auto simp: view_typed_def)
    obtain j where j: "ms = [j]" "stands_for ?sem g i j" using ms i(1) by (auto simp: list_all2_Cons1)
    have "(node_shape (nodes g ! j), node_dtype (nodes g ! j)) = (node_shape (nodes g ! i), node_dtype (nodes g ! i))"
      using pass_inv_ty [OF inv, of i] pass_inv_ty [OF inv, of j] input_plain(1) [OF gi x, of i] i(1) j(2) by (simp add: stands_for_def)
    then show "\<exists>j. inputs (?n\<lparr>inputs := ms\<rparr>) = [j] \<and> j < length (nodes g) \<and>
        primitive_shape (node_op (?n\<lparr>inputs := ms\<rparr>)) [node_shape (nodes g ! j)] [node_dtype (nodes g ! j)] =
        Ok (node_shape (?n\<lparr>inputs := ms\<rparr>), node_dtype (?n\<lparr>inputs := ms\<rparr>))"
      using i j by (simp add: stands_for_def)
  qed
  then show ?thesis using nc by (simp add: well_formed_def)
qed

lemma wp_rebuild:
  assumes inv: "pass_inv vty konst compute m g" and x: "x < length (nodes g)"
    and nc: "node_op (nodes g ! x) \<noteq> Op_Const"
    and ms: "list_all2 (stands_for (op_sem konst compute) g) (inputs (nodes g ! x)) ms"
    and Q: "\<And>g'. pushed ((nodes g ! x)\<lparr>inputs := ms\<rparr>) g g' \<Longrightarrow> pass_inv vty konst compute m g' \<Longrightarrow>
      val (op_sem konst compute) g' (length (nodes g)) = val (op_sem konst compute) g x \<Longrightarrow> Q (length (nodes g)) g'"
  shows "act_wp (push ((nodes g ! x)\<lparr>inputs := ms\<rparr>)) Q E g"
proof -
  let ?sem = "op_sem konst compute" and ?n = "(nodes g ! x)\<lparr>inputs := ms\<rparr>"
  note gi = pass_inv_parts(1) [OF inv] and wf = rebuilt_well_formed [OF inv x nc ms]
  have rp: "reads_plain (nodes g) ms" using ms by (auto simp: reads_plain_def stands_for_def list_all2_conv_all_nth in_set_conv_nth)
  have "branch_target ?n = Some r \<longrightarrow> r < length (nodes g) \<and> branch_target (nodes g ! r) = None" for r
    using branch_target_ok [OF gi x] by (simp add: branch_target_def)
  then have pu: "pushable g ?n" using rp wf by (simp add: pushable_def well_formed_def)
  show ?thesis
  proof (rule wp_push [OF gi pu])
    fix g' assume p: "pushed ?n g g'"
    then have gi': "graph_inv g'" and ex: "extends g g'" and ns: "nodes g' = nodes g @ [?n]" by (simp_all add: pushed_def)
    have "map (val ?sem g') ms = map (val ?sem g) ms"
      using val_extends [OF gi gi' ex, of _ ?sem] rp by (simp add: reads_plain_def)
    also have "\<dots> = map (val ?sem g) (inputs (nodes g ! x))"
      using ms by (intro nth_equalityI) (auto simp: list_all2_conv_all_nth stands_for_def)
    finally have v: "val ?sem g' (length (nodes g)) = val ?sem g x"
      using val_op [OF gi', of "length (nodes g)" konst compute] val_op [OF gi x, of konst compute] ns nc
      by (simp del: map_eq_conv)
    then have "pass_inv vty konst compute m g'" using pass_inv_pushed [OF inv p wf] pass_inv_ty [OF inv x] by simp
    then show "Q (length (nodes g)) g'" using Q p v by blast
  qed
qed

section \<open>Recording a device\<close>

text \<open>Recording a device or a backend for a node that is not a constant changes no value.\<close>

lemma table_val:
  assumes j: "node_op (nodes g ! j) \<noteq> Op_Const" and ns: "nodes g' = nodes g" and vs: "\<And>i. i \<noteq> j \<Longrightarrow> view_of g' i = view_of g i"
  shows "val (op_sem konst compute) g' = val (op_sem konst compute) g"
proof -
  let ?sem = "op_sem konst compute"
  have "?sem (view_of g' i) = ?sem (view_of g i)" if "i < length (nodes g)" for i
  proof (cases "i = j")
    case True
    then have "v_op (view_of g i) \<noteq> Op_Const" using j by (simp add: view_of_def erase_target_def split: op.splits)
    moreover have "v_op (view_of g' i) = v_op (view_of g i)" by (simp add: view_of_def ns)
    ultimately show ?thesis by (intro ext) (simp add: op_sem_def)
  qed (simp add: vs)
  then have "val ?sem g' i = val ?sem g i" for i using val_cong [of g' g ?sem i] ns by simp
  then show ?thesis by (intro ext)
qed

lemma placed_val:
  assumes gi: "graph_inv g" and j: "j < length (nodes g)" "node_op (nodes g ! j) \<noteq> Op_Const"
    and g': "g' = g\<lparr>placements := AList.update j d (placements g)\<rparr>"
  shows "graph_inv g'" and "val (op_sem konst compute) g' = val (op_sem konst compute) g"
  using graph_inv_table_setters(1) [OF gi, of j d "Ok ()" g'] j table_val [OF j(2), of g' konst compute]
  by (simp_all add: set_placement_def checked_def act_bind_def act_get_def act_set_def g' view_of_def)

lemma backed_val:
  assumes gi: "graph_inv g" and j: "j < length (nodes g)" "node_op (nodes g ! j) \<noteq> Op_Const"
    and g': "g' = g\<lparr>target_backends := AList.update j b (target_backends g)\<rparr>"
  shows "graph_inv g'" and "val (op_sem konst compute) g' = val (op_sem konst compute) g"
  using graph_inv_table_setters(2) [OF gi, of j b "Ok ()" g'] j table_val [OF j(2), of g' konst compute]
  by (simp_all add: set_target_backend_def checked_def act_bind_def act_get_def act_set_def g' view_of_def)

lemma extends_placed: "extends g h \<Longrightarrow> length (nodes g) \<le> j \<Longrightarrow> extends g (h\<lparr>placements := AList.update j d (placements h)\<rparr>)"
  by (auto simp: extends_def view_of_def)

end
