(* ===== verification/FusedParams.thy ===== *)
theory FusedParams
  imports GraphOps
begin

text \<open>
  The parameters of the fused operations and their hashable key (\<open>fuel-graph/src/registry.rs\<close>,
  \<open>FusedOpParams\<close>, \<open>FusedOpParams::key\<close>), with the injectivity that the sharing of equal nodes relies on.
\<close>

section \<open>Parameters\<close>

type_synonym f32_bits = "32 word"

datatype reduction = Mean | Sum | None_Reduction

datatype fused_op_params =
    SoftmaxLastDim
  | FusedLinear
  | RmsNormLastDim f64_bits
  | LayerNormLastDim f64_bits
  | Rope
  | Conv2D "nat \<times> nat" "nat \<times> nat" nat
  | SoftmaxLastDimBackward
  | LayerNormLastDimBackward f64_bits
  | RmsNormLastDimBackward f64_bits
  | ReduceMaxToBackward
  | PowIBackward int
  | ConvTranspose2D "nat \<times> nat" "nat \<times> nat" "nat \<times> nat" "nat \<times> nat" nat
  | FlashAttn f32_bits bool "nat option" "nat option" "f32_bits option" "dyn_scalar option"
  | PagedAttn f32_bits nat "f32_bits option"
  | QMatMul quant_type nat nat
  | InplaceAffine f64_bits f64_bits
  | SsdChunkScan nat
  | Nf4Matmul nat
  | AwqMatmul nat int
  | FlashAttnBackward f32_bits bool "nat option" "nat option" "f32_bits option"
  | SelectiveScan bool
  | CausalConv1d bool
  | FusedSoftmaxCrossEntropy reduction int
  | Runtime "f64_bits list"

section \<open>Keys\<close>

record fused_op_params_key =
  fk_tag :: nat
  fk_bits :: "64 word list"
  fk_ints :: "int list"

text \<open>The cast \<open>usize as i64\<close>.\<close>

definition as_i64 :: "nat \<Rightarrow> int" where
  "as_i64 n = (let m = int n mod 2 ^ 64 in if m < 2 ^ 63 then m else m - 2 ^ 64)"

definition of_bool_i64 :: "bool \<Rightarrow> int" where
  "of_bool_i64 b = (if b then 1 else 0)"

fun reduction_key :: "reduction \<Rightarrow> int" where
  "reduction_key Mean = 0"
| "reduction_key Sum = 1"
| "reduction_key None_Reduction = 2"

fun quant_type_key :: "quant_type \<Rightarrow> int" where
  "quant_type_key Q4_0 = 1"
| "quant_type_key Q4_1 = 2"
| "quant_type_key Q5_0 = 3"
| "quant_type_key Q5_1 = 4"
| "quant_type_key Q8_0 = 5"
| "quant_type_key Q8_1 = 6"
| "quant_type_key Q2K = 7"
| "quant_type_key Q3K = 8"
| "quant_type_key Q4_K_M = 9"
| "quant_type_key Q5K = 10"
| "quant_type_key Q6K = 11"

text \<open>Absent values take a reserved code: the least \<open>i64\<close> for a window, all ones for a cap.\<close>

definition window_key :: "nat option \<Rightarrow> int" where
  "window_key w = (case w of Some n \<Rightarrow> as_i64 n | None \<Rightarrow> - (2 ^ 63))"

definition softcap_key :: "f32_bits option \<Rightarrow> 64 word" where
  "softcap_key c = (case c of Some x \<Rightarrow> ucast x | None \<Rightarrow> - 1)"

definition k_len_key :: "dyn_scalar option \<Rightarrow> int list" where
  "k_len_key k = (case k of
     None \<Rightarrow> [0, 0] | Some (Concrete v) \<Rightarrow> [1, as_i64 v] | Some (Sym s) \<Rightarrow> [2, as_i64 s])"

fun params_key :: "fused_op_params \<Rightarrow> fused_op_params_key" where
  "params_key SoftmaxLastDim = \<lparr>fk_tag = 1, fk_bits = [], fk_ints = []\<rparr>"
| "params_key FusedLinear = \<lparr>fk_tag = 2, fk_bits = [], fk_ints = []\<rparr>"
| "params_key (RmsNormLastDim eps) = \<lparr>fk_tag = 3, fk_bits = [eps], fk_ints = []\<rparr>"
| "params_key (LayerNormLastDim eps) = \<lparr>fk_tag = 4, fk_bits = [eps], fk_ints = []\<rparr>"
| "params_key Rope = \<lparr>fk_tag = 5, fk_bits = [], fk_ints = []\<rparr>"
| "params_key (Conv2D s p g) = \<lparr>fk_tag = 6, fk_bits = [],
     fk_ints = [as_i64 (fst s), as_i64 (snd s), as_i64 (fst p), as_i64 (snd p), as_i64 g]\<rparr>"
| "params_key SoftmaxLastDimBackward = \<lparr>fk_tag = 7, fk_bits = [], fk_ints = []\<rparr>"
| "params_key (LayerNormLastDimBackward eps) = \<lparr>fk_tag = 8, fk_bits = [eps], fk_ints = []\<rparr>"
| "params_key (RmsNormLastDimBackward eps) = \<lparr>fk_tag = 9, fk_bits = [eps], fk_ints = []\<rparr>"
| "params_key ReduceMaxToBackward = \<lparr>fk_tag = 10, fk_bits = [], fk_ints = []\<rparr>"
| "params_key (ConvTranspose2D s p op dil g) = \<lparr>fk_tag = 11, fk_bits = [],
     fk_ints = [as_i64 (fst s), as_i64 (snd s), as_i64 (fst p), as_i64 (snd p), as_i64 (fst op), as_i64 (snd op),
       as_i64 (fst dil), as_i64 (snd dil), as_i64 g]\<rparr>"
| "params_key (FlashAttn scale causal wl wr cap k) = \<lparr>fk_tag = 12, fk_bits = [ucast scale, softcap_key cap],
     fk_ints = [of_bool_i64 causal, window_key wl, window_key wr] @ k_len_key k\<rparr>"
| "params_key (PagedAttn scale bs cap) = \<lparr>fk_tag = 13, fk_bits = [ucast scale, softcap_key cap], fk_ints = [as_i64 bs]\<rparr>"
| "params_key (QMatMul q k n) = \<lparr>fk_tag = 14, fk_bits = [], fk_ints = [quant_type_key q, as_i64 k, as_i64 n]\<rparr>"
| "params_key (PowIBackward e) = \<lparr>fk_tag = 15, fk_bits = [], fk_ints = [e]\<rparr>"
| "params_key (InplaceAffine m a) = \<lparr>fk_tag = 16, fk_bits = [m, a], fk_ints = []\<rparr>"
| "params_key (FusedSoftmaxCrossEntropy r i) = \<lparr>fk_tag = 17, fk_bits = [], fk_ints = [reduction_key r, i]\<rparr>"
| "params_key (CausalConv1d b) = \<lparr>fk_tag = 18, fk_bits = [], fk_ints = [of_bool_i64 b]\<rparr>"
| "params_key (SelectiveScan b) = \<lparr>fk_tag = 19, fk_bits = [], fk_ints = [of_bool_i64 b]\<rparr>"
| "params_key (SsdChunkScan c) = \<lparr>fk_tag = 20, fk_bits = [], fk_ints = [as_i64 c]\<rparr>"
| "params_key (Nf4Matmul bs) = \<lparr>fk_tag = 21, fk_bits = [], fk_ints = [as_i64 bs]\<rparr>"
| "params_key (AwqMatmul gs sk) = \<lparr>fk_tag = 23, fk_bits = [], fk_ints = [as_i64 gs, sk]\<rparr>"
| "params_key (FlashAttnBackward scale causal wl wr cap) = \<lparr>fk_tag = 22, fk_bits = [ucast scale, softcap_key cap],
     fk_ints = [of_bool_i64 causal, window_key wl, window_key wr]\<rparr>"
| "params_key (Runtime scalars) = \<lparr>fk_tag = 61440, fk_bits = scalars, fk_ints = []\<rparr>"

section \<open>Injectivity\<close>

definition usize :: "nat \<Rightarrow> bool" where
  "usize n \<longleftrightarrow> n < 2 ^ 64"

definition window_ok :: "nat option \<Rightarrow> bool" where
  "window_ok w \<longleftrightarrow> (case w of Some n \<Rightarrow> usize n \<and> n \<noteq> 2 ^ 63 | None \<Rightarrow> True)"

definition k_len_ok :: "dyn_scalar option \<Rightarrow> bool" where
  "k_len_ok k \<longleftrightarrow> (case k of None \<Rightarrow> True | Some (Concrete v) \<Rightarrow> usize v | Some (Sym s) \<Rightarrow> usize s)"

text \<open>Parameters at machine width, without the window that collides with its sentinel.\<close>

fun params_ok :: "fused_op_params \<Rightarrow> bool" where
  "params_ok (Conv2D s p g) = (usize (fst s) \<and> usize (snd s) \<and> usize (fst p) \<and> usize (snd p) \<and> usize g)"
| "params_ok (ConvTranspose2D s p op dil g) = (usize (fst s) \<and> usize (snd s) \<and> usize (fst p) \<and> usize (snd p) \<and>
     usize (fst op) \<and> usize (snd op) \<and> usize (fst dil) \<and> usize (snd dil) \<and> usize g)"
| "params_ok (FlashAttn scale causal wl wr cap k) = (window_ok wl \<and> window_ok wr \<and> k_len_ok k)"
| "params_ok (PagedAttn scale bs cap) = usize bs"
| "params_ok (QMatMul q k n) = (usize k \<and> usize n)"
| "params_ok (SsdChunkScan c) = usize c"
| "params_ok (Nf4Matmul bs) = usize bs"
| "params_ok (AwqMatmul gs sk) = usize gs"
| "params_ok (FlashAttnBackward scale causal wl wr cap) = (window_ok wl \<and> window_ok wr)"
| "params_ok _ = True"

lemma as_i64_inj: "as_i64 a = as_i64 b \<Longrightarrow> usize a \<Longrightarrow> usize b \<Longrightarrow> a = b"
  by (auto simp: as_i64_def usize_def Let_def split: if_splits)

lemma as_i64_min: "usize n \<Longrightarrow> as_i64 n = - (2 ^ 63) \<longleftrightarrow> n = 2 ^ 63"
  by (auto simp: as_i64_def usize_def Let_def split: if_splits)

lemma of_bool_i64_inj [simp]: "of_bool_i64 a = of_bool_i64 b \<longleftrightarrow> a = b"
  by (simp add: of_bool_i64_def)

lemma reduction_key_inj [simp]: "reduction_key a = reduction_key b \<longleftrightarrow> a = b"
  by (cases a; cases b) auto

lemma quant_type_key_inj [simp]: "quant_type_key a = quant_type_key b \<longleftrightarrow> a = b"
  by (cases a; cases b) auto

lemma window_key_inj: "window_key a = window_key b \<Longrightarrow> window_ok a \<Longrightarrow> window_ok b \<Longrightarrow> a = b"
  using as_i64_min by (auto simp: window_key_def window_ok_def dest: as_i64_inj split: option.splits)

lemma uint_f32: "uint (ucast (x :: f32_bits) :: 64 word) = uint x"
  by (simp add: unsigned_ucast_eq take_bit_int_eq_self_iff order_less_trans [OF uint_lt2p])

lemma ucast_f32_inj [simp]: "(ucast (x :: f32_bits) :: 64 word) = ucast y \<longleftrightarrow> x = y"
  by (metis uint_f32 word_uint_eqI)

lemma ucast_f32_small: "(ucast (x :: f32_bits) :: 64 word) \<noteq> - 1"
proof
  assume "(ucast x :: 64 word) = - 1"
  then have "bit (ucast x :: 64 word) 40 = bit (- 1 :: 64 word) 40" by simp
  then show False using bit_imp_le_length [of x 40] by (simp add: bit_simps)
qed

lemma softcap_key_inj [simp]: "softcap_key a = softcap_key b \<longleftrightarrow> a = b"
  using ucast_f32_small ucast_f32_small [symmetric] by (auto simp: softcap_key_def split: option.splits)

lemma k_len_key_inj: "k_len_key a = k_len_key b \<Longrightarrow> k_len_ok a \<Longrightarrow> k_len_ok b \<Longrightarrow> a = b"
  by (auto simp: k_len_key_def k_len_ok_def dest: as_i64_inj split: option.splits dyn_scalar.splits)

lemma params_key_inj: "params_key a = params_key b \<Longrightarrow> params_ok a \<Longrightarrow> params_ok b \<Longrightarrow> a = b"
  by (cases a; cases b; simp; auto dest: as_i64_inj window_key_inj k_len_key_inj intro: prod_eqI)

end
