(* ===== verification/OpKeys.thy ===== *)
theory OpKeys
  imports FusedParams
begin

text \<open>
  The hashable key of an operation (\<open>fuel-graph/src/opt.rs\<close>, \<open>op_key\<close>, \<open>dtype_key\<close>): equal nodes are
  recognised by it. The key determines the operation, for parameters at machine width and shapes without
  dynamic axes.
\<close>

section \<open>Keys\<close>

record opkey =
  key_tag :: nat
  key_ints :: "int list"
  key_bits :: "64 word list"
  key_dims :: "nat list"
  key_shape :: "nat list option"
  key_dtype :: "32 word option"

definition plain_key :: "nat \<Rightarrow> opkey" where
  "plain_key t = \<lparr>key_tag = t, key_ints = [], key_bits = [], key_dims = [], key_shape = None, key_dtype = None\<rparr>"

definition ints_key :: "nat \<Rightarrow> int list \<Rightarrow> opkey" where
  "ints_key t xs = (plain_key t)\<lparr>key_ints := xs\<rparr>"

definition bits_key :: "nat \<Rightarrow> 64 word list \<Rightarrow> opkey" where
  "bits_key t bs = (plain_key t)\<lparr>key_bits := bs\<rparr>"

definition shaped_key :: "nat \<Rightarrow> shape \<Rightarrow> opkey" where
  "shaped_key t s = (plain_key t)\<lparr>key_shape := Some (dims s)\<rparr>"

text \<open>The debug name of an element type, hashed with multiplier 31 in wrapping arithmetic.\<close>

fun dtype_name :: "dtype \<Rightarrow> string" where
  "dtype_name U8 = ''U8''"
| "dtype_name I8 = ''I8''"
| "dtype_name U32 = ''U32''"
| "dtype_name I16 = ''I16''"
| "dtype_name I32 = ''I32''"
| "dtype_name I64 = ''I64''"
| "dtype_name BF16 = ''BF16''"
| "dtype_name F16 = ''F16''"
| "dtype_name F32 = ''F32''"
| "dtype_name F64 = ''F64''"
| "dtype_name F8E4M3 = ''F8E4M3''"
| "dtype_name F8E5M2 = ''F8E5M2''"
| "dtype_name F6E2M3 = ''F6E2M3''"
| "dtype_name F6E3M2 = ''F6E3M2''"
| "dtype_name F4 = ''F4''"
| "dtype_name F8E8M0 = ''F8E8M0''"
| "dtype_name F8E6M2 = ''F8E6M2''"
| "dtype_name Bool = ''Bool''"

definition dtype_key :: "dtype \<Rightarrow> 32 word" where
  "dtype_key d = fold (\<lambda>c acc. acc * 31 + of_char c) (dtype_name d) 0"

fun unary_tag :: "unary_op \<Rightarrow> nat" where
  "unary_tag Neg = 10" | "unary_tag Sqr = 11" | "unary_tag Sqrt = 12" | "unary_tag Exp = 13"
| "unary_tag Log = 14" | "unary_tag Sin = 15" | "unary_tag Cos = 16" | "unary_tag Tanh = 17"
| "unary_tag Sigmoid = 18" | "unary_tag Silu = 19" | "unary_tag GeluTanh = 20" | "unary_tag Relu = 21"
| "unary_tag Step = 22" | "unary_tag Recip = 23" | "unary_tag Abs = 24" | "unary_tag Floor = 35"
| "unary_tag Ceil = 36" | "unary_tag Round = 37" | "unary_tag Sign = 38" | "unary_tag Erf = 39"
| "unary_tag Gelu = 47" | "unary_tag Rsqrt = 54"

fun binary_tag :: "binary_op \<Rightarrow> nat" where
  "binary_tag Add = 1" | "binary_tag Sub = 2" | "binary_tag Mul = 3" | "binary_tag Div = 4"
| "binary_tag Maximum = 100" | "binary_tag Minimum = 101" | "binary_tag Pow = 49" | "binary_tag Rem = 55"

fun compare_tag :: "compare_op \<Rightarrow> nat" where
  "compare_tag Equal = 25" | "compare_tag Ne = 26" | "compare_tag Lt = 27" | "compare_tag Le = 28"
| "compare_tag Gt = 29" | "compare_tag Ge = 33"

fun mode_tag :: "pad_mode \<Rightarrow> int" where
  "mode_tag Pad_Constant = 0" | "mode_tag Pad_Reflect = 1" | "mode_tag Pad_Replicate = 2"

definition pad_ints :: "(nat \<times> nat) list \<Rightarrow> pad_mode \<Rightarrow> int list" where
  "pad_ints padding m = concat (map (\<lambda>(b, a). [as_i64 b, as_i64 a]) padding) @ [mode_tag m]"

fun elem_key :: "elem_op \<Rightarrow> opkey option" where
  "elem_key Op_Contiguize = Some (plain_key 46)"
| "elem_key (Op_AddScalar c) = Some (bits_key 90 [c])"
| "elem_key (Op_MulScalar c) = Some (bits_key 91 [c])"
| "elem_key (Op_PowI n) = Some (ints_key 92 [n])"
| "elem_key (Op_Clamp lo hi) = Some (bits_key 93 [lo, hi])"
| "elem_key (Op_CumSum d) = Some (ints_key 58 [as_i64 d])"
| "elem_key (Op_Roll d s) = Some (ints_key 57 [as_i64 d, s])"
| "elem_key _ = None"

fun view_key :: "view_op_kind \<Rightarrow> opkey" where
  "view_key Op_Transpose = plain_key 31"
| "view_key (Op_Permute axes) = (plain_key 32)\<lparr>key_dims := axes\<rparr>"
| "view_key (Op_BroadcastTo s) = shaped_key 41 s"
| "view_key (Op_Slice d start len) = ints_key 81 [as_i64 d, as_i64 start, as_i64 len]"
| "view_key (Op_Unsqueeze d) = ints_key 45 [as_i64 d]"
| "view_key (Op_Squeeze d) = ints_key 48 [as_i64 d]"
| "view_key (Op_Flip d) = ints_key 56 [as_i64 d]"

fun shaping_key :: "shape_op \<Rightarrow> opkey" where
  "shaping_key (Op_Reshape s) = shaped_key 42 s"
| "shaping_key (Op_ReduceSumTo s) = shaped_key 43 s"
| "shaping_key (Op_ReduceMaxTo s) = shaped_key 44 s"
| "shaping_key (Op_Concat d) = ints_key 80 [as_i64 d]"
| "shaping_key (Op_Pad padding m v) = (ints_key 59 (pad_ints padding m))\<lparr>key_bits := [v]\<rparr>"
| "shaping_key (Op_PadBackward s padding m) = (shaped_key 60 s)\<lparr>key_ints := pad_ints padding m\<rparr>"
| "shaping_key (Op_Cast d) = (plain_key 40)\<lparr>key_dtype := Some (dtype_key d)\<rparr>"

fun reduce_code :: "reduce_op \<Rightarrow> nat" where
  "reduce_code Red_Sum = 0" | "reduce_code Red_Max = 1" | "reduce_code Red_Min = 2" | "reduce_code Red_Mean = 3"

fun reducing_key :: "reducing_op \<Rightarrow> opkey" where
  "reducing_key (Op_All r) = plain_key (50 + reduce_code r)"
| "reducing_key (Op_Dim r d) = ints_key (60 + reduce_code r) [as_i64 d]"
| "reducing_key (Op_ArgMaxDim d) = ints_key 64 [as_i64 d]"
| "reducing_key (Op_ArgMinDim d) = ints_key 65 [as_i64 d]"

fun scanning_key :: "scan_op \<Rightarrow> opkey" where
  "scanning_key (Op_Scan n_carries n_xs bd emit early) =
     ints_key 210 [as_i64 n_xs, as_i64 bd, if emit = Emit_All then 0 else 1, of_bool_i64 early, as_i64 n_carries]"
| "scanning_key (Op_ScanPlaceholder role i) = ints_key 211 [if role = Role_Carry then 0 else 1, as_i64 i]"

definition fused_key :: "fused_op_id \<Rightarrow> fused_op_params \<Rightarrow> opkey" where
  "fused_key i f = (let k = params_key f in
     (ints_key 200 ([int i, int (fk_tag k)] @ fk_ints k))\<lparr>key_bits := fk_bits k\<rparr>)"

text \<open>Constants, in-place and memory operations, indexing and projections have no key.\<close>

definition op_key :: "fused_op_params op \<Rightarrow> opkey option" where
  "op_key p = (case p of
     Unary u \<Rightarrow> Some (plain_key (unary_tag u))
   | Binary b \<Rightarrow> Some (plain_key (binary_tag b))
   | Compare c \<Rightarrow> Some (plain_key (compare_tag c))
   | Op_Where \<Rightarrow> Some (plain_key 34)
   | Op_MatMul \<Rightarrow> Some (plain_key 30)
   | Elementwise e \<Rightarrow> elem_key e
   | Viewing v \<Rightarrow> Some (view_key v)
   | Shaping sp \<Rightarrow> Some (shaping_key sp)
   | Reducing r \<Rightarrow> Some (reducing_key r)
   | Op_Fused i f \<Rightarrow> Some (fused_key i f)
   | Scanning sc \<Rightarrow> Some (scanning_key sc)
   | _ \<Rightarrow> None)"

section \<open>Injectivity\<close>

definition static :: "shape \<Rightarrow> bool" where
  "static s \<longleftrightarrow> dyn_axes s = None"

fun view_ok :: "view_op_kind \<Rightarrow> bool" where
  "view_ok (Op_BroadcastTo s) = static s"
| "view_ok (Op_Slice d start len) = (usize d \<and> usize start \<and> usize len)"
| "view_ok (Op_Unsqueeze d) = usize d"
| "view_ok (Op_Squeeze d) = usize d"
| "view_ok (Op_Flip d) = usize d"
| "view_ok _ = True"

definition padding_ok :: "(nat \<times> nat) list \<Rightarrow> bool" where
  "padding_ok padding = list_all (\<lambda>(b, a). usize b \<and> usize a) padding"

fun shaping_ok :: "shape_op \<Rightarrow> bool" where
  "shaping_ok (Op_Reshape s) = static s"
| "shaping_ok (Op_ReduceSumTo s) = static s"
| "shaping_ok (Op_ReduceMaxTo s) = static s"
| "shaping_ok (Op_Concat d) = usize d"
| "shaping_ok (Op_Pad padding m v) = padding_ok padding"
| "shaping_ok (Op_PadBackward s padding m) = (static s \<and> padding_ok padding)"
| "shaping_ok (Op_Cast d) = True"

fun elem_ok :: "elem_op \<Rightarrow> bool" where
  "elem_ok (Op_CumSum d) = usize d"
| "elem_ok (Op_Roll d s) = usize d"
| "elem_ok _ = True"

fun reducing_ok :: "reducing_op \<Rightarrow> bool" where
  "reducing_ok (Op_All r) = True"
| "reducing_ok (Op_Dim r d) = usize d"
| "reducing_ok (Op_ArgMaxDim d) = usize d"
| "reducing_ok (Op_ArgMinDim d) = usize d"

fun scanning_ok :: "scan_op \<Rightarrow> bool" where
  "scanning_ok (Op_Scan n_carries n_xs bd emit early) = (usize n_carries \<and> usize n_xs \<and> usize bd)"
| "scanning_ok (Op_ScanPlaceholder role i) = usize i"

text \<open>Parameters at machine width, without dynamic axes.\<close>

definition op_ok :: "fused_op_params op \<Rightarrow> bool" where
  "op_ok p = (case p of
     Elementwise e \<Rightarrow> elem_ok e | Viewing v \<Rightarrow> view_ok v | Shaping sp \<Rightarrow> shaping_ok sp | Reducing r \<Rightarrow> reducing_ok r
   | Op_Fused i f \<Rightarrow> params_ok f | Scanning sc \<Rightarrow> scanning_ok sc | _ \<Rightarrow> True)"

lemmas key_defs = plain_key_def ints_key_def bits_key_def shaped_key_def fused_key_def

lemma static_eq: "static s \<Longrightarrow> static t \<Longrightarrow> dims s = dims t \<Longrightarrow> s = t"
  by (simp add: static_def)

lemma dtype_key_inj: "dtype_key a = dtype_key b \<Longrightarrow> a = b"
proof -
  have *: "distinct (map dtype_key [U8, I8, U32, I16, I32, I64, BF16, F16, F32, F64, F8E4M3, F8E5M2, F6E2M3, F6E3M2, F4,
      F8E8M0, F8E6M2, Bool])" by code_simp
  have "d \<in> set [U8, I8, U32, I16, I32, I64, BF16, F16, F32, F64, F8E4M3, F8E5M2, F6E2M3, F6E3M2, F4, F8E8M0, F8E6M2, Bool]" for d
    by (cases d) simp_all
  then show "dtype_key a = dtype_key b \<Longrightarrow> a = b" using * unfolding distinct_map inj_on_def by blast
qed

lemma mode_tag_inj [simp]: "mode_tag a = mode_tag b \<longleftrightarrow> a = b"
  by (cases a; cases b) auto

lemma pad_ints_inj:
  assumes "pad_ints p m = pad_ints q m'" and "padding_ok p" and "padding_ok q"
  shows "p = q \<and> m = m'"
proof -
  let ?f = "\<lambda>(b, a). [as_i64 b, as_i64 a]"
  have eq: "concat (map ?f p) = concat (map ?f q)" and m: "m = m'" using assms(1) by (auto simp: pad_ints_def)
  have "concat (map ?f p) = concat (map ?f q) \<Longrightarrow> padding_ok p \<Longrightarrow> padding_ok q \<Longrightarrow> p = q" for p q
  proof (induction p arbitrary: q)
    case Nil
    then show ?case by (cases q) auto
  next
    case (Cons x p)
    then show ?case by (cases q) (auto simp: padding_ok_def dest: as_i64_inj)
  qed
  then show ?thesis using eq assms(2,3) m by blast
qed


lemma unary_tag_inj [simp]: "unary_tag a = unary_tag b \<longleftrightarrow> a = b"
  by (cases a; cases b) auto

lemma binary_tag_inj [simp]: "binary_tag a = binary_tag b \<longleftrightarrow> a = b"
  by (cases a; cases b) auto

lemma compare_tag_inj [simp]: "compare_tag a = compare_tag b \<longleftrightarrow> a = b"
  by (cases a; cases b) auto

lemma reduce_code_inj [simp]: "reduce_code a = reduce_code b \<longleftrightarrow> a = b"
  by (cases a; cases b) auto

lemma elem_key_inj: "elem_key a = Some k \<Longrightarrow> elem_key b = Some k \<Longrightarrow> elem_ok a \<Longrightarrow> elem_ok b \<Longrightarrow> a = b"
  by (cases a; cases b) (auto simp: key_defs dest: as_i64_inj)

lemma view_key_inj: "view_key a = view_key b \<Longrightarrow> view_ok a \<Longrightarrow> view_ok b \<Longrightarrow> a = b"
  by (cases a; cases b) (auto simp: key_defs intro: static_eq dest: as_i64_inj)

lemma shaping_key_inj: "shaping_key a = shaping_key b \<Longrightarrow> shaping_ok a \<Longrightarrow> shaping_ok b \<Longrightarrow> a = b"
  by (cases a; cases b) (auto simp: key_defs intro: static_eq dest: as_i64_inj pad_ints_inj dtype_key_inj)

lemma reduce_code_apart [simp]:
  "reduce_code r \<noteq> 10 + reduce_code r'" "10 + reduce_code r \<noteq> reduce_code r'"
  "reduce_code r \<noteq> 4" "reduce_code r \<noteq> 5" "reduce_code r \<noteq> 14" "reduce_code r \<noteq> 15"
  "4 \<noteq> reduce_code r" "5 \<noteq> reduce_code r" "14 \<noteq> reduce_code r" "15 \<noteq> reduce_code r"
  by (cases r; cases r'; simp)+

lemma reducing_key_inj: "reducing_key a = reducing_key b \<Longrightarrow> reducing_ok a \<Longrightarrow> reducing_ok b \<Longrightarrow> a = b"
  by (cases a; cases b) (auto simp: key_defs dest: as_i64_inj)

lemma scanning_key_inj: "scanning_key a = scanning_key b \<Longrightarrow> scanning_ok a \<Longrightarrow> scanning_ok b \<Longrightarrow> a = b"
  by (cases a; cases b) (auto simp: key_defs dest: as_i64_inj split: if_splits intro: scan_emit.exhaust scan_role.exhaust)

lemma fused_key_inj: "fused_key i a = fused_key j b \<Longrightarrow> params_ok a \<Longrightarrow> params_ok b \<Longrightarrow> i = j \<and> a = b"
  by (auto simp: key_defs Let_def intro: params_key_inj)

text \<open>
  The tag names the group of the operation, except for 60, which a backward padding and a sum over a
  dimension share: only the padding carries a shape.
\<close>

definition key_group :: "opkey \<Rightarrow> nat" where
  "key_group k = (let t = key_tag k in
     if t \<in> {10, 11, 12, 13, 14, 15, 16, 17, 18, 19, 20, 21, 22, 23, 24, 35, 36, 37, 38, 39, 47, 54} then 0
     else if t \<in> {1, 2, 3, 4, 49, 55, 100, 101} then 1
     else if t \<in> {25, 26, 27, 28, 29, 33} then 2
     else if t = 34 then 3
     else if t = 30 then 4
     else if t \<in> {46, 57, 58, 90, 91, 92, 93} then 5
     else if t \<in> {31, 32, 41, 45, 48, 56, 81} then 6
     else if t \<in> {40, 42, 43, 44, 59, 80} \<or> t = 60 \<and> key_shape k \<noteq> None then 7
     else if t = 200 then 9
     else if t \<in> {210, 211} then 10
     else 8)"

fun op_group :: "'f op \<Rightarrow> nat" where
  "op_group (Unary u) = 0" | "op_group (Binary b) = 1" | "op_group (Compare c) = 2" | "op_group Op_Where = 3"
| "op_group Op_MatMul = 4" | "op_group (Elementwise e) = 5" | "op_group (Viewing v) = 6" | "op_group (Shaping sp) = 7"
| "op_group (Reducing r) = 8" | "op_group (Op_Fused i f) = 9" | "op_group (Scanning sc) = 10" | "op_group _ = 11"

lemma group_unary: "key_group (plain_key (unary_tag u)) = 0"
  by (cases u) (simp_all add: key_group_def key_defs)

lemma group_binary: "key_group (plain_key (binary_tag b)) = 1"
  by (cases b) (simp_all add: key_group_def key_defs)

lemma group_compare: "key_group (plain_key (compare_tag c)) = 2"
  by (cases c) (simp_all add: key_group_def key_defs)

lemma group_elem: "elem_key e = Some k \<Longrightarrow> key_group k = 5"
  by (cases e) (auto simp: key_group_def key_defs)

lemma group_view: "key_group (view_key v) = 6"
  by (cases v) (simp_all add: key_group_def key_defs)

lemma group_shaping: "key_group (shaping_key sp) = 7"
  by (cases sp) (simp_all add: key_group_def key_defs)

lemma group_scanning: "key_group (scanning_key sc) = 10"
  by (cases sc) (simp_all add: key_group_def key_defs)

lemmas group_keys = group_unary group_binary group_compare group_elem group_view group_shaping group_scanning

lemma group_reducing: "key_group (reducing_key r) = 8"
proof (cases r)
  case (Op_All x)
  then show ?thesis by (cases x) (simp_all add: key_group_def key_defs)
next
  case (Op_Dim x d)
  then show ?thesis by (cases x) (simp_all add: key_group_def key_defs)
qed (simp_all add: key_group_def key_defs)

lemma op_key_group: "op_key p = Some k \<Longrightarrow> key_group k = op_group p"
  by (cases p) (auto simp: op_key_def group_keys group_reducing,
    simp_all add: key_group_def key_defs Let_def)

lemma op_key_inj:
  assumes "op_key p = Some k" and "op_key q = Some k" and "op_ok p" and "op_ok q"
  shows "p = q"
proof -
  have g: "op_group p = op_group q" using op_key_group [OF assms(1)] op_key_group [OF assms(2)] by simp
  show ?thesis
  proof (cases p)
    case (Elementwise e)
    then show ?thesis using g assms by (cases q) (auto simp: op_key_def op_ok_def intro: elem_key_inj)
  next
    case (Viewing v)
    then show ?thesis using g assms by (cases q) (auto simp: op_key_def op_ok_def intro: view_key_inj)
  next
    case (Shaping sp)
    then show ?thesis using g assms by (cases q) (auto simp: op_key_def op_ok_def intro: shaping_key_inj)
  next
    case (Reducing r)
    then show ?thesis using g assms by (cases q) (auto simp: op_key_def op_ok_def intro: reducing_key_inj)
  next
    case (Op_Fused i f)
    then show ?thesis using g assms by (cases q) (auto simp: op_key_def op_ok_def dest: fused_key_inj)
  next
    case (Scanning sc)
    then show ?thesis using g assms by (cases q) (auto simp: op_key_def op_ok_def intro: scanning_key_inj)
  qed (use g assms in \<open>cases q; auto simp: op_key_def plain_key_def\<close>)+
qed

end
