(* ===== verification/GraphOpt.thy ===== *)
theory GraphOpt
  imports GraphRewrite OpKeys
begin

text \<open>
  Common subexpression elimination and algebraic simplification (\<open>fuel-graph/src/opt.rs\<close>, \<open>optimize\<close>,
  \<open>try_simplify\<close>, \<open>is_commutative\<close>): one walk in topological order that redirects identity operations
  to their input, lowers a cast from a float to a truth value, and merges nodes with equal keys. The
  result has the value of the original under any meaning of the operations that satisfies the laws
  the rules rest on.
\<close>

section \<open>The pass\<close>

definition is_float :: "dtype \<Rightarrow> bool" where
  "is_float d \<longleftrightarrow> d \<in> {BF16, F16, F32, F64, F8E4M3, F8E5M2, F6E2M3, F6E3M2, F4, F8E8M0, F8E6M2}"

text \<open>Comparison of doubles with 0.0 and 1.0 on bit patterns: both zeros equal 0.0.\<close>

definition f64_is_zero :: "f64_bits \<Rightarrow> bool" where
  "f64_is_zero c \<longleftrightarrow> c = 0 \<or> c = 0x8000000000000000"

definition f64_is_one :: "f64_bits \<Rightarrow> bool" where
  "f64_is_one c \<longleftrightarrow> c = 0x3FF0000000000000"

definition is_commutative :: "'f op \<Rightarrow> bool" where
  "is_commutative p = (case p of Binary b \<Rightarrow> b = Add \<or> b = Mul | _ \<Rightarrow> False)"

definition is_identity :: "'f op \<Rightarrow> bool" where
  "is_identity p = (case p of
     Elementwise (Op_AddScalar c) \<Rightarrow> f64_is_zero c
   | Elementwise (Op_MulScalar c) \<Rightarrow> f64_is_one c
   | Elementwise (Op_PowI k) \<Rightarrow> k = 1
   | _ \<Rightarrow> False)"

definition try_simplify :: "'f op \<Rightarrow> node_id list \<Rightarrow> node_id option ir_result" where
  "try_simplify p is = (if is_identity p then (case is of [] \<Rightarrow> Panic | i # _ \<Rightarrow> Ok (Some i)) else Ok None)"

type_synonym cse_table = "((opkey \<times> node_id list) \<times> node_id) list"

definition key_inputs :: "'f op \<Rightarrow> node_id list \<Rightarrow> node_id list" where
  "key_inputs p is = (if is_commutative p then sort is else is)"

text \<open>The node that stands for the rule of casts, if one fires.\<close>

definition cast_rule :: "dtype \<Rightarrow> node_id list \<Rightarrow> ('f, 's, node_id option) graph_act" where
  "cast_rule t ms = act_bind (act_get nodes) (\<lambda>ns. case ms of
     [] \<Rightarrow> act_panic
   | x # _ \<Rightarrow>
       if length ns \<le> x then act_panic
       else if node_dtype (ns ! x) = t then act_ret (Some x)
       else if t = Bool \<and> is_float (node_dtype (ns ! x)) then
         act_bind (push \<lparr>node_op = Elementwise (Op_MulScalar 0), inputs = [x], node_shape = node_shape (ns ! x),
           node_dtype = node_dtype (ns ! x)\<rparr>) (\<lambda>z.
         act_bind (push \<lparr>node_op = Compare Ne, inputs = [x, z], node_shape = node_shape (ns ! x), node_dtype = Bool\<rparr>) (\<lambda>ne.
         act_ret (Some ne)))
       else act_ret None)"

text \<open>The node itself if its inputs are unchanged, otherwise a copy with the redirected inputs.\<close>

definition canonical :: "node_id \<Rightarrow> 'f node \<Rightarrow> node_id list \<Rightarrow> ('f, 's, node_id) graph_act" where
  "canonical x n ms = (if ms = inputs n then act_ret x else push (n\<lparr>inputs := ms\<rparr>))"

definition share :: "replacement \<times> cse_table \<Rightarrow> node_id \<Rightarrow> fused_op_params node \<Rightarrow> node_id list \<Rightarrow>
    (fused_op_params, 's, replacement \<times> cse_table) graph_act" where
  "share acc x n ms = (case acc of (m, cse) \<Rightarrow> (case op_key (node_op n) of
     Some k \<Rightarrow> (let key = (k, key_inputs (node_op n) ms) in
       (case map_of cse key of
          Some j \<Rightarrow> act_ret (AList.update x j m, cse)
        | None \<Rightarrow> act_bind (canonical x n ms) (\<lambda>j. act_ret (AList.update x j m, AList.update key j cse))))
   | None \<Rightarrow> act_bind (canonical x n ms) (\<lambda>j. act_ret (AList.update x j m, cse))))"

definition opt_visit :: "replacement \<times> cse_table \<Rightarrow> node_id \<Rightarrow> (fused_op_params, 's, replacement \<times> cse_table) graph_act" where
  "opt_visit acc x = act_bind (act_get nodes) (\<lambda>ns.
     if length ns \<le> x then act_panic
     else (let n = ns ! x; ms = map (mapped (fst acc)) (inputs n) in
       act_bind (case node_op n of Shaping (Op_Cast t) \<Rightarrow> cast_rule t ms | _ \<Rightarrow> act_ret None) (\<lambda>c. case c of
         Some j \<Rightarrow> act_ret (AList.update x j (fst acc), snd acc)
       | None \<Rightarrow> act_bind (act_result (try_simplify (node_op n) ms)) (\<lambda>a. case a of
           Some j \<Rightarrow> act_ret (AList.update x j (fst acc), snd acc)
         | None \<Rightarrow> share acc x n ms))))"

definition optimize :: "node_id list \<Rightarrow> (fused_op_params, 's, node_id list) graph_act" where
  "optimize roots = walk opt_visit fst ([], []) roots"

section \<open>What the rules rest on\<close>

text \<open>The laws of the operations that the rules use; a value carries its shape and element type.\<close>

definition opt_laws :: "('v \<Rightarrow> shape \<times> dtype) \<Rightarrow> ('f op \<Rightarrow> 'v list \<Rightarrow> 'v) \<Rightarrow> bool" where
  "opt_laws vty compute \<longleftrightarrow>
     (\<forall>v. compute (Elementwise (Op_AddScalar 0)) [v] = v \<and> compute (Elementwise (Op_AddScalar 0x8000000000000000)) [v] = v \<and>
        compute (Elementwise (Op_MulScalar 0x3FF0000000000000)) [v] = v \<and> compute (Elementwise (Op_PowI 1)) [v] = v) \<and>
     (\<forall>v. compute (Shaping (Op_Cast (snd (vty v)))) [v] = v) \<and>
     (\<forall>v. is_float (snd (vty v)) \<longrightarrow>
        compute (Shaping (Op_Cast Bool)) [v] = compute (Compare Ne) [v, compute (Elementwise (Op_MulScalar 0)) [v]] \<and>
        vty (compute (Elementwise (Op_MulScalar 0)) [v]) = vty v \<and>
        vty (compute (Compare Ne) [v, compute (Elementwise (Op_MulScalar 0)) [v]]) = (fst (vty v), Bool)) \<and>
     (\<forall>v w. compute (Binary Add) [v, w] = compute (Binary Add) [w, v] \<and> compute (Binary Mul) [v, w] = compute (Binary Mul) [w, v])"

lemma opt_laws_identity: "opt_laws vty compute \<Longrightarrow> is_identity p \<Longrightarrow> compute p [v] = v"
  by (auto simp: opt_laws_def is_identity_def f64_is_zero_def f64_is_one_def split: op.splits elem_op.splits)

lemma opt_laws_commutes: "opt_laws vty compute \<Longrightarrow> is_commutative p \<Longrightarrow> compute p [v, w] = compute p [w, v]"
  by (auto simp: opt_laws_def is_commutative_def split: op.splits)

definition has_one_input :: "'f op \<Rightarrow> bool" where
  "has_one_input p = (case p of
     Elementwise (Op_AddScalar c) \<Rightarrow> True
   | Elementwise (Op_MulScalar c) \<Rightarrow> True
   | Elementwise (Op_PowI k) \<Rightarrow> True
   | Elementwise Op_Contiguize \<Rightarrow> True
   | Shaping (Op_Cast d) \<Rightarrow> True
   | Shaping (Op_Reshape sh) \<Rightarrow> True
   | Viewing v \<Rightarrow> True
   | Slotting (Op_View k) \<Rightarrow> True
   | _ \<Rightarrow> False)"

text \<open>What the builder establishes of a node: the number of its inputs and parameters at machine width.\<close>

definition node_built :: "fused_op_params node \<Rightarrow> bool" where
  "node_built n \<longleftrightarrow> op_ok (node_op n) \<and> (has_one_input (node_op n) \<longrightarrow> length (inputs n) = 1) \<and>
     (is_commutative (node_op n) \<longrightarrow> length (inputs n) = 2)"

section \<open>The invariant of the walk\<close>

text \<open>Every entry of the table is a node with the key and the inputs it is entered under.\<close>

definition cse_ok :: "fused_op_params node list \<Rightarrow> cse_table \<Rightarrow> bool" where
  "cse_ok ns cse \<longleftrightarrow> (\<forall>k is j. map_of cse (k, is) = Some j \<longrightarrow> j < length ns \<and> op_key (node_op (ns ! j)) = Some k \<and>
     key_inputs (node_op (ns ! j)) (inputs (ns ! j)) = is)"

definition opt_inv :: "('v \<Rightarrow> shape \<times> dtype) \<Rightarrow> ((fused_op_params, 's) node_view \<Rightarrow> 'v) \<Rightarrow> (fused_op_params op \<Rightarrow> 'v list \<Rightarrow> 'v) \<Rightarrow>
    replacement \<times> cse_table \<Rightarrow> (fused_op_params, 's) graph \<Rightarrow> bool" where
  "opt_inv vty konst compute acc g \<longleftrightarrow> opt_laws vty compute \<and> pass_inv vty konst compute (fst acc) g \<and>
     list_all node_built (nodes g) \<and> cse_ok (nodes g) (snd acc)"

lemma erase_key: "op_key p = Some k \<Longrightarrow> erase_target p = p"
  by (auto simp: op_key_def erase_target_def split: op.splits)

lemma cse_ok_snoc: "cse_ok ns cse \<Longrightarrow> cse_ok (ns @ [n]) cse"
  by (fastforce simp: cse_ok_def nth_append)

lemma opt_inv_grown:
  assumes "opt_inv vty konst compute acc g" and "pushed n g g'" and "node_built n" and "pass_inv vty konst compute (fst acc) g'"
  shows "opt_inv vty konst compute acc g'"
  using assms cse_ok_snoc by (auto simp: opt_inv_def pushed_def)

lemma opt_inv_remap:
  assumes "opt_inv vty konst compute (m, cse) g" and "x < length (nodes g)" and "j < length (nodes g)"
    and "val (op_sem konst compute) g j = val (op_sem konst compute) g x"
    and "branch_target (nodes g ! x) = None \<Longrightarrow> branch_target (nodes g ! j) = None"
  shows "opt_inv vty konst compute (AList.update x j m, cse) g"
  using assms remap_ok_update [of "op_sem konst compute" g m x j] by (simp add: opt_inv_def pass_inv_def)

lemma opt_inv_parts:
  assumes "opt_inv vty konst compute (m, cse) g"
  shows "pass_inv vty konst compute m g" and "graph_inv g" and "remap_ok (op_sem konst compute) g m" and "opt_laws vty compute"
  using assms by (simp_all add: opt_inv_def pass_inv_def)

lemma opt_inv_built: "opt_inv vty konst compute acc g \<Longrightarrow> x < length (nodes g) \<Longrightarrow> node_built (nodes g ! x)"
  by (simp add: opt_inv_def list_all_length)

section \<open>One step\<close>

lemma wp_canonical:
  assumes inv: "opt_inv vty konst compute (m, cse) g" and x: "x < length (nodes g)" and n: "n = nodes g ! x"
    and ms: "ms = map (mapped m) (inputs n)"
  shows "act_wp (canonical x n ms) (\<lambda>j g'. opt_inv vty konst compute (m, cse) g' \<and> extends g g' \<and> j < length (nodes g') \<and>
    node_op (nodes g' ! j) = node_op n \<and> inputs (nodes g' ! j) = ms \<and>
    val (op_sem konst compute) g' j = val (op_sem konst compute) g' x) E g"
proof (cases "ms = inputs n")
  case True
  then show ?thesis using inv x n by (simp add: canonical_def wp_simps)
next
  case False
  let ?sem = "op_sem konst compute"
  note p = opt_inv_parts [OF inv]
  have nc: "node_op (nodes g ! x) \<noteq> Op_Const"
    using p(1) x False ms n by (auto simp: pass_inv_def all_well_formed_def well_formed_def dest: bspec [OF _ nth_mem [OF x]])
  have sf: "list_all2 (stands_for ?sem g) (inputs (nodes g ! x)) ms"
    unfolding ms n using mapped_stands_for [OF p(3,2) x] by (simp add: list_all2_conv_all_nth)
  have "act_wp (push ((nodes g ! x)\<lparr>inputs := ms\<rparr>)) (\<lambda>j g'. opt_inv vty konst compute (m, cse) g' \<and> extends g g' \<and>
    j < length (nodes g') \<and> node_op (nodes g' ! j) = node_op n \<and> inputs (nodes g' ! j) = ms \<and> val ?sem g' j = val ?sem g' x) E g"
  proof (rule wp_rebuild [OF p(1) x nc sf])
    fix g' assume g': "pushed ((nodes g ! x)\<lparr>inputs := ms\<rparr>) g g'" "pass_inv vty konst compute m g'"
      "val ?sem g' (length (nodes g)) = val ?sem g x"
    have "node_built ((nodes g ! x)\<lparr>inputs := ms\<rparr>)" using opt_inv_built [OF inv x] ms n by (simp add: node_built_def)
    then have "opt_inv vty konst compute (m, cse) g'" using opt_inv_grown [OF inv g'(1)] g'(2) by simp
    then show "opt_inv vty konst compute (m, cse) g' \<and> extends g g' \<and> length (nodes g) < length (nodes g') \<and>
        node_op (nodes g' ! length (nodes g)) = node_op n \<and> inputs (nodes g' ! length (nodes g)) = ms \<and>
        val ?sem g' (length (nodes g)) = val ?sem g' x"
      using g' n val_extends [OF p(2) _ _ x, of g' ?sem] by (auto simp: pushed_def)
  qed
  then show ?thesis using False n by (simp add: canonical_def)
qed

lemma sort_two: "sort [a, b] = sort [c, d] \<Longrightarrow> (a = c \<and> b = d) \<or> (a = d \<and> b = (c :: nat))"
  by (auto split: if_splits)

text \<open>Two nodes with one key and one list of key inputs have one value.\<close>

lemma cse_same:
  assumes inv: "opt_inv vty konst compute (m, cse) g" and x: "x < length (nodes g)" and n: "n = nodes g ! x"
    and k: "op_key (node_op n) = Some k" and j: "map_of cse (k, key_inputs (node_op n) (map (mapped m) (inputs n))) = Some j"
  shows "j < length (nodes g)" and "node_op (nodes g ! j) = node_op n"
    and "val (op_sem konst compute) g j = val (op_sem konst compute) g x"
proof -
  let ?sem = "op_sem konst compute" and ?ms = "map (mapped m) (inputs n)" and ?n' = "nodes g ! j"
  note m = opt_inv_parts(3) [OF inv] and gi = opt_inv_parts(2) [OF inv] and law = opt_inv_parts(4) [OF inv]
  have jk: "j < length (nodes g)" "op_key (node_op ?n') = Some k" "key_inputs (node_op ?n') (inputs ?n') = key_inputs (node_op n) ?ms"
    using inv j unfolding opt_inv_def cse_ok_def by auto
  have bn: "node_built n" "node_built ?n'" using opt_inv_built [OF inv] x jk(1) n by simp_all
  have op: "node_op ?n' = node_op n" using op_key_inj [OF jk(2) k] bn by (simp add: node_built_def)
  have nc: "node_op n \<noteq> Op_Const" using k by (auto simp: op_key_def)
  note er = erase_key [OF k]
  have vs: "map (val ?sem g) ?ms = map (val ?sem g) (inputs n)" using mapped_inputs(2) [OF m gi x] n by simp
  have "compute (node_op n) (map (val ?sem g) (inputs ?n')) = compute (node_op n) (map (val ?sem g) ?ms)"
  proof (cases "is_commutative (node_op n)")
    case True
    then have "length (inputs ?n') = 2" "length ?ms = 2" using bn op by (simp_all add: node_built_def)
    then obtain a b c d where ab: "inputs ?n' = [a, b]" "?ms = [c, d]"
      by (auto simp: numeral_2_eq_2 length_Suc_conv)
    have "sort [a, b] = sort [c, d]" using jk(3) True ab op by (simp add: key_inputs_def)
    then show ?thesis using sort_two [of a b c d] ab opt_laws_commutes [OF law True] by auto
  next
    case False
    then show ?thesis using jk(3) op by (simp add: key_inputs_def)
  qed
  then have "val ?sem g j = compute (node_op n) (map (val ?sem g) (inputs n))"
    using val_op [OF gi jk(1), of konst compute] op nc er vs by (simp del: map_map map_eq_conv)
  also have "\<dots> = val ?sem g x" using val_op [OF gi x, of konst compute] nc n er by simp
  finally show "val ?sem g j = val ?sem g x" .
  show "j < length (nodes g)" "node_op ?n' = node_op n" using jk(1) op by simp_all
qed

lemma wp_share:
  assumes inv: "opt_inv vty konst compute (m, cse) g" and x: "x < length (nodes g)" and n: "n = nodes g ! x"
    and ms: "ms = map (mapped m) (inputs n)"
  shows "act_wp (share (m, cse) x n ms) (\<lambda>acc' g'. opt_inv vty konst compute acc' g' \<and> extends g g' \<and>
    dom (map_of (fst acc')) = insert x (dom (map_of m))) E g"
proof -
  let ?sem = "op_sem konst compute"
  have new: "act_wp (canonical x n ms) (\<lambda>j. act_wp (act_ret (AList.update x j m, cse' j)) (\<lambda>acc' g'.
      opt_inv vty konst compute acc' g' \<and> extends g g' \<and> dom (map_of (fst acc')) = insert x (dom (map_of m))) E) E g"
    if c: "\<And>j g'. opt_inv vty konst compute (m, cse) g' \<Longrightarrow> j < length (nodes g') \<Longrightarrow> node_op (nodes g' ! j) = node_op n \<Longrightarrow>
        inputs (nodes g' ! j) = ms \<Longrightarrow> cse_ok (nodes g') (cse' j)" for cse' :: "node_id \<Rightarrow> cse_table"
  proof (rule wp_mono [OF wp_canonical [OF inv x n ms]])
    fix j g' assume r: "opt_inv vty konst compute (m, cse) g' \<and> extends g g' \<and> j < length (nodes g') \<and>
      node_op (nodes g' ! j) = node_op n \<and> inputs (nodes g' ! j) = ms \<and> val ?sem g' j = val ?sem g' x"
    then have x': "x < length (nodes g')" "nodes g' ! x = n" using extends_length [of g g'] extends_nth [of g g'] x n by auto
    have i: "opt_inv vty konst compute (m, cse' j) g'" using r c [of g' j] by (simp add: opt_inv_def)
    have "opt_inv vty konst compute (AList.update x j m, cse' j) g'"
      by (rule opt_inv_remap [OF i x'(1)]) (use r x'(2) in \<open>simp_all add: branch_target_def\<close>)
    then show "act_wp (act_ret (AList.update x j m, cse' j)) (\<lambda>acc' g'.
      opt_inv vty konst compute acc' g' \<and> extends g g' \<and> dom (map_of (fst acc')) = insert x (dom (map_of m))) E g'"
      using r by (auto simp: wp_simps)
  qed simp
  show ?thesis
  proof (cases "op_key (node_op n)")
    case None
    then show ?thesis using new [of "\<lambda>_. cse"] by (simp add: share_def wp_bind opt_inv_def)
  next
    case (Some k)
    let ?key = "(k, key_inputs (node_op n) ms)"
    show ?thesis
    proof (cases "map_of cse ?key")
      case None
      have "cse_ok (nodes g') (AList.update ?key j cse)" if "opt_inv vty konst compute (m, cse) g'" "j < length (nodes g')"
          "node_op (nodes g' ! j) = node_op n" "inputs (nodes g' ! j) = ms" for j g'
        using that Some by (auto simp: opt_inv_def cse_ok_def)
      then show ?thesis using new [of "\<lambda>j. AList.update ?key j cse"] None Some by (simp add: share_def wp_bind)
    next
      case j: (Some j)
      note s = cse_same [OF inv x n Some, of j]
      have "opt_inv vty konst compute (AList.update x j m, cse) g"
        by (rule opt_inv_remap [OF inv x]) (use s j ms n in \<open>simp_all add: branch_target_def\<close>)
      then show ?thesis using Some j by (auto simp: share_def wp_simps)
    qed
  qed
qed

text \<open>The two nodes that test a float for being different from zero.\<close>

lemma wp_lowered:
  assumes inv: "opt_inv vty konst compute acc g" and y: "y < length (nodes g)" "branch_target (nodes g ! y) = None"
    and fl: "is_float (node_dtype (nodes g ! y))"
  shows "act_wp (push \<lparr>node_op = Elementwise (Op_MulScalar 0), inputs = [y], node_shape = node_shape (nodes g ! y),
           node_dtype = node_dtype (nodes g ! y)\<rparr>) (\<lambda>z.
         act_wp (push \<lparr>node_op = Compare Ne, inputs = [y, z], node_shape = node_shape (nodes g ! y), node_dtype = Bool\<rparr>)
           (\<lambda>j g'. opt_inv vty konst compute acc g' \<and> extends g g' \<and> j < length (nodes g') \<and> branch_target (nodes g' ! j) = None \<and>
             val (op_sem konst compute) g' j = compute (Shaping (Op_Cast Bool)) [val (op_sem konst compute) g y]) E) E g"
    (is "act_wp (push ?z) _ E g")
proof -
  let ?sem = "op_sem konst compute"
  have pi: "pass_inv vty konst compute (fst acc) g" and law: "opt_laws vty compute" using inv by (simp_all add: opt_inv_def)
  note gi = pass_inv_parts(1) [OF pi] and ty = pass_inv_ty [OF pi y(1)]
  let ?v = "val ?sem g y" and ?w = "compute (Elementwise (Op_MulScalar 0)) [val ?sem g y]"
  have "is_float (snd (vty ?v))" using fl ty by simp
  then have laws: "compute (Shaping (Op_Cast Bool)) [?v] = compute (Compare Ne) [?v, ?w]" "vty ?w = vty ?v"
      "vty (compute (Compare Ne) [?v, ?w]) = (fst (vty ?v), Bool)"
    using law [unfolded opt_laws_def, THEN conjunct2, THEN conjunct2, THEN conjunct1, rule_format, of ?v] by blast+
  have pz: "pushable g ?z" using y by (simp add: pushable_def reads_plain_def view_typed_def is_view_op_def branch_target_def)
  show ?thesis
  proof (rule wp_push [OF gi pz])
    let ?l = "length (nodes g)"
    fix g1 assume p1: "pushed ?z g g1"
    then have gi1: "graph_inv g1" and ex1: "extends g g1" and n1: "nodes g1 = nodes g @ [?z]" by (simp_all add: pushed_def)
    have y1: "val ?sem g1 y = ?v" "y < length (nodes g1)" using val_extends [OF gi gi1 ex1 y(1), of ?sem] y(1) n1 by simp_all
    have vz: "val ?sem g1 ?l = ?w" using val_op [OF gi1, of ?l konst compute] n1 y1 by (simp add: erase_target_def)
    have bz: "node_built ?z" by (simp add: node_built_def op_ok_def has_one_input_def is_commutative_def)
    have wz: "well_formed (nodes g) ?z" by (simp add: well_formed_def view_typed_def is_view_op_def)
    have pi1: "pass_inv vty konst compute (fst acc) g1" by (rule pass_inv_pushed [OF pi p1 wz]) (use vz laws ty in simp)
    note i1 = opt_inv_grown [OF inv p1 bz pi1]
    let ?n = "\<lparr>node_op = Compare Ne, inputs = [y, ?l], node_shape = node_shape (nodes g ! y), node_dtype = Bool\<rparr>"
    have pn: "pushable g1 ?n" using y n1
      by (simp add: pushable_def reads_plain_def view_typed_def is_view_op_def branch_target_def nth_append)
    show "act_wp (push ?n) (\<lambda>j g'. opt_inv vty konst compute acc g' \<and> extends g g' \<and> j < length (nodes g') \<and>
        branch_target (nodes g' ! j) = None \<and> val ?sem g' j = compute (Shaping (Op_Cast Bool)) [?v]) E g1"
    proof (rule wp_push [OF gi1 pn])
      let ?k = "length (nodes g1)"
      fix g2 assume p2: "pushed ?n g1 g2"
      then have gi2: "graph_inv g2" and ex2: "extends g1 g2" and n2: "nodes g2 = nodes g1 @ [?n]" by (simp_all add: pushed_def)
      have "val ?sem g2 y = ?v" "val ?sem g2 ?l = ?w"
        using val_extends [OF gi1 gi2 ex2, of _ ?sem] y1 vz n1 by simp_all
      then have vn: "val ?sem g2 ?k = compute (Compare Ne) [?v, ?w]"
        using val_op [OF gi2, of ?k konst compute] n2 by (simp add: erase_target_def)
      have bn: "node_built ?n" by (simp add: node_built_def op_ok_def has_one_input_def is_commutative_def)
      have wn: "well_formed (nodes g1) ?n" by (simp add: well_formed_def view_typed_def is_view_op_def)
      have "pass_inv vty konst compute (fst acc) g2" by (rule pass_inv_pushed [OF pi1 p2 wn]) (use vn laws ty in simp)
      from opt_inv_grown [OF i1 p2 bn this] have "opt_inv vty konst compute acc g2" .
      then show "opt_inv vty konst compute acc g2 \<and> extends g g2 \<and> ?k < length (nodes g2) \<and> branch_target (nodes g2 ! ?k) = None \<and>
          val ?sem g2 ?k = compute (Shaping (Op_Cast Bool)) [?v]"
        using extends_trans [OF ex1 ex2] n2 vn laws by (simp add: branch_target_def)
    qed
  qed
qed

lemma wp_cast_rule:
  assumes inv: "opt_inv vty konst compute (m, cse) g" and x: "x < length (nodes g)" and n: "n = nodes g ! x"
    and t: "node_op n = Shaping (Op_Cast t)"
  shows "act_wp (cast_rule t (map (mapped m) (inputs n))) (\<lambda>c g'. opt_inv vty konst compute (m, cse) g' \<and> extends g g' \<and>
    (case c of None \<Rightarrow> g' = g | Some j \<Rightarrow> j < length (nodes g') \<and> branch_target (nodes g' ! j) = None \<and>
       val (op_sem konst compute) g' j = val (op_sem konst compute) g' x)) E g"
proof -
  let ?sem = "op_sem konst compute"
  note pi = opt_inv_parts(1) [OF inv] and gi = opt_inv_parts(2) [OF inv] and m = opt_inv_parts(3) [OF inv]
    and law = opt_inv_parts(4) [OF inv]
  have bn: "node_built n" using opt_inv_built [OF inv x] n by simp
  obtain i where i: "inputs n = [i]" using bn t by (auto simp: node_built_def has_one_input_def length_Suc_conv)
  let ?y = "mapped m i"
  have y: "?y < length (nodes g)" "branch_target (nodes g ! ?y) = None" "val ?sem g ?y = val ?sem g i"
    using mapped_stands_for [OF m gi x, of i] i n by (simp_all add: stands_for_def)
  have vx: "val ?sem g x = compute (Shaping (Op_Cast t)) [val ?sem g ?y]"
    using val_op [OF gi x, of konst compute] n t i y(3) by (simp add: erase_target_def)
  note ty = pass_inv_ty [OF pi y(1)]
  show ?thesis
  proof (cases "node_dtype (nodes g ! ?y) = t")
    case True
    then have "val ?sem g ?y = val ?sem g x"
      using vx ty law [unfolded opt_laws_def, THEN conjunct2, THEN conjunct1, rule_format, of "val ?sem g ?y"] by simp
    then show ?thesis using True y inv by (simp add: cast_rule_def i wp_simps)
  next
    case False
    show ?thesis
    proof (cases "t = Bool \<and> is_float (node_dtype (nodes g ! ?y))")
      case True
      have "val ?sem g' x = compute (Shaping (Op_Cast Bool)) [val ?sem g ?y]"
        if "opt_inv vty konst compute (m, cse) g'" "extends g g'" for g'
        using val_extends [OF gi _ that(2) x, of ?sem] opt_inv_parts(2) [OF that(1)] vx True by simp
      note same = this
      have fl: "is_float (node_dtype (nodes g ! ?y))" using True by simp
      let ?Q = "\<lambda>c g'. opt_inv vty konst compute (m, cse) g' \<and> extends g g' \<and>
        (case c of None \<Rightarrow> g' = g | Some j \<Rightarrow> j < length (nodes g') \<and> branch_target (nodes g' ! j) = None \<and> val ?sem g' j = val ?sem g' x)"
      have "act_wp (push \<lparr>node_op = Elementwise (Op_MulScalar 0), inputs = [?y], node_shape = node_shape (nodes g ! ?y),
           node_dtype = node_dtype (nodes g ! ?y)\<rparr>) (\<lambda>z.
         act_wp (push \<lparr>node_op = Compare Ne, inputs = [?y, z], node_shape = node_shape (nodes g ! ?y), node_dtype = Bool\<rparr>)
           (\<lambda>j. ?Q (Some j)) E) E g"
        by (rule wp_mono [OF wp_lowered [OF inv y(1,2) fl]]) (erule wp_mono, use same in auto)
      then show ?thesis using False True y(1) by (simp add: cast_rule_def i wp_funs wp_get)
    qed (use False y inv in \<open>auto simp: cast_rule_def i wp_simps\<close>)
  qed
qed

lemma wp_opt_visit:
  assumes inv: "opt_inv vty konst compute acc g" and x: "x < length (nodes g)"
  shows "act_wp (opt_visit acc x) (\<lambda>acc' g'. opt_inv vty konst compute acc' g' \<and> extends g g' \<and>
    dom (map_of (fst acc')) = insert x (dom (map_of (fst acc)))) E g"
proof -
  let ?sem = "op_sem konst compute"
  obtain m cse where acc: "acc = (m, cse)" by (cases acc)
  define n where "n = nodes g ! x"
  define ms where "ms = map (mapped m) (inputs n)"
  let ?Q = "\<lambda>acc' g'. opt_inv vty konst compute acc' g' \<and> extends g g' \<and> dom (map_of (fst acc')) = insert x (dom (map_of m))"
  note inv' = inv [unfolded acc]
  note gi = opt_inv_parts(2) [OF inv'] and m = opt_inv_parts(3) [OF inv'] and law = opt_inv_parts(4) [OF inv']
  have bn: "node_built n" using opt_inv_built [OF inv' x] by (simp add: n_def)
  have hit: "?Q (AList.update x j m, cse) g'" if "opt_inv vty konst compute (m, cse) g'" "extends g g'" "j < length (nodes g')"
      "branch_target (nodes g' ! j) = None" "val ?sem g' j = val ?sem g' x" for j g'
    using opt_inv_remap [OF that(1), of x j] that x extends_length [OF that(2)] by auto
  have rest: "act_wp (act_bind (act_result (try_simplify (node_op n) ms)) (\<lambda>a. case a of
      Some j \<Rightarrow> act_ret (AList.update x j m, cse) | None \<Rightarrow> share (m, cse) x n ms)) ?Q E g"
  proof (cases "is_identity (node_op n)")
    case True
    then have "has_one_input (node_op n)" by (auto simp: is_identity_def has_one_input_def split: op.splits elem_op.splits)
    then obtain i where i: "inputs n = [i]" using bn by (auto simp: node_built_def length_Suc_conv)
    have y: "mapped m i < length (nodes g)" "branch_target (nodes g ! mapped m i) = None" "val ?sem g (mapped m i) = val ?sem g i"
      using mapped_stands_for [OF m gi x, of i] i by (simp_all add: stands_for_def n_def)
    have "node_op n \<noteq> Op_Const" "erase_target (node_op n) = node_op n"
      using True by (auto simp: is_identity_def erase_target_def split: op.splits)
    then have "val ?sem g x = compute (node_op n) [val ?sem g i]" using val_op [OF gi x, of konst compute] i by (simp add: n_def)
    also have "\<dots> = val ?sem g (mapped m i)" using opt_laws_identity [OF law True] y(3) by simp
    finally show ?thesis using hit [of g "mapped m i"] inv' y True by (simp add: try_simplify_def ms_def i wp_simps)
  next
    case False
    then show ?thesis using wp_share [OF inv' x n_def ms_def, of E] by (simp add: try_simplify_def wp_simps)
  qed
  show ?thesis
  proof (cases "\<exists>t. node_op n = Shaping (Op_Cast t)")
    case False
    then have "opt_visit acc x g = act_bind (act_result (try_simplify (node_op n) ms)) (\<lambda>a. case a of
        Some j \<Rightarrow> act_ret (AList.update x j m, cse) | None \<Rightarrow> share (m, cse) x n ms) g"
      using x by (cases "node_op n") (auto simp: opt_visit_def acc Let_def n_def [symmetric] ms_def [symmetric] act_bind_def
        act_get_def act_ret_def split: shape_op.splits)
    then show ?thesis using rest by (simp add: act_wp_def acc)
  next
    case True
    then obtain t where t: "node_op n = Shaping (Op_Cast t)" by blast
    have "act_wp (cast_rule t ms) (\<lambda>c. act_wp (case c of Some j \<Rightarrow> act_ret (AList.update x j m, cse)
        | None \<Rightarrow> act_bind (act_result (try_simplify (node_op n) ms)) (\<lambda>a. case a of
            Some j \<Rightarrow> act_ret (AList.update x j m, cse) | None \<Rightarrow> share (m, cse) x n ms)) ?Q E) E g"
      unfolding ms_def
      by (rule wp_mono [OF wp_cast_rule [OF inv' x n_def t]])
        (use hit rest in \<open>auto simp: wp_ret ms_def split: option.splits\<close>)
    then show ?thesis using x unfolding t
      by (simp add: opt_visit_def acc Let_def wp_bind wp_get n_def [symmetric] ms_def [symmetric] t)
  qed
qed

interpretation opt: rewrite_pass opt_visit fst "opt_inv vty konst compute" "op_sem konst compute" base for vty konst compute base
  by (unfold_locales, simp add: opt_inv_def pass_inv_def, simp add: opt_inv_def pass_inv_def, rule wp_opt_visit) simp_all

end
