(* ===== verification/GraphNormal.thy ===== *)
theory GraphNormal
  imports GraphOpt
begin

text \<open>
  What \<open>optimize\<close> reaches: among the nodes that the new roots read no rule applies any more, so a second
  run of the pass returns the same roots and leaves the graph as it is. The rule that lowers a cast from
  a float to a truth value appends nodes that are not entered in the table, so it is excluded here.
\<close>

section \<open>Normal nodes\<close>

text \<open>No rule applies to a node, and it reads nodes of \<open>S\<close> only.\<close>

definition irreducible :: "'f node list \<Rightarrow> node_id set \<Rightarrow> 'f node \<Rightarrow> bool" where
  "irreducible ns S n \<longleftrightarrow> set (inputs n) \<subseteq> S \<and> \<not> is_identity (node_op n) \<and> node_op n \<noteq> Shaping (Op_Cast Bool) \<and>
     (\<forall>t. node_op n = Shaping (Op_Cast t) \<longrightarrow> (\<forall>i \<in> set (inputs n). node_dtype (ns ! i) \<noteq> t))"

definition no_bool_cast :: "'f node list \<Rightarrow> bool" where
  "no_bool_cast ns \<longleftrightarrow> (\<forall>n \<in> set ns. node_op n \<noteq> Shaping (Op_Cast Bool))"

text \<open>The nodes chosen so far are irreducible and entered in the table, and the table names no other nodes.\<close>

definition chosen :: "fused_op_params node list \<Rightarrow> node_id set \<Rightarrow> cse_table \<Rightarrow> bool" where
  "chosen ns S cse \<longleftrightarrow> (\<forall>key j. map_of cse key = Some j \<longrightarrow> j \<in> S) \<and>
     (\<forall>j \<in> S. j < length ns \<and> irreducible ns S (ns ! j) \<and>
        (\<forall>k. op_key (node_op (ns ! j)) = Some k \<longrightarrow> map_of cse (k, key_inputs (node_op (ns ! j)) (inputs (ns ! j))) = Some j))"

definition normal_inv :: "nat \<Rightarrow> replacement \<times> cse_table \<Rightarrow> (fused_op_params, 's) graph \<Rightarrow> bool" where
  "normal_inv base acc g \<longleftrightarrow> (\<forall>x < base. node_op (nodes g ! x) \<noteq> Shaping (Op_Cast Bool)) \<and> chosen (nodes g) (ran (map_of (fst acc))) (snd acc)"

lemma irreducible_mono:
  "irreducible ns S n \<Longrightarrow> S \<subseteq> T \<Longrightarrow> (\<And>i. i \<in> S \<Longrightarrow> ns' ! i = ns ! i) \<Longrightarrow> irreducible ns' T n"
  unfolding irreducible_def by (auto simp: subset_iff)

lemma chosenD:
  assumes "chosen ns S cse"
  shows "map_of cse key = Some j \<Longrightarrow> j \<in> S" and "j \<in> S \<Longrightarrow> j < length ns" and "j \<in> S \<Longrightarrow> irreducible ns S (ns ! j)"
    and "j \<in> S \<Longrightarrow> op_key (node_op (ns ! j)) = Some k \<Longrightarrow> map_of cse (k, key_inputs (node_op (ns ! j)) (inputs (ns ! j))) = Some j"
  using assms unfolding chosen_def by blast+

lemma chosen_extends:
  assumes "chosen (nodes g) S cse" and "extends g g'"
  shows "chosen (nodes g') S cse"
proof -
  note c = chosenD [OF assms(1)]
  have same: "nodes g' ! j = nodes g ! j" if "j \<in> S" for j using c(2) [OF that] extends_nth [OF assms(2)] by simp
  have len: "j < length (nodes g')" if "j \<in> S" for j using c(2) [OF that] extends_length [OF assms(2)] by simp
  have "irreducible (nodes g') S (nodes g' ! j)" if "j \<in> S" for j
    by (rule irreducible_mono [of "nodes g" S]) (use c(3) [OF that] same that in simp_all)
  then show ?thesis unfolding chosen_def using c(1,4) len by (simp add: same)
qed

text \<open>Choosing one more node, entered under a key that was free.\<close>

lemma chosen_insert:
  assumes c: "chosen ns S cse" and j: "j < length ns" "irreducible ns S (ns ! j)"
    and new: "\<And>key i. map_of cse key = Some i \<Longrightarrow> map_of cse' key = Some i"
    and tab: "\<And>key i. map_of cse' key = Some i \<Longrightarrow> i = j \<or> map_of cse key = Some i"
    and key: "\<And>k. op_key (node_op (ns ! j)) = Some k \<Longrightarrow> map_of cse' (k, key_inputs (node_op (ns ! j)) (inputs (ns ! j))) = Some j"
  shows "chosen ns (insert j S) cse'"
proof -
  note c' = chosenD [OF c]
  have "irreducible ns (insert j S) (ns ! i)" if "i \<in> insert j S" for i
    by (rule irreducible_mono [of ns S]) (use that c'(3) j(2) in auto)
  moreover have "i < length ns" if "i \<in> insert j S" for i using that c'(2) j(1) by blast
  moreover have "map_of cse' (k, key_inputs (node_op (ns ! i)) (inputs (ns ! i))) = Some i"
    if "i \<in> insert j S" "op_key (node_op (ns ! i)) = Some k" for i k
    using that key new [OF c'(4)] by blast
  moreover have "i \<in> insert j S" if "map_of cse' k = Some i" for k i using tab [OF that] c'(1) by blast
  ultimately show ?thesis unfolding chosen_def by blast
qed

lemma ran_update: "x \<notin> dom (map_of m) \<Longrightarrow> ran (map_of (AList.update x j m)) = insert j (ran (map_of m))"
  by (simp add: update_conv' domIff)

lemma mapped_ran: "i \<in> dom (map_of m) \<Longrightarrow> mapped m i \<in> ran (map_of m)"
  by (auto simp: mapped_def ran_def)

section \<open>The walk chooses irreducible nodes\<close>

lemma wp_share_chosen:
  fixes g :: "(fused_op_params, 's) graph"
  assumes inv: "opt_inv vty konst compute (m, cse) g" and x: "x < length (nodes g)" "x \<notin> dom (map_of m)" and n: "n = nodes g ! x"
    and ms: "ms = map (mapped m) (inputs n)" and c: "chosen (nodes g) (ran (map_of m)) cse"
    and red: "irreducible (nodes g) (ran (map_of m)) (n\<lparr>inputs := ms\<rparr>)"
  shows "act_wp (share (m, cse) x n ms) (\<lambda>acc g'. chosen (nodes g') (ran (map_of (fst acc))) (snd acc)) E g"
proof -
  let ?S = "ran (map_of m)" and ?key = "\<lambda>k. (k, key_inputs (node_op n) ms)"
  let ?C = "\<lambda>(j :: node_id) (g' :: (fused_op_params, 's) graph). extends g g' \<and> j < length (nodes g') \<and> node_op (nodes g' ! j) = node_op n \<and>
    inputs (nodes g' ! j) = ms"
  have can: "act_wp (canonical x n ms) Q E g" if "\<And>j g'. ?C j g' \<Longrightarrow> Q j g'" for Q
    by (rule wp_mono [OF wp_canonical [OF inv x(1) n ms, where E = E]]) (use that in auto)
  have irr: "chosen (nodes g') ?S cse \<and> irreducible (nodes g') ?S (nodes g' ! j)" if "?C j g'" for j g'
  proof -
    have "i \<in> ?S \<Longrightarrow> nodes g' ! i = nodes g ! i" for i using chosenD(2) [OF c] that extends_nth by blast
    then have "irreducible (nodes g') ?S (n\<lparr>inputs := ms\<rparr>)" by (rule irreducible_mono [OF red subset_refl])
    then show ?thesis using that chosen_extends [OF c] by (simp add: irreducible_def)
  qed
  show ?thesis
  proof (cases "op_key (node_op n)")
    case None
    have "chosen (nodes g') (insert j ?S) cse" if "?C j g'" for j g'
      by (rule chosen_insert) (use irr [OF that] that None in auto)
    then show ?thesis using None x(2) by (simp add: share_def wp_funs can ran_update)
  next
    case (Some k)
    show ?thesis
    proof (cases "map_of cse (?key k)")
      case None
      have "chosen (nodes g') (insert j ?S) (AList.update (?key k) j cse)" if "?C j g'" for j g'
        by (rule chosen_insert [of _ _ cse]) (use irr [OF that] that None Some in \<open>auto simp: update_conv' split: if_splits\<close>)
      then show ?thesis using None Some x(2) by (simp add: share_def wp_funs can ran_update)
    next
      case h: (Some j)
      then have "j \<in> ?S" by (rule chosenD(1) [OF c])
      then have "chosen (nodes g) (insert j ?S) cse" using c by (simp add: insert_absorb)
      then show ?thesis using h Some x(2) by (simp add: share_def wp_simps ran_update)
    qed
  qed
qed

lemma wp_visit_chosen:
  fixes g :: "(fused_op_params, 's) graph"
  assumes inv: "opt_inv vty konst compute acc g" and x: "x < length (nodes g)" "x \<notin> dom (map_of (fst acc))"
    and ins: "set (inputs (nodes g ! x)) \<subseteq> dom (map_of (fst acc))" and nb: "node_op (nodes g ! x) \<noteq> Shaping (Op_Cast Bool)"
    and c: "chosen (nodes g) (ran (map_of (fst acc))) (snd acc)"
  shows "act_wp (opt_visit acc x) (\<lambda>acc g'. chosen (nodes g') (ran (map_of (fst acc))) (snd acc)) E g"
proof -
  obtain m cse where acc: "acc = (m, cse)" by (cases acc)
  define n where "n = nodes g ! x"
  define ms where "ms = map (mapped m) (inputs n)"
  let ?Q = "\<lambda>acc g'. chosen (nodes g') (ran (map_of (fst acc))) (snd acc)"
  have msS: "set ms \<subseteq> ran (map_of m)" using ins mapped_ran by (auto simp: ms_def n_def acc)
  have hit: "?Q (AList.update x j m, cse) g" if "j \<in> set ms" for j
    using that msS c x(2) by (simp add: acc ran_update insert_absorb subset_iff)
  have bn: "node_built n" using opt_inv_built [OF inv x(1)] by (simp add: n_def)
  have rest: "act_wp (act_bind (act_result (try_simplify (node_op n) ms)) (\<lambda>a. case a of
      Some j \<Rightarrow> act_ret (AList.update x j m, cse) | None \<Rightarrow> share (m, cse) x n ms)) ?Q E g"
    if cast: "\<And>t i. node_op n = Shaping (Op_Cast t) \<Longrightarrow> i \<in> set ms \<Longrightarrow> node_dtype (nodes g ! i) \<noteq> t"
  proof (cases "is_identity (node_op n)")
    case True
    then have "has_one_input (node_op n)" by (auto simp: is_identity_def has_one_input_def split: op.splits elem_op.splits)
    then obtain i where "ms = [i]" using bn by (auto simp: node_built_def length_Suc_conv ms_def)
    then show ?thesis using True hit [of i] by (simp add: try_simplify_def wp_simps)
  next
    case False
    then have "irreducible (nodes g) (ran (map_of m)) (n\<lparr>inputs := ms\<rparr>)" using msS cast nb by (auto simp: irreducible_def n_def)
    then show ?thesis using wp_share_chosen [OF inv [unfolded acc] x(1) _ n_def ms_def, of E] x(2) c False
      by (simp add: try_simplify_def wp_simps acc)
  qed
  show ?thesis
  proof (cases "\<exists>t. node_op n = Shaping (Op_Cast t)")
    case False
    then have "opt_visit acc x g = act_bind (act_result (try_simplify (node_op n) ms)) (\<lambda>a. case a of
        Some j \<Rightarrow> act_ret (AList.update x j m, cse) | None \<Rightarrow> share (m, cse) x n ms) g"
      using x by (cases "node_op n") (auto simp: opt_visit_def acc Let_def n_def [symmetric] ms_def [symmetric] act_bind_def
        act_get_def act_ret_def split: shape_op.splits)
    then show ?thesis using rest False by (simp add: act_wp_def acc)
  next
    case True
    then obtain t where t: "node_op n = Shaping (Op_Cast t)" "t \<noteq> Bool" using nb by (auto simp: n_def)
    then obtain i where i: "ms = [i]" using bn by (auto simp: node_built_def has_one_input_def length_Suc_conv ms_def)
    have il: "i < length (nodes g)" using msS chosenD(2) [OF c] by (simp add: acc i)
    show ?thesis
    proof (cases "node_dtype (nodes g ! i) = t")
      case True
      then show ?thesis using x t hit [of i] il
        by (simp add: opt_visit_def acc Let_def n_def [symmetric] ms_def [symmetric] cast_rule_def i wp_simps)
    next
      case False
      then have cast: "cast_rule t ms g = (Ok None, g)" using t il
        by (simp add: cast_rule_def i act_bind_def act_get_def act_ret_def)
      have "opt_visit acc x g = act_bind (act_result (try_simplify (node_op n) ms)) (\<lambda>a. case a of
          Some j \<Rightarrow> act_ret (AList.update x j m, cse) | None \<Rightarrow> share (m, cse) x n ms) g"
        using x t cast by (simp add: opt_visit_def acc Let_def n_def [symmetric] ms_def [symmetric] act_bind_def act_get_def)
      moreover have "act_wp (act_bind (act_result (try_simplify (node_op n) ms)) (\<lambda>a. case a of
          Some j \<Rightarrow> act_ret (AList.update x j m, cse) | None \<Rightarrow> share (m, cse) x n ms)) ?Q E g"
        by (rule rest) (use False t i in simp_all)
      ultimately show ?thesis by (simp only: act_wp_def)
    qed
  qed
qed

interpretation norm: rewrite_pass opt_visit fst "\<lambda>acc g. opt_inv vty konst compute acc g \<and> normal_inv base acc g \<and> base \<le> length (nodes g)"
    "op_sem konst compute" base for vty konst compute base
proof (unfold_locales, goal_cases)
  case (3 acc g x)
  have "act_wp (opt_visit acc x) (\<lambda>acc' g'. opt_inv vty konst compute acc' g' \<and> extends g g' \<and>
      dom (map_of (fst acc')) = insert x (dom (map_of (fst acc)))) (\<lambda>_ _. False) g"
    by (rule opt.visit_ok [where base = base]) (use 3 in auto)
  moreover have "act_wp (opt_visit acc x) (\<lambda>acc g'. chosen (nodes g') (ran (map_of (fst acc))) (snd acc)) (\<lambda>_ _. False) g"
    by (rule wp_visit_chosen) (use 3 in \<open>auto simp: normal_inv_def\<close>)
  ultimately have "act_wp (opt_visit acc x) (\<lambda>acc' g'. (opt_inv vty konst compute acc' g' \<and> extends g g' \<and>
      dom (map_of (fst acc')) = insert x (dom (map_of (fst acc)))) \<and> chosen (nodes g') (ran (map_of (fst acc'))) (snd acc'))
      (\<lambda>_ _. False \<and> False) g" by (rule wp_conj)
  then show ?case
  proof (rule wp_mono)
    fix acc' g' assume a: "(opt_inv vty konst compute acc' g' \<and> extends g g' \<and>
      dom (map_of (fst acc')) = insert x (dom (map_of (fst acc)))) \<and> chosen (nodes g') (ran (map_of (fst acc'))) (snd acc')"
    then have ex: "extends g g'" by blast
    have "node_op (nodes g' ! y) \<noteq> Shaping (Op_Cast Bool)" if "y < base" for y
      using that 3 extends_nth [OF ex, of y] by (simp add: normal_inv_def)
    then show "(opt_inv vty konst compute acc' g' \<and> normal_inv base acc' g' \<and> base \<le> length (nodes g')) \<and>
        extends g g' \<and> dom (map_of (fst acc')) = insert x (dom (map_of (fst acc)))"
      using a 3(3) extends_length [OF ex] by (simp add: normal_inv_def)
  qed simp
qed (auto simp: opt_inv_def pass_inv_def)

section \<open>A second run\<close>

text \<open>No rule applies to a node of \<open>S\<close>, and no two nodes of \<open>S\<close> can be merged.\<close>

definition settled :: "fused_op_params node list \<Rightarrow> node_id set \<Rightarrow> bool" where
  "settled ns S \<longleftrightarrow> (\<forall>j \<in> S. j < length ns \<and> irreducible ns S (ns ! j)) \<and>
     (\<forall>i \<in> S. \<forall>j \<in> S. op_key (node_op (ns ! i)) \<noteq> None \<longrightarrow> op_key (node_op (ns ! i)) = op_key (node_op (ns ! j)) \<longrightarrow>
        key_inputs (node_op (ns ! i)) (inputs (ns ! i)) = key_inputs (node_op (ns ! j)) (inputs (ns ! j)) \<longrightarrow> i = j)"

lemma chosen_settled:
  assumes "chosen ns S cse"
  shows "settled ns S"
proof -
  note c = chosenD [OF assms]
  show ?thesis unfolding settled_def
  proof (intro conjI ballI impI)
    fix i j assume ij: "i \<in> S" "j \<in> S" "op_key (node_op (ns ! i)) \<noteq> None" "op_key (node_op (ns ! i)) = op_key (node_op (ns ! j))"
      and ks: "key_inputs (node_op (ns ! i)) (inputs (ns ! i)) = key_inputs (node_op (ns ! j)) (inputs (ns ! j))"
    then obtain k where k: "op_key (node_op (ns ! i)) = Some k" "op_key (node_op (ns ! j)) = Some k" by auto
    show "i = j" using c(4) [OF ij(1) k(1)] c(4) [OF ij(2) k(2)] unfolding ks by simp
  qed (rule c(2,3), assumption)+
qed

lemma settledD:
  assumes "settled ns S" and "i \<in> S"
  shows "i < length ns" and "irreducible ns S (ns ! i)"
    and "j \<in> S \<Longrightarrow> op_key (node_op (ns ! i)) = Some k \<Longrightarrow> op_key (node_op (ns ! j)) = Some k \<Longrightarrow>
      key_inputs (node_op (ns ! i)) (inputs (ns ! i)) = key_inputs (node_op (ns ! j)) (inputs (ns ! j)) \<Longrightarrow> i = j"
  using assms unfolding settled_def by auto

lemma settled_subset:
  assumes "settled ns S" and "T \<subseteq> S" and "\<And>j. j \<in> T \<Longrightarrow> set (inputs (ns ! j)) \<subseteq> T"
  shows "settled ns T"
proof -
  have "j < length ns \<and> irreducible ns T (ns ! j)" if "j \<in> T" for j
    using settledD(1,2) [OF assms(1), of j] assms(2,3) that by (auto simp: irreducible_def)
  then show ?thesis using assms(1,2) unfolding settled_def by (meson subsetD)
qed

definition unmoved :: "fused_op_params node list \<Rightarrow> node_id set \<Rightarrow> replacement \<times> cse_table \<Rightarrow> bool" where
  "unmoved ns D acc \<longleftrightarrow> (\<forall>i j. map_of (fst acc) i = Some j \<longrightarrow> j = i) \<and>
     (\<forall>k is j. map_of (snd acc) (k, is) = Some j \<longrightarrow> j \<in> D \<and> op_key (node_op (ns ! j)) = Some k \<and>
        key_inputs (node_op (ns ! j)) (inputs (ns ! j)) = is)"

lemma unmoved_mapped: "unmoved ns D acc \<Longrightarrow> map (mapped (fst acc)) is = is"
  by (induction "is") (auto simp: unmoved_def mapped_def split: option.splits)

lemma wp_visit_unmoved:
  assumes s: "settled (nodes g) S" and x: "x \<in> S" "x \<notin> D" "node_built (nodes g ! x)" and D: "D \<subseteq> S" and u: "unmoved (nodes g) D acc"
  shows "act_wp (opt_visit acc x) (\<lambda>acc' g'. g' = g \<and> unmoved (nodes g) (insert x D) acc') E g"
proof -
  obtain m cse where acc: "acc = (m, cse)" by (cases acc)
  define n where "n = nodes g ! x"
  have xl: "x < length (nodes g)" and irr: "irreducible (nodes g) S n" using s x(1) by (auto simp: settled_def n_def)
  have ms: "map (mapped m) (inputs n) = inputs n" using unmoved_mapped [OF u] by (simp add: acc)
  have cast: "cast_rule t (inputs n) g = (Ok None, g)" if t: "node_op n = Shaping (Op_Cast t)" for t
  proof -
    obtain i where i: "inputs n = [i]" using x(3) t by (auto simp: node_built_def has_one_input_def length_Suc_conv n_def)
    then have "i < length (nodes g)" using irr s by (auto simp: irreducible_def settled_def)
    then show ?thesis using irr t i by (auto simp: irreducible_def cast_rule_def act_bind_def act_get_def act_ret_def)
  qed
  have "(case node_op n of Shaping (Op_Cast t) \<Rightarrow> cast_rule t (map (mapped m) (inputs n)) | _ \<Rightarrow> act_ret None) g = (Ok None, g)"
    using cast by (auto simp: act_ret_def ms split: op.splits shape_op.splits)
  then have vis: "opt_visit acc x g = share (m, cse) x n (inputs n) g"
    using xl irr by (simp add: opt_visit_def acc act_get_def Let_def n_def [symmetric] try_simplify_def irreducible_def
      act_result_def act_bind_def) (simp add: ms)
  have "map_of cse (k, key_inputs (node_op n) (inputs n)) = None" if k: "op_key (node_op n) = Some k" for k
  proof (rule ccontr)
    assume "map_of cse (k, key_inputs (node_op n) (inputs n)) \<noteq> None"
    then obtain j where "map_of cse (k, key_inputs (node_op n) (inputs n)) = Some j" by blast
    then have j: "j \<in> D" "op_key (node_op (nodes g ! j)) = Some k"
        "key_inputs (node_op (nodes g ! j)) (inputs (nodes g ! j)) = key_inputs (node_op n) (inputs n)"
      using u k by (auto simp: unmoved_def acc)
    have "x = j" by (rule settledD(3) [OF s x(1) _ k [unfolded n_def] j(2)]) (use j D in \<open>auto simp: n_def\<close>)
    then show False using x(2) j(1) by simp
  qed
  moreover have "unmoved (nodes g) (insert x D) (AList.update x x m, cse)" using u by (auto simp: unmoved_def acc)
  moreover have "unmoved (nodes g) (insert x D) (AList.update x x m, AList.update (k, key_inputs (node_op n) (inputs n)) x cse)"
    if "op_key (node_op n) = Some k" for k
    using u that by (auto simp: unmoved_def acc update_conv' n_def split: if_splits)
  ultimately have "act_wp (share (m, cse) x n (inputs n)) (\<lambda>acc' g'. g' = g \<and> unmoved (nodes g) (insert x D) acc') E g"
    by (cases "op_key (node_op n)") (simp_all add: share_def canonical_def wp_simps Let_def)
  then show ?thesis using vis by (simp only: act_wp_def)
qed

lemma optimize_settled:
  assumes gi: "graph_inv g" and bn: "list_all node_built (nodes g)" and roots: "set roots \<subseteq> {..<length (nodes g)}"
    and s: "settled (nodes g) ((edges (nodes g))\<^sup>* `` set roots)"
  shows "optimize roots g = (Ok roots, g)"
proof -
  obtain order where o: "topo_order_multi g roots = Ok order" "distinct order" "set order = (edges (nodes g))\<^sup>* `` set roots"
    by (rule topo_order_multi_spec [OF graph_inv_parts(2,1) [OF gi] roots])
  let ?S = "set order"
  let ?I = "\<lambda>acc xs h. \<exists>pre. order = pre @ xs \<and> h = g \<and> unmoved (nodes g) (set pre) acc"
  have s': "settled (nodes g) ?S" using s o(3) by simp
  have "act_wp (act_fold opt_visit ([], []) order) (\<lambda>acc h. h = g \<and> unmoved (nodes g) ?S acc) (\<lambda>_ _. False) g"
  proof (rule wp_fold [where I = ?I])
    fix acc x xs h assume "?I acc (x # xs) h"
    then obtain pre where p: "order = pre @ x # xs" "h = g" "unmoved (nodes g) (set pre) acc" by blast
    have "x < length (nodes g)" using s' p(1) by (simp add: settled_def)
    then have b: "node_built (nodes g ! x)" using bn by (simp add: list_all_length)
    have "act_wp (opt_visit acc x) (\<lambda>acc' g'. g' = g \<and> unmoved (nodes g) (insert x (set pre)) acc') (\<lambda>_ _. False) g"
      by (rule wp_visit_unmoved [OF s' _ _ b _ p(3)]) (use p(1) o(2) in auto)
    then show "act_wp (opt_visit acc x) (\<lambda>acc' h. ?I acc' xs h) (\<lambda>_ _. False) h" unfolding p(2)
      by (rule wp_mono) (use p(1) in \<open>auto intro!: exI [of _ "pre @ [x]"]\<close>)
  qed (auto simp: unmoved_def)
  then obtain acc where a: "act_fold opt_visit ([], []) order g = (Ok acc, g)" "unmoved (nodes g) ?S acc"
    by (rule wp_total) auto
  then show ?thesis using o(1) unmoved_mapped [OF a(2)]
    by (simp add: optimize_def walk_def act_bind_def act_get_def act_result_def act_ret_def)
qed

text \<open>The new roots read settled nodes only.\<close>

lemma optimize_result:
  assumes law: "opt_laws vty compute" and gi: "graph_inv g" and wf: "all_well_formed (nodes g)"
    and ty: "typed vty (op_sem konst compute) g" and bn: "list_all node_built (nodes g)"
    and nb: "no_bool_cast (nodes g)" and roots: "set roots \<subseteq> {..<length (nodes g)}"
  obtains roots' g' where "optimize roots g = (Ok roots', g')" and "graph_inv g'" and "list_all node_built (nodes g')"
    and "set roots' \<subseteq> {..<length (nodes g')}" and "settled (nodes g') ((edges (nodes g'))\<^sup>* `` set roots')"
proof -
  have inv: "opt_inv vty konst compute ([], []) g \<and> normal_inv (length (nodes g)) ([], []) g \<and> length (nodes g) \<le> length (nodes g)"
    using law gi wf ty bn nb by (simp add: opt_inv_def pass_inv_def remap_ok_def cse_ok_def normal_inv_def chosen_def no_bool_cast_def)
  obtain roots' g' acc where w: "walk opt_visit fst ([], []) roots g = (Ok roots', g')"
      and i: "opt_inv vty konst compute acc g'" "normal_inv (length (nodes g)) acc g'"
      and r: "roots' = map (mapped (fst acc)) roots" "dom (map_of (fst acc)) = (edges (nodes g))\<^sup>* `` set roots"
        "set roots' \<subseteq> {..<length (nodes g')}"
    by (rule norm.walk_sound [OF inv refl roots]) auto
  let ?T = "ran (map_of (fst acc))"
  have s: "settled (nodes g') ?T" using i(2) chosen_settled by (auto simp: normal_inv_def)
  have rt: "set roots' \<subseteq> ?T" using r(1,2) mapped_ran by fastforce
  have cl: "set (inputs (nodes g' ! j)) \<subseteq> ?T" if "j \<in> ?T" for j using s that by (auto simp: settled_def irreducible_def)
  have "edges (nodes g') `` ?T \<subseteq> ?T" using cl by (fastforce simp: edges_def)
  then have "(edges (nodes g'))\<^sup>* `` ?T = ?T" by (rule Image_closed_trancl)
  then have sub: "(edges (nodes g'))\<^sup>* `` set roots' \<subseteq> ?T" using rt by blast
  have "settled (nodes g') ((edges (nodes g'))\<^sup>* `` set roots')"
  proof (rule settled_subset [OF s sub])
    fix j assume j: "j \<in> (edges (nodes g'))\<^sup>* `` set roots'"
    then have "j < length (nodes g')" using settledD(1) [OF s] sub by blast
    then show "set (inputs (nodes g' ! j)) \<subseteq> (edges (nodes g'))\<^sup>* `` set roots'"
      using j by (auto simp: edges_def intro: rtrancl_into_rtrancl)
  qed
  then show thesis using that w i(1) r(3) by (auto simp: optimize_def opt_inv_def pass_inv_def)
qed

end
