(* ===== verification/GraphOrder.thy ===== *)
theory GraphOrder
  imports GraphExtend
begin

text \<open>
  Ordering of destructive operations and the execution plan (\<open>fuel-graph/src/opt.rs\<close>, \<open>alias_groups\<close>,
  \<open>derive_ordering\<close>, \<open>OrderingEdges\<close>, \<open>execution_plan\<close>): the nodes that share storage, the readers a
  destructive operation must wait for, and the linear order in which the nodes run. The plan is a linear
  extension of data and ordering edges, and it exists exactly when these have no cycle.
\<close>

section \<open>Nodes that share storage\<close>

definition extends_alias :: "'f op \<Rightarrow> bool" where
  "extends_alias p \<longleftrightarrow> is_view_op p \<or> (case p of
     Slotting (Op_View k) \<Rightarrow> True
   | Shaping (Op_Reshape s) \<Rightarrow> True
   | Elementwise Op_Contiguize \<Rightarrow> True
   | _ \<Rightarrow> False)"

type_synonym alias_table = "(node_id \<times> node_id) list \<times> (node_id \<times> node_id list) list"

definition group_in :: "(node_id \<times> node_id) list \<Rightarrow> node_id \<Rightarrow> node_id" where
  "group_in gs i = (case map_of gs i of Some r \<Rightarrow> r | None \<Rightarrow> i)"

definition members_in :: "(node_id \<times> node_id list) list \<Rightarrow> node_id \<Rightarrow> node_id list" where
  "members_in ms r = (case map_of ms r of Some is \<Rightarrow> is | None \<Rightarrow> [r])"

definition alias_step :: "'f node list \<Rightarrow> alias_table \<Rightarrow> node_id \<Rightarrow> alias_table" where
  "alias_step ns t i = (case t of (gs, ms) \<Rightarrow>
     if \<not> extends_alias (node_op (ns ! i)) then (gs, ms)
     else (case inputs (ns ! i) of
         [] \<Rightarrow> (gs, ms)
       | j # _ \<Rightarrow> let r = group_in gs j in (AList.update i r gs, AList.update r (members_in ms r @ [i]) ms)))"

definition alias_groups :: "'f node list \<Rightarrow> node_id list \<Rightarrow> alias_table" where
  "alias_groups ns order = foldl (alias_step ns) ([], []) order"

section \<open>Ordering edges\<close>

type_synonym ordering_edges = "(node_id \<times> node_id list) list"

definition deps_of :: "ordering_edges \<Rightarrow> node_id \<Rightarrow> node_id list" where
  "deps_of e i = (case map_of e i of Some ds \<Rightarrow> ds | None \<Rightarrow> [])"

text \<open>The input a node destroys, if the operation declares one and the node has it.\<close>

definition destroyed_by :: "(fused_op_id \<Rightarrow> nat option) \<Rightarrow> 'f node \<Rightarrow> node_id option" where
  "destroyed_by reg n = (case destructive_input reg (node_op n) of
     None \<Rightarrow> None
   | Some d \<Rightarrow> if length (inputs n) \<le> d then None else Some (inputs n ! d))"

definition pinned_readers :: "'f node list \<Rightarrow> node_id list \<Rightarrow> alias_table \<Rightarrow> node_id \<Rightarrow> node_id \<Rightarrow> node_id list" where
  "pinned_readers ns order t i x = (let as = members_in (snd t) (group_in (fst t) x) in
     concat (map (\<lambda>a. filter (\<lambda>r. r \<noteq> i \<and> r \<notin> set as) (consumers_in ns order a)) as))"

definition derive_ordering :: "(fused_op_id \<Rightarrow> nat option) \<Rightarrow> ('f, 's) graph \<Rightarrow> node_id list \<Rightarrow> ordering_edges ir_result" where
  "derive_ordering reg g roots = rust_bind (topo_order_multi g roots) (\<lambda>order.
     let t = alias_groups (nodes g) order in
     Ok (concat (map (\<lambda>i. case destroyed_by reg (nodes g ! i) of
         None \<Rightarrow> []
       | Some x \<Rightarrow> (case pinned_readers (nodes g) order t i x of [] \<Rightarrow> [] | rs \<Rightarrow> [(i, rs)])) order)))"

section \<open>The execution plan\<close>

type_synonym ready_set = "(nat \<times> node_id) list"

text \<open>
  Kahn's algorithm. The ready set is ordered by the position in the base order. A successor loses one
  predecessor per edge; a missing entry or a count below zero would panic.
\<close>

definition release_succ :: "(node_id \<times> nat) list \<Rightarrow> (node_id \<times> nat) list \<times> ready_set \<Rightarrow> node_id \<Rightarrow>
    ((node_id \<times> nat) list \<times> ready_set) ir_result" where
  "release_succ pos st s = (case st of (deg, ready) \<Rightarrow> (case map_of deg s of
     Some (Suc d) \<Rightarrow> let deg' = AList.update s d deg in
       if d = 0 then (case map_of pos s of
           Some p \<Rightarrow> Ok (deg', insort_insert_key fst (p, s) ready)
         | None \<Rightarrow> Panic)
       else Ok (deg', ready)
   | _ \<Rightarrow> Panic))"

fun release_all :: "(node_id \<times> nat) list \<Rightarrow> (node_id \<times> nat) list \<times> ready_set \<Rightarrow> node_id list \<Rightarrow>
    ((node_id \<times> nat) list \<times> ready_set) ir_result" where
  "release_all pos st [] = Ok st"
| "release_all pos st (s # ss) = rust_bind (release_succ pos st s) (\<lambda>st'. release_all pos st' ss)"

definition work :: "(node_id \<times> nat) list \<times> ready_set \<Rightarrow> nat" where
  "work st = 2 * map_sum (\<lambda>d. d) (fst st) + length (snd st)"

lemma map_sum_decrement: "map_of m k = Some (Suc d) \<Longrightarrow> map_sum (\<lambda>d. d) (AList.update k d m) + 1 = map_sum (\<lambda>d. d) m"
  by (induction m) (auto split: if_splits)

lemma release_work:
  assumes "release_succ pos st s = Ok st'"
  shows "work st' < work st"
proof -
  obtain deg ready where st: "st = (deg, ready)" by (cases st)
  obtain d where d: "map_of deg s = Some (Suc d)" using assms by (auto simp: release_succ_def st split: option.splits nat.splits)
  have "length (insort_insert_key fst p ready) \<le> length ready + 1" for p by (simp add: insort_insert_key_def)
  then have "fst st' = AList.update s d deg \<and> length (snd st') \<le> length ready + 1"
    using assms d by (auto simp: release_succ_def st Let_def split: if_splits option.splits)
  then show ?thesis using map_sum_decrement [OF d] by (simp add: work_def st)
qed

lemma release_all_work: "release_all pos st ss = Ok st' \<Longrightarrow> work st' \<le> work st"
proof (induction ss arbitrary: st)
  case (Cons s ss)
  then obtain st1 where "release_succ pos st s = Ok st1" "release_all pos st1 ss = Ok st'" by auto
  then show ?case using release_work [of pos st s st1] Cons.IH [of st1] by simp
qed simp

function kahn :: "(node_id \<Rightarrow> node_id list) \<Rightarrow> (node_id \<times> nat) list \<Rightarrow> (node_id \<times> nat) list \<Rightarrow> ready_set \<Rightarrow> node_id list \<Rightarrow>
    node_id list ir_result" where
  "kahn fw pos deg [] plan = Ok plan"
| "kahn fw pos deg ((p, n) # ready) plan = (case release_all pos (deg, ready) (fw n) of
     Ok (deg', ready') \<Rightarrow> kahn fw pos deg' ready' (plan @ [n])
   | Err e \<Rightarrow> Err e
   | Panic \<Rightarrow> Panic)"
  by pat_completeness auto

termination
  by (relation "measure (\<lambda>(fw, pos, deg, ready, plan). work (deg, ready))")
    (auto dest!: release_all_work simp: work_def)

definition predecessors :: "'f node list \<Rightarrow> node_id list \<Rightarrow> ordering_edges \<Rightarrow> node_id \<Rightarrow> node_id list" where
  "predecessors ns order e i = filter (\<lambda>j. j \<in> set order) (inputs (ns ! i)) @ filter (\<lambda>j. j \<in> set order) (deps_of e i)"

definition successors :: "(node_id \<Rightarrow> node_id list) \<Rightarrow> node_id list \<Rightarrow> node_id \<Rightarrow> node_id list" where
  "successors preds order i = concat (map (\<lambda>k. map (\<lambda>_. k) (filter (\<lambda>j. j = i) (preds k))) order)"

definition plan_order :: "node_id list \<Rightarrow> (node_id \<Rightarrow> node_id list) \<Rightarrow> node_id list ir_result" where
  "plan_order order preds =
     (let pos = zip order [0..<length order];
          deg = map (\<lambda>i. (i, length (preds i))) order;
          ready = filter (\<lambda>(p, i). preds i = []) (zip [0..<length order] order)
      in rust_bind (kahn (successors preds order) pos deg ready []) (\<lambda>plan.
         if length plan \<noteq> length order then Panic else Ok plan))"

definition execution_plan :: "(fused_op_id \<Rightarrow> nat option) \<Rightarrow> ('f, 's) graph \<Rightarrow> node_id list \<Rightarrow> node_id list ir_result" where
  "execution_plan reg g roots = rust_bind (topo_order_multi g roots) (\<lambda>order.
     rust_bind (derive_ordering reg g roots) (\<lambda>e.
     if e = [] then Ok order else plan_order order (predecessors (nodes g) order e)))"

section \<open>Releasing successors\<close>

lemma set_insort_insert_key: "set (insort_insert_key fst (p, s) xs) = (if p \<in> fst ` set xs then set xs else insert (p, s) (set xs))"
  by (simp add: insort_insert_key_def set_insort_key)

definition ready_ok :: "(node_id \<times> nat) list \<Rightarrow> ready_set \<Rightarrow> bool" where
  "ready_ok pos ready \<longleftrightarrow> sorted (map fst ready) \<and> distinct ready \<and> (\<forall>p s. (p, s) \<in> set ready \<longrightarrow> map_of pos s = Some p)"

lemma ready_ok_insert:
  assumes "ready_ok pos ready" and "map_of pos s = Some p" and "\<forall>a b q. map_of pos a = Some q \<longrightarrow> map_of pos b = Some q \<longrightarrow> a = b"
  shows "ready_ok pos (insort_insert_key fst (p, s) ready)"
    and "set (insort_insert_key fst (p, s) ready) = insert (p, s) (set ready)"
proof -
  have "(p, s) \<in> set ready" if in_r: "p \<in> fst ` set ready"
  proof -
    obtain a where a: "(p, a) \<in> set ready" using in_r by auto
    then have "map_of pos a = Some p" using assms(1) by (simp add: ready_ok_def)
    then have "a = s" using assms(2,3) by blast
    then show ?thesis using a by simp
  qed
  then show set: "set (insort_insert_key fst (p, s) ready) = insert (p, s) (set ready)"
    by (auto simp: set_insort_insert_key)
  show "ready_ok pos (insort_insert_key fst (p, s) ready)"
    using assms unfolding ready_ok_def set
    by (auto simp: sorted_insort_insert_key distinct_insort_insert)
qed

lemma release_all_spec:
  assumes "\<forall>s \<in> set ss. \<exists>d. map_of deg s = Some d \<and> count_list ss s \<le> d" and "set ss \<subseteq> dom (map_of pos)"
    and "ready_ok pos ready" and "\<forall>a b q. map_of pos a = Some q \<longrightarrow> map_of pos b = Some q \<longrightarrow> a = b"
  shows "\<exists>deg' ready'. release_all pos (deg, ready) ss = Ok (deg', ready') \<and> ready_ok pos ready' \<and>
    (\<forall>s. map_of deg' s = map_option (\<lambda>d. d - count_list ss s) (map_of deg s)) \<and>
    (\<forall>p s. (p, s) \<in> set ready' \<longleftrightarrow> (p, s) \<in> set ready \<or>
       s \<in> set ss \<and> map_of pos s = Some p \<and> map_of deg s = Some (count_list ss s))"
  using assms(1-3)
proof (induction ss arbitrary: deg ready)
  case Nil
  then show ?case by (auto intro: exI [of _ deg] exI [of _ ready] simp: option.map_ident)
next
  case (Cons s ss)
  obtain d where d: "map_of deg s = Some (Suc d)" "count_list ss s \<le> d"
    using Cons.prems(1) by (auto simp: Suc_le_eq dest!: less_imp_Suc_add)
  obtain p where p: "map_of pos s = Some p" using Cons.prems(2) by auto
  define deg1 where "deg1 = AList.update s d deg"
  define ready1 where "ready1 = (if d = 0 then insort_insert_key fst (p, s) ready else ready)"
  have one: "release_succ pos (deg, ready) s = Ok (deg1, ready1)" using d p by (simp add: release_succ_def deg1_def ready1_def Let_def)
  have ok1: "ready_ok pos ready1" and set1: "set ready1 = (if d = 0 then insert (p, s) (set ready) else set ready)"
    using ready_ok_insert [OF Cons.prems(3) p assms(4)] Cons.prems(3) by (auto simp: ready1_def)
  have "\<forall>a \<in> set ss. \<exists>e. map_of deg1 a = Some e \<and> count_list ss a \<le> e"
    using Cons.prems(1) d by (auto simp: deg1_def split: if_splits)
  moreover have "set ss \<subseteq> dom (map_of pos)" using Cons.prems(2) by simp
  ultimately obtain deg' ready' where r: "release_all pos (deg1, ready1) ss = Ok (deg', ready')" "ready_ok pos ready'"
      "\<forall>a. map_of deg' a = map_option (\<lambda>d. d - count_list ss a) (map_of deg1 a)"
      "\<forall>q a. (q, a) \<in> set ready' \<longleftrightarrow> (q, a) \<in> set ready1 \<or> a \<in> set ss \<and> map_of pos a = Some q \<and> map_of deg1 a = Some (count_list ss a)"
    using Cons.IH [OF _ _ ok1, of deg1] by blast
  have "map_of deg' a = map_option (\<lambda>d. d - count_list (s # ss) a) (map_of deg a)" for a
    using r(3) d by (auto simp: deg1_def option.map_comp)
  moreover have "(q, a) \<in> set ready' \<longleftrightarrow> (q, a) \<in> set ready \<or>
      a \<in> set (s # ss) \<and> map_of pos a = Some q \<and> map_of deg a = Some (count_list (s # ss) a)" for q a
  proof (cases "a = s")
    case True
    have c0: "s \<in> set ss \<Longrightarrow> 0 < count_list ss s" by (rule count_list_pos)
    have "(q, a) \<in> set ready' \<longleftrightarrow> (q, a) \<in> set ready \<or> d = 0 \<and> q = p \<or> s \<in> set ss \<and> q = p \<and> d = count_list ss s"
      using r(4) set1 p True by (auto simp: deg1_def)
    also have "\<dots> \<longleftrightarrow> (q, a) \<in> set ready \<or> q = p \<and> d = count_list ss s"
      using c0 d(2) by (auto simp: count_list_0_iff)
    finally show ?thesis using True p d by auto
  next
    case False
    then show ?thesis using r(4) set1 by (auto simp: deg1_def)
  qed
  ultimately show ?case using one r(1,2) by auto
qed

section \<open>Kahn's algorithm\<close>

text \<open>Predecessors still to come.\<close>

definition waiting_on :: "(node_id \<Rightarrow> node_id list) \<Rightarrow> node_id list \<Rightarrow> node_id \<Rightarrow> nat" where
  "waiting_on preds plan i = length (filter (\<lambda>j. j \<notin> set plan) (preds i))"

text \<open>Every node of a list comes after its predecessors.\<close>

definition in_order :: "(node_id \<Rightarrow> node_id list) \<Rightarrow> node_id list \<Rightarrow> bool" where
  "in_order preds plan \<longleftrightarrow> (\<forall>k < length plan. set (preds (plan ! k)) \<subseteq> set (take k plan))"

definition kahn_inv :: "node_id list \<Rightarrow> (node_id \<Rightarrow> node_id list) \<Rightarrow> (node_id \<times> nat) list \<Rightarrow> (node_id \<times> nat) list \<Rightarrow> ready_set \<Rightarrow>
    node_id list \<Rightarrow> bool" where
  "kahn_inv order preds pos deg ready plan \<longleftrightarrow> distinct plan \<and> set plan \<subseteq> set order \<and> in_order preds plan \<and> ready_ok pos ready \<and>
     (\<forall>s. map_of deg s = (if s \<in> set order then Some (waiting_on preds plan s) else None)) \<and>
     (\<forall>p s. (p, s) \<in> set ready \<longleftrightarrow> s \<in> set order \<and> s \<notin> set plan \<and> waiting_on preds plan s = 0 \<and> map_of pos s = Some p)"

lemma map_of_positions:
  assumes "distinct order"
  shows "map_of (zip order [0..<length order]) s = Some p \<longleftrightarrow> p < length order \<and> order ! p = s"
  using assms by (auto simp: map_of_eq_Some_iff set_zip)

lemma count_successors:
  assumes "distinct order"
  shows "count_list (successors preds order n) s = (if s \<in> set order then count_list (preds s) n else 0)"
  using assms
proof (induction order)
  case (Cons k order)
  have "count_list (map (\<lambda>_. k) (filter (\<lambda>j. j = n) xs)) s = (if s = k then count_list xs n else 0)" for xs
    by (induction xs) auto
  then show ?case using Cons by (auto simp: successors_def count_list_append)
qed (simp add: successors_def)

lemma waiting_snoc: "n \<notin> set plan \<Longrightarrow> waiting_on preds plan s = waiting_on preds (plan @ [n]) s + count_list (preds s) n"
proof -
  have "n \<notin> set plan \<Longrightarrow> length (filter (\<lambda>j. j \<notin> set plan) xs) = length (filter (\<lambda>j. j \<notin> set (plan @ [n])) xs) + count_list xs n" for xs
    by (induction xs) auto
  then show "n \<notin> set plan \<Longrightarrow> waiting_on preds plan s = waiting_on preds (plan @ [n]) s + count_list (preds s) n"
    unfolding waiting_on_def .
qed

lemma kahn_step:
  assumes inv: "kahn_inv order preds pos deg ((p, n) # ready) plan" and d: "distinct order"
    and pos: "pos = zip order [0..<length order]"
  shows "\<exists>deg' ready'. release_all pos (deg, ready) (successors preds order n) = Ok (deg', ready') \<and>
    kahn_inv order preds pos deg' ready' (plan @ [n])"
proof -
  note i = inv [unfolded kahn_inv_def]
  have pl: "distinct plan" "set plan \<subseteq> set order" "in_order preds plan" and ok: "ready_ok pos ((p, n) # ready)"
    and dg: "\<And>s. map_of deg s = (if s \<in> set order then Some (waiting_on preds plan s) else None)" using i by blast+
  have rd: "(q, s) \<in> set ((p, n) # ready) \<longleftrightarrow> s \<in> set order \<and> s \<notin> set plan \<and> waiting_on preds plan s = 0 \<and> map_of pos s = Some q" for q s
    using i by blast
  have n: "n \<in> set order" "n \<notin> set plan" "waiting_on preds plan n = 0" "map_of pos n = Some p" using rd [of p n] by simp_all
  have ok': "ready_ok pos ready" and nr: "(p, n) \<notin> set ready" using ok by (auto simp: ready_ok_def)
  have inj: "\<forall>a b q. map_of pos a = Some q \<longrightarrow> map_of pos b = Some q \<longrightarrow> a = b" using d by (auto simp: pos map_of_positions)
  let ?ss = "successors preds order n"
  have cnt: "count_list ?ss s = (if s \<in> set order then count_list (preds s) n else 0)" for s by (rule count_successors [OF d])
  have sub: "set ?ss \<subseteq> set order" by (auto simp: successors_def)
  then have "set ?ss \<subseteq> dom (map_of pos)" by (auto simp: pos dom_map_of_zip)
  moreover have "\<forall>s \<in> set ?ss. \<exists>e. map_of deg s = Some e \<and> count_list ?ss s \<le> e"
    using sub dg cnt waiting_snoc [OF n(2), of preds] by auto
  ultimately obtain deg' ready' where r: "release_all pos (deg, ready) ?ss = Ok (deg', ready')" "ready_ok pos ready'"
      "\<And>s. map_of deg' s = map_option (\<lambda>e. e - count_list ?ss s) (map_of deg s)"
      "\<And>q s. (q, s) \<in> set ready' \<longleftrightarrow> (q, s) \<in> set ready \<or> s \<in> set ?ss \<and> map_of pos s = Some q \<and> map_of deg s = Some (count_list ?ss s)"
    using release_all_spec [OF _ _ ok' inj] by blast
  have "map_of deg' s = (if s \<in> set order then Some (waiting_on preds (plan @ [n]) s) else None)" for s
    using r(3) dg cnt waiting_snoc [OF n(2), of preds s] by simp
  moreover have "(q, s) \<in> set ready' \<longleftrightarrow> s \<in> set order \<and> s \<notin> set (plan @ [n]) \<and> waiting_on preds (plan @ [n]) s = 0 \<and> map_of pos s = Some q" for q s
  proof -
    have ss: "s \<in> set ?ss \<longleftrightarrow> s \<in> set order \<and> n \<in> set (preds s)" by (auto simp: successors_def)
    have nn: "n \<notin> set (preds n)" using n(2,3) by (auto simp: waiting_on_def filter_empty_conv)
    have old: "(q, s) \<in> set ready \<longleftrightarrow> s \<in> set order \<and> s \<notin> set plan \<and> s \<noteq> n \<and> waiting_on preds plan s = 0 \<and> map_of pos s = Some q"
      using rd [of q s] nr n(4) by auto
    have w: "waiting_on preds plan s = waiting_on preds (plan @ [n]) s + count_list (preds s) n" by (rule waiting_snoc [OF n(2)])
    have closed: "s \<in> set plan \<Longrightarrow> set (preds s) \<subseteq> set plan"
      using pl(3) unfolding in_order_def in_set_conv_nth [of s] by (meson in_set_takeD subset_iff)
    show ?thesis
    proof (cases "n \<in> set (preds s)")
      case True
      then have "s \<notin> set plan" "s \<noteq> n" using closed n(2) nn by auto
      then show ?thesis using True r(4) [of q s] old ss w dg cnt count_list_pos [OF True] by auto
    next
      case False
      then have "count_list (preds s) n = 0" by (simp add: count_list_0_iff)
      then show ?thesis using False r(4) [of q s] old ss w by auto
    qed
  qed
  moreover have "set (preds n) \<subseteq> set plan" using n(3) by (auto simp: waiting_on_def filter_empty_conv)
  then have "in_order preds (plan @ [n])" using pl(3) by (auto simp: in_order_def nth_append less_Suc_eq)
  ultimately show ?thesis using r(1,2) pl(1,2) n(1,2) unfolding kahn_inv_def by auto
qed

lemma kahn_spec:
  assumes "kahn_inv order preds pos deg ready plan" and "distinct order" and "pos = zip order [0..<length order]"
  shows "\<exists>res deg'. kahn (successors preds order) pos deg ready plan = Ok res \<and> kahn_inv order preds pos deg' [] res"
  using assms
proof (induction "successors preds order" pos deg ready plan rule: kahn.induct)
  case (1 pos deg plan)
  then show ?case by auto
next
  case (2 pos deg p n ready plan)
  obtain deg' ready' where r: "release_all pos (deg, ready) (successors preds order n) = Ok (deg', ready')"
      "kahn_inv order preds pos deg' ready' (plan @ [n])" using kahn_step [OF 2(2-4)] by blast
  then show ?case using 2(1) [OF r(1) refl r(2) 2(3,4)] by simp
qed

section \<open>What the plan satisfies\<close>

definition precedence :: "node_id list \<Rightarrow> (node_id \<Rightarrow> node_id list) \<Rightarrow> (node_id \<times> node_id) set" where
  "precedence order preds = {(i, j). i \<in> set order \<and> j \<in> set (preds i)}"

lemma finite_precedence: "finite (precedence order preds)"
proof -
  have "precedence order preds \<subseteq> (\<Union>i \<in> set order. Pair i ` set (preds i))" by (auto simp: precedence_def)
  then show ?thesis by (rule finite_subset) auto
qed

lemma kahn_start:
  assumes "distinct order"
  shows "kahn_inv order preds (zip order [0..<length order]) (map (\<lambda>i. (i, length (preds i))) order)
    (filter (\<lambda>(p, i). preds i = []) (zip [0..<length order] order)) []"
proof -
  let ?rs = "filter (\<lambda>(p, i). preds i = []) (zip [0..<length order] order)"
  have mem: "(p, i) \<in> set ?rs \<longleftrightarrow> preds i = [] \<and> p < length order \<and> order ! p = i" for p i by (auto simp: set_zip intro!: exI [of _ p])
  have "sorted (map fst (filter P (zip [0..<length order] order)))" for P
    by (rule sorted_filter) simp
  then have "ready_ok (zip order [0..<length order]) ?rs"
    using assms mem by (auto simp: ready_ok_def map_of_positions distinct_zipI2)
  moreover have "map_of (map (\<lambda>i. (i, length (preds i))) order) s = (if s \<in> set order then Some (waiting_on preds [] s) else None)" for s
    by (induction order) (auto simp: waiting_on_def)
  ultimately show ?thesis using mem assms unfolding kahn_inv_def
    by (auto simp: in_order_def map_of_positions waiting_on_def in_set_conv_nth)
qed

lemma kahn_result:
  assumes "distinct order"
  obtains plan where "plan_order order preds = (if length plan \<noteq> length order then Panic else Ok plan)"
    and "distinct plan" and "set plan \<subseteq> set order" and "in_order preds plan"
    and "\<forall>s \<in> set order - set plan. \<exists>j \<in> set (preds s). j \<notin> set plan"
proof -
  let ?pos = "zip order [0..<length order]"
  obtain plan deg where k: "kahn (successors preds order) ?pos (map (\<lambda>i. (i, length (preds i))) order)
      (filter (\<lambda>(p, i). preds i = []) (zip [0..<length order] order)) [] = Ok plan" and inv: "kahn_inv order preds ?pos deg [] plan"
    using kahn_spec [OF kahn_start [OF assms] assms refl] by blast
  have "\<exists>j \<in> set (preds s). j \<notin> set plan" if s: "s \<in> set order - set plan" for s
  proof -
    obtain p where "map_of ?pos s = Some p" using s by (fastforce simp: map_of_positions [OF assms] in_set_conv_nth)
    then have "waiting_on preds plan s \<noteq> 0" using inv s unfolding kahn_inv_def by auto
    then show ?thesis by (auto simp: waiting_on_def filter_empty_conv)
  qed
  then show thesis using that [of plan] k inv by (simp add: plan_order_def Let_def kahn_inv_def)
qed

lemma in_order_reach:
  assumes "in_order preds plan" and "set plan = set order" and "(x, y) \<in> (precedence order preds)\<^sup>+" and "k < length plan" and "x = plan ! k"
  shows "y \<in> set (take k plan)"
  using assms(3,4,5)
proof (induction rule: trancl_induct)
  case (base y)
  then show ?case using assms(1) by (auto simp: precedence_def in_order_def)
next
  case (step y z)
  then obtain k' where k': "k' < k" "y = plan ! k'" by (auto simp: in_set_conv_nth)
  then have "set (preds y) \<subseteq> set (take k' plan)" using assms(1) step(4) by (simp add: in_order_def)
  then have "z \<in> set (take k' plan)" using step(2) by (auto simp: precedence_def)
  then show ?case using k'(1) set_take_subset_set_take [of k' k plan] by auto
qed

text \<open>A plan exists exactly when the precedence has no cycle, and then it is a linear extension.\<close>

lemma plan_order_Ok:
  assumes d: "distinct order" and cl: "\<forall>i \<in> set order. set (preds i) \<subseteq> set order" and ac: "acyclic (precedence order preds)"
  obtains plan where "plan_order order preds = Ok plan" and "distinct plan" and "set plan = set order" and "in_order preds plan"
proof (rule kahn_result [OF d, of preds])
  fix plan assume p: "plan_order order preds = (if length plan \<noteq> length order then Panic else Ok plan)" "distinct plan"
    "set plan \<subseteq> set order" "in_order preds plan" "\<forall>s \<in> set order - set plan. \<exists>j \<in> set (preds s). j \<notin> set plan"
  have wf: "wf ((precedence order preds)\<inverse>)" by (rule finite_acyclic_wf_converse [OF finite_precedence ac])
  have "set order - set plan = {}"
  proof (rule ccontr)
    assume "set order - set plan \<noteq> {}"
    then obtain s where s: "s \<in> set order - set plan" "\<And>j. (j, s) \<in> (precedence order preds)\<inverse> \<Longrightarrow> j \<notin> set order - set plan"
      using wfE_min' [OF wf] by metis
    obtain j where "j \<in> set (preds s)" "j \<notin> set plan" using p(5) s(1) by blast
    then show False using s cl by (auto simp: precedence_def)
  qed
  then have eq: "set plan = set order" using p(3) by blast
  then have "length plan = length order" using d p(2) distinct_card by metis
  then show thesis using that p eq by simp
qed

lemma plan_order_OkD:
  assumes d: "distinct order" and p: "plan_order order preds = Ok plan"
  shows "distinct plan" and "set plan = set order" and "in_order preds plan" and "acyclic (precedence order preds)"
proof -
  have k: "distinct plan \<and> set plan \<subseteq> set order \<and> in_order preds plan \<and> length plan = length order"
    by (rule kahn_result [OF d, of preds]) (use p in \<open>auto split: if_splits\<close>)
  then show eq: "set plan = set order" using d by (metis card_subset_eq distinct_card finite_set)
  show "distinct plan" "in_order preds plan" using k by simp_all
  show "acyclic (precedence order preds)" unfolding acyclic_def
  proof (intro allI notI)
    fix x assume x: "(x, x) \<in> (precedence order preds)\<^sup>+"
    then have "x \<in> set order" by (auto simp: precedence_def dest: tranclD)
    then obtain n where n: "n < length plan" "x = plan ! n" unfolding eq [symmetric] in_set_conv_nth by blast
    then have "x \<in> set (take n plan)" using in_order_reach [of preds plan order x x n] k eq x by simp
    then show False using n k by (auto simp: in_set_conv_nth nth_eq_iff_index_eq)
  qed
qed

lemma plan_order_Panic:
  assumes "distinct order" and "\<not> acyclic (precedence order preds)"
  shows "plan_order order preds = Panic"
  by (rule kahn_result [OF assms(1), of preds]) (use assms plan_order_OkD(4) in \<open>auto split: if_splits\<close>)

text \<open>If the base order already respects the precedence, it is the plan.\<close>

lemma nth_not_in_take: "distinct xs \<Longrightarrow> k < length xs \<Longrightarrow> xs ! k \<notin> set (take k xs)"
  by (auto simp: in_set_conv_nth nth_eq_iff_index_eq)

lemma nth_in_take: "p < k \<Longrightarrow> k \<le> length xs \<Longrightarrow> xs ! p \<in> set (take k xs)"
  by (auto simp: in_set_conv_nth)

text \<open>The next node of the base order is ready, and nothing before it is.\<close>

lemma kahn_next:
  assumes inv: "kahn_inv order preds pos deg ready (take k order)" and d: "distinct order" and pos: "pos = zip order [0..<length order]"
    and io: "in_order preds order" and k: "k < length order"
  obtains ready' where "ready = (k, order ! k) # ready'"
proof -
  have rd: "(q, s) \<in> set ready \<longleftrightarrow> s \<in> set order \<and> s \<notin> set (take k order) \<and> waiting_on preds (take k order) s = 0 \<and> map_of pos s = Some q" for q s
    using inv unfolding kahn_inv_def by blast
  have ro: "ready_ok pos ready" using inv unfolding kahn_inv_def by blast
  have "set (preds (order ! k)) \<subseteq> set (take k order)" using io k by (simp add: in_order_def)
  then have "waiting_on preds (take k order) (order ! k) = 0" by (auto simp: waiting_on_def filter_empty_conv)
  moreover have "map_of pos (order ! k) = Some k" using d k by (simp add: pos map_of_positions)
  ultimately have in_r: "(k, order ! k) \<in> set ready" using rd [of k "order ! k"] k nth_not_in_take [OF d k] by simp
  then obtain q n ready' where r: "ready = (q, n) # ready'" by (cases ready) auto
  have "q \<le> k" using in_r ro by (auto simp: r ready_ok_def)
  have qn: "n \<notin> set (take k order)" "map_of pos n = Some q" using rd [of q n] by (auto simp: r)
  then have "q < length order" "order ! q = n" using d by (auto simp: pos map_of_positions)
  then have "\<not> q < k" using qn(1) nth_in_take [of q k order] k by auto
  then have "q = k" using \<open>q \<le> k\<close> by simp
  then show thesis using that r \<open>order ! q = n\<close> by simp
qed

lemma kahn_stable:
  assumes "kahn_inv order preds pos deg ready (take k order)" and "distinct order" and "pos = zip order [0..<length order]"
    and "in_order preds order" and "k \<le> length order"
  shows "kahn (successors preds order) pos deg ready (take k order) = Ok order"
  using assms(1,5)
proof (induction "length order - k" arbitrary: k deg ready)
  case 0
  have "ready = []"
  proof (rule ccontr)
    assume "ready \<noteq> []"
    then obtain q n where "(q, n) \<in> set ready" by (cases ready) auto
    then have "n \<in> set order - set (take k order)" using 0(2) unfolding kahn_inv_def by blast
    then show False using 0 by simp
  qed
  then show ?case using 0 by simp
next
  case (Suc m)
  then have k: "k < length order" by simp
  obtain ready' where r: "ready = (k, order ! k) # ready'" by (rule kahn_next [OF Suc(3) assms(2-4) k])
  obtain deg' ready'' where st: "release_all pos (deg, ready') (successors preds order (order ! k)) = Ok (deg', ready'')"
      "kahn_inv order preds pos deg' ready'' (take k order @ [order ! k])"
    using kahn_step [OF Suc(3) [unfolded r] assms(2,3)] by blast
  then show ?case using Suc(1) [of "Suc k" deg' ready''] Suc(2) k r by (simp add: take_Suc_conv_app_nth)
qed

lemma plan_order_stable: "distinct order \<Longrightarrow> in_order preds order \<Longrightarrow> plan_order order preds = Ok order"
  using kahn_stable [of order preds _ _ _ 0, OF _ _ refl] kahn_start [of order preds] by (simp add: plan_order_def Let_def)

end
