(* ===== verification/GraphAlias.thy ===== *)
theory GraphAlias
  imports GraphOrder
begin

text \<open>
  What the ordering edges mean: the alias groups are the nodes that share storage, every reader of
  storage that an operation destroys is pinned before that operation, and a plan therefore never reads
  destroyed bytes.
\<close>

section \<open>Storage roots\<close>

text \<open>The node whose storage a node uses: an aliasing node uses that of its first input.\<close>

inductive storage_root :: "'f node list \<Rightarrow> node_id \<Rightarrow> node_id \<Rightarrow> bool" for ns where
  own: "\<not> extends_alias (node_op (ns ! i)) \<or> inputs (ns ! i) = [] \<Longrightarrow> storage_root ns i i"
| shared: "extends_alias (node_op (ns ! i)) \<Longrightarrow> inputs (ns ! i) = j # js \<Longrightarrow> storage_root ns j r \<Longrightarrow> storage_root ns i r"

inductive_cases storage_root_cases: "storage_root ns i r"

definition same_storage :: "'f node list \<Rightarrow> node_id \<Rightarrow> node_id \<Rightarrow> bool" where
  "same_storage ns i j \<longleftrightarrow> (\<exists>r. storage_root ns i r \<and> storage_root ns j r)"

lemma storage_root_unique: "storage_root ns i r \<Longrightarrow> storage_root ns i s \<Longrightarrow> r = s"
proof (induction arbitrary: s rule: storage_root.induct)
  case (own i)
  then show ?case by (auto elim: storage_root_cases)
next
  case (shared i j js r)
  from shared(5) show ?case by (rule storage_root_cases) (use shared(1,2,4) in auto)
qed

lemma storage_root_total:
  assumes "acyclic (edges ns)" and "inputs_ok ns" and "i < length ns"
  shows "\<exists>r. storage_root ns i r"
  using acyclic_edges_wf [OF assms(1)] assms(3)
proof (induction i rule: wf_induct_rule)
  case (less i)
  show ?case
  proof (cases "\<not> extends_alias (node_op (ns ! i)) \<or> inputs (ns ! i) = []")
    case True
    then show ?thesis by (blast intro: storage_root.own)
  next
    case False
    then obtain j js where j: "inputs (ns ! i) = j # js" by (cases "inputs (ns ! i)") auto
    then have "(i, j) \<in> edges ns" "j < length ns" using less(2) assms(2) by (auto simp: edges_def inputs_ok_def)
    then show ?thesis using less(1) [of j] False j by (blast intro: storage_root.shared)
  qed
qed

lemma storage_root_reach: "storage_root ns i r \<Longrightarrow> inputs_ok ns \<Longrightarrow> i < length ns \<Longrightarrow> (i, r) \<in> (edges ns)\<^sup>*"
proof (induction rule: storage_root.induct)
  case (shared i j js r)
  then have "(i, j) \<in> edges ns" "j < length ns" by (auto simp: edges_def inputs_ok_def)
  then show ?case using shared by (meson converse_rtrancl_into_rtrancl)
qed simp

lemma storage_root_idem: "storage_root ns i r \<Longrightarrow> storage_root ns r r"
  by (induction rule: storage_root.induct) (auto intro: storage_root.own)

section \<open>Alias groups\<close>

definition alias_inv :: "'f node list \<Rightarrow> node_id list \<Rightarrow> alias_table \<Rightarrow> bool" where
  "alias_inv ns pre t \<longleftrightarrow> (\<forall>i \<in> set pre. storage_root ns i (group_in (fst t) i)) \<and> (\<forall>i. i \<notin> set pre \<longrightarrow> map_of (fst t) i = None) \<and>
     (\<forall>r i. i \<in> set (members_in (snd t) r) \<longleftrightarrow> i = r \<or> i \<in> set pre \<and> storage_root ns i r)"

lemma alias_step_inv:
  assumes inv: "alias_inv ns pre t" and x: "x \<notin> set pre" "set (inputs (ns ! x)) \<subseteq> set pre"
  shows "alias_inv ns (pre @ [x]) (alias_step ns t x)"
proof -
  obtain gs ms where t: "t = (gs, ms)" by (cases t)
  have g: "\<And>i. i \<in> set pre \<Longrightarrow> storage_root ns i (group_in gs i)" and new: "\<And>i. i \<notin> set pre \<Longrightarrow> map_of gs i = None"
    and mem: "\<And>r i. i \<in> set (members_in ms r) \<longleftrightarrow> i = r \<or> i \<in> set pre \<and> storage_root ns i r"
    using inv by (auto simp: alias_inv_def t)
  show ?thesis
  proof (cases "\<not> extends_alias (node_op (ns ! x)) \<or> inputs (ns ! x) = []")
    case True
    then have own: "storage_root ns x x" by (rule storage_root.own)
    have "alias_step ns t x = (gs, ms)" using True by (auto simp: alias_step_def t split: list.splits)
    moreover have "group_in gs x = x" using new [OF x(1)] by (simp add: group_in_def)
    ultimately show ?thesis using g new mem own storage_root_unique [OF own] by (auto simp: alias_inv_def)
  next
    case False
    then obtain j js where j: "inputs (ns ! x) = j # js" by (cases "inputs (ns ! x)") auto
    let ?r = "group_in gs j"
    have root: "storage_root ns x ?r" using False j x(2) g [of j] by (auto intro: storage_root.shared)
    have st: "alias_step ns t x = (AList.update x ?r gs, AList.update ?r (members_in ms ?r @ [x]) ms)"
      using False j by (simp add: alias_step_def t Let_def)
    have "storage_root ns i (group_in (AList.update x ?r gs) i)" if "i \<in> set (pre @ [x])" for i
      using that g [of i] root x(1) by (auto simp: group_in_def)
    moreover have "i \<in> set (members_in (AList.update ?r (members_in ms ?r @ [x]) ms) r) \<longleftrightarrow>
        i = r \<or> i \<in> set (pre @ [x]) \<and> storage_root ns i r" for r i
    proof (cases "r = ?r")
      case True
      then have "members_in (AList.update ?r (members_in ms ?r @ [x]) ms) r = members_in ms ?r @ [x]" by (simp add: members_in_def)
      then show ?thesis using True mem [of i ?r] root by auto
    next
      case False
      then have "members_in (AList.update ?r (members_in ms ?r @ [x]) ms) r = members_in ms r" by (simp add: members_in_def)
      then show ?thesis using False mem [of i r] storage_root_unique [OF root] by auto
    qed
    ultimately show ?thesis using new unfolding st alias_inv_def by auto
  qed
qed

lemma alias_groups_inv:
  assumes "ordered ns order" and "distinct order"
  shows "alias_inv ns order (alias_groups ns order)"
proof -
  have "alias_inv ns (take k order) (foldl (alias_step ns) ([], []) (take k order))" if "k \<le> length order" for k
    using that
  proof (induction k)
    case 0
    then show ?case by (simp add: alias_inv_def members_in_def)
  next
    case (Suc k)
    then have "alias_inv ns (take k order @ [order ! k]) (alias_step ns (foldl (alias_step ns) ([], []) (take k order)) (order ! k))"
      using assms by (intro alias_step_inv) (auto simp: ordered_def nth_not_in_take)
    then show ?case using Suc by (simp add: take_Suc_conv_app_nth)
  qed
  from this [of "length order"] show ?thesis by (simp add: alias_groups_def)
qed

section \<open>Pinned readers\<close>

text \<open>The readers of the storage of \<open>x\<close>, other than \<open>d\<close> and the nodes that only alias it.\<close>

definition storage_readers :: "'f node list \<Rightarrow> node_id set \<Rightarrow> node_id \<Rightarrow> node_id \<Rightarrow> node_id set" where
  "storage_readers ns V d x = {r \<in> V. r \<noteq> d \<and> \<not> same_storage ns x r \<and> (\<exists>a \<in> V. same_storage ns x a \<and> a \<in> set (inputs (ns ! r)))}"

lemma set_pinned_readers:
  assumes ord: "ordered ns order" "distinct order" and x: "x \<in> set order" and ok: "inputs_ok ns" "set order \<subseteq> {..<length ns}"
  shows "set (pinned_readers ns order (alias_groups ns order) d x) = storage_readers ns (set order) d x"
proof -
  let ?t = "alias_groups ns order"
  let ?as = "members_in (snd ?t) (group_in (fst ?t) x)"
  have inv: "alias_inv ns order ?t" by (rule alias_groups_inv [OF ord])
  then have root: "storage_root ns x (group_in (fst ?t) x)" using x by (simp add: alias_inv_def)
  let ?r = "group_in (fst ?t) x"
  have "(x, ?r) \<in> (edges ns)\<^sup>*" using storage_root_reach [OF root ok(1)] x ok(2) by auto
  then have "?r \<in> set order" by (rule ordered_closed [OF ord(1) x])
  moreover have "i \<in> set ?as \<longleftrightarrow> i = ?r \<or> i \<in> set order \<and> storage_root ns i ?r" for i
    using inv by (simp add: alias_inv_def)
  ultimately have mem: "i \<in> set ?as \<longleftrightarrow> i \<in> set order \<and> storage_root ns i ?r" for i
    using storage_root_idem [OF root] by auto
  have same: "same_storage ns x i \<longleftrightarrow> storage_root ns i ?r" for i
    unfolding same_storage_def using root by (metis storage_root_unique)
  show ?thesis by (auto simp: pinned_readers_def Let_def set_consumers_in storage_readers_def mem same)
qed

section \<open>Ordering edges\<close>

lemma map_of_concat_single:
  assumes "distinct order"
  shows "map_of (concat (map (\<lambda>i. case f i of [] \<Rightarrow> [] | rs \<Rightarrow> [(i, rs)]) order)) i =
    (if i \<in> set order \<and> f i \<noteq> [] then Some (f i) else None)"
  using assms
proof (induction order)
  case (Cons k order)
  then show ?case by (cases "f k"; cases "i = k") (auto simp: map_add_def)
qed simp

definition pins :: "(fused_op_id \<Rightarrow> nat option) \<Rightarrow> 'f node list \<Rightarrow> node_id set \<Rightarrow> node_id \<Rightarrow> node_id set" where
  "pins reg ns V d = (case destroyed_by reg (ns ! d) of None \<Rightarrow> {} | Some x \<Rightarrow> storage_readers ns V d x)"

lemma destroyed_by_input: "destroyed_by reg n = Some x \<Longrightarrow> x \<in> set (inputs n)"
  by (auto simp: destroyed_by_def split: option.splits if_splits)

lemma derive_ordering_spec:
  assumes t: "topo_order_multi g roots = Ok order" and ord: "ordered (nodes g) order" "distinct order"
    and ok: "inputs_ok (nodes g)" "set order \<subseteq> {..<length (nodes g)}"
  obtains e where "derive_ordering reg g roots = Ok e"
    and "\<And>d. d \<in> set order \<Longrightarrow> set (deps_of e d) = pins reg (nodes g) (set order) d"
proof -
  let ?ns = "nodes g"
  define f where "f = (\<lambda>i. case destroyed_by reg (?ns ! i) of None \<Rightarrow> [] | Some x \<Rightarrow> pinned_readers ?ns order (alias_groups ?ns order) i x)"
  define e where "e = concat (map (\<lambda>i. case f i of [] \<Rightarrow> [] | rs \<Rightarrow> [(i, rs)]) order)"
  have "derive_ordering reg g roots = Ok e"
    unfolding derive_ordering_def t e_def f_def Let_def rust_bind.simps
    by (intro arg_cong [of _ _ Ok] arg_cong [of _ _ concat] map_cong refl) (auto split: option.splits)
  moreover have "set (deps_of e d) = pins reg ?ns (set order) d" if d: "d \<in> set order" for d
  proof -
    have dep: "deps_of e d = f d" using d by (auto simp: deps_of_def e_def map_of_concat_single [OF ord(2)])
    show ?thesis
    proof (cases "destroyed_by reg (?ns ! d)")
      case (Some x)
      then have "x \<in> set (inputs (?ns ! d))" by (rule destroyed_by_input)
      then have "x \<in> set order" using d ordered_closed [OF ord(1) d, of x] ok(2) by (auto simp: edges_def)
      then show ?thesis using Some set_pinned_readers [OF ord _ ok] by (simp add: dep f_def pins_def)
    qed (simp add: dep f_def pins_def)
  qed
  ultimately show thesis using that by blast
qed

section \<open>The plan\<close>

text \<open>What a node waits for: its inputs, and the readers of the storage it destroys.\<close>

definition waits_for :: "(fused_op_id \<Rightarrow> nat option) \<Rightarrow> 'f node list \<Rightarrow> node_id set \<Rightarrow> node_id \<Rightarrow> node_id set" where
  "waits_for reg ns V i = set (inputs (ns ! i)) \<union> pins reg ns V i"

definition waits :: "(fused_op_id \<Rightarrow> nat option) \<Rightarrow> 'f node list \<Rightarrow> node_id set \<Rightarrow> (node_id \<times> node_id) set" where
  "waits reg ns V = {(i, j). i \<in> V \<and> j \<in> waits_for reg ns V i}"

definition schedules :: "(fused_op_id \<Rightarrow> nat option) \<Rightarrow> 'f node list \<Rightarrow> node_id set \<Rightarrow> node_id list \<Rightarrow> bool" where
  "schedules reg ns V plan \<longleftrightarrow> distinct plan \<and> set plan = V \<and>
     (\<forall>k < length plan. waits_for reg ns V (plan ! k) \<subseteq> set (take k plan))"

lemma pins_in: "pins reg ns V d \<subseteq> V"
  by (auto simp: pins_def storage_readers_def split: option.splits)

lemma execution_plan_result:
  assumes gi: "graph_inv g" and roots: "set roots \<subseteq> {..<length (nodes g)}" and V: "V = (edges (nodes g))\<^sup>* `` set roots"
  shows "if acyclic (waits reg (nodes g) V) then \<exists>plan. execution_plan reg g roots = Ok plan \<and> schedules reg (nodes g) V plan
    else execution_plan reg g roots = Panic"
proof -
  let ?ns = "nodes g"
  note ok = graph_inv_parts [OF gi]
  obtain order where o: "topo_order_multi g roots = Ok order" "distinct order" "ordered ?ns order" "set order = V"
    by (rule topo_order_multi_spec [OF ok(2,1) roots]) (use V in blast)
  have lt: "set order \<subseteq> {..<length ?ns}" using o(4) V roots reach_in [OF _ ok(1)] by auto
  obtain e where e: "derive_ordering reg g roots = Ok e" "\<And>d. d \<in> V \<Longrightarrow> set (deps_of e d) = pins reg ?ns V d"
    by (rule derive_ordering_spec [OF o(1,3,2) ok(1) lt, of reg]) (use o(4) in blast)
  let ?preds = "predecessors ?ns order e"
  have ins: "set (inputs (?ns ! i)) \<subseteq> V" if "i \<in> V" for i
    using that ordered_closed [OF o(3), of i] lt o(4) by (auto simp: edges_def)
  have sp: "set (?preds i) = waits_for reg ?ns V i" if "i \<in> V" for i
    using that e(2) ins pins_in [of reg ?ns V i] o(4) by (auto simp: predecessors_def waits_for_def)
  have prec: "precedence order ?preds = waits reg ?ns V" using sp o(4) by (auto simp: precedence_def waits_def)
  have sched: "schedules reg ?ns V plan" if "distinct plan" "set plan = set order" "in_order ?preds plan" for plan
    using that sp o(4) nth_mem [of _ plan] by (auto simp: schedules_def in_order_def)
  show ?thesis
  proof (cases "e = []")
    case True
    then have no: "pins reg ?ns V d = {}" if "d \<in> V" for d using e(2) [OF that] by (simp add: deps_of_def)
    have io: "in_order ?preds order"
      using o(3) True by (auto simp: in_order_def ordered_def predecessors_def deps_of_def)
    have "waits reg ?ns V \<subseteq> edges ?ns" using no lt o(4) by (auto simp: waits_def waits_for_def edges_def)
    then have "acyclic (waits reg ?ns V)" using ok(2) by (rule acyclic_subset [rotated])
    then show ?thesis using True o(1,2) e(1) sched [OF o(2) refl io] by (simp add: execution_plan_def)
  next
    case False
    then have ep: "execution_plan reg g roots = plan_order order ?preds" using o(1) e(1) by (simp add: execution_plan_def)
    show ?thesis
    proof (cases "acyclic (waits reg ?ns V)")
      case True
      have cl: "\<forall>i \<in> set order. set (?preds i) \<subseteq> set order" by (auto simp: predecessors_def)
      obtain plan where "plan_order order ?preds = Ok plan" "distinct plan" "set plan = set order" "in_order ?preds plan"
        by (rule plan_order_Ok [OF o(2) cl]) (use True prec in auto)
      then show ?thesis using True ep sched by auto
    next
      case F: False
      then show ?thesis using plan_order_Panic [OF o(2), of ?preds] ep prec by simp
    qed
  qed
qed

lemma execution_plan_schedules:
  assumes "graph_inv g" and "set roots \<subseteq> {..<length (nodes g)}" and "execution_plan reg g roots = Ok plan"
  shows "schedules reg (nodes g) ((edges (nodes g))\<^sup>* `` set roots) plan"
  using execution_plan_result [OF assms(1,2) refl, of reg] assms(3) by (auto split: if_splits)

section \<open>Destroyed storage\<close>

definition before :: "node_id list \<Rightarrow> node_id \<Rightarrow> node_id \<Rightarrow> bool" where
  "before plan a b \<longleftrightarrow> (\<exists>j < length plan. plan ! j = b \<and> a \<in> set (take j plan))"

lemma before_asym: "distinct plan \<Longrightarrow> before plan a b \<Longrightarrow> \<not> before plan b a"
  by (auto simp: before_def in_set_conv_nth nth_eq_iff_index_eq)

lemma schedules_before:
  assumes "schedules reg ns V plan" and "d \<in> V" and "r \<in> waits_for reg ns V d"
  shows "before plan r d"
proof -
  have "d \<in> set plan" using assms(1,2) by (simp add: schedules_def)
  then obtain j where j: "j < length plan" "plan ! j = d" unfolding in_set_conv_nth by blast
  then have "r \<in> set (take j plan)" using assms(1,3) unfolding schedules_def by blast
  then show ?thesis using j unfolding before_def by blast
qed

lemma destructive_not_alias: "destroyed_by reg n = Some x \<Longrightarrow> \<not> extends_alias (node_op n)"
  by (auto simp: destroyed_by_def destructive_input_def extends_alias_def is_view_op_def split: op.splits option.splits)

text \<open>An operation that destroys storage does not own the storage it destroys.\<close>

lemma destroyed_not_own:
  assumes ac: "acyclic (edges ns)" and ok: "inputs_ok ns" and d: "d < length ns" and x: "destroyed_by reg (ns ! d) = Some x"
  shows "\<not> same_storage ns x d"
proof
  assume "same_storage ns x d"
  then obtain r where r: "storage_root ns x r" "storage_root ns d r" by (auto simp: same_storage_def)
  have "storage_root ns d d" by (rule storage_root.own) (use destructive_not_alias [OF x] in simp)
  then have "r = d" using r(2) by (rule storage_root_unique [symmetric])
  moreover have e: "(d, x) \<in> edges ns" using destroyed_by_input [OF x] d by (simp add: edges_def)
  moreover have "x < length ns" using edges_in [OF ok e] by simp
  ultimately have "(d, d) \<in> (edges ns)\<^sup>+" using storage_root_reach [OF r(1) ok] by (metis rtrancl_into_trancl2)
  then show False using ac by (simp add: acyclic_def)
qed

lemma same_storage_sym: "same_storage ns i j \<Longrightarrow> same_storage ns j i"
  by (auto simp: same_storage_def)

lemma same_storage_trans: "same_storage ns i j \<Longrightarrow> same_storage ns j k \<Longrightarrow> same_storage ns i k"
  unfolding same_storage_def by (metis storage_root_unique)

text \<open>In any plan at most one operation destroys a storage.\<close>

lemma one_destroyer:
  assumes gi: "graph_inv g" and s: "schedules reg (nodes g) V plan" and V: "V \<subseteq> {..<length (nodes g)}"
    and d: "d \<in> V" "destroyed_by reg (nodes g ! d) = Some x" and d': "d' \<in> V" "destroyed_by reg (nodes g ! d') = Some x'"
    and same: "same_storage (nodes g) x x'" and ins: "x \<in> V" "x' \<in> V"
  shows "d = d'"
proof (rule ccontr)
  assume ne: "d \<noteq> d'"
  let ?ns = "nodes g"
  note ok = graph_inv_parts [OF gi]
  have lt: "d < length ?ns" "d' < length ?ns" using d(1) d'(1) V by auto
  have "\<not> same_storage ?ns x d'" "\<not> same_storage ?ns x' d"
    using destroyed_not_own [OF ok(2,1) lt(2) d'(2)] destroyed_not_own [OF ok(2,1) lt(1) d(2)] same same_storage_sym same_storage_trans
    by metis+
  then have "d' \<in> storage_readers ?ns V d x" "d \<in> storage_readers ?ns V d' x'"
    using ne d d' ins same destroyed_by_input same_storage_sym [OF same] unfolding storage_readers_def by blast+
  then have "before plan d' d" "before plan d d'"
    using schedules_before [OF s] d d' by (auto simp: waits_for_def pins_def)
  then show False using before_asym s by (auto simp: schedules_def)
qed

end
