(* ===== verification/GraphExec.thy ===== *)
theory GraphExec
  imports GraphAlias
begin

text \<open>
  What a plan is for: the nodes run one after another on shared storage, aliasing nodes read the bytes of
  their input where they are, and a destructive operation overwrites the storage of its input with
  anything. Under a plan every operation still reads the values that the graph gives its inputs.
\<close>

section \<open>Running on shared storage\<close>

text \<open>A memory holds a value for every storage; an aliasing node is read through its input.\<close>

inductive reads :: "(('f, 's) node_view \<Rightarrow> 'v list \<Rightarrow> 'v) \<Rightarrow> ('f, 's) graph \<Rightarrow> (node_id \<Rightarrow> 'v) \<Rightarrow> node_id \<Rightarrow> 'v \<Rightarrow> bool"
  for sem g mem where
  own: "\<not> extends_alias (node_op (nodes g ! i)) \<Longrightarrow> reads sem g mem i (mem i)"
| through: "extends_alias (node_op (nodes g ! i)) \<Longrightarrow> inputs (nodes g ! i) = [j] \<Longrightarrow> reads sem g mem j w \<Longrightarrow>
    reads sem g mem i (sem (view_of g i) [w])"

inductive_cases reads_cases: "reads sem g mem i v"

type_synonym 'v exec_state = "(node_id \<Rightarrow> 'v) \<times> node_id list"

text \<open>One node of the plan; what a destructive operation leaves in the storage of its input is arbitrary.\<close>

inductive exec_step :: "(('f, 's) node_view \<Rightarrow> 'v list \<Rightarrow> 'v) \<Rightarrow> (fused_op_id \<Rightarrow> nat option) \<Rightarrow> ('f, 's) graph \<Rightarrow>
    'v exec_state \<Rightarrow> 'v exec_state \<Rightarrow> bool" for sem reg g where
  skip: "extends_alias (node_op (nodes g ! n)) \<Longrightarrow> exec_step sem reg g (mem, n # rest) (mem, rest)"
| pure: "\<not> extends_alias (node_op (nodes g ! n)) \<Longrightarrow> destroyed_by reg (nodes g ! n) = None \<Longrightarrow>
    list_all2 (reads sem g mem) (inputs (nodes g ! n)) vs \<Longrightarrow>
    exec_step sem reg g (mem, n # rest) (mem(n := sem (view_of g n) vs), rest)"
| destroy: "\<not> extends_alias (node_op (nodes g ! n)) \<Longrightarrow> destroyed_by reg (nodes g ! n) = Some x \<Longrightarrow>
    storage_root (nodes g) x r \<Longrightarrow> list_all2 (reads sem g mem) (inputs (nodes g ! n)) vs \<Longrightarrow>
    exec_step sem reg g (mem, n # rest) (mem(r := junk, n := sem (view_of g n) vs), rest)"

section \<open>Every operation reads the right values\<close>

definition unary_aliases :: "'f node list \<Rightarrow> bool" where
  "unary_aliases ns \<longleftrightarrow> (\<forall>n \<in> set ns. extends_alias (node_op n) \<longrightarrow> length (inputs n) = 1)"

definition destroyed_in :: "(fused_op_id \<Rightarrow> nat option) \<Rightarrow> 'f node list \<Rightarrow> node_id set \<Rightarrow> node_id \<Rightarrow> bool" where
  "destroyed_in reg ns D m \<longleftrightarrow> (\<exists>d \<in> D. \<exists>x. destroyed_by reg (ns ! d) = Some x \<and> same_storage ns x m)"

lemma destroyed_in_same: "destroyed_in reg ns D m \<Longrightarrow> same_storage ns m k \<Longrightarrow> destroyed_in reg ns D k"
  unfolding destroyed_in_def using same_storage_trans by blast

lemma same_storage_root: "storage_root ns j r \<Longrightarrow> same_storage ns r j"
  unfolding same_storage_def using storage_root_idem by blast

definition exec_inv :: "(('f, 's) node_view \<Rightarrow> 'v list \<Rightarrow> 'v) \<Rightarrow> (fused_op_id \<Rightarrow> nat option) \<Rightarrow> ('f, 's) graph \<Rightarrow> node_id list \<Rightarrow>
    'v exec_state \<Rightarrow> bool" where
  "exec_inv sem reg g plan st \<longleftrightarrow> (\<exists>pre. plan = pre @ snd st \<and> (\<forall>m \<in> set pre. \<not> extends_alias (node_op (nodes g ! m)) \<longrightarrow>
     \<not> destroyed_in reg (nodes g) (set pre) m \<longrightarrow> fst st m = val sem g m))"

lemma unary_alias:
  "unary_aliases ns \<Longrightarrow> i < length ns \<Longrightarrow> extends_alias (node_op (ns ! i)) \<Longrightarrow> \<exists>j. inputs (ns ! i) = [j]"
  by (auto simp: unary_aliases_def length_Suc_conv)

text \<open>A node whose storage root holds its value is read with its own value.\<close>

lemma reads_val:
  assumes gi: "graph_inv g" and u: "unary_aliases (nodes g)"
  shows "storage_root (nodes g) i r \<Longrightarrow> i < length (nodes g) \<Longrightarrow> mem r = val sem g r \<Longrightarrow> reads sem g mem i (val sem g i)"
proof (induction rule: storage_root.induct)
  case (own i)
  then have "\<not> extends_alias (node_op (nodes g ! i))" using unary_alias [OF u] by force
  then show ?case using reads.own [of g i sem mem] own by simp
next
  case (shared i j js r)
  then have js: "js = []" using unary_alias [OF u] by force
  have j: "j < length (nodes g)" using shared graph_inv_parts(1) [OF gi] by (auto simp: inputs_ok_def)
  have "val sem g i = sem (view_of g i) [val sem g j]" using val_step [OF gi, of i sem] shared js by simp
  then show ?case using reads.through [OF shared(1)] shared js j by metis
qed

lemma reads_unique: "reads sem g mem i v \<Longrightarrow> reads sem g mem i w \<Longrightarrow> v = w"
proof (induction arbitrary: w rule: reads.induct)
  case (own i)
  from own(2) show ?case by (rule reads_cases) (use own(1) in auto)
next
  case (through i j v)
  from through(5) show ?case by (rule reads_cases) (use through(1,2,4) in auto)
qed

lemma ordered_prefix: "ordered ns (pre @ rest) \<Longrightarrow> ordered ns pre"
  unfolding ordered_def
proof (intro allI impI)
  fix k assume o: "\<forall>k < length (pre @ rest). set (inputs (ns ! ((pre @ rest) ! k))) \<subseteq> set (take k (pre @ rest))" and k: "k < length pre"
  then show "set (inputs (ns ! (pre ! k))) \<subseteq> set (take k pre)" using spec [OF o, of k] by (simp add: nth_append)
qed

text \<open>When a node runs, nothing has destroyed what it reads.\<close>

lemma inputs_intact:
  assumes gi: "graph_inv g" and s: "schedules reg (nodes g) V plan" and V: "V \<subseteq> {..<length (nodes g)}"
    and plan: "plan = pre @ n # rest" and n: "\<not> extends_alias (node_op (nodes g ! n))"
    and j: "j \<in> set (inputs (nodes g ! n))"
  shows "\<not> destroyed_in reg (nodes g) (set pre) j"
proof
  let ?ns = "nodes g"
  note ok = graph_inv_parts [OF gi]
  assume "destroyed_in reg ?ns (set pre) j"
  then obtain d x where d: "d \<in> set pre" "destroyed_by reg (?ns ! d) = Some x" "same_storage ?ns x j" by (auto simp: destroyed_in_def)
  have pv: "set plan = V" "distinct plan" using s by (auto simp: schedules_def)
  then have nd: "n \<in> V" "d \<in> V" "n \<noteq> d" "n \<notin> set pre" using d(1) plan by auto
  have lt: "n < length ?ns" using nd(1) V by auto
  have e: "(n, j) \<in> edges ?ns" using j lt by (simp add: edges_def)
  have "\<not> same_storage ?ns x n"
  proof
    assume "same_storage ?ns x n"
    then have "same_storage ?ns j n" using d(3) same_storage_sym same_storage_trans by blast
    then obtain r where r: "storage_root ?ns j r" "storage_root ?ns n r" by (auto simp: same_storage_def)
    moreover have "storage_root ?ns n n" using n by (blast intro: storage_root.own)
    ultimately have "storage_root ?ns j n" by (metis storage_root_unique)
    then have "(j, n) \<in> (edges ?ns)\<^sup>*" using storage_root_reach [OF _ ok(1)] edges_in [OF ok(1) e] by simp
    then have "(n, n) \<in> (edges ?ns)\<^sup>+" using e by (metis rtrancl_into_trancl2)
    then show False using ok(2) by (simp add: acyclic_def)
  qed
  moreover have "j \<in> V"
  proof -
    have "before plan j n" by (rule schedules_before [OF s nd(1)]) (use j in \<open>simp add: waits_for_def\<close>)
    then show ?thesis using pv by (auto simp: before_def dest: in_set_takeD)
  qed
  ultimately have "n \<in> pins reg ?ns V d" using d(2,3) nd j by (auto simp: pins_def storage_readers_def)
  then have "before plan n d" using schedules_before [OF s nd(2)] by (simp add: waits_for_def)
  moreover have "before plan d n" using d(1) unfolding before_def plan by (intro exI [of _ "length pre"]) simp
  ultimately show False using before_asym [OF pv(2)] by blast
qed

lemma root_owns:
  assumes gi: "graph_inv g" and u: "unary_aliases (nodes g)" and r: "storage_root (nodes g) i r" and i: "i < length (nodes g)"
  shows "\<not> extends_alias (node_op (nodes g ! r))"
proof
  let ?ns = "nodes g"
  note ok = graph_inv_parts [OF gi]
  assume a: "extends_alias (node_op (?ns ! r))"
  have rl: "r < length ?ns" using reach_in [OF storage_root_reach [OF r ok(1) i] ok(1) i] .
  then obtain k where k: "inputs (?ns ! r) = [k]" using unary_alias [OF u _ a] by blast
  from storage_root_idem [OF r] show False
  proof (rule storage_root_cases)
    fix j js assume "inputs (?ns ! r) = j # js" "storage_root ?ns j r"
    then have "(r, j) \<in> edges ?ns" "(j, r) \<in> (edges ?ns)\<^sup>*"
      using rl storage_root_reach [of ?ns j r] ok(1) by (auto simp: edges_def inputs_ok_def)
    then show False using ok(2) by (metis acyclic_def rtrancl_into_trancl2)
  qed (use a k in auto)
qed

lemma exec_reads:
  assumes gi: "graph_inv g" and u: "unary_aliases (nodes g)" and s: "schedules reg (nodes g) V plan" and V: "V \<subseteq> {..<length (nodes g)}"
    and plan: "plan = pre @ n # rest" and n: "\<not> extends_alias (node_op (nodes g ! n))"
    and inv: "\<forall>m \<in> set pre. \<not> extends_alias (node_op (nodes g ! m)) \<longrightarrow> \<not> destroyed_in reg (nodes g) (set pre) m \<longrightarrow> mem m = val sem g m"
  shows "list_all2 (reads sem g mem) (inputs (nodes g ! n)) (map (val sem g) (inputs (nodes g ! n)))"
proof -
  let ?ns = "nodes g"
  note ok = graph_inv_parts [OF gi]
  have pv: "set plan = V" "distinct plan" using s by (auto simp: schedules_def)
  have nV: "n \<in> V" using pv plan by auto
  have "reads sem g mem j (val sem g j)" if j: "j \<in> set (inputs (?ns ! n))" for j
  proof -
    have jl: "j < length ?ns" using j nV V ok(1) by (auto simp: inputs_ok_def)
    obtain r where r: "storage_root ?ns j r" using storage_root_total [OF ok(2,1) jl] by blast
    have wf: "set (inputs (?ns ! (plan ! k))) \<subseteq> set (take k plan)" if "k < length plan" for k
      using s that by (auto simp: schedules_def waits_for_def)
    then have "ordered ?ns plan" by (simp add: ordered_def)
    then have op: "ordered ?ns pre" using ordered_prefix plan by blast
    have "j \<in> set pre" using wf [of "length pre"] j plan by auto
    then have rp: "r \<in> set pre" using ordered_closed [OF op] storage_root_reach [OF r ok(1) jl] by blast
    have "\<not> destroyed_in reg ?ns (set pre) r"
      using inputs_intact [OF gi s V plan n j] destroyed_in_same [OF _ same_storage_root [OF r]] by blast
    moreover have "\<not> extends_alias (node_op (?ns ! r))" by (rule root_owns [OF gi u r jl])
    ultimately have "mem r = val sem g r" using inv rp by blast
    then show ?thesis by (rule reads_val [where r = r, OF gi u r jl])
  qed
  then show ?thesis by (simp add: list_all2_conv_all_nth)
qed

text \<open>One step keeps the invariant, and a step is always possible until the plan is done.\<close>

lemma exec_step_inv:
  assumes gi: "graph_inv g" and u: "unary_aliases (nodes g)" and s: "schedules reg (nodes g) V plan" and V: "V \<subseteq> {..<length (nodes g)}"
    and inv: "exec_inv sem reg g plan st" and step: "exec_step sem reg g st st'"
  shows "exec_inv sem reg g plan st'"
proof -
  let ?ns = "nodes g"
  obtain pre where pre: "plan = pre @ snd st"
      "\<forall>m \<in> set pre. \<not> extends_alias (node_op (?ns ! m)) \<longrightarrow> \<not> destroyed_in reg ?ns (set pre) m \<longrightarrow> fst st m = val sem g m"
    using inv by (auto simp: exec_inv_def)
  obtain mem n rest where st: "st = (mem, n # rest)" using step by (cases rule: exec_step.cases) auto
  have plan: "plan = pre @ n # rest" "plan = (pre @ [n]) @ rest" using pre(1) st by simp_all
  have new: "n \<notin> set pre" using s plan by (auto simp: schedules_def)
  have mono: "\<not> destroyed_in reg ?ns (set (pre @ [n])) m \<Longrightarrow> \<not> destroyed_in reg ?ns (set pre) m" for m
    by (auto simp: destroyed_in_def)
  have next_inv: "exec_inv sem reg g plan (mem', rest)" if n': "\<not> extends_alias (node_op (?ns ! n)) \<Longrightarrow> mem' n = val sem g n"
    and other: "\<And>m. m \<in> set pre \<Longrightarrow> \<not> extends_alias (node_op (?ns ! m)) \<Longrightarrow> \<not> destroyed_in reg ?ns (set (pre @ [n])) m \<Longrightarrow> mem' m = mem m" for mem'
    unfolding exec_inv_def
  proof (intro exI [of _ "pre @ [n]"] conjI ballI impI)
    fix m assume m: "m \<in> set (pre @ [n])" "\<not> extends_alias (node_op (?ns ! m))" "\<not> destroyed_in reg ?ns (set (pre @ [n])) m"
    show "fst (mem', rest) m = val sem g m"
    proof (cases "m = n")
      case False
      then have "m \<in> set pre" using m(1) by simp
      then show ?thesis using other [OF _ m(2,3)] pre(2) m(2) mono [OF m(3)] st by simp
    qed (use n' m in simp)
  qed (use plan in simp)
  have vs: "vs = map (val sem g) (inputs (?ns ! n))"
    if a: "\<not> extends_alias (node_op (?ns ! n))" and l: "list_all2 (reads sem g mem) (inputs (?ns ! n)) vs" for vs
  proof -
    have "list_all2 (reads sem g mem) (inputs (?ns ! n)) (map (val sem g) (inputs (?ns ! n)))"
      by (rule exec_reads [OF gi u s V plan(1) a]) (use pre(2) st in simp)
    then show ?thesis using l reads_unique [of sem g mem] by (intro nth_equalityI) (auto simp: list_all2_conv_all_nth)
  qed
  have nl: "n < length ?ns" using s V plan by (auto simp: schedules_def)
  have valn: "sem (view_of g n) (map (val sem g) (inputs (?ns ! n))) = val sem g n" by (rule val_step [OF gi nl, symmetric])
  from step show ?thesis unfolding st
  proof cases
    case skip
    have "exec_inv sem reg g plan (mem, rest)" by (rule next_inv) (use skip in simp_all)
    then show ?thesis using skip by simp
  next
    case (pure vs)
    have "exec_inv sem reg g plan (mem(n := sem (view_of g n) vs), rest)"
      by (rule next_inv) (use vs [OF pure(2,4)] valn new in auto)
    then show ?thesis using pure(1) by simp
  next
    case (destroy x r vs junk)
    have "m \<noteq> r" if m: "m \<in> set pre" "\<not> destroyed_in reg ?ns (set (pre @ [n])) m" "\<not> extends_alias (node_op (?ns ! m))" for m
    proof
      assume "m = r"
      then have "same_storage ?ns x m" using destroy(4) storage_root_idem [OF destroy(4)] unfolding same_storage_def by blast
      then show False using m(2) destroy(3) by (auto simp: destroyed_in_def)
    qed
    then have "exec_inv sem reg g plan (mem(r := junk, n := sem (view_of g n) vs), rest)"
      by (intro next_inv) (use vs [OF destroy(2,5)] valn new in auto)
    then show ?thesis using destroy(1) by simp
  qed
qed

lemma exec_progress:
  assumes gi: "graph_inv g" and u: "unary_aliases (nodes g)" and s: "schedules reg (nodes g) V plan" and V: "V \<subseteq> {..<length (nodes g)}"
    and inv: "exec_inv sem reg g plan (mem, n # rest)"
  shows "\<exists>mem'. exec_step sem reg g (mem, n # rest) (mem', rest)"
proof (cases "extends_alias (node_op (nodes g ! n))")
  case True
  then show ?thesis by (blast intro: exec_step.skip)
next
  case False
  note ok = graph_inv_parts [OF gi]
  obtain pre where pre: "plan = pre @ n # rest"
      "\<forall>m \<in> set pre. \<not> extends_alias (node_op (nodes g ! m)) \<longrightarrow> \<not> destroyed_in reg (nodes g) (set pre) m \<longrightarrow> mem m = val sem g m"
    using inv by (auto simp: exec_inv_def)
  note l = exec_reads [OF gi u s V pre(1) False pre(2)]
  show ?thesis
  proof (cases "destroyed_by reg (nodes g ! n)")
    case None
    then show ?thesis using exec_step.pure [OF False None l] by blast
  next
    case (Some x)
    have "n < length (nodes g)" using s V pre(1) by (auto simp: schedules_def)
    then have "x < length (nodes g)" using destroyed_by_input [OF Some] ok(1) by (auto simp: inputs_ok_def)
    then obtain r where "storage_root (nodes g) x r" using storage_root_total [OF ok(2,1)] by blast
    then show ?thesis using exec_step.destroy [OF False Some _ l] by blast
  qed
qed

text \<open>A plan can be run to the end, from any memory.\<close>

lemma exec_runs:
  assumes gi: "graph_inv g" and u: "unary_aliases (nodes g)" and s: "schedules reg (nodes g) V plan" and V: "V \<subseteq> {..<length (nodes g)}"
  shows "exec_inv sem reg g plan (mem, rest) \<Longrightarrow> \<exists>mem'. (exec_step sem reg g)\<^sup>*\<^sup>* (mem, rest) (mem', [])"
proof (induction rest arbitrary: mem)
  case Nil
  then show ?case by blast
next
  case (Cons n rest)
  obtain mem1 where one: "exec_step sem reg g (mem, n # rest) (mem1, rest)" using exec_progress [OF assms Cons(2)] by blast
  then have "exec_inv sem reg g plan (mem1, rest)" by (rule exec_step_inv [OF assms Cons(2)])
  then show ?case using Cons(1) one by (meson converse_rtranclp_into_rtranclp)
qed

lemma exec_inv_start: "exec_inv sem reg g plan (mem, plan)"
  by (simp add: exec_inv_def)

interpretation run: stepped_system "exec_step sem reg g"
    "\<lambda>st. graph_inv g \<and> unary_aliases (nodes g) \<and> schedules reg (nodes g) V plan \<and> V \<subseteq> {..<length (nodes g)} \<and> exec_inv sem reg g plan st"
  for sem reg g V plan
  by unfold_locales (auto intro: exec_step_inv)

text \<open>After the plan, a node whose storage nobody destroyed is read with its value.\<close>

lemma exec_final:
  assumes gi: "graph_inv g" and u: "unary_aliases (nodes g)" and s: "schedules reg (nodes g) V plan" and V: "V \<subseteq> {..<length (nodes g)}"
    and run: "(exec_step sem reg g)\<^sup>*\<^sup>* (mem, plan) (mem', [])"
    and i: "i \<in> V" "\<not> destroyed_in reg (nodes g) V i"
  shows "reads sem g mem' i (val sem g i)"
proof -
  let ?ns = "nodes g"
  note ok = graph_inv_parts [OF gi]
  have pv: "set plan = V" using s by (simp add: schedules_def)
  have il: "i < length ?ns" using i(1) V by auto
  obtain r where r: "storage_root ?ns i r" using storage_root_total [OF ok(2,1) il] by blast
  have "ordered ?ns plan" using s by (auto simp: schedules_def ordered_def waits_for_def)
  then have rV: "r \<in> V" using ordered_closed storage_root_reach [OF r ok(1) il] i(1) pv by blast
  have "\<not> destroyed_in reg ?ns V r" using i(2) destroyed_in_same [OF _ same_storage_root [OF r]] by blast
  moreover have "\<not> extends_alias (node_op (?ns ! r))" by (rule root_owns [OF gi u r il])
  moreover have "exec_inv sem reg g plan (mem', [])" using run.invar_steps [OF run, of V plan] assms(1-4) exec_inv_start by blast
  ultimately have "mem' r = val sem g r" using rV pv by (auto simp: exec_inv_def)
  then show ?thesis by (rule reads_val [where r = r, OF gi u r il])
qed

end
