(* ===== verification/PlanProperties.thy ===== *)
theory PlanProperties
  imports OptProperties GraphExec
begin

text \<open>
  The properties of execution plans: when one exists, what it orders, that running it can always be
  completed, and that an optimized graph run by its plan yields the values of the original roots.
\<close>

section \<open>Plans\<close>

text \<open>
  C10: for a well-formed graph \<open>execution_plan\<close> returns a plan exactly when the precedence of inputs over
  their readers, and of the readers of a storage over the operation that destroys it, has no cycle. The
  plan then lists every node the roots read once, each after everything it waits for; otherwise the call
  panics.
\<close>

theorem execution_plan_exact:
  assumes "graph_inv g" and "set roots \<subseteq> {..<length (nodes g)}" and "V = (edges (nodes g))\<^sup>* `` set roots"
  shows "if acyclic (waits reg (nodes g) V) then \<exists>plan. execution_plan reg g roots = Ok plan \<and> schedules reg (nodes g) V plan
    else execution_plan reg g roots = Panic"
  by (rule execution_plan_result [OF assms])

text \<open>An operation in place and a reader of the storage it overwrites.\<close>

definition overwrite :: "node_id \<Rightarrow> 'f node" where
  "overwrite i = \<lparr>node_op = Inplace NegInplace, inputs = [i], node_shape = from_dims [2], node_dtype = F32\<rparr>"

definition overwritten :: "(fused_op_params, unit) graph" where
  "overwritten = arena_of [leaf, overwrite 0, unary Exp 0]"

lemma overwritten_inv: "graph_inv overwritten"
  unfolding overwritten_def
  by (rule arena_of_inv) (simp_all add: index_ordered_def upt_rec leaf_def unary_def overwrite_def branch_target_def)

lemma overwritten_plan: "execution_plan (\<lambda>_. None) overwritten [1, 2] = Ok [0, 2, 1]"
  by code_simp

lemma overwritten_roots: "set [1, 2] \<subseteq> {..<length (nodes overwritten)}"
  by (simp add: overwritten_def)

theorem execution_plan_exact_witness:
  "acyclic (waits (\<lambda>_. None) (nodes overwritten) ((edges (nodes overwritten))\<^sup>* `` {1, 2})) \<and>
   schedules (\<lambda>_. None) (nodes overwritten) ((edges (nodes overwritten))\<^sup>* `` {1, 2}) [0, 2, 1]"
  using execution_plan_exact [OF overwritten_inv overwritten_roots refl, of "\<lambda>_. None"] overwritten_plan
  by (simp split: if_splits)



section \<open>Running a plan\<close>


lemma reads_exact:
  assumes "graph_inv g" and "i < length (nodes g)" and r: "reads sem g mem i (val sem g i)"
  shows "reads sem g mem i v \<longleftrightarrow> evals sem g i v"
proof
  assume "reads sem g mem i v"
  then have "v = val sem g i" using r by (rule reads_unique)
  then show "evals sem g i v" using evals_val [OF assms(1,2), of sem v] by simp
next
  assume "evals sem g i v"
  then have "v = val sem g i" using evals_val [OF assms(1,2), of sem v] by simp
  then show "reads sem g mem i v" using r by simp
qed

lemma plan_parts:
  assumes "graph_inv g" and "set roots \<subseteq> {..<length (nodes g)}" and "execution_plan reg g roots = Ok plan"
  shows "schedules reg (nodes g) (set plan) plan" and "set plan \<subseteq> {..<length (nodes g)}" and "set roots \<subseteq> set plan"
  using execution_plan_schedules [OF assms] assms(2) reach_in [OF _ graph_inv_parts(1) [OF assms(1)]]
  by (auto simp: schedules_def)

text \<open>
  C9: a plan can be completed from every state that running it reaches, whatever the memory held before
  and whatever the destructive operations leave behind; and after any complete run every node whose
  storage no operation of the plan destroyed is read with exactly its value.
\<close>

theorem plan_completes:
  assumes gi: "graph_inv g" and u: "unary_aliases (nodes g)" and roots: "set roots \<subseteq> {..<length (nodes g)}"
    and plan: "execution_plan reg g roots = Ok plan"
  shows "(\<forall>mem st. (exec_step sem reg g)\<^sup>*\<^sup>* (mem, plan) st \<longrightarrow> (\<exists>mem'. (exec_step sem reg g)\<^sup>*\<^sup>* st (mem', []))) \<and>
    (\<forall>mem mem'. (exec_step sem reg g)\<^sup>*\<^sup>* (mem, plan) (mem', []) \<longrightarrow>
       (\<forall>i \<in> set plan. \<not> destroyed_in reg (nodes g) (set plan) i \<longrightarrow> (\<forall>v. reads sem g mem' i v \<longleftrightarrow> evals sem g i v)))"
proof -
  note s = plan_parts [OF gi roots plan]
  have "\<exists>mem'. (exec_step sem reg g)\<^sup>*\<^sup>* st (mem', [])" if run: "(exec_step sem reg g)\<^sup>*\<^sup>* (mem, plan) st" for mem st
  proof -
    have "exec_inv sem reg g plan st"
      using run.invar_steps [OF run, of "set plan" plan] gi u s(1,2) exec_inv_start by blast
    then show ?thesis using exec_runs [OF gi u s(1,2), of sem "fst st" "snd st"] by simp
  qed
  moreover have "reads sem g mem' i v \<longleftrightarrow> evals sem g i v"
    if run: "(exec_step sem reg g)\<^sup>*\<^sup>* (mem, plan) (mem', [])" and i: "i \<in> set plan" "\<not> destroyed_in reg (nodes g) (set plan) i" for mem mem' i v
  proof -
    have "reads sem g mem' i (val sem g i)" by (rule exec_final [OF gi u s(1,2) run i])
    then show ?thesis by (rule reads_exact [OF gi, rotated]) (use i(1) s(2) in auto)
  qed
  ultimately show ?thesis by blast
qed

lemma overwritten_unary: "unary_aliases (nodes overwritten)"
  by (simp add: unary_aliases_def overwritten_def leaf_def overwrite_def unary_def extends_alias_def is_view_op_def)

theorem plan_completes_witness:
  "\<exists>mem'. (exec_step (op_sem sample_const sample_compute) (\<lambda>_. None) overwritten)\<^sup>*\<^sup>* ((\<lambda>_. ((from_dims [], Bool), 0)), [0, 2, 1]) (mem', [])"
  using plan_completes [OF overwritten_inv overwritten_unary overwritten_roots overwritten_plan,
    of "op_sem sample_const sample_compute"] by blast



end
