(* ===== verification/GraphCopies.thy ===== *)
theory GraphCopies
  imports GraphRewrite
begin

text \<open>
  Placement on devices (\<open>fuel-graph/src/opt.rs\<close>, \<open>lower_const_placement\<close>, \<open>insert_copies\<close>): constants
  adopt the device their consumers agree on, and copies are inserted so that every node finds its inputs
  on its own device. The copies change no value.
\<close>

section \<open>Placement of constants\<close>

text \<open>The device all consumers agree on, as far as the loop has seen; \<open>None\<close> once two disagree or one has none.\<close>

fun unanimous :: "(node_id \<times> device_location) list \<Rightarrow> node_id list \<Rightarrow> device_location option \<Rightarrow> device_location option" where
  "unanimous pl [] target = target"
| "unanimous pl (c # cs) target = (case map_of pl c of
     None \<Rightarrow> None
   | Some d \<Rightarrow> (case target of
        None \<Rightarrow> unanimous pl cs (Some d)
      | Some prev \<Rightarrow> if prev = d then unanimous pl cs target else None))"

definition lower_visit :: "node_id list \<Rightarrow> nat \<Rightarrow> node_id \<Rightarrow> ('f, 's, nat) graph_act" where
  "lower_visit order lowered i = act_bind (act_get (\<lambda>g. g)) (\<lambda>g.
     if length (nodes g) \<le> i then act_panic
     else if node_op (nodes g ! i) \<noteq> Op_Const \<or> map_of (placements g) i \<noteq> None then act_ret lowered
     else (case unanimous (placements g) (consumers_in (nodes g) order i) None of
         None \<Rightarrow> act_ret lowered
       | Some d \<Rightarrow> act_bind (set_placement i d) (\<lambda>_. act_ret (lowered + 1))))"

definition lower_const_placement :: "node_id list \<Rightarrow> ('f, 's, nat) graph_act" where
  "lower_const_placement roots = act_bind (act_get (\<lambda>g. topo_order_multi g roots)) (\<lambda>order.
     act_bind (act_result order) (\<lambda>order. act_fold (lower_visit order) 0 order))"

section \<open>Copies between devices\<close>

type_synonym inferred = "(node_id \<times> device_location option) list"

definition device_of :: "inferred \<Rightarrow> node_id \<Rightarrow> device_location option" where
  "device_of dv i = (case map_of dv i of Some d \<Rightarrow> d | None \<Rightarrow> None)"

definition needs_copy :: "device_location option \<Rightarrow> device_location option \<Rightarrow> bool" where
  "needs_copy src tgt = (case (src, tgt) of
     (Some s, Some t) \<Rightarrow> s \<noteq> t
   | (None, Some t) \<Rightarrow> True
   | (_, None) \<Rightarrow> False)"

text \<open>One input: the node it becomes, whether anything changed, and the devices known so far.\<close>

definition reconcile :: "device_location option \<Rightarrow> replacement \<Rightarrow> node_id list \<times> bool \<times> inferred \<Rightarrow> node_id \<Rightarrow>
    ('f, 's, node_id list \<times> bool \<times> inferred) graph_act" where
  "reconcile tgt m acc i = (case acc of (new, changed, dv) \<Rightarrow> let j = mapped m i in
     (case (needs_copy (device_of dv j) tgt, tgt) of
        (True, Some d) \<Rightarrow> act_bind (act_get nodes) (\<lambda>ns.
          if length ns \<le> j then act_panic
          else act_bind (push \<lparr>node_op = Memory (Op_Copy d), inputs = [j], node_shape = node_shape (ns ! j),
              node_dtype = node_dtype (ns ! j)\<rparr>) (\<lambda>c. act_ret (new @ [c], True, AList.update c (Some d) dv)))
      | (True, None) \<Rightarrow> act_panic
      | (False, _) \<Rightarrow> act_ret (new @ [j], changed \<or> j \<noteq> i, dv)))"

definition out_device :: "'f op \<Rightarrow> device_location option \<Rightarrow> device_location option" where
  "out_device p tgt = (case p of
     Memory (Op_Copy t) \<Rightarrow> Some t
   | Memory (Op_Move t) \<Rightarrow> Some t
   | _ \<Rightarrow> tgt)"

definition target_device :: "device_location option \<Rightarrow> node_id list \<Rightarrow> replacement \<Rightarrow> inferred \<Rightarrow> device_location option" where
  "target_device hint is m dv = (case hint of
     Some d \<Rightarrow> Some d
   | None \<Rightarrow> (case is of [] \<Rightarrow> None | i # _ \<Rightarrow> device_of dv (mapped m i)))"

definition relocate :: "node_id \<Rightarrow> 'f node \<Rightarrow> device_location option \<Rightarrow> node_id list \<Rightarrow> bool \<Rightarrow> ('f, 's, node_id) graph_act" where
  "relocate x n hint new changed =
     (if changed then act_bind (push (n\<lparr>inputs := new\<rparr>)) (\<lambda>j.
        act_bind (case hint of Some d \<Rightarrow> set_placement j d | None \<Rightarrow> act_ret ()) (\<lambda>_. act_ret j))
      else act_ret x)"

definition copy_visit :: "replacement \<times> inferred \<Rightarrow> node_id \<Rightarrow> ('f, 's, replacement \<times> inferred) graph_act" where
  "copy_visit acc x = act_bind (act_get (\<lambda>g. g)) (\<lambda>g.
     if length (nodes g) \<le> x then act_panic
     else (let n = nodes g ! x; hint = map_of (placements g) x;
               tgt = target_device hint (inputs n) (fst acc) (snd acc) in
       act_bind (act_fold (reconcile tgt (fst acc)) ([], False, snd acc) (inputs n)) (\<lambda>(new, changed, dv).
       act_bind (relocate x n hint new changed) (\<lambda>j.
       act_ret (AList.update x j (fst acc), AList.update j (out_device (node_op n) tgt) dv)))))"

definition insert_copies :: "node_id list \<Rightarrow> ('f, 's, node_id list) graph_act" where
  "insert_copies roots = walk copy_visit fst ([], []) roots"

section \<open>Constants adopt a device\<close>

lemma option_eqI: "(\<And>d. a = Some d \<longleftrightarrow> b = Some d) \<Longrightarrow> a = b"
  by (cases a; cases b) auto

lemma unanimous_Some:
  "unanimous pl cs t = Some d \<longleftrightarrow> (\<forall>c \<in> set cs. map_of pl c = Some d) \<and> (t = Some d \<or> t = None \<and> cs \<noteq> [])"
proof (induction cs arbitrary: t)
  case (Cons c cs)
  then show ?case by (cases "map_of pl c"; cases t) auto
qed auto

text \<open>The placements after the pass, given those before.\<close>

definition adopts :: "('f, 's) graph \<Rightarrow> node_id list \<Rightarrow> node_id \<Rightarrow> device_location \<Rightarrow> bool" where
  "adopts g order i d \<longleftrightarrow> node_op (nodes g ! i) = Op_Const \<and> map_of (placements g) i = None \<and>
     (\<exists>k \<in> set order. i \<in> set (inputs (nodes g ! k))) \<and>
     (\<forall>k \<in> set order. i \<in> set (inputs (nodes g ! k)) \<longrightarrow> map_of (placements g) k = Some d)"

definition lowered :: "('f, 's) graph \<Rightarrow> node_id list \<Rightarrow> node_id set \<Rightarrow> ('f, 's) graph \<Rightarrow> bool" where
  "lowered g order S h \<longleftrightarrow> (\<exists>pl. h = g\<lparr>placements := pl\<rparr> \<and> keys_distinct pl \<and>
     (\<forall>i d. map_of pl i = Some d \<longleftrightarrow> map_of (placements g) i = Some d \<or> i \<in> S \<and> adopts g order i d))"

lemma lower_step:
  assumes cons: "all_well_formed (nodes g)" and ord: "set order \<subseteq> {..<length (nodes g)}" and i: "i < length (nodes g)"
    and low: "lowered g order S h"
  shows "act_wp (lower_visit order c i) (\<lambda>_ h'. lowered g order (insert i S) h') E h"
proof -
  obtain pl where pl: "h = g\<lparr>placements := pl\<rparr>" "keys_distinct pl"
      "\<And>i d. map_of pl i = Some d \<longleftrightarrow> map_of (placements g) i = Some d \<or> i \<in> S \<and> adopts g order i d"
    using low by (auto simp: lowered_def)
  have same: "map_of pl k = map_of (placements g) k" if "k \<in> set order" "i \<in> set (inputs (nodes g ! k))" for k
  proof -
    have "node_op (nodes g ! k) \<noteq> Op_Const" using not_const [OF cons _ that(2)] that(1) ord by auto
    then have "\<not> adopts g order k d" for d by (simp add: adopts_def)
    then show ?thesis using pl(3) [of k] by (intro option_eqI) simp
  qed
  have un: "unanimous pl (consumers_in (nodes g) order i) None = Some d \<longleftrightarrow>
      (\<exists>k \<in> set order. i \<in> set (inputs (nodes g ! k))) \<and>
      (\<forall>k \<in> set order. i \<in> set (inputs (nodes g ! k)) \<longrightarrow> map_of (placements g) k = Some d)" for d
    unfolding unanimous_Some set_consumers_in using same
    by (auto simp: set_empty [symmetric] set_consumers_in simp del: set_empty)
  have uniq: "adopts g order i d \<Longrightarrow> adopts g order i e \<Longrightarrow> d = e" for d e by (auto simp: adopts_def)
  have keep: "lowered g order (insert i S) h" if k: "\<And>d. adopts g order i d \<Longrightarrow> map_of pl i = Some d"
    unfolding lowered_def using pl k by (intro exI [of _ pl]) blast
  show ?thesis
  proof (cases "node_op (nodes g ! i) \<noteq> Op_Const \<or> map_of pl i \<noteq> None")
    case True
    have "map_of pl i = Some d" if a: "adopts g order i d" for d
    proof -
      obtain e where e: "map_of pl i = Some e" using a True by (auto simp: adopts_def)
      then show ?thesis using pl(3) [of i e] a uniq by (auto simp: adopts_def)
    qed
    then have "lowered g order (insert i S) h" by (rule keep)
    then show ?thesis using True i pl(1) by (simp add: lower_visit_def wp_simps)
  next
    case False
    then have none: "map_of (placements g) i = None" using pl(3) [of i] by (metis option.exhaust)
    have ad: "adopts g order i d \<longleftrightarrow> unanimous pl (consumers_in (nodes g) order i) None = Some d" for d
      unfolding un adopts_def using False none by simp
    show ?thesis
    proof (cases "unanimous pl (consumers_in (nodes g) order i) None")
      case None
      then have "lowered g order (insert i S) h" using ad by (intro keep) simp
      then show ?thesis using False None i pl(1) by (simp add: lower_visit_def wp_simps)
    next
      case (Some d)
      have "map_of (AList.update i d pl) k = Some e \<longleftrightarrow> map_of (placements g) k = Some e \<or> k \<in> insert i S \<and> adopts g order k e" for k e
        using pl(3) [of k e] ad [of d] Some none uniq [of d e] by (cases "k = i") auto
      then have "lowered g order (insert i S) (h\<lparr>placements := AList.update i d pl\<rparr>)"
        unfolding lowered_def pl(1) using pl(2) by (intro exI [of _ "AList.update i d pl"]) simp
      then show ?thesis using False Some i pl(1) by (simp add: lower_visit_def wp_simps set_placement_def checked_def)
    qed
  qed
qed

lemma lower_const_placement_spec:
  assumes gi: "graph_inv g" and wf: "all_well_formed (nodes g)" and roots: "set roots \<subseteq> {..<length (nodes g)}"
  obtains c order h where "lower_const_placement roots g = (Ok c, h)"
    and "set order = (edges (nodes g))\<^sup>* `` set roots" and "lowered g order (set order) h"
proof -
  obtain order where o: "topo_order_multi g roots = Ok order" "set order = (edges (nodes g))\<^sup>* `` set roots"
    by (rule topo_order_multi_spec [OF graph_inv_parts(2,1) [OF gi] roots])
  have ord: "set order \<subseteq> {..<length (nodes g)}"
    using o(2) roots reach_in [OF _ graph_inv_parts(1) [OF gi]] by auto
  have kd: "keys_distinct (placements g)" using gi by (simp add: graph_inv_iff tables_ok_def)
  let ?I = "\<lambda>c xs h. \<exists>pre. order = pre @ xs \<and> lowered g order (set pre) h"
  have "act_wp (act_fold (lower_visit order) 0 order) (\<lambda>_ h. lowered g order (set order) h) (\<lambda>_ _. False) g"
  proof (rule wp_fold [where I = ?I])
    fix c i xs h assume "?I c (i # xs) h"
    then obtain pre where p: "order = pre @ i # xs" "lowered g order (set pre) h" by blast
    have i: "i < length (nodes g)" using ord p(1) by auto
    show "act_wp (lower_visit order c i) (\<lambda>c' h. ?I c' xs h) (\<lambda>_ _. False) h"
      by (rule wp_mono [OF lower_step [OF wf ord i p(2), where E = "\<lambda>_ _. False"]])
        (use p(1) in \<open>auto intro!: exI [of _ "pre @ [i]"]\<close>)
  next
    show "\<exists>pre. order = pre @ order \<and> lowered g order (set pre) g"
      using kd by (intro exI [of _ "[]"]) (simp add: lowered_def exI [of _ "placements g"])
  qed auto
  then obtain c h where "act_fold (lower_visit order) 0 order g = (Ok c, h)" "lowered g order (set order) h"
    by (rule wp_total) auto
  then show thesis using that o by (simp add: lower_const_placement_def act_bind_def act_get_def act_result_def)
qed

section \<open>The inputs of one node\<close>

definition copy_law :: "('f op \<Rightarrow> 'v list \<Rightarrow> 'v) \<Rightarrow> bool" where
  "copy_law compute \<longleftrightarrow> (\<forall>d v. compute (Memory (Op_Copy d)) [v] = v)"

text \<open>Entries are only added, and only for nodes from \<open>n\<close> on.\<close>

definition grows :: "nat \<Rightarrow> inferred \<Rightarrow> inferred \<Rightarrow> bool" where
  "grows n dv dv' \<longleftrightarrow> (\<forall>k \<in> fst ` set dv. map_of dv' k = map_of dv k) \<and> fst ` set dv' \<subseteq> fst ` set dv \<union> {n..} \<and>
     fst ` set dv \<subseteq> fst ` set dv'"

lemma grows_update: "grows n dv dv' \<Longrightarrow> n \<le> c \<Longrightarrow> c \<notin> fst ` set dv' \<Longrightarrow> grows n dv (AList.update c d dv')"
  by (auto simp: grows_def dom_update subset_iff image_iff)

lemma device_of_update: "c \<noteq> k \<Longrightarrow> device_of (AList.update c d dv) k = device_of dv k"
  by (simp add: device_of_def)

lemma device_of_key: "device_of dv k = Some d \<Longrightarrow> k \<in> fst ` set dv"
  by (auto simp: device_of_def split: option.splits dest: map_of_SomeD intro: rev_image_eqI)

text \<open>A node that moves its input to a device is on that device.\<close>

definition landed :: "('f, 's) graph \<Rightarrow> inferred \<Rightarrow> bool" where
  "landed g dv \<longleftrightarrow> (\<forall>k \<in> fst ` set dv. \<forall>t. out_device (node_op (nodes g ! k)) None = Some t \<longrightarrow> device_of dv k = Some t)"

lemma landed_extends: "landed g dv \<Longrightarrow> extends g h \<Longrightarrow> fst ` set dv \<subseteq> {..<length (nodes g)} \<Longrightarrow> landed h dv"
  using extends_nth [of g h] by (auto simp: landed_def subset_iff)

lemma landed_update:
  "landed g dv \<Longrightarrow> (\<And>t. out_device (node_op (nodes g ! j)) None = Some t \<Longrightarrow> d = Some t) \<Longrightarrow> landed g (AList.update j d dv)"
  unfolding landed_def by (auto simp: dom_update device_of_def)

lemma out_device_None: "out_device p None = Some t \<Longrightarrow> out_device p tgt = Some t"
  by (auto simp: out_device_def split: op.splits memory_op.splits)

definition reconciled :: "('v \<Rightarrow> shape \<times> dtype) \<Rightarrow> (('f, 's) node_view \<Rightarrow> 'v) \<Rightarrow> ('f op \<Rightarrow> 'v list \<Rightarrow> 'v) \<Rightarrow> replacement \<Rightarrow>
    device_location option \<Rightarrow> ('f, 's) graph \<Rightarrow> inferred \<Rightarrow> node_id list \<Rightarrow> node_id list \<times> bool \<times> inferred \<Rightarrow> ('f, 's) graph \<Rightarrow> bool" where
  "reconciled vty konst compute m tgt g dv pre acc g' \<longleftrightarrow> (case acc of (new, changed, dv') \<Rightarrow>
     pass_inv vty konst compute m g' \<and> extends g g' \<and> list_all2 (stands_for (op_sem konst compute) g') pre new \<and>
     (if changed then pre \<noteq> [] else new = pre) \<and> (\<forall>d. tgt = Some d \<longrightarrow> (\<forall>k \<in> set new. device_of dv' k = Some d)) \<and>
     grows (length (nodes g)) dv dv' \<and> fst ` set dv' \<subseteq> {..<length (nodes g')} \<and> landed g' dv')"

lemma wp_reconcile:
  assumes r: "reconciled vty konst compute m tgt g dv pre acc g'" and law: "copy_law compute" and gi: "graph_inv g"
    and x: "x < length (nodes g)" and i: "set (pre @ [i]) \<subseteq> set (inputs (nodes g ! x))"
  shows "act_wp (reconcile tgt m acc i) (reconciled vty konst compute m tgt g dv (pre @ [i])) E g'"
proof -
  let ?sem = "op_sem konst compute" and ?j = "mapped m i"
  obtain new changed dv' where acc: "acc = (new, changed, dv')" by (cases acc)
  have pi: "pass_inv vty konst compute m g'" and ex: "extends g g'" and l2: "list_all2 (stands_for ?sem g') pre new"
    and ch: "if changed then pre \<noteq> [] else new = pre" and dev: "\<forall>d. tgt = Some d \<longrightarrow> (\<forall>k \<in> set new. device_of dv' k = Some d)"
    and gr: "grows (length (nodes g)) dv dv'" and lt: "fst ` set dv' \<subseteq> {..<length (nodes g')}"
    and la: "landed g' dv'"
    using r by (auto simp: reconciled_def acc)
  have gi': "graph_inv g'" and m: "remap_ok ?sem g' m" using pass_inv_parts [OF pi] by simp_all
  have x': "x < length (nodes g')" "nodes g' ! x = nodes g ! x" using x extends_length [OF ex] extends_nth [OF ex] by auto
  have j: "stands_for ?sem g' i ?j" using mapped_stands_for [OF m gi' x'(1), of i] i x'(2) by simp
  show ?thesis
  proof (cases "needs_copy (device_of dv' ?j) tgt")
    case False
    then have "tgt = Some d \<longrightarrow> device_of dv' ?j = Some d" for d by (auto simp: needs_copy_def split: option.splits)
    then show ?thesis using False j pi ex l2 ch dev gr lt la
      by (auto simp: reconcile_def acc wp_simps reconciled_def Let_def list_all2_appendI)
  next
    case True
    then obtain d where d: "tgt = Some d" by (cases tgt) (auto simp: needs_copy_def split: option.splits)
    let ?n = "\<lparr>node_op = Memory (Op_Copy d), inputs = [?j], node_shape = node_shape (nodes g' ! ?j), node_dtype = node_dtype (nodes g' ! ?j)\<rparr>"
    let ?c = "length (nodes g')"
    have jl: "?j < ?c" and jb: "branch_target (nodes g' ! ?j) = None" using j by (simp_all add: stands_for_def)
    have pu: "pushable g' ?n" using jl jb by (simp add: pushable_def reads_plain_def view_typed_def is_view_op_def branch_target_def)
    have "act_wp (push ?n) (\<lambda>c g''. reconciled vty konst compute m tgt g dv (pre @ [i]) (new @ [c], True, AList.update c (Some d) dv') g'') E g'"
    proof (rule wp_push [OF gi' pu])
      fix h assume p: "pushed ?n g' h"
      then have gih: "graph_inv h" and exh: "extends g' h" and nh: "nodes h = nodes g' @ [?n]" by (simp_all add: pushed_def)
      have il: "i < length (nodes g')" using input_plain(1) [OF gi' x'(1), of i] i x'(2) by simp
      have vc: "val ?sem h ?c = val ?sem g' ?j"
        using val_op [OF gih, of ?c konst compute] nh law val_extends [OF gi' gih exh jl, of ?sem]
        by (simp add: erase_target_def copy_law_def)
      have "pass_inv vty konst compute m h"
        by (rule pass_inv_pushed [OF pi p]) (use vc pass_inv_ty [OF pi jl] in \<open>simp_all add: well_formed_def view_typed_def is_view_op_def\<close>)
      moreover have "stands_for ?sem h i ?c"
        using vc nh j val_extends [OF gi' gih exh il, of ?sem] by (simp add: stands_for_def branch_target_def)
      moreover have "list_all2 (stands_for ?sem h) pre new"
      proof (rule list_all2_mono' [OF l2])
        fix a b assume ab: "a \<in> set pre" "stands_for ?sem g' a b"
        have "a < length (nodes g')" using input_plain(1) [OF gi' x'(1), of a] i ab(1) x'(2) by auto
        then show "stands_for ?sem h a b" by (rule stands_for_extends [OF ab(2) gi' gih exh])
      qed
      moreover have "?c \<notin> fst ` set dv'" using lt by auto
      moreover have "landed h (AList.update ?c (Some d) dv')"
        by (rule landed_update [OF landed_extends [OF la exh lt]]) (simp add: nh out_device_def)
      moreover have "device_of (AList.update ?c (Some d) dv') k = Some d" if "k \<in> set new" for k
        using that dev d by (cases "k = ?c") (auto simp: device_of_def)
      ultimately show "reconciled vty konst compute m tgt g dv (pre @ [i]) (new @ [?c], True, AList.update ?c (Some d) dv') h"
        using extends_trans [OF ex exh] grows_update [OF gr extends_length [OF ex]] lt nh d
        by (auto simp: reconciled_def list_all2_appendI dom_update device_of_def)
    qed
    then show ?thesis using True d jl by (simp add: reconcile_def acc wp_funs wp_get Let_def)
  qed
qed

lemma wp_reconcile_all:
  assumes pi: "pass_inv vty konst compute m g" and law: "copy_law compute" and x: "x < length (nodes g)"
    and lt: "fst ` set dv \<subseteq> {..<length (nodes g)}" and la: "landed g dv"
  shows "act_wp (act_fold (reconcile tgt m) ([], False, dv) (inputs (nodes g ! x)))
    (reconciled vty konst compute m tgt g dv (inputs (nodes g ! x))) E g"
proof (rule wp_fold [where I = "\<lambda>acc xs h. \<exists>pre. inputs (nodes g ! x) = pre @ xs \<and> reconciled vty konst compute m tgt g dv pre acc h"])
  fix acc i xs h assume "\<exists>pre. inputs (nodes g ! x) = pre @ i # xs \<and> reconciled vty konst compute m tgt g dv pre acc h"
  then obtain pre where p: "inputs (nodes g ! x) = pre @ i # xs" "reconciled vty konst compute m tgt g dv pre acc h" by blast
  have "act_wp (reconcile tgt m acc i) (reconciled vty konst compute m tgt g dv (pre @ [i])) E h"
    by (rule wp_reconcile [OF p(2) law pass_inv_parts(1) [OF pi] x]) (use p(1) in auto)
  then show "act_wp (reconcile tgt m acc i) (\<lambda>acc' h. \<exists>pre. inputs (nodes g ! x) = pre @ xs \<and>
      reconciled vty konst compute m tgt g dv pre acc' h) E h"
    by (rule wp_mono) (use p(1) in \<open>auto intro!: exI [of _ "pre @ [i]"]\<close>)
next
  show "\<exists>pre. inputs (nodes g ! x) = pre @ inputs (nodes g ! x) \<and> reconciled vty konst compute m tgt g dv pre ([], False, dv) g"
    using pi lt la by (intro exI [of _ "[]"]) (simp add: reconciled_def grows_def)
qed auto

section \<open>One visit\<close>

definition transfers :: "'f op \<Rightarrow> bool" where
  "transfers p \<longleftrightarrow> out_device p None \<noteq> None"

lemma out_device_stays: "\<not> transfers p \<Longrightarrow> out_device p tgt = tgt"
  by (simp add: transfers_def out_device_def split: op.splits memory_op.splits)

text \<open>Hints are honoured, and the inputs of a node that runs on a device are on that device.\<close>

definition colocated :: "('f, 's) graph \<Rightarrow> replacement \<Rightarrow> inferred \<Rightarrow> bool" where
  "colocated g m dv \<longleftrightarrow> (\<forall>i j. map_of m i = Some j \<longrightarrow> j \<in> fst ` set dv \<and> (\<not> transfers (node_op (nodes g ! j)) \<longrightarrow>
     (\<forall>d. map_of (placements g) i = Some d \<longrightarrow> device_of dv j = Some d) \<and>
     (\<forall>d. device_of dv j = Some d \<longrightarrow> (\<forall>k \<in> set (inputs (nodes g ! j)). device_of dv k = Some d))))"

definition copy_inv :: "nat \<Rightarrow> ('v \<Rightarrow> shape \<times> dtype) \<Rightarrow> (('f, 's) node_view \<Rightarrow> 'v) \<Rightarrow> ('f op \<Rightarrow> 'v list \<Rightarrow> 'v) \<Rightarrow>
    replacement \<times> inferred \<Rightarrow> ('f, 's) graph \<Rightarrow> bool" where
  "copy_inv base vty konst compute acc g \<longleftrightarrow> copy_law compute \<and> pass_inv vty konst compute (fst acc) g \<and>
     fst ` set (snd acc) \<subseteq> {..<length (nodes g)} \<and> fst ` set (snd acc) \<inter> {..<base} \<subseteq> dom (map_of (fst acc)) \<and>
     colocated g (fst acc) (snd acc) \<and> landed g (snd acc)"

lemma pass_inv_placed:
  assumes pi: "pass_inv vty konst compute m g" and j: "j < length (nodes g)" "node_op (nodes g ! j) \<noteq> Op_Const"
    and g': "g' = g\<lparr>placements := AList.update j d (placements g)\<rparr>"
  shows "pass_inv vty konst compute m g'" and "val (op_sem konst compute) g' = val (op_sem konst compute) g"
proof -
  let ?sem = "op_sem konst compute"
  note gi = pass_inv_parts(1) [OF pi]
  note v = placed_val [OF gi j g']
  show "val ?sem g' = val ?sem g" by (rule v(2))
  have ns: "nodes g' = nodes g" by (simp add: g')
  show "pass_inv vty konst compute m g'" using pi typed_val [OF gi, of vty ?sem] typed_val [OF v(1), of vty ?sem]
    by (simp add: pass_inv_def remap_ok_def v ns)
qed

lemma wp_relocate:
  assumes r: "reconciled vty konst compute m tgt g dv (inputs n) (new, changed, dv') h" and x: "x < length (nodes g)"
    and n: "n = nodes g ! x"
  shows "act_wp (relocate x n hint new changed) (\<lambda>j h'. pass_inv vty konst compute m h' \<and> extends g h' \<and> extends h h' \<and>
    j < length (nodes h') \<and> (j = x \<or> j = length (nodes h)) \<and> node_op (nodes h' ! j) = node_op n \<and> inputs (nodes h' ! j) = new \<and>
    val (op_sem konst compute) h' j = val (op_sem konst compute) h' x) E h"
proof -
  let ?sem = "op_sem konst compute"
  have pi: "pass_inv vty konst compute m h" and ex: "extends g h" and l2: "list_all2 (stands_for ?sem h) (inputs n) new"
    and ch: "if changed then inputs n \<noteq> [] else new = inputs n" using r by (auto simp: reconciled_def)
  have xh: "x < length (nodes h)" "nodes h ! x = n" using x n extends_length [OF ex] extends_nth [OF ex] by auto
  show ?thesis
  proof (cases changed)
    case False
    then show ?thesis using pi ex ch xh by (simp add: relocate_def wp_simps)
  next
    case True
    then obtain i where "i \<in> set (inputs n)" using ch by (cases "inputs n") auto
    then have nc: "node_op (nodes h ! x) \<noteq> Op_Const"
      using pi not_const [of "nodes h" x i] xh by (simp add: pass_inv_def)
    let ?Q = "\<lambda>j h'. pass_inv vty konst compute m h' \<and> extends g h' \<and> extends h h' \<and> j < length (nodes h') \<and>
      (j = x \<or> j = length (nodes h)) \<and> node_op (nodes h' ! j) = node_op n \<and> inputs (nodes h' ! j) = new \<and> val ?sem h' j = val ?sem h' x"
    have "act_wp (push ((nodes h ! x)\<lparr>inputs := new\<rparr>)) (\<lambda>j. act_wp (case hint of Some d \<Rightarrow> set_placement j d | None \<Rightarrow> act_ret ())
        (\<lambda>_. ?Q j) E) E h"
    proof (rule wp_rebuild [OF pi xh(1) nc])
      let ?j = "length (nodes h)"
      fix h' assume p: "pushed ((nodes h ! x)\<lparr>inputs := new\<rparr>) h h'" and pi': "pass_inv vty konst compute m h'"
        and v: "val ?sem h' ?j = val ?sem h x"
      have ns: "nodes h' = nodes h @ [(nodes h ! x)\<lparr>inputs := new\<rparr>]" and exh: "extends h h'" using p by (auto simp: pushed_def)
      have vx: "val ?sem h' x = val ?sem h x"
        by (rule val_extends [OF pass_inv_parts(1) [OF pi] pass_inv_parts(1) [OF pi'] exh xh(1)])
      have q: "?Q ?j h'" using pi' extends_trans [OF ex exh] exh ns xh v vx by (simp add: nth_append)
      show "act_wp (case hint of Some d \<Rightarrow> set_placement ?j d | None \<Rightarrow> act_ret ()) (\<lambda>_. ?Q ?j) E h'"
      proof (cases hint)
        case None
        then show ?thesis using q by (simp add: wp_simps)
      next
        case (Some d)
        let ?h = "h'\<lparr>placements := AList.update ?j d (placements h')\<rparr>"
        have j: "?j < length (nodes h')" "node_op (nodes h' ! ?j) \<noteq> Op_Const" using ns nc by simp_all
        note placed = pass_inv_placed [OF pi' j refl, of d]
        have "?Q ?j ?h" using q placed extends_placed [of g h' ?j d] extends_placed [of h h' ?j d] extends_length [OF ex] by simp
        then show ?thesis using Some j by (simp add: set_placement_def checked_def wp_simps)
      qed
    qed (use l2 xh in simp)
    then show ?thesis using True xh by (simp add: relocate_def wp_funs wp_bind)
  qed
qed

lemma colocated_step:
  assumes co: "colocated g m dv" and gr: "grows (length (nodes g)) dv dv'" and ex: "extends g h" and rm: "remap_ok sem g m"
    and x: "x < length (nodes g)" and j: "j \<notin> fst ` set dv'" "j < length (nodes h)"
    and dev: "\<forall>d. tgt = Some d \<longrightarrow> (\<forall>k \<in> set (inputs (nodes h ! j)). device_of dv' k = Some d)"
    and hint: "\<forall>d. map_of (placements g) x = Some d \<longrightarrow> tgt = Some d"
  shows "colocated h (AList.update x j m) (AList.update j (out_device (node_op (nodes h ! j)) tgt) dv')"
proof -
  let ?dv = "AList.update j (out_device (node_op (nodes h ! j)) tgt) dv'"
  have keep: "device_of ?dv k = device_of dv k" if "k \<in> fst ` set dv" for k
    using that gr j(1) by (auto simp: device_of_def grows_def)
  have later: "device_of ?dv k = Some d" if "device_of dv' k = Some d" for k d
    using that j(1) device_of_key [OF that] by (cases "k = j") (auto simp: device_of_update)
  have pl: "map_of (placements h) i = map_of (placements g) i" if "i < length (nodes g)" for i
  proof -
    have "view_of h i = view_of g i" using ex that by (simp add: extends_def)
    then show ?thesis by (simp add: view_of_def)
  qed
  show ?thesis unfolding colocated_def
  proof (intro allI impI)
    fix a b assume ab: "map_of (AList.update x j m) a = Some b"
    show "b \<in> fst ` set ?dv \<and> (\<not> transfers (node_op (nodes h ! b)) \<longrightarrow>
      (\<forall>d. map_of (placements h) a = Some d \<longrightarrow> device_of ?dv b = Some d) \<and>
      (\<forall>d. device_of ?dv b = Some d \<longrightarrow> (\<forall>k \<in> set (inputs (nodes h ! b)). device_of ?dv k = Some d)))"
    proof (cases "a = x")
      case True
      then have b: "b = j" using ab by simp
      show ?thesis unfolding b True using dev hint pl [OF x] later
        by (auto simp: dom_update out_device_stays device_of_def)
    next
      case False
      then have m: "map_of m a = Some b" using ab by simp
      then have bl: "b < length (nodes g)" "a < length (nodes g)" using rm by (auto simp: remap_ok_def)
      have bk: "b \<in> fst ` set dv" using co m by (auto simp: colocated_def)
      have old: "\<not> transfers (node_op (nodes g ! b)) \<Longrightarrow> (\<forall>d. map_of (placements g) a = Some d \<longrightarrow> device_of dv b = Some d) \<and>
          (\<forall>d. device_of dv b = Some d \<longrightarrow> (\<forall>k \<in> set (inputs (nodes g ! b)). device_of dv k = Some d))"
        using co m unfolding colocated_def by blast
      have "b \<in> fst ` set ?dv" using bk gr by (auto simp: grows_def dom_update)
      moreover have "device_of ?dv k = Some d" if "device_of dv k = Some d" for k d
        using keep [OF device_of_key [OF that]] that by simp
      ultimately show ?thesis using old unfolding keep [OF bk] pl [OF bl(2)] extends_nth [OF ex bl(1)] by blast
    qed
  qed
qed

lemma wp_copy_visit:
  assumes inv: "copy_inv base vty konst compute acc g" and x: "x < base" "base \<le> length (nodes g)" "x \<notin> dom (map_of (fst acc))"
  shows "act_wp (copy_visit acc x) (\<lambda>acc' g'. copy_inv base vty konst compute acc' g' \<and> extends g g' \<and>
    dom (map_of (fst acc')) = insert x (dom (map_of (fst acc)))) E g"
proof -
  let ?sem = "op_sem konst compute"
  obtain m dv where acc: "acc = (m, dv)" by (cases acc)
  have law: "copy_law compute" and pi: "pass_inv vty konst compute m g" and lt: "fst ` set dv \<subseteq> {..<length (nodes g)}"
    and old: "fst ` set dv \<inter> {..<base} \<subseteq> dom (map_of m)" and co: "colocated g m dv" and la: "landed g dv"
    using inv by (simp_all add: copy_inv_def acc)
  have xl: "x < length (nodes g)" using x by simp
  define n hint tgt where "n = nodes g ! x" and "hint = map_of (placements g) x" and "tgt = target_device hint (inputs n) m dv"
  let ?Q = "\<lambda>acc' g'. copy_inv base vty konst compute acc' g' \<and> extends g g' \<and> dom (map_of (fst acc')) = insert x (dom (map_of m))"
  have fin: "?Q (AList.update x j m, AList.update j (out_device (node_op n) tgt) dv') h'"
    if r: "reconciled vty konst compute m tgt g dv (inputs n) (new, changed, dv') h"
      and q: "pass_inv vty konst compute m h'" "extends g h'" "extends h h'" "j < length (nodes h')" "j = x \<or> j = length (nodes h)"
        "node_op (nodes h' ! j) = node_op n" "inputs (nodes h' ! j) = new" "val ?sem h' j = val ?sem h' x"
    for new changed dv' h h' j
  proof -
    have gr: "grows (length (nodes g)) dv dv'" and lt': "fst ` set dv' \<subseteq> {..<length (nodes h)}"
      and dev: "\<forall>d. tgt = Some d \<longrightarrow> (\<forall>k \<in> set new. device_of dv' k = Some d)" and la': "landed h dv'"
      using r by (auto simp: reconciled_def)
    have l: "landed h' (AList.update j (out_device (node_op n) tgt) dv')"
      by (rule landed_update [OF landed_extends [OF la' q(3) lt']]) (rule out_device_None, simp add: q(6))
    have sub: "fst ` set dv' \<subseteq> fst ` set dv \<union> {length (nodes g)..}" using gr unfolding grows_def by blast
    have xm: "x \<notin> dom (map_of m)" using x(3) by (simp add: acc)
    have "x \<notin> fst ` set dv" using old xm x(1) by blast
    then have xk: "x \<notin> fst ` set dv'" using sub xl by auto
    then have jk: "j \<notin> fst ` set dv'" using q(5) lt' by auto
    have "colocated h' (AList.update x j m) (AList.update j (out_device (node_op (nodes h' ! j)) tgt) dv')"
      by (rule colocated_step [OF co gr q(2) pass_inv_parts(2) [OF pi] xl jk q(4)])
        (use dev q(7) in \<open>simp_all add: tgt_def target_device_def hint_def\<close>)
    moreover have "pass_inv vty konst compute (AList.update x j m) h'"
      using q(1) remap_ok_update [of ?sem h' m x j] xl extends_length [OF q(2)] extends_nth [OF q(2) xl] q(4,6,8)
      by (auto simp: pass_inv_def n_def branch_target_def)
    moreover have "fst ` set dv' \<inter> {..<base} \<subseteq> fst ` set dv \<inter> {..<base}" using sub x(2) by auto
    then have "fst ` set dv' \<inter> {..<base} \<subseteq> dom (map_of m)" using old by (rule order_trans)
    moreover have "fst ` set dv' \<subseteq> {..<length (nodes h')}" using lt' extends_length [OF q(3)] by auto
    moreover have "j < base \<Longrightarrow> j = x" using q(5) x(2) extends_length [of g h] r by (auto simp: reconciled_def)
    ultimately show ?thesis using law q(2,4,6) l by (auto simp: copy_inv_def dom_update)
  qed
  let ?K = "\<lambda>(new, changed, dv'). act_bind (relocate x n hint new changed) (\<lambda>j.
      act_ret (AList.update x j m, AList.update j (out_device (node_op n) tgt) dv'))"
  have "act_wp (act_bind (act_fold (reconcile tgt m) ([], False, dv) (inputs n)) ?K) ?Q E g" unfolding wp_bind
  proof (rule wp_mono [OF wp_reconcile_all [OF pi law xl lt la, of tgt E, folded n_def]])
    fix res h assume r: "reconciled vty konst compute m tgt g dv (inputs n) res h"
    obtain new changed dv' where res: "res = (new, changed, dv')" by (cases res)
    show "act_wp (?K res) ?Q E h" unfolding res prod.case wp_funs
      by (rule wp_mono [OF wp_relocate [OF r [unfolded res] xl n_def, of hint E]]) (use fin [OF r [unfolded res]] in auto)
  qed
  moreover have "copy_visit acc x g = act_bind (act_fold (reconcile tgt m) ([], False, dv) (inputs n)) ?K g"
    using xl by (simp add: copy_visit_def acc Let_def act_bind_def act_get_def n_def [symmetric] hint_def [symmetric] tgt_def [symmetric])
  ultimately show ?thesis by (simp add: act_wp_def acc)
qed

interpretation copies: rewrite_pass copy_visit fst "copy_inv base vty konst compute" "op_sem konst compute" base
  for base vty konst compute
  by (unfold_locales, simp add: copy_inv_def pass_inv_def, simp add: copy_inv_def pass_inv_def, rule wp_copy_visit)

end
