(* ===== verification/GraphSplice.thy ===== *)
theory GraphSplice
  imports GraphRewrite
begin

text \<open>
  Splicing nodes into edges: a pass appends nodes that pass a value on and redirects consumers to them in
  place (\<open>Graph::rewrite_input\<close>). The graph stays acyclic and every node keeps its value.
\<close>

section \<open>Redirecting one consumer\<close>

definition rewire :: "node_id \<Rightarrow> node_id \<Rightarrow> node_id \<Rightarrow> ('f, 's) graph \<Rightarrow> ('f, 's) graph" where
  "rewire c a b g = g\<lparr>nodes := (nodes g)[c := redirect a b (nodes g ! c)]\<rparr>"

lemma redirect_simps [simp]:
  "node_op (redirect a b n) = node_op n" "node_shape (redirect a b n) = node_shape n" "node_dtype (redirect a b n) = node_dtype n"
  "inputs (redirect a b n) = map (\<lambda>i. if i = a then b else i) (inputs n)"
  by (simp_all add: redirect_def)

lemma rewire_length [simp]: "length (nodes (rewire c a b g)) = length (nodes g)"
  by (simp add: rewire_def)

lemma rewire_nth: "i < length (nodes g) \<Longrightarrow> nodes (rewire c a b g) ! i = (if i = c then redirect a b (nodes g ! c) else nodes g ! i)"
  by (simp add: rewire_def nth_list_update)

lemma rewire_view: "c < length (nodes g) \<Longrightarrow> view_of (rewire c a b g) i = view_of g i"
  by (cases "i = c") (simp_all add: view_of_def rewire_def)

lemma rewire_input_of: "c < length (nodes g) \<Longrightarrow> act_wp (rewrite_input c a b) (\<lambda>_ g'. g' = rewire c a b g) E g"
  by (simp add: rewrite_input_def checked_def wp_simps rewire_def)

lemma rewire_edges: "edges (nodes (rewire c a b g)) \<subseteq> insert (c, b) (edges (nodes g))"
  by (auto simp: edges_def rewire_nth split: if_splits)

lemma rewire_none: "a \<notin> set (inputs (nodes g ! c)) \<Longrightarrow> rewire c a b g = g"
proof -
  assume a: "a \<notin> set (inputs (nodes g ! c))"
  have "map (\<lambda>i. if i = a then b else i) (inputs (nodes g ! c)) = inputs (nodes g ! c)" by (rule map_idI) (use a in auto)
  then have "redirect a b (nodes g ! c) = nodes g ! c" by (simp add: redirect_def)
  then show ?thesis by (simp add: rewire_def)
qed

lemma rewire_branch: "i < length (nodes g) \<Longrightarrow> branch_target (nodes (rewire c a b g) ! i) = branch_target (nodes g ! i)"
  by (simp add: rewire_nth branch_target_def)

lemma rewire_inv:
  assumes gi: "graph_inv g" and c: "c < length (nodes g)" and b: "b < length (nodes g)" "branch_target (nodes g ! b) = None"
    and no: "(b, c) \<notin> (edges (nodes g))\<^sup>*"
  shows "graph_inv (rewire c a b g)"
proof -
  let ?g = "rewire c a b g"
  note ok = graph_inv_parts [OF gi]
  have "acyclic (insert (c, b) (edges (nodes g)))" using ok(2) no by (simp add: acyclic_insert)
  then have ac: "acyclic (edges (nodes ?g))" using rewire_edges by (rule acyclic_subset)
  have ins: "j < length (nodes g) \<and> branch_target (nodes g ! j) = None" if "i < length (nodes g)" "j \<in> set (inputs (nodes ?g ! i))" for i j
    using that b input_plain [OF gi that(1)] input_plain [OF gi c] by (auto simp: rewire_nth split: if_splits)
  have lay: "layouts_ok ?g" unfolding layouts_ok_def
  proof (intro allI impI)
    fix i l assume "map_of (layouts ?g) i = Some l"
    then have "i < length (nodes g) \<and> shape l = node_shape (nodes g ! i) \<and> layout_wf l" using ok(3) by (simp add: layouts_ok_def rewire_def)
    then show "i < length (nodes ?g) \<and> shape l = node_shape (nodes ?g ! i) \<and> layout_wf l" by (simp add: rewire_nth)
  qed
  have "arena_shape (nodes ?g)" unfolding arena_shape_def inputs_ok_def targets_ok_def plain_branches_def rewire_length
  proof (intro conjI allI impI ballI ac)
    fix i j assume i: "i < length (nodes g)" and j: "j \<in> set (inputs (nodes ?g ! i))"
    show "j < length (nodes g)" using ins [OF i j] by simp
    show "branch_target (nodes ?g ! j) = None" using ins [OF i j] rewire_branch [of j g c a b] by simp
  next
    fix i r assume i: "i < length (nodes g)" and "branch_target (nodes ?g ! i) = Some r"
    then have "branch_target (nodes g ! i) = Some r" using rewire_branch [OF i, of c a b] by simp
    then have r: "r < length (nodes g)" "branch_target (nodes g ! r) = None" using branch_target_ok [OF gi i] by simp_all
    show "r < length (nodes g)" by (rule r)
    show "branch_target (nodes ?g ! r) = None" using r rewire_branch [of r g c a b] by simp
  qed
  moreover have "tables_ok ?g" "set (side_effect_roots ?g) \<subseteq> {..<length (nodes ?g)}"
    using gi by (simp_all add: graph_inv_iff tables_ok_def rewire_def)
  ultimately show ?thesis using lay by (simp add: graph_inv_iff)
qed

lemma rewire_val:
  assumes gi: "graph_inv g" and gi': "graph_inv (rewire c a b g)" and c: "c < length (nodes g)" and same: "val sem g b = val sem g a"
  shows "i < length (nodes g) \<Longrightarrow> val sem (rewire c a b g) i = val sem g i"
  using acyclic_edges_wf [OF graph_inv_parts(2) [OF gi']]
proof (induction i rule: wf_induct_rule)
  case (less i)
  let ?g = "rewire c a b g"
  have i: "i < length (nodes ?g)" using less(2) by simp
  have ih: "val sem ?g j = val sem g j" if "j \<in> set (inputs (nodes ?g ! i))" for j
    using less(1) [of j] that i input_plain(1) [OF gi' i that] by (auto simp: edges_def)
  have "map (val sem ?g) (inputs (nodes ?g ! i)) = map (val sem g) (inputs (nodes ?g ! i))" using ih by simp
  also have "\<dots> = map (val sem g) (inputs (nodes g ! i))" using same less(2) by (auto simp: rewire_nth)
  finally show ?case using val_step [OF gi' i, of sem] val_step [OF gi less(2), of sem] rewire_view [OF c] by simp
qed

section \<open>Appended chains\<close>

text \<open>An appended node reads one node, appended or original; \<open>chain\<close> follows these to the original.\<close>

inductive chain :: "'f node list \<Rightarrow> nat \<Rightarrow> node_id \<Rightarrow> node_id \<Rightarrow> bool" for ns base where
  hop: "base \<le> b \<Longrightarrow> inputs (ns ! b) = [a] \<Longrightarrow> a < base \<Longrightarrow> chain ns base b a"
| hops: "base \<le> b \<Longrightarrow> inputs (ns ! b) = [b'] \<Longrightarrow> chain ns base b' a \<Longrightarrow> chain ns base b a"

lemma chain_base: "chain ns base b a \<Longrightarrow> base \<le> b \<and> a < base"
  by (induction rule: chain.induct) auto

lemma chain_reach: "chain ns base b a \<Longrightarrow> (b, y) \<in> (edges ns)\<^sup>* \<Longrightarrow> y < base \<Longrightarrow> (a, y) \<in> (edges ns)\<^sup>*"
proof (induction rule: chain.induct)
  case (hop b a)
  from hop(4) show ?case
  proof (cases rule: converse_rtranclE)
    case (step z)
    then have "z = a" using hop(2) by (auto simp: edges_def)
    then show ?thesis using step(2) by simp
  qed (use hop in simp)
next
  case (hops b b' a)
  from hops(5) show ?case
  proof (cases rule: converse_rtranclE)
    case (step z)
    then have "z = b'" using hops(2) by (auto simp: edges_def)
    then show ?thesis using step(2) hops by blast
  qed (use hops chain_base in auto)
qed

lemma chain_cong: "chain ns base b a \<Longrightarrow> (\<And>i. base \<le> i \<Longrightarrow> inputs (ns' ! i) = inputs (ns ! i)) \<Longrightarrow> chain ns' base b a"
  by (induction rule: chain.induct) (auto intro: chain.intros)

text \<open>A node appended for an original, with the value of the original.\<close>

definition twin :: "(('f, 's) node_view \<Rightarrow> 'v list \<Rightarrow> 'v) \<Rightarrow> nat \<Rightarrow> ('f, 's) graph \<Rightarrow> node_id \<Rightarrow> node_id \<Rightarrow> bool" where
  "twin sem base g a b \<longleftrightarrow> b < length (nodes g) \<and> chain (nodes g) base b a \<and> branch_target (nodes g ! b) = None \<and> val sem g b = val sem g a"

lemma rewire_twin:
  assumes gi: "graph_inv g" and base: "base \<le> length (nodes g)" and c: "c < base" and t: "twin sem base g a b"
  shows "graph_inv (rewire c a b g)" and "i < length (nodes g) \<Longrightarrow> val sem (rewire c a b g) i = val sem g i"
    and "twin sem base g x y \<Longrightarrow> twin sem base (rewire c a b g) x y"
proof -
  have ch: "chain (nodes g) base b a" and b: "b < length (nodes g)" "branch_target (nodes g ! b) = None" and v: "val sem g b = val sem g a"
    using t by (simp_all add: twin_def)
  have cl: "c < length (nodes g)" using c base by simp
  show inv: "graph_inv (rewire c a b g)"
  proof (cases "a \<in> set (inputs (nodes g ! c))")
    case True
    have "(b, c) \<notin> (edges (nodes g))\<^sup>*"
    proof
      assume "(b, c) \<in> (edges (nodes g))\<^sup>*"
      then have "(a, c) \<in> (edges (nodes g))\<^sup>*" by (rule chain_reach [OF ch _ c])
      moreover have "(c, a) \<in> edges (nodes g)" using True cl by (simp add: edges_def)
      ultimately have "(c, c) \<in> (edges (nodes g))\<^sup>+" by (metis rtrancl_into_trancl2)
      then show False using graph_inv_parts(2) [OF gi] by (simp add: acyclic_def)
    qed
    then show ?thesis by (rule rewire_inv [OF gi cl b])
  next
    case False
    then show ?thesis using gi by (simp add: rewire_none)
  qed
  show val: "i < length (nodes g) \<Longrightarrow> val sem (rewire c a b g) i = val sem g i" for i
    by (rule rewire_val [OF gi inv cl v])
  show "twin sem base (rewire c a b g) x y" if xy: "twin sem base g x y"
  proof -
    have chx: "chain (nodes g) base y x" and y: "y < length (nodes g)" using xy by (simp_all add: twin_def)
    have "inputs (nodes (rewire c a b g) ! i) = inputs (nodes g ! i)" if "base \<le> i" for i
      using that c by (simp add: rewire_def)
    then have "chain (nodes (rewire c a b g)) base y x" by (rule chain_cong [OF chx])
    moreover have "x < length (nodes g)" using chain_base [OF chx] base by simp
    ultimately show ?thesis using xy val y by (simp add: twin_def rewire_branch)
  qed
qed

section \<open>Redirecting many consumers\<close>

type_synonym rewires = "(node_id \<times> node_id \<times> node_id) list"

definition apply_rewires :: "rewires \<Rightarrow> ('f, 's, unit) graph_act" where
  "apply_rewires rs = act_fold (\<lambda>_ (c, a, b). rewrite_input c a b) () rs"

definition rewires_ok :: "(('f, 's) node_view \<Rightarrow> 'v list \<Rightarrow> 'v) \<Rightarrow> nat \<Rightarrow> ('f, 's) graph \<Rightarrow> rewires \<Rightarrow> bool" where
  "rewires_ok sem base g rs \<longleftrightarrow> (\<forall>(c, a, b) \<in> set rs. c < base \<and> twin sem base g a b)"

lemma apply_rewires_Ok:
  assumes "graph_inv g" and "base \<le> length (nodes g)" and "rewires_ok sem base g rs"
  shows "apply_rewires rs g = (Ok (), fold (\<lambda>(c, a, b). rewire c a b) rs g)"
    and "graph_inv (fold (\<lambda>(c, a, b). rewire c a b) rs g)"
    and "length (nodes (fold (\<lambda>(c, a, b). rewire c a b) rs g)) = length (nodes g)"
    and "i < length (nodes g) \<Longrightarrow> val sem (fold (\<lambda>(c, a, b). rewire c a b) rs g) i = val sem g i"
proof -
  have "apply_rewires rs g = (Ok (), fold (\<lambda>(c, a, b). rewire c a b) rs g) \<and> graph_inv (fold (\<lambda>(c, a, b). rewire c a b) rs g) \<and>
      length (nodes (fold (\<lambda>(c, a, b). rewire c a b) rs g)) = length (nodes g) \<and>
      (\<forall>i < length (nodes g). val sem (fold (\<lambda>(c, a, b). rewire c a b) rs g) i = val sem g i)"
    using assms
  proof (induction rs arbitrary: g)
    case Nil
    then show ?case by (simp add: apply_rewires_def act_ret_def)
  next
    case (Cons r rs)
    obtain c a b where r: "r = (c, a, b)" by (cases r)
    have ca: "c < base" "twin sem base g a b" using Cons.prems(3) r by (simp_all add: rewires_ok_def)
    note w = rewire_twin [OF Cons.prems(1,2) ca]
    have "rewires_ok sem base (rewire c a b g) rs" using Cons.prems(3) w(3) unfolding rewires_ok_def by fastforce
    from Cons.IH [OF w(1) _ this] Cons.prems(2) w(2)
    show ?case using ca(1) Cons.prems(2)
      by (simp add: apply_rewires_def r act_bind_def rewrite_input_def checked_def act_get_def act_set_def rewire_def)
  qed
  then show "apply_rewires rs g = (Ok (), fold (\<lambda>(c, a, b). rewire c a b) rs g)"
    and "graph_inv (fold (\<lambda>(c, a, b). rewire c a b) rs g)"
    and "length (nodes (fold (\<lambda>(c, a, b). rewire c a b) rs g)) = length (nodes g)"
    and "i < length (nodes g) \<Longrightarrow> val sem (fold (\<lambda>(c, a, b). rewire c a b) rs g) i = val sem g i"
    by blast+
qed

text \<open>The input that takes the place of \<open>i\<close>: that of the first matching entry.\<close>

fun rewired :: "rewires \<Rightarrow> node_id \<Rightarrow> node_id \<Rightarrow> node_id" where
  "rewired [] c i = i"
| "rewired ((c', a, b) # rs) c i = (if c' = c \<and> a = i then b else rewired rs c i)"

lemma rewired_new: "(\<And>c a b. (c, a, b) \<in> set rs \<Longrightarrow> a \<noteq> i) \<Longrightarrow> rewired rs c i = i"
proof (induction rs)
  case (Cons r rs)
  obtain c' a b where r: "r = (c', a, b)" by (cases r)
  have "a \<noteq> i" using Cons(2) [of c' a b] by (simp add: r)
  moreover have "rewired rs c i = i" using Cons by (meson list.set_intros(2))
  ultimately show ?case by (simp add: r)
qed simp

lemma rewired_cases: "rewired rs c i = i \<and> (\<forall>b. (c, i, b) \<notin> set rs) \<or> (c, i, rewired rs c i) \<in> set rs"
proof (induction rs)
  case (Cons r rs)
  then show ?case by (cases r) auto
qed simp

lemma rewired_inputs:
  assumes "\<forall>(c, a, b) \<in> set rs. c < base \<and> a < base \<and> base \<le> b" and "base \<le> length (nodes g)" and "c < length (nodes g)"
  shows "inputs (nodes (fold (\<lambda>(c, a, b). rewire c a b) rs g) ! c) = map (rewired rs c) (inputs (nodes g ! c))"
  using assms
proof (induction rs arbitrary: g)
  case (Cons r rs)
  obtain c' a b where r: "r = (c', a, b)" by (cases r)
  have b: "rewired rs c b = b" by (rule rewired_new) (use Cons.prems(1) r in fastforce)
  have "inputs (nodes (fold (\<lambda>(c, a, b). rewire c a b) rs (rewire c' a b g)) ! c) = map (rewired rs c) (inputs (nodes (rewire c' a b g) ! c))"
    using Cons.IH [of "rewire c' a b g"] Cons.prems r by simp
  then show ?case using b Cons.prems(3) by (auto simp: r rewire_nth)
qed (simp add: map_idI)

lemma rewired_view: "\<forall>(c, a, b) \<in> set rs. c < length (nodes g) \<Longrightarrow> view_of (fold (\<lambda>(c, a, b). rewire c a b) rs g) i = view_of g i"
proof (induction rs arbitrary: g)
  case (Cons r rs)
  then show ?case by (cases r) (auto simp: rewire_view)
qed simp

section \<open>Appending over a node\<close>

lemma chain_append:
  assumes "chain ns base b a" and "b < length ns" and "inputs_ok ns"
  shows "chain (ns @ ms) base b a"
  using assms
proof (induction rule: chain.induct)
  case (hop b a)
  then show ?case by (auto intro!: chain.hop simp: nth_append)
next
  case (hops b b' a)
  then have "b' < length ns" by (auto simp: inputs_ok_def)
  then have "chain (ns @ ms) base b' a" using hops by blast
  then show ?case by (rule chain.hops [rotated 2]) (use hops in \<open>simp_all add: nth_append\<close>)
qed

lemma twin_extends:
  assumes t: "twin sem base g a b" and gi: "graph_inv g" "graph_inv g'" and ex: "extends g g'" and base: "base \<le> length (nodes g)"
  shows "twin sem base g' a b"
proof -
  have b: "b < length (nodes g)" and ch: "chain (nodes g) base b a" using t by (simp_all add: twin_def)
  obtain ms where ms: "nodes g' = nodes g @ ms" using ex by (auto simp: extends_def)
  have "chain (nodes g') base b a" using chain_append [OF ch b graph_inv_parts(1) [OF gi(1)]] ms by simp
  moreover have "a < length (nodes g)" using chain_base [OF ch] base by simp
  ultimately show ?thesis using t b val_extends [OF gi ex, of _ sem] extends_nth [OF ex] extends_length [OF ex]
    by (simp add: twin_def)
qed

text \<open>An operation that passes the value of its input on.\<close>

definition passes_on :: "('f op \<Rightarrow> 'v list \<Rightarrow> 'v) \<Rightarrow> 'f op \<Rightarrow> bool" where
  "passes_on compute p \<longleftrightarrow> \<not> is_view_op p \<and> p \<noteq> Op_Const \<and> (\<forall>r. p \<noteq> Op_Branch r) \<and> (\<forall>v. compute p [v] = v)"

definition source :: "(('f, 's) node_view \<Rightarrow> 'v list \<Rightarrow> 'v) \<Rightarrow> nat \<Rightarrow> ('f, 's) graph \<Rightarrow> node_id \<Rightarrow> node_id \<Rightarrow> bool" where
  "source sem base g a s \<longleftrightarrow> s = a \<and> a < base \<and> branch_target (nodes g ! a) = None \<or> twin sem base g a s"

lemma wp_push_twin:
  assumes gi: "graph_inv g" and base: "base \<le> length (nodes g)" and s: "source (op_sem konst compute) base g a s"
    and p: "passes_on compute p"
    and Q: "\<And>g'. pushed \<lparr>node_op = p, inputs = [s], node_shape = sh, node_dtype = dt\<rparr> g g' \<Longrightarrow>
      g' = g\<lparr>nodes := nodes g @ [\<lparr>node_op = p, inputs = [s], node_shape = sh, node_dtype = dt\<rparr>]\<rparr> \<Longrightarrow>
      twin (op_sem konst compute) base g' a (length (nodes g)) \<Longrightarrow> Q (length (nodes g)) g'"
  shows "act_wp (push \<lparr>node_op = p, inputs = [s], node_shape = sh, node_dtype = dt\<rparr>) Q E g" (is "act_wp (push ?n) Q E g")
proof -
  let ?sem = "op_sem konst compute" and ?l = "length (nodes g)"
  have sl: "s < length (nodes g)" "branch_target (nodes g ! s) = None" "val ?sem g s = val ?sem g a"
    using s base by (auto simp: source_def twin_def)
  have al: "a < length (nodes g)" using s base chain_base [of "nodes g" base s a] by (auto simp: source_def twin_def)
  have nb: "branch_target ?n = None" "erase_target p = p" using p by (auto simp: passes_on_def branch_target_def erase_target_def split: op.splits)
  have pu: "pushable g ?n" using sl p nb by (simp add: pushable_def reads_plain_def view_typed_def passes_on_def)
  obtain g' where pu': "push ?n g = (Ok ?l, g')" and pd: "pushed ?n g g'" using push_pushed [OF gi pu] by blast
  have geq: "g' = g\<lparr>nodes := nodes g @ [?n]\<rparr>" using pu' p push_plain [of ?n g] by (simp add: passes_on_def)
  have "Q ?l g'"
  proof -
    from pd have gi': "graph_inv g'" and ex: "extends g g'" and ns: "nodes g' = nodes g @ [?n]" by (simp_all add: pushed_def)
    have "val ?sem g' ?l = val ?sem g' s"
      using val_op [OF gi', of ?l konst compute] ns nb p by (simp add: passes_on_def)
    also have "\<dots> = val ?sem g' a" using sl(1,3) al val_extends [OF gi gi' ex, of _ ?sem] by simp
    finally have v: "val ?sem g' ?l = val ?sem g' a" .
    have "chain (nodes g') base ?l a"
    proof (cases "s = a \<and> a < base")
      case True
      then show ?thesis using base ns by (auto intro!: chain.hop)
    next
      case False
      then have "twin ?sem base g a s" using s by (auto simp: source_def)
      then have "chain (nodes g') base s a" using twin_extends [OF _ gi gi' ex base] by (auto simp: twin_def)
      then show ?thesis by (rule chain.hops [rotated 2]) (use base ns in simp_all)
    qed
    then have "twin ?sem base g' a ?l" using v ns nb by (simp add: twin_def)
    then show "Q ?l g'" using Q pd geq by blast
  qed
  then show ?thesis using pu' by (simp add: act_wp_def)
qed

lemma chain_unique: "chain ns base b a \<Longrightarrow> chain ns base b a' \<Longrightarrow> a = a'"
proof (induction arbitrary: a' rule: chain.induct)
  case (hop b a)
  from hop(4) show ?case by (cases rule: chain.cases) (use hop chain_base in \<open>force+\<close>)
next
  case (hops b b' a)
  from hops(5) show ?case
  proof (cases rule: chain.cases)
    case hop
    then show ?thesis using hops(2,3) chain_base by force
  qed (use hops in auto)
qed

lemma source_unique: "source sem base g a s \<Longrightarrow> source sem base g a' s \<Longrightarrow> a = a'"
  using chain_base [of "nodes g" base s] chain_unique [of "nodes g" base s a a'] by (fastforce simp: source_def twin_def)

section \<open>Passes that splice\<close>

text \<open>
  The passes visit every edge of the reachable part, decide for each whether to interpose a node, append
  that node, and redirect the consumers afterwards. \<open>repair\<close> decides one edge; \<open>skip\<close> leaves out a consumer.
\<close>

definition collect_edge :: "('acc \<Rightarrow> node_id \<Rightarrow> node_id \<Rightarrow> ('f, 's, 'acc \<times> node_id option) graph_act) \<Rightarrow> node_id \<Rightarrow> 'acc \<times> rewires \<Rightarrow>
    node_id \<Rightarrow> ('f, 's, 'acc \<times> rewires) graph_act" where
  "collect_edge repair c acc i = act_bind (repair (fst acc) c i) (\<lambda>(acc', r).
     act_ret (acc', snd acc @ (case r of Some b \<Rightarrow> [(c, i, b)] | None \<Rightarrow> [])))"

definition collect :: "('acc \<Rightarrow> node_id \<Rightarrow> node_id \<Rightarrow> ('f, 's, 'acc \<times> node_id option) graph_act) \<Rightarrow> (node_id \<Rightarrow> 'f node \<Rightarrow> bool) \<Rightarrow>
    'acc \<times> rewires \<Rightarrow> node_id \<Rightarrow> ('f, 's, 'acc \<times> rewires) graph_act" where
  "collect repair skip acc c = act_bind (act_get nodes) (\<lambda>ns.
     if length ns \<le> c then act_panic
     else if skip c (ns ! c) then act_ret acc
     else act_fold (collect_edge repair c) acc (inputs (ns ! c)))"

definition splice :: "('acc \<Rightarrow> node_id \<Rightarrow> node_id \<Rightarrow> ('f, 's, 'acc \<times> node_id option) graph_act) \<Rightarrow> (node_id \<Rightarrow> 'f node \<Rightarrow> bool) \<Rightarrow>
    'acc \<Rightarrow> node_id list \<Rightarrow> ('f, 's, 'acc) graph_act" where
  "splice repair skip acc roots = act_bind (act_get (\<lambda>g. topo_order_multi g roots)) (\<lambda>order.
     act_bind (act_result order) (\<lambda>order.
     act_bind (act_fold (collect repair skip) (acc, []) order) (\<lambda>(acc', rs).
     act_bind (apply_rewires rs) (\<lambda>_. act_ret acc'))))"

locale splice_pass =
  fixes repair :: "'acc \<Rightarrow> node_id \<Rightarrow> node_id \<Rightarrow> ('f, 's, 'acc \<times> node_id option) graph_act"
    and skip :: "node_id \<Rightarrow> 'f node \<Rightarrow> bool"
    and inv :: "'acc \<Rightarrow> ('f, 's) graph \<Rightarrow> bool"
    and sem :: "('f, 's) node_view \<Rightarrow> 'v list \<Rightarrow> 'v"
    and base :: nat
    and fine :: "('f, 's) graph \<Rightarrow> node_id \<Rightarrow> node_id \<Rightarrow> node_id \<Rightarrow> bool"
  assumes inv_graph: "inv acc g \<Longrightarrow> graph_inv g"
    and fine_views: "fine g c i j \<Longrightarrow> j < length (nodes g) \<Longrightarrow> view_of g' j = view_of g j \<Longrightarrow> j < length (nodes g') \<Longrightarrow> fine g' c i j"
    and repair_ok: "inv acc g \<Longrightarrow> base \<le> length (nodes g) \<Longrightarrow> c < base \<Longrightarrow> \<not> skip c (nodes g ! c) \<Longrightarrow> i \<in> set (inputs (nodes g ! c)) \<Longrightarrow> i < base \<Longrightarrow>
      act_wp (repair acc c i) (\<lambda>(acc', r) g'. inv acc' g' \<and> extends g g' \<and>
        (case r of None \<Rightarrow> fine g' c i i | Some b \<Rightarrow> twin sem base g' i b \<and> fine g' c i b)) (\<lambda>_ _. False) g"
begin

text \<open>What holds of the collected redirections while the graph grows.\<close>

definition collected :: "('f, 's) graph \<Rightarrow> (node_id \<times> node_id) set \<Rightarrow> 'acc \<times> rewires \<Rightarrow> ('f, 's) graph \<Rightarrow> bool" where
  "collected g0 S st g \<longleftrightarrow> inv (fst st) g \<and> extends g0 g \<and>
     (\<forall>(c, a, b) \<in> set (snd st). c < base \<and> a < base \<and> (c, a) \<in> S \<and> twin sem base g a b \<and> fine g c a b) \<and>
     (\<forall>(c, a) \<in> S. a < base \<and> (fine g c a a \<or> (\<exists>b. (c, a, b) \<in> set (snd st))))"

lemma collected_edge:
  assumes col: "collected g0 S st g" and base: "base = length (nodes g0)" and c: "c < base" "\<not> skip c (nodes g0 ! c)"
    and i: "i \<in> set (inputs (nodes g0 ! c))" "i < base"
  shows "act_wp (collect_edge repair c st i) (collected g0 (insert (c, i) S)) (\<lambda>_ _. False) g"
proof -
  obtain acc rs where st: "st = (acc, rs)" by (cases st)
  have inv: "inv acc g" and ex: "extends g0 g" using col by (simp_all add: collected_def st)
  have bl: "base \<le> length (nodes g)" using extends_length [OF ex] base by simp
  have cn: "nodes g ! c = nodes g0 ! c" using extends_nth [OF ex] c(1) base by simp
  note gi = inv_graph [OF inv]
  have "act_wp (repair acc c i) (\<lambda>(acc', r) g'. inv acc' g' \<and> extends g g' \<and>
      (case r of None \<Rightarrow> fine g' c i i | Some b \<Rightarrow> twin sem base g' i b \<and> fine g' c i b)) (\<lambda>_ _. False) g"
    by (rule repair_ok [OF inv bl c(1)]) (use c i cn in simp_all)
  then show ?thesis unfolding collect_edge_def wp_bind st fst_conv snd_conv
  proof (rule wp_mono)
    fix res h assume p: "(case res of (acc', r) \<Rightarrow> \<lambda>g'. inv acc' g' \<and> extends g g' \<and>
      (case r of None \<Rightarrow> fine g' c i i | Some b \<Rightarrow> twin sem base g' i b \<and> fine g' c i b)) h"
    obtain acc' r where res: "res = (acc', r)" by (cases res)
    have ih: "inv acc' h" and exh: "extends g h"
      and new: "case r of None \<Rightarrow> fine h c i i | Some b \<Rightarrow> twin sem base h i b \<and> fine h c i b" using p by (auto simp: res)
    note gih = inv_graph [OF ih]
    have keep: "fine h c' a b" if "fine g c' a b" "b < length (nodes g)" for c' a b
      by (rule fine_views [OF that]) (use exh that extends_length [OF exh] in \<open>auto simp: extends_def\<close>)
    have old: "c' < base \<and> a < base \<and> (c', a) \<in> S \<and> twin sem base h a b \<and> fine h c' a b" if "(c', a, b) \<in> set rs" for c' a b
    proof -
      have o: "c' < base" "a < base" "(c', a) \<in> S" "twin sem base g a b" "fine g c' a b"
        using col that by (auto simp: collected_def st)
      then show ?thesis using twin_extends [OF o(4) gi gih exh bl] keep [OF o(5)] by (simp add: twin_def)
    qed
    have olde: "a < base \<and> (fine h c' a a \<or> (\<exists>b. (c', a, b) \<in> set rs))" if "(c', a) \<in> S" for c' a
    proof -
      have "a < base" "fine g c' a a \<or> (\<exists>b. (c', a, b) \<in> set rs)" using col that by (auto simp: collected_def st)
      then show ?thesis using keep [of c' a a] bl by auto
    qed
    have "collected g0 (insert (c, i) S) (acc', rs @ (case r of Some b \<Rightarrow> [(c, i, b)] | None \<Rightarrow> [])) h"
      unfolding collected_def using ih extends_trans [OF ex exh] old olde new c(1) i(2) by (cases r) fastforce+
    then show "act_wp (case res of (acc', r) \<Rightarrow> act_ret (acc', rs @ (case r of Some b \<Rightarrow> [(c, i, b)] | None \<Rightarrow> [])))
        (collected g0 (insert (c, i) S)) (\<lambda>_ _. False) h" by (simp add: res wp_ret)
  qed simp
qed

lemma collected_node:
  assumes col: "collected g0 S st g" and base: "base = length (nodes g0)" and gi: "graph_inv g0" and c: "c < base"
  shows "act_wp (collect repair skip st c) (\<lambda>st' g'. \<exists>S'. S \<subseteq> S' \<and> (\<not> skip c (nodes g0 ! c) \<longrightarrow> {c} \<times> set (inputs (nodes g0 ! c)) \<subseteq> S') \<and>
    collected g0 S' st' g') (\<lambda>_ _. False) g"
proof -
  have ex: "extends g0 g" using col by (simp add: collected_def)
  have cn: "nodes g ! c = nodes g0 ! c" "c < length (nodes g)" using extends_nth [OF ex] extends_length [OF ex] c base by auto
  have each: "act_wp (act_fold (collect_edge repair c) st (inputs (nodes g0 ! c)))
      (\<lambda>st' g'. collected g0 (S \<union> {c} \<times> set (inputs (nodes g0 ! c))) st' g') (\<lambda>_ _. False) g" if sk: "\<not> skip c (nodes g0 ! c)"
  proof (rule wp_fold [where I = "\<lambda>st xs g. \<exists>pre. inputs (nodes g0 ! c) = pre @ xs \<and> collected g0 (S \<union> {c} \<times> set pre) st g"])
    fix st i xs g assume "\<exists>pre. inputs (nodes g0 ! c) = pre @ i # xs \<and> collected g0 (S \<union> {c} \<times> set pre) st g"
    then obtain pre where p: "inputs (nodes g0 ! c) = pre @ i # xs" "collected g0 (S \<union> {c} \<times> set pre) st g" by blast
    have i: "i \<in> set (inputs (nodes g0 ! c))" using p(1) by simp
    then have ib: "i < base" using input_plain(1) [OF gi _ i] c base by simp
    have u: "insert (c, i) (S \<union> {c} \<times> set pre) = S \<union> {c} \<times> set (pre @ [i])" by auto
    show "act_wp (collect_edge repair c st i) (\<lambda>st g. \<exists>pre. inputs (nodes g0 ! c) = pre @ xs \<and> collected g0 (S \<union> {c} \<times> set pre) st g) (\<lambda>_ _. False) g"
    proof (rule wp_mono [OF collected_edge [OF p(2) base c sk i ib]])
      fix st' g' assume "collected g0 (insert (c, i) (S \<union> {c} \<times> set pre)) st' g'"
      then show "\<exists>pre. inputs (nodes g0 ! c) = pre @ xs \<and> collected g0 (S \<union> {c} \<times> set pre) st' g'"
        unfolding u using p(1) by (intro exI [of _ "pre @ [i]"]) simp
    qed simp
  next
    show "\<exists>pre. inputs (nodes g0 ! c) = pre @ inputs (nodes g0 ! c) \<and> collected g0 (S \<union> {c} \<times> set pre) st g" using col by auto
  qed auto
  have "act_wp (act_fold (collect_edge repair c) st (inputs (nodes g0 ! c))) (\<lambda>st' g'. \<exists>S'. S \<subseteq> S' \<and>
      {c} \<times> set (inputs (nodes g0 ! c)) \<subseteq> S' \<and> collected g0 S' st' g') (\<lambda>_ _. False) g" if "\<not> skip c (nodes g0 ! c)"
    by (rule wp_mono [OF each [OF that]]) blast+
  then show ?thesis using cn col unfolding collect_def by (auto simp: wp_bind wp_get wp_ret)
qed

lemma collected_all:
  assumes inv: "inv acc g0" and base: "base = length (nodes g0)" and order: "set order \<subseteq> {..<base}"
  shows "act_wp (act_fold (collect repair skip) (acc, []) order) (\<lambda>st g. \<exists>S. (\<forall>c \<in> set order. \<not> skip c (nodes g0 ! c) \<longrightarrow>
    {c} \<times> set (inputs (nodes g0 ! c)) \<subseteq> S) \<and> collected g0 S st g) (\<lambda>_ _. False) g0"
proof -
  note gi = inv_graph [OF inv]
  let ?I = "\<lambda>st xs g. \<exists>pre S. order = pre @ xs \<and> (\<forall>c \<in> set pre. \<not> skip c (nodes g0 ! c) \<longrightarrow> {c} \<times> set (inputs (nodes g0 ! c)) \<subseteq> S) \<and> collected g0 S st g"
  show ?thesis
  proof (rule wp_fold [where I = ?I])
    fix st c xs g assume "?I st (c # xs) g"
    then obtain pre S where p: "order = pre @ c # xs" "\<forall>c \<in> set pre. \<not> skip c (nodes g0 ! c) \<longrightarrow> {c} \<times> set (inputs (nodes g0 ! c)) \<subseteq> S"
        "collected g0 S st g" by blast
    have c: "c < base" using p(1) order by auto
    show "act_wp (collect repair skip st c) (\<lambda>st g. ?I st xs g) (\<lambda>_ _. False) g"
    proof (rule wp_mono [OF collected_node [OF p(3) base gi c]])
      fix st' g' assume "\<exists>S'. S \<subseteq> S' \<and> (\<not> skip c (nodes g0 ! c) \<longrightarrow> {c} \<times> set (inputs (nodes g0 ! c)) \<subseteq> S') \<and> collected g0 S' st' g'"
      then obtain S' where "S \<subseteq> S'" "\<not> skip c (nodes g0 ! c) \<longrightarrow> {c} \<times> set (inputs (nodes g0 ! c)) \<subseteq> S'" "collected g0 S' st' g'" by blast
      then show "?I st' xs g'" using p(1,2) by (intro exI [of _ "pre @ [c]"] exI [of _ S']) auto
    qed simp
  next
    show "?I (acc, []) order g0" using inv by (intro exI [of _ "[]"] exI [of _ "{}"]) (simp add: collected_def)
  qed auto
qed

text \<open>The pass succeeds, every node keeps its value, and every visited edge ends at a fine node.\<close>

lemma splice_sound:
  assumes inv: "inv acc g" and base: "base = length (nodes g)" and roots: "set roots \<subseteq> {..<length (nodes g)}"
  obtains acc' g' where "splice repair skip acc roots g = (Ok acc', g')" and "graph_inv g'" and "length (nodes g) \<le> length (nodes g')"
    and "\<And>i. i < length (nodes g) \<Longrightarrow> val sem g' i = val sem g i"
    and "\<And>i. i < length (nodes g) \<Longrightarrow> view_of g' i = view_of g i"
    and "\<And>c. c \<in> (edges (nodes g))\<^sup>* `` set roots \<Longrightarrow> \<not> skip c (nodes g ! c) \<Longrightarrow>
      list_all2 (fine g' c) (inputs (nodes g ! c)) (inputs (nodes g' ! c))"
proof -
  note gi = inv_graph [OF inv]
  obtain order where o: "topo_order_multi g roots = Ok order" "set order = (edges (nodes g))\<^sup>* `` set roots"
    by (rule topo_order_multi_spec [OF graph_inv_parts(2,1) [OF gi] roots])
  have ord: "set order \<subseteq> {..<base}" using o(2) roots reach_in [OF _ graph_inv_parts(1) [OF gi]] base by auto
  obtain st h where f: "act_fold (collect repair skip) (acc, []) order g = (Ok st, h)" and "\<exists>S. (\<forall>c \<in> set order. \<not> skip c (nodes g ! c) \<longrightarrow>
      {c} \<times> set (inputs (nodes g ! c)) \<subseteq> S) \<and> collected g S st h"
    by (rule wp_total [OF collected_all [OF inv base ord]]) auto
  then obtain S where S: "\<And>c. c \<in> set order \<Longrightarrow> \<not> skip c (nodes g ! c) \<Longrightarrow> {c} \<times> set (inputs (nodes g ! c)) \<subseteq> S" "collected g S st h" by blast
  obtain acc' rs where st: "st = (acc', rs)" by (cases st)
  have ih: "inv acc' h" and ex: "extends g h" and rs: "\<And>c a b. (c, a, b) \<in> set rs \<Longrightarrow> c < base \<and> a < base \<and> twin sem base h a b \<and> fine h c a b"
    and ed: "\<And>c a. (c, a) \<in> S \<Longrightarrow> fine h c a a \<or> (\<exists>b. (c, a, b) \<in> set rs)" using S(2) by (auto simp: collected_def st)
  note gih = inv_graph [OF ih]
  have bl: "base \<le> length (nodes h)" using extends_length [OF ex] base by simp
  have rok: "rewires_ok sem base h rs" using rs by (auto simp: rewires_ok_def)
  define g' where "g' = fold (\<lambda>(c, a, b). rewire c a b) rs h"
  note ap = apply_rewires_Ok [OF gih bl rok, folded g'_def]
  have vw: "view_of g' i = view_of h i" for i unfolding g'_def by (rule rewired_view) (use rs bl in fastforce)
  have "list_all2 (fine g' c) (inputs (nodes g ! c)) (inputs (nodes g' ! c))" if c: "c \<in> set order" "\<not> skip c (nodes g ! c)" for c
  proof -
    have cb: "c < base" "c < length (nodes h)" using c(1) ord bl by auto
    have "\<forall>(c, a, b) \<in> set rs. c < base \<and> a < base \<and> base \<le> b" using rs chain_base by (fastforce simp: twin_def)
    then have ins: "inputs (nodes g' ! c) = map (rewired rs c) (inputs (nodes g ! c))"
      unfolding g'_def using rewired_inputs [OF _ bl cb(2)] extends_nth [OF ex, of c] cb(1) base by simp
    have "fine g' c i (rewired rs c i)" if i: "i \<in> set (inputs (nodes g ! c))" for i
    proof -
      have ib: "i < length (nodes h)" using input_plain(1) [OF gi _ i] cb(1) base bl by simp
      have "fine h c i (rewired rs c i) \<and> rewired rs c i < length (nodes h)"
        using rewired_cases [of rs c i] ed [of c i] rs [of c i] S(1) [OF c] i ib by (auto simp: twin_def)
      then show ?thesis using fine_views [of h c i "rewired rs c i" g'] vw ap(3) by simp
    qed
    then show ?thesis unfolding ins by (simp add: list_all2_conv_all_nth)
  qed
  moreover have "val sem g' i = val sem g i" if "i < length (nodes g)" for i
    using ap(4) [of i] val_extends [OF gi gih ex that, of sem] that bl base by simp
  moreover have "view_of g' i = view_of g i" if "i < length (nodes g)" for i using vw ex that by (simp add: extends_def)
  moreover have "splice repair skip acc roots g = (Ok acc', g')"
    using o(1) f ap(1) by (simp add: splice_def act_bind_def act_get_def act_result_def act_ret_def st)
  ultimately show thesis using that ap(2,3) o(2) bl base by simp
qed

end

end
