(* ===== verification/GraphSurgery.thy ===== *)
theory GraphSurgery
  imports GraphSplice
begin

text \<open>
  Passes that splice nodes into a graph before it runs (\<open>fuel-graph/src/opt.rs\<close>, \<open>insert_evict_reload_in\<close>,
  \<open>insert_layout_fixups\<close>, \<open>insert_cross_device_copies\<close>): a stay of a tensor in host memory, contiguous
  copies for kernels that do not take strides, and copies between devices. Which kernel takes strides,
  where a node is placed and which devices share storage are decided elsewhere and are parameters.
\<close>

section \<open>Evicting and reloading\<close>

definition insert_evict_reload_in :: "node_id \<Rightarrow> device_location \<Rightarrow> node_id list \<Rightarrow> ('f, 's, node_id \<times> node_id) graph_act" where
  "insert_evict_reload_in cand src later = act_bind (act_get nodes) (\<lambda>ns.
     if length ns \<le> cand then act_panic
     else act_bind (push \<lparr>node_op = Memory (Op_Move Dev_Cpu), inputs = [cand], node_shape = node_shape (ns ! cand),
         node_dtype = node_dtype (ns ! cand)\<rparr>) (\<lambda>mv.
       act_bind (push \<lparr>node_op = Memory (Op_Copy src), inputs = [mv], node_shape = node_shape (ns ! cand),
         node_dtype = node_dtype (ns ! cand)\<rparr>) (\<lambda>reload.
       act_bind (apply_rewires (map (\<lambda>c. (c, cand, reload)) later)) (\<lambda>_.
       act_ret (mv, reload)))))"

section \<open>Contiguous inputs\<close>

definition fixup_exempt :: "'f op \<Rightarrow> bool" where
  "fixup_exempt p \<longleftrightarrow> is_view_op p \<or> (case p of
     Op_Const \<Rightarrow> True
   | Shaping (Op_Reshape s) \<Rightarrow> True
   | Elementwise Op_Contiguize \<Rightarrow> True
   | Memory m \<Rightarrow> (case m of Op_WriteSliceRotating a n r \<Rightarrow> False | _ \<Rightarrow> True)
   | _ \<Rightarrow> False)"

definition dense :: "layout \<Rightarrow> bool" where
  "dense l \<longleftrightarrow> is_contiguous (ldims l) (stride l) \<and> start_offset l = 0"

definition layout_repair :: "replacement \<times> nat \<Rightarrow> node_id \<Rightarrow> node_id \<Rightarrow> ('f, 's, (replacement \<times> nat) \<times> node_id option) graph_act" where
  "layout_repair acc c i = act_bind (act_get (\<lambda>g. (layout_of g i, nodes g))) (\<lambda>(l, ns). act_bind (act_result l) (\<lambda>l.
     if dense l then act_ret (acc, None)
     else (case map_of (fst acc) i of
         Some b \<Rightarrow> act_ret (acc, Some b)
       | None \<Rightarrow> if length ns \<le> i then act_panic
           else act_bind (push \<lparr>node_op = Elementwise Op_Contiguize, inputs = [i], node_shape = node_shape (ns ! i),
               node_dtype = node_dtype (ns ! i)\<rparr>) (\<lambda>b.
             act_ret ((AList.update i b (fst acc), snd acc + 1), Some b)))))"

definition insert_layout_fixups :: "(node_id \<Rightarrow> bool) \<Rightarrow> node_id list \<Rightarrow> ('f, 's, nat) graph_act" where
  "insert_layout_fixups accepts_strided roots =
     act_bind (splice layout_repair (\<lambda>c n. fixup_exempt (node_op n) \<or> accepts_strided c) ([], 0) roots)
       (\<lambda>acc. act_ret (snd acc))"

section \<open>Copies between devices\<close>

type_synonym transfer_cache = "((node_id \<times> device_location) \<times> node_id) list \<times> node_id list"

text \<open>A copy of a node to a device, at most one per node and device.\<close>

definition transfer :: "transfer_cache \<Rightarrow> node_id \<Rightarrow> device_location \<Rightarrow> ('f, 's, transfer_cache \<times> node_id) graph_act" where
  "transfer acc s d = (case map_of (fst acc) (s, d) of
     Some b \<Rightarrow> act_ret (acc, b)
   | None \<Rightarrow> act_bind (act_get nodes) (\<lambda>ns.
       if length ns \<le> s then act_panic
       else act_bind (push \<lparr>node_op = Memory (Op_Copy d), inputs = [s], node_shape = node_shape (ns ! s),
           node_dtype = node_dtype (ns ! s)\<rparr>) (\<lambda>b.
         act_bind (set_placement b d) (\<lambda>_.
         act_ret ((AList.update (s, d) b (fst acc), snd acc @ [b]), b)))))"

definition device_repair :: "(node_id \<Rightarrow> device_location option) \<Rightarrow> (device_location \<Rightarrow> device_location \<Rightarrow> bool) \<Rightarrow>
    (device_location \<Rightarrow> device_location \<Rightarrow> bool) \<Rightarrow> transfer_cache \<Rightarrow> node_id \<Rightarrow> node_id \<Rightarrow>
    ('f, 's, transfer_cache \<times> node_id option) graph_act" where
  "device_repair placement_for shares_storage needs_host_staging acc c i =
     (case (placement_for c, placement_for i) of
        (Some pc, Some pi) \<Rightarrow>
          if shares_storage pi pc then act_ret (acc, None)
          else act_bind (if needs_host_staging pi pc then transfer acc i Dev_Cpu else act_ret (acc, i)) (\<lambda>(acc1, s).
            act_bind (transfer acc1 s pc) (\<lambda>(acc2, b). act_ret (acc2, Some b)))
      | _ \<Rightarrow> act_ret (acc, None))"

definition insert_cross_device_copies :: "(node_id \<Rightarrow> device_location option) \<Rightarrow> (device_location \<Rightarrow> device_location \<Rightarrow> bool) \<Rightarrow>
    (device_location \<Rightarrow> device_location \<Rightarrow> bool) \<Rightarrow> node_id list \<Rightarrow> ('f, 's, node_id list) graph_act" where
  "insert_cross_device_copies placement_for shares_storage needs_host_staging roots =
     act_bind (splice (device_repair placement_for shares_storage needs_host_staging)
         (\<lambda>c n. placement_for c = None \<or> is_transfer (node_op n)) ([], []) roots)
       (\<lambda>acc. act_ret (snd acc))"

section \<open>A tensor in host memory keeps its value\<close>

lemma insert_evict_reload_sound:
  assumes gi: "graph_inv g" and cand: "cand < length (nodes g)" "branch_target (nodes g ! cand) = None"
    and cs: "set later \<subseteq> {..<length (nodes g)}"
    and mv: "passes_on compute (Memory (Op_Move Dev_Cpu))" and cp: "passes_on compute (Memory (Op_Copy src))"
  obtains g' where "insert_evict_reload_in cand src later g = (Ok (length (nodes g), length (nodes g) + 1), g')"
    and "graph_inv g'" and "length (nodes g') = length (nodes g) + 2"
    and "\<And>i. i < length (nodes g) \<Longrightarrow> val (op_sem konst compute) g' i = val (op_sem konst compute) g i"
    and "\<And>c. c < length (nodes g) \<Longrightarrow> inputs (nodes g' ! c) =
      (if c \<in> set later then map (\<lambda>i. if i = cand then length (nodes g) + 1 else i) (inputs (nodes g ! c)) else inputs (nodes g ! c))"
proof -
  let ?sem = "op_sem konst compute" and ?n = "length (nodes g)"
  let ?sh = "node_shape (nodes g ! cand)" and ?dt = "node_dtype (nodes g ! cand)"
  let ?P = "\<lambda>g1. extends g g1 \<and> graph_inv g1 \<and> length (nodes g1) = ?n + 1 \<and> twin ?sem ?n g1 cand ?n"
  have "act_wp (push \<lparr>node_op = Memory (Op_Move Dev_Cpu), inputs = [cand], node_shape = ?sh, node_dtype = ?dt\<rparr>)
      (\<lambda>j g1. j = ?n \<and> ?P g1) (\<lambda>_ _. False) g"
    by (rule wp_push_twin [OF gi le_refl _ mv]) (use cand in \<open>auto simp: source_def pushed_def\<close>)
  then obtain g1 where p1: "push \<lparr>node_op = Memory (Op_Move Dev_Cpu), inputs = [cand], node_shape = ?sh, node_dtype = ?dt\<rparr> g = (Ok ?n, g1)"
      and g1: "extends g g1" "graph_inv g1" "length (nodes g1) = ?n + 1" "twin ?sem ?n g1 cand ?n"
    by (rule wp_total) auto
  have "act_wp (push \<lparr>node_op = Memory (Op_Copy src), inputs = [?n], node_shape = ?sh, node_dtype = ?dt\<rparr>)
      (\<lambda>j g2. j = ?n + 1 \<and> extends g1 g2 \<and> graph_inv g2 \<and> length (nodes g2) = ?n + 2 \<and> twin ?sem ?n g2 cand (?n + 1)) (\<lambda>_ _. False) g1"
    by (rule wp_push_twin [OF g1(2) _ _ cp]) (use g1 in \<open>auto simp: source_def pushed_def\<close>)
  then obtain g2 where p2: "push \<lparr>node_op = Memory (Op_Copy src), inputs = [?n], node_shape = ?sh, node_dtype = ?dt\<rparr> g1 = (Ok (?n + 1), g2)"
      and g2: "extends g1 g2" "graph_inv g2" "length (nodes g2) = ?n + 2" "twin ?sem ?n g2 cand (?n + 1)"
    by (rule wp_total) auto
  note ex = extends_trans [OF g1(1) g2(1)]
  let ?rs = "map (\<lambda>c. (c, cand, ?n + 1)) later"
  have rok: "rewires_ok ?sem ?n g2 ?rs" using cs g2(4) by (auto simp: rewires_ok_def)
  have bl: "?n \<le> length (nodes g2)" using g2(3) by simp
  define g' where "g' = fold (\<lambda>(c, a, b). rewire c a b) ?rs g2"
  note ap = apply_rewires_Ok [OF g2(2) bl rok, folded g'_def]
  have "rewired ?rs c i = (if c \<in> set later \<and> i = cand then ?n + 1 else i)" for c i
    by (induction later) auto
  then have sp: "rewired ?rs c = (\<lambda>i. if c \<in> set later \<and> i = cand then ?n + 1 else i)" for c by (intro ext)
  have "inputs (nodes g' ! c) = (if c \<in> set later then map (\<lambda>i. if i = cand then ?n + 1 else i) (inputs (nodes g ! c)) else inputs (nodes g ! c))"
    if c: "c < ?n" for c
  proof -
    have "\<forall>(c, a, b) \<in> set ?rs. c < ?n \<and> a < ?n \<and> ?n \<le> b" using cs cand(1) by auto
    from rewired_inputs [OF this bl] have "inputs (nodes g' ! c) = map (rewired ?rs c) (inputs (nodes g ! c))"
      using c bl extends_nth [OF ex c] by (simp add: g'_def)
    then show ?thesis unfolding sp by (cases "c \<in> set later") simp_all
  qed
  moreover have "val ?sem g' i = val ?sem g i" if "i < ?n" for i
    using ap(4) [of i] val_extends [OF gi g2(2) ex that, of ?sem] that g2(3) by simp
  moreover have "insert_evict_reload_in cand src later g = (Ok (?n, ?n + 1), g')"
    using cand(1) p1 p2 ap(1) by (simp add: insert_evict_reload_in_def act_bind_def act_get_def act_ret_def)
  ultimately show thesis using that ap(2,3) g2(3) by simp
qed

section \<open>Strided inputs\<close>

definition dense_node :: "('f, 's) graph \<Rightarrow> node_id \<Rightarrow> bool" where
  "dense_node g i \<longleftrightarrow> (case layout_of g i of Ok l \<Rightarrow> dense l | _ \<Rightarrow> False)"

lemma layout_of_view: "i < length (nodes g) \<Longrightarrow> layout_of g i = Ok (case v_layout (view_of g i) of Some l \<Rightarrow> l | None \<Rightarrow> contiguous (v_shape (view_of g i)))"
  by (simp add: layout_of_def view_of_def split: option.splits)

lemma dense_node_view: "dense_node g i \<Longrightarrow> i < length (nodes g) \<Longrightarrow> view_of g' i = view_of g i \<Longrightarrow> i < length (nodes g') \<Longrightarrow> dense_node g' i"
  unfolding dense_node_def using layout_of_view [of i g] layout_of_view [of i g'] by metis

lemma dense_contiguous: "dense (contiguous s)"
  by (simp add: dense_def contiguous_def contiguous_with_offset_def is_contiguous_axes contiguous_axes_stride)

definition fixup_inv :: "nat \<Rightarrow> (('f, 's) node_view \<Rightarrow> 'v) \<Rightarrow> ('f op \<Rightarrow> 'v list \<Rightarrow> 'v) \<Rightarrow> replacement \<times> nat \<Rightarrow> ('f, 's) graph \<Rightarrow> bool" where
  "fixup_inv base konst compute acc g \<longleftrightarrow> graph_inv g \<and> passes_on compute (Elementwise Op_Contiguize) \<and> base \<le> length (nodes g) \<and>
     (\<forall>i b. map_of (fst acc) i = Some b \<longrightarrow> twin (op_sem konst compute) base g i b \<and> dense_node g b)"

lemma layout_repair_ok:
  assumes inv: "fixup_inv base konst compute acc g" and c: "c < base" and i: "i \<in> set (inputs (nodes g ! c))" "i < base"
  shows "act_wp (layout_repair acc c i) (\<lambda>(acc', r) g'. fixup_inv base konst compute acc' g' \<and> extends g g' \<and>
    (case r of None \<Rightarrow> dense_node g' i | Some b \<Rightarrow> twin (op_sem konst compute) base g' i b \<and> dense_node g' b)) E g"
proof -
  let ?sem = "op_sem konst compute"
  have gi: "graph_inv g" and po: "passes_on compute (Elementwise Op_Contiguize)" and bl: "base \<le> length (nodes g)"
    and cache: "\<And>i b. map_of (fst acc) i = Some b \<Longrightarrow> twin ?sem base g i b \<and> dense_node g b"
    using inv by (auto simp: fixup_inv_def)
  have il: "i < length (nodes g)" using i(2) bl by simp
  have ip: "branch_target (nodes g ! i) = None" using input_plain(2) [OF gi _ i(1)] c bl by simp
  obtain l where l: "layout_of g i = Ok l" using layout_of_view [OF il] by blast
  show ?thesis
  proof (cases "dense l")
    case True
    then show ?thesis using l inv by (simp add: layout_repair_def wp_simps dense_node_def)
  next
    case False
    show ?thesis
    proof (cases "map_of (fst acc) i")
      case (Some b)
      then show ?thesis using False l inv cache [OF Some] by (simp add: layout_repair_def wp_simps)
    next
      case None
      let ?n = "\<lparr>node_op = Elementwise Op_Contiguize, inputs = [i], node_shape = node_shape (nodes g ! i), node_dtype = node_dtype (nodes g ! i)\<rparr>"
      have "act_wp (push ?n) (\<lambda>b g'. fixup_inv base konst compute (AList.update i b (fst acc), snd acc + 1) g' \<and> extends g g' \<and>
          twin ?sem base g' i b \<and> dense_node g' b) E g"
      proof (rule wp_push_twin [OF gi bl _ po])
        fix g' assume pd: "pushed ?n g g'" and geq: "g' = g\<lparr>nodes := nodes g @ [?n]\<rparr>" and t: "twin ?sem base g' i (length (nodes g))"
        have gi': "graph_inv g'" and ex: "extends g g'" using pd by (simp_all add: pushed_def)
        have "map_of (layouts g) (length (nodes g)) = None"
          using graph_inv_parts(3) [OF gi] by (cases "map_of (layouts g) (length (nodes g))") (auto simp: layouts_ok_def)
        then have d: "dense_node g' (length (nodes g))" by (simp add: dense_node_def layout_of_def geq dense_contiguous)
        have "twin ?sem base g' j b \<and> dense_node g' b" if "map_of (fst acc) j = Some b" for j b
          using cache [OF that] twin_extends [OF _ gi gi' ex bl, of ?sem j b] dense_node_view [of g b g'] ex extends_length [OF ex]
          by (auto simp: twin_def extends_def)
        then show "fixup_inv base konst compute (AList.update i (length (nodes g)) (fst acc), snd acc + 1) g' \<and> extends g g' \<and>
            twin ?sem base g' i (length (nodes g)) \<and> dense_node g' (length (nodes g))"
          using gi' po bl extends_length [OF ex] t d ex by (auto simp: fixup_inv_def)
      qed (use i(2) ip in \<open>simp add: source_def\<close>)
      then show ?thesis using False l None il by (simp add: layout_repair_def wp_funs wp_get wp_result)
    qed
  qed
qed

interpretation fixups: splice_pass layout_repair "\<lambda>c n. fixup_exempt (node_op n) \<or> accepts_strided c"
    "fixup_inv base konst compute" "op_sem konst compute" base "\<lambda>g c i j. dense_node g j" for accepts_strided base konst compute
  by (unfold_locales, simp add: fixup_inv_def, rule dense_node_view, assumption+, rule layout_repair_ok)

section \<open>Inputs on other devices\<close>

definition device_fine :: "(node_id \<Rightarrow> device_location option) \<Rightarrow> (device_location \<Rightarrow> device_location \<Rightarrow> bool) \<Rightarrow> ('f, 's) graph \<Rightarrow>
    node_id \<Rightarrow> node_id \<Rightarrow> node_id \<Rightarrow> bool" where
  "device_fine placement_for shares_storage g c i j \<longleftrightarrow> (\<forall>pc. placement_for c = Some pc \<longrightarrow>
     (j = i \<and> (\<forall>pi. placement_for i = Some pi \<longrightarrow> shares_storage pi pc)) \<or> map_of (placements g) j = Some pc)"

definition device_inv :: "nat \<Rightarrow> (('f, 's) node_view \<Rightarrow> 'v) \<Rightarrow> ('f op \<Rightarrow> 'v list \<Rightarrow> 'v) \<Rightarrow> transfer_cache \<Rightarrow> ('f, 's) graph \<Rightarrow> bool" where
  "device_inv base konst compute acc g \<longleftrightarrow> graph_inv g \<and> (\<forall>d. passes_on compute (Memory (Op_Copy d))) \<and> base \<le> length (nodes g) \<and>
     (\<forall>s d b. map_of (fst acc) (s, d) = Some b \<longrightarrow>
        (\<exists>a. source (op_sem konst compute) base g a s \<and> twin (op_sem konst compute) base g a b) \<and> map_of (placements g) b = Some d)"

lemma source_extends:
  assumes "source sem base g a s" and "graph_inv g" and "graph_inv g'" and "extends g g'" and "base \<le> length (nodes g)"
  shows "source sem base g' a s"
  using assms(1) twin_extends [OF _ assms(2-5), of sem a s] extends_nth [OF assms(4), of a] assms(5) by (auto simp: source_def)

lemma twin_placed:
  assumes "twin (op_sem konst compute) base g a b" and "graph_inv g" and "j < length (nodes g)" and "node_op (nodes g ! j) \<noteq> Op_Const"
  shows "twin (op_sem konst compute) base (g\<lparr>placements := AList.update j d (placements g)\<rparr>) a b"
  using assms(1) placed_val(2) [OF assms(2-4) refl, of konst compute d] by (simp add: twin_def)

lemma wp_transfer:
  assumes inv: "device_inv base konst compute acc g" and s: "source (op_sem konst compute) base g a s"
    and Q: "\<And>acc' b g'. device_inv base konst compute acc' g' \<Longrightarrow> extends g g' \<Longrightarrow> twin (op_sem konst compute) base g' a b \<Longrightarrow>
      map_of (placements g') b = Some d \<Longrightarrow> Q (acc', b) g'"
  shows "act_wp (transfer acc s d) Q E g"
proof -
  let ?sem = "op_sem konst compute"
  have gi: "graph_inv g" and po: "\<And>d. passes_on compute (Memory (Op_Copy d))" and bl: "base \<le> length (nodes g)"
    and cache: "\<And>s d b. map_of (fst acc) (s, d) = Some b \<Longrightarrow> (\<exists>a. source ?sem base g a s \<and> twin ?sem base g a b) \<and> map_of (placements g) b = Some d"
    using inv by (auto simp: device_inv_def)
  have sl: "s < length (nodes g)" using s bl by (auto simp: source_def twin_def)
  show ?thesis
  proof (cases "map_of (fst acc) (s, d)")
    case (Some b)
    then obtain a' where a': "source ?sem base g a' s" "twin ?sem base g a' b" "map_of (placements g) b = Some d" using cache by blast
    then have "twin ?sem base g a b" using source_unique [OF s] by simp
    then show ?thesis using Some Q [OF inv _ _ a'(3)] by (simp add: transfer_def wp_simps)
  next
    case None
    let ?n = "\<lparr>node_op = Memory (Op_Copy d), inputs = [s], node_shape = node_shape (nodes g ! s), node_dtype = node_dtype (nodes g ! s)\<rparr>"
    have "act_wp (push ?n) (\<lambda>b. act_wp (set_placement b d) (\<lambda>_. Q ((AList.update (s, d) b (fst acc), snd acc @ [b]), b)) E) E g"
    proof (rule wp_push_twin [OF gi bl s po])
      let ?b = "length (nodes g)"
      fix g1 assume pd: "pushed ?n g g1" and t: "twin ?sem base g1 a ?b"
      have gi1: "graph_inv g1" and ex1: "extends g g1" and n1: "nodes g1 = nodes g @ [?n]" using pd by (simp_all add: pushed_def)
      define g2 where "g2 = g1\<lparr>placements := AList.update ?b d (placements g1)\<rparr>"
      have b1: "?b < length (nodes g1)" "node_op (nodes g1 ! ?b) \<noteq> Op_Const" using n1 by simp_all
      have gi2: "graph_inv g2" unfolding g2_def by (rule placed_val(1) [OF gi1 b1 refl])
      have ex2: "extends g g2" unfolding g2_def by (rule extends_placed [OF ex1 le_refl])
      have t2: "twin ?sem base g2 a ?b" unfolding g2_def by (rule twin_placed [OF t gi1 b1])
      have pl2: "map_of (placements g2) ?b = Some d" by (simp add: g2_def)
      have old: "(\<exists>a. source ?sem base g2 a s' \<and> twin ?sem base g2 a b') \<and> map_of (placements g2) b' = Some d'"
        if c: "map_of (fst acc) (s', d') = Some b'" for s' d' b'
      proof -
        obtain a' where a': "source ?sem base g a' s'" "twin ?sem base g a' b'" "map_of (placements g) b' = Some d'" using cache [OF c] by blast
        have "view_of g2 b' = view_of g b'" using ex2 a'(2) by (simp add: extends_def twin_def)
        then have "map_of (placements g2) b' = Some d'" using a'(3) by (simp add: view_of_def)
        then show ?thesis using source_extends [OF a'(1) gi gi2 ex2 bl] twin_extends [OF a'(2) gi gi2 ex2 bl] by blast
      qed
      have "device_inv base konst compute (AList.update (s, d) ?b (fst acc), snd acc @ [?b]) g2"
        unfolding device_inv_def using gi2 po bl extends_length [OF ex2] old t2 pl2 source_extends [OF s gi gi2 ex2 bl] by auto
      from Q [OF this ex2 t2 pl2] show "act_wp (set_placement ?b d) (\<lambda>_. Q ((AList.update (s, d) ?b (fst acc), snd acc @ [?b]), ?b)) E g1"
        using b1 by (simp add: set_placement_def checked_def wp_simps g2_def)
    qed
    then show ?thesis using None sl by (simp add: transfer_def wp_funs wp_get)
  qed
qed

lemma device_repair_ok:
  assumes inv: "device_inv base konst compute acc g" and c: "c < base" and i: "i \<in> set (inputs (nodes g ! c))" "i < base"
  shows "act_wp (device_repair pf sh st acc c i) (\<lambda>(acc', r) g'. device_inv base konst compute acc' g' \<and> extends g g' \<and>
    (case r of None \<Rightarrow> device_fine pf sh g' c i i | Some b \<Rightarrow> twin (op_sem konst compute) base g' i b \<and> device_fine pf sh g' c i b)) E g"
proof -
  let ?sem = "op_sem konst compute"
  have gi: "graph_inv g" and bl: "base \<le> length (nodes g)" using inv by (simp_all add: device_inv_def)
  have src: "source ?sem base g i i" using input_plain(2) [OF gi _ i(1)] c bl i(2) by (simp add: source_def)
  let ?Q = "\<lambda>(acc', r) g'. device_inv base konst compute acc' g' \<and> extends g g' \<and>
    (case r of None \<Rightarrow> device_fine pf sh g' c i i | Some b \<Rightarrow> twin ?sem base g' i b \<and> device_fine pf sh g' c i b)"
  show ?thesis
  proof (cases "\<exists>pc pi. pf c = Some pc \<and> pf i = Some pi \<and> \<not> sh pi pc")
    case False
    then have "device_fine pf sh g c i i" by (auto simp: device_fine_def)
    then show ?thesis using False inv by (auto simp: device_repair_def wp_simps split: option.splits)
  next
    case True
    then obtain pc pi where p: "pf c = Some pc" "pf i = Some pi" "\<not> sh pi pc" by blast
    have last: "act_wp (act_bind (transfer acc1 s pc) (\<lambda>(acc2, b). act_ret (acc2, Some b))) ?Q E g1"
      if 1: "device_inv base konst compute acc1 g1" "extends g g1" "source ?sem base g1 i s" for acc1 g1 s
      unfolding wp_bind
    proof (rule wp_transfer [OF 1(1,3)])
      fix acc2 b g2 assume 2: "device_inv base konst compute acc2 g2" "extends g1 g2" "twin ?sem base g2 i b" "map_of (placements g2) b = Some pc"
      then show "act_wp (case (acc2, b) of (acc2, b) \<Rightarrow> act_ret (acc2, Some b)) ?Q E g2"
        using extends_trans [OF 1(2) 2(2)] p(1) by (simp add: wp_simps device_fine_def)
    qed
    show ?thesis
    proof (cases "st pi pc")
      case True
      have "act_wp (act_bind (transfer acc i Dev_Cpu) (\<lambda>(acc1, s). act_bind (transfer acc1 s pc) (\<lambda>(acc2, b). act_ret (acc2, Some b)))) ?Q E g"
        unfolding wp_bind [of "transfer acc i Dev_Cpu"]
        by (rule wp_transfer [OF inv src]) (simp only: prod.case, rule last, auto simp: source_def)
      then show ?thesis using p True by (simp add: device_repair_def)
    next
      case False
      then show ?thesis using p last [OF inv extends_refl src] by (simp add: device_repair_def wp_bind wp_ret)
    qed
  qed
qed

lemma device_fine_view: "device_fine pf sh g c i j \<Longrightarrow> view_of g' j = view_of g j \<Longrightarrow> device_fine pf sh g' c i j"
  by (simp add: device_fine_def view_of_def)

interpretation devices: splice_pass "device_repair pf sh st" "\<lambda>c n. pf c = None \<or> is_transfer (node_op n)"
    "device_inv base konst compute" "op_sem konst compute" base "device_fine pf sh" for pf sh st base konst compute
  by (unfold_locales, simp add: device_inv_def, rule device_fine_view, assumption+, rule device_repair_ok)

end
