(* ===== verification/PlacementProperties.thy ===== *)
theory PlacementProperties
  imports OptProperties GraphCopies GraphSurgery
begin

text \<open>
  The properties of the passes that place a graph on devices and prepare it for the kernels: constants
  adopt the device of their consumers, copies bring every input to the device of its reader, evicted
  tensors are reloaded, and strided inputs become contiguous. None of them changes a value.
\<close>

section \<open>Placement\<close>

text \<open>
  \<open>lower_const_placement\<close> changes nothing but placements, and gives a device to exactly the constants
  among the nodes the roots read that had none, have a consumer there, and whose consumers there all carry
  that device.
\<close>

theorem lower_const_placement_exact:
  assumes "graph_inv g" and "all_well_formed (nodes g)" and "set roots \<subseteq> {..<length (nodes g)}"
    and "V = (edges (nodes g))\<^sup>* `` set roots"
  shows "\<exists>c pl. lower_const_placement roots g = (Ok c, g\<lparr>placements := pl\<rparr>) \<and>
    (\<forall>i d. map_of pl i = Some d \<longleftrightarrow> map_of (placements g) i = Some d \<or>
       i \<in> V \<and> node_op (nodes g ! i) = Op_Const \<and> map_of (placements g) i = None \<and>
       (\<exists>k \<in> V. i \<in> set (inputs (nodes g ! k))) \<and>
       (\<forall>k \<in> V. i \<in> set (inputs (nodes g ! k)) \<longrightarrow> map_of (placements g) k = Some d))"
  by (rule lower_const_placement_spec [OF assms(1-3)]) (auto simp: lowered_def adopts_def assms(4))

text \<open>A constant read on one device, and one whose readers disagree.\<close>

definition placed :: "(fused_op_params, unit) graph" where
  "placed = (arena_of [leaf, leaf, unary Neg 0, unary Exp 1, unary Relu 1])\<lparr>placements := [(2, Dev_Cuda 0), (3, Dev_Cuda 0), (4, Dev_Cpu)]\<rparr>"

lemma placed_inv: "graph_inv placed" "all_well_formed (nodes placed)"
proof -
  let ?g = "arena_of [leaf, leaf, unary Neg 0, unary Exp 1, unary Relu 1] :: (fused_op_params, unit) graph"
  have "graph_inv ?g" by (rule arena_of_inv) (simp_all add: index_ordered_def upt_rec leaf_def unary_def branch_target_def)
  then show "graph_inv placed"
    by (simp add: placed_def graph_inv_def arena_ok_def tables_ok_def layouts_ok_def layout_of_def)
  show "all_well_formed (nodes placed)"
    by (simp add: placed_def all_well_formed_def well_formed_def view_typed_def is_view_op_def leaf_def unary_def)
qed

theorem lower_const_placement_exact_witness:
  "\<exists>c pl. lower_const_placement [2, 3, 4] placed = (Ok c, placed\<lparr>placements := pl\<rparr>) \<and> map_of pl 0 = Some (Dev_Cuda 0) \<and> map_of pl 1 = None"
proof -
  let ?V = "(edges (nodes placed))\<^sup>* `` set [2, 3, 4]"
  have e: "edges (nodes placed) = {(2, 0), (3, 1), (4, 1)}"
    by (auto simp: placed_def edges_def leaf_def unary_def less_Suc_eq nth_Cons split: nat.splits)
  have V: "2 \<in> ?V" "3 \<in> ?V" "4 \<in> ?V" "0 \<in> ?V" "1 \<in> ?V" unfolding e by (auto intro: r_into_rtrancl)
  have i: "set [2, 3, 4] \<subseteq> {..<length (nodes placed)}" by (simp add: placed_def)
  have rd: "k = 2" if "k \<in> ?V" "0 \<in> set (inputs (nodes placed ! k))" for k
  proof -
    have "k < length (nodes placed)" using that(1) i reach_in [OF _ graph_inv_parts(1) [OF placed_inv(1)]] by auto
    then have "(k, 0) \<in> edges (nodes placed)" using that(2) by (simp add: edges_def)
    then show ?thesis by (simp add: e)
  qed
  obtain c pl where l: "lower_const_placement [2, 3, 4] placed = (Ok c, placed\<lparr>placements := pl\<rparr>)"
      "\<And>i d. map_of pl i = Some d \<longleftrightarrow> map_of (placements placed) i = Some d \<or> i \<in> ?V \<and> node_op (nodes placed ! i) = Op_Const \<and>
         map_of (placements placed) i = None \<and> (\<exists>k \<in> ?V. i \<in> set (inputs (nodes placed ! k))) \<and>
         (\<forall>k \<in> ?V. i \<in> set (inputs (nodes placed ! k)) \<longrightarrow> map_of (placements placed) k = Some d)"
    using lower_const_placement_exact [OF placed_inv i refl] by blast
  have "map_of pl 0 = Some (Dev_Cuda 0)" unfolding l(2) using V(1,4) rd
    by (intro disjI2 conjI) (auto simp: placed_def leaf_def unary_def intro!: bexI [of _ 2])
  moreover have "map_of pl 1 \<noteq> Some d" for d
  proof
    assume "map_of pl 1 = Some d"
    moreover have "map_of (placements placed) 1 = None" "1 \<in> set (inputs (nodes placed ! 3))" "1 \<in> set (inputs (nodes placed ! 4))"
      by (simp_all add: placed_def unary_def)
    ultimately have "map_of (placements placed) 3 = Some d" "map_of (placements placed) 4 = Some d" using l(2) [of 1 d] V(2,3) by auto
    then show False by (simp add: placed_def)
  qed
  ultimately show ?thesis using l(1) by (metis option.exhaust)
qed


lemma sample_copies: "copy_law sample_compute" "passes_on sample_compute (Memory (Op_Copy d))" "passes_on sample_compute (Memory (Op_Move d))"
    "passes_on sample_compute (Elementwise Op_Contiguize)"
  by (simp_all add: copy_law_def passes_on_def sample_compute_def sample_unary_def is_view_op_def)



section \<open>Eviction\<close>

text \<open>
  C21: splicing a stay in host memory after a node redirects exactly the later consumers to the reloaded
  copy, and every node keeps its value: the move and the copy form a round trip.
\<close>

theorem evict_reload_roundtrip:
  assumes gi: "graph_inv g" and cand: "cand < length (nodes g)" "branch_target (nodes g ! cand) = None"
    and later: "set later \<subseteq> {..<length (nodes g)}"
    and law: "passes_on compute (Memory (Op_Move Dev_Cpu))" "passes_on compute (Memory (Op_Copy src))"
  shows "\<exists>g'. insert_evict_reload_in cand src later g = (Ok (length (nodes g), length (nodes g) + 1), g') \<and> graph_inv g' \<and>
    (\<forall>i < length (nodes g). \<forall>v. evals (op_sem konst compute) g' i v \<longleftrightarrow> evals (op_sem konst compute) g i v) \<and>
    (\<forall>c < length (nodes g). inputs (nodes g' ! c) = (if c \<in> set later
       then map (\<lambda>i. if i = cand then length (nodes g) + 1 else i) (inputs (nodes g ! c)) else inputs (nodes g ! c)))"
proof -
  obtain g' where g': "insert_evict_reload_in cand src later g = (Ok (length (nodes g), length (nodes g) + 1), g')" "graph_inv g'"
      "length (nodes g') = length (nodes g) + 2"
      "\<And>i. i < length (nodes g) \<Longrightarrow> val (op_sem konst compute) g' i = val (op_sem konst compute) g i"
      "\<And>c. c < length (nodes g) \<Longrightarrow> inputs (nodes g' ! c) =
        (if c \<in> set later then map (\<lambda>i. if i = cand then length (nodes g) + 1 else i) (inputs (nodes g ! c)) else inputs (nodes g ! c))"
    by (rule insert_evict_reload_sound [OF gi cand later law, of konst]) (rule that)
  have "evals (op_sem konst compute) g' i v \<longleftrightarrow> evals (op_sem konst compute) g i v" if "i < length (nodes g)" for i v
    using that g'(3,4) evals_val [OF gi that, of "op_sem konst compute" v] evals_val [OF g'(2), of i "op_sem konst compute" v] by simp
  then show ?thesis using g'(1,2,5) by blast
qed

theorem evict_reload_roundtrip_witness:
  "\<exists>g'. insert_evict_reload_in 1 (Dev_Cuda 0) [4] placed = (Ok (5, 6), g') \<and> inputs (nodes g' ! 4) = [6] \<and> inputs (nodes g' ! 3) = [1]"
proof -
  have "1 < length (nodes placed)" "branch_target (nodes placed ! 1) = None" "set [4] \<subseteq> {..<length (nodes placed)}"
    by (simp_all add: placed_def leaf_def branch_target_def)
  from evict_reload_roundtrip [OF placed_inv(1) this sample_copies(3,2), of "Dev_Cuda 0" sample_const]
  obtain g' where "insert_evict_reload_in 1 (Dev_Cuda 0) [4] placed = (Ok (length (nodes placed), length (nodes placed) + 1), g')"
      "\<forall>c < length (nodes placed). inputs (nodes g' ! c) = (if c \<in> set [4]
       then map (\<lambda>i. if i = 1 then length (nodes placed) + 1 else i) (inputs (nodes placed ! c)) else inputs (nodes placed ! c))"
    by (elim exE conjE) simp
  then show ?thesis by (simp add: placed_def unary_def)
qed

section \<open>Contiguous inputs\<close>

lemma same_values:
  assumes "graph_inv g" and "graph_inv g'" and "length (nodes g) \<le> length (nodes g')"
    and "\<And>i. i < length (nodes g) \<Longrightarrow> val sem g' i = val sem g i" and "i < length (nodes g)"
  shows "evals sem g' i v \<longleftrightarrow> evals sem g i v"
  using evals_val [OF assms(1,5), of sem v] evals_val [OF assms(2), of i sem v] assms(3-5) by simp

text \<open>
  C20: after \<open>insert_layout_fixups\<close> every operation the roots read that is not exempt and whose kernel does
  not accept strides finds its inputs contiguous and at offset zero; every node keeps its value and
  everything recorded for it.
\<close>

theorem layout_fixups_dense:
  assumes gi: "graph_inv g" and law: "passes_on compute (Elementwise Op_Contiguize)" and roots: "set roots \<subseteq> {..<length (nodes g)}"
  shows "\<exists>n g'. insert_layout_fixups accepts_strided roots g = (Ok n, g') \<and> graph_inv g' \<and>
    (\<forall>i < length (nodes g). view_of g' i = view_of g i \<and> (\<forall>v. evals (op_sem konst compute) g' i v \<longleftrightarrow> evals (op_sem konst compute) g i v)) \<and>
    (\<forall>c \<in> (edges (nodes g))\<^sup>* `` set roots. \<not> fixup_exempt (node_op (nodes g ! c)) \<longrightarrow> \<not> accepts_strided c \<longrightarrow>
       (\<forall>j \<in> set (inputs (nodes g' ! c)). \<exists>l. layout_of g' j = Ok l \<and> is_contiguous (ldims l) (stride l) \<and> start_offset l = 0))"
proof -
  have inv: "fixup_inv (length (nodes g)) konst compute ([], 0) g" using gi law by (simp add: fixup_inv_def)
  obtain acc g' where s: "splice layout_repair (\<lambda>c n. fixup_exempt (node_op n) \<or> accepts_strided c) ([], 0) roots g = (Ok acc, g')"
      "graph_inv g'" "length (nodes g) \<le> length (nodes g')"
      "\<And>i. i < length (nodes g) \<Longrightarrow> val (op_sem konst compute) g' i = val (op_sem konst compute) g i"
      "\<And>i. i < length (nodes g) \<Longrightarrow> view_of g' i = view_of g i"
      "\<And>c. c \<in> (edges (nodes g))\<^sup>* `` set roots \<Longrightarrow> \<not> (fixup_exempt (node_op (nodes g ! c)) \<or> accepts_strided c) \<Longrightarrow>
        list_all2 (\<lambda>i j. dense_node g' j) (inputs (nodes g ! c)) (inputs (nodes g' ! c))"
    by (rule fixups.splice_sound [OF inv refl roots, of accepts_strided]) (rule that)
  have "insert_layout_fixups accepts_strided roots g = (Ok (snd acc), g')"
    using s(1) by (simp add: insert_layout_fixups_def act_bind_def act_ret_def)
  moreover have "\<exists>l. layout_of g' j = Ok l \<and> is_contiguous (ldims l) (stride l) \<and> start_offset l = 0" if "c \<in> (edges (nodes g))\<^sup>* `` set roots" "\<not> fixup_exempt (node_op (nodes g ! c))"
      "\<not> accepts_strided c" "j \<in> set (inputs (nodes g' ! c))" for c j
  proof -
    have "dense_node g' j" using s(6) [OF that(1)] that(2-4) by (auto simp: list_all2_conv_all_nth in_set_conv_nth)
    then show ?thesis by (auto simp: dense_node_def dense_def split: rust.splits)
  qed
  ultimately show ?thesis using s(2,5) same_values [OF gi s(2-4)] by blast
qed

text \<open>An operation that reads a slice.\<close>

definition sliced :: "fused_op_params node" where
  "sliced = \<lparr>node_op = Viewing (Op_Slice 0 1 1), inputs = [0], node_shape = from_dims [1], node_dtype = F32\<rparr>"

definition slice_reader :: "fused_op_params node" where
  "slice_reader = \<lparr>node_op = Unary Neg, inputs = [1], node_shape = from_dims [1], node_dtype = F32\<rparr>"

definition strided :: "(fused_op_params, unit) graph" where
  "strided = (arena_of [leaf, sliced, slice_reader])\<lparr>layouts := [(1, \<lparr>shape = from_dims [1], stride = [1], start_offset = 1\<rparr>)]\<rparr>"

lemma strided_inv: "graph_inv strided"
proof -
  let ?g = "arena_of [leaf] :: (fused_op_params, unit) graph" and ?l = "contiguous (from_dims [2])"
  have gi: "graph_inv ?g" by (rule arena_of_inv) (simp_all add: index_ordered_def leaf_def branch_target_def)
  have pu: "pushable ?g sliced"
    by (simp add: sliced_def pushable_def reads_plain_def view_typed_def leaf_def branch_target_def primitive_shape_view from_dims_def usize_sum_def)
  have "stride ?l = [1]" "ldims ?l = [2]" "start_offset ?l = 0" by code_simp+
  then have v: "view_layout (Op_Slice 0 1 1) ?l = Ok \<lparr>shape = from_dims [1], stride = [1], start_offset = 1\<rparr>"
    by (simp add: narrow_def as_usize_def)
  have lo: "layout_of ?g 0 = Ok ?l" by code_simp
  obtain g1 where g1: "push sliced ?g = (Ok (length (nodes ?g)), g1)" "pushed sliced ?g g1" using push_pushed [OF gi pu] by blast
  have "push sliced ?g = (Ok (length (nodes ?g)), view_pushed sliced (Op_Slice 0 1 1) ?l ?g)"
    by (rule push_view) (use gi pu lo in \<open>simp_all add: graph_inv_def pushable_def sliced_def\<close>)
  then have g1': "g1 = (arena_of [leaf, sliced])\<lparr>layouts := [(1, \<lparr>shape = from_dims [1], stride = [1], start_offset = 1\<rparr>)]\<rparr>"
    using g1(1) v by (simp add: view_pushed_def arena_of_def graph_new_def)
  have "pushable g1 slice_reader" using g1(2)
    by (simp add: pushed_def pushable_def reads_plain_def view_typed_def is_view_op_def branch_target_def slice_reader_def sliced_def)
  then obtain g2 where g2: "push slice_reader g1 = (Ok (length (nodes g1)), g2)" "pushed slice_reader g1 g2"
    using push_pushed [of g1 slice_reader] g1(2) by (auto simp: pushed_def)
  have "g2 = strided" using g2(1) by (simp add: g1' push_plain slice_reader_def is_view_op_def strided_def arena_of_def graph_new_def)
  then show ?thesis using g2(2) by (simp add: pushed_def)
qed

theorem layout_fixups_dense_witness:
  "layout_of strided 1 = Ok \<lparr>shape = from_dims [1], stride = [1], start_offset = 1\<rparr> \<and>
   (\<exists>n g'. insert_layout_fixups (\<lambda>_. False) [2] strided = (Ok n, g') \<and>
      (\<forall>j \<in> set (inputs (nodes g' ! 2)). \<exists>l. layout_of g' j = Ok l \<and> start_offset l = 0))"
proof -
  have e: "layout_of strided 1 = Ok \<lparr>shape = from_dims [1], stride = [1], start_offset = 1\<rparr>" "length (nodes strided) = 3"
      "node_op (nodes strided ! 2) = Unary Neg"
    by (simp_all add: strided_def layout_of_def slice_reader_def)
  then have "set [2] \<subseteq> {..<length (nodes strided)}" "\<not> fixup_exempt (node_op (nodes strided ! 2))"
    by (simp_all add: fixup_exempt_def is_view_op_def)
  moreover have "2 \<in> (edges (nodes strided))\<^sup>* `` set [2]" by auto
  moreover obtain n g' where "insert_layout_fixups (\<lambda>_. False) [2] strided = (Ok n, g')"
      "\<forall>c \<in> (edges (nodes strided))\<^sup>* `` set [2]. \<not> fixup_exempt (node_op (nodes strided ! c)) \<longrightarrow> \<not> False \<longrightarrow>
       (\<forall>j \<in> set (inputs (nodes g' ! c)). \<exists>l. layout_of g' j = Ok l \<and> is_contiguous (ldims l) (stride l) \<and> start_offset l = 0)"
    using layout_fixups_dense [OF strided_inv sample_copies(4) calculation(1), of "\<lambda>_. False" sample_const] by (elim exE conjE)
  ultimately show ?thesis using e(1) by blast
qed

section \<open>Copies between devices\<close>

text \<open>
  C19: after \<open>insert_cross_device_copies\<close> every placed operation the roots read that is no transfer reads,
  for each of its inputs, the input itself where its device shares storage with the reader's or nothing is
  known of it, and otherwise a copy placed on the reader's device; every node keeps its value and
  everything recorded for it.
\<close>

theorem cross_device_copies_colocate:
  assumes gi: "graph_inv g" and law: "\<forall>d. passes_on compute (Memory (Op_Copy d))" and roots: "set roots \<subseteq> {..<length (nodes g)}"
  shows "\<exists>new g'. insert_cross_device_copies placement_for shares_storage needs_host_staging roots g = (Ok new, g') \<and> graph_inv g' \<and>
    (\<forall>i < length (nodes g). view_of g' i = view_of g i \<and> (\<forall>v. evals (op_sem konst compute) g' i v \<longleftrightarrow> evals (op_sem konst compute) g i v)) \<and>
    (\<forall>c \<in> (edges (nodes g))\<^sup>* `` set roots. \<forall>pc. placement_for c = Some pc \<longrightarrow> \<not> is_transfer (node_op (nodes g ! c)) \<longrightarrow>
       list_all2 (\<lambda>i j. j = i \<and> (\<forall>pi. placement_for i = Some pi \<longrightarrow> shares_storage pi pc) \<or> map_of (placements g') j = Some pc)
         (inputs (nodes g ! c)) (inputs (nodes g' ! c)))"
proof -
  let ?rep = "device_repair placement_for shares_storage needs_host_staging"
  have inv: "device_inv (length (nodes g)) konst compute ([], []) g" using gi law by (simp add: device_inv_def)
  obtain acc g' where s: "splice ?rep (\<lambda>c n. placement_for c = None \<or> is_transfer (node_op n)) ([], []) roots g = (Ok acc, g')"
      "graph_inv g'" "length (nodes g) \<le> length (nodes g')"
      "\<And>i. i < length (nodes g) \<Longrightarrow> val (op_sem konst compute) g' i = val (op_sem konst compute) g i"
      "\<And>i. i < length (nodes g) \<Longrightarrow> view_of g' i = view_of g i"
      "\<And>c. c \<in> (edges (nodes g))\<^sup>* `` set roots \<Longrightarrow> \<not> (placement_for c = None \<or> is_transfer (node_op (nodes g ! c))) \<Longrightarrow>
        list_all2 (device_fine placement_for shares_storage g' c) (inputs (nodes g ! c)) (inputs (nodes g' ! c))"
    by (rule devices.splice_sound [OF inv refl roots, of placement_for shares_storage needs_host_staging]) (rule that)
  have "insert_cross_device_copies placement_for shares_storage needs_host_staging roots g = (Ok (snd acc), g')"
    using s(1) by (simp add: insert_cross_device_copies_def act_bind_def act_ret_def)
  moreover have "list_all2 (\<lambda>i j. j = i \<and> (\<forall>pi. placement_for i = Some pi \<longrightarrow> shares_storage pi pc) \<or> map_of (placements g') j = Some pc)
      (inputs (nodes g ! c)) (inputs (nodes g' ! c))"
    if "c \<in> (edges (nodes g))\<^sup>* `` set roots" "placement_for c = Some pc" "\<not> is_transfer (node_op (nodes g ! c))" for c pc
    by (rule list_all2_mono [OF s(6) [OF that(1)]]) (use that(2,3) in \<open>auto simp: device_fine_def\<close>)
  ultimately show ?thesis using s(2,5) same_values [OF gi s(2-4)] by blast
qed

definition hosted :: "node_id \<Rightarrow> device_location option" where
  "hosted i = (if i < 2 then Some Dev_Cpu else map_of (placements placed) i)"

theorem cross_device_copies_colocate_witness:
  "\<exists>new g'. insert_cross_device_copies hosted (=) (\<lambda>_ _. False) [2, 3, 4] placed = (Ok new, g') \<and>
     (\<exists>j. inputs (nodes g' ! 2) = [j] \<and> map_of (placements g') j = Some (Dev_Cuda 0))"
proof -
  have "\<forall>d. passes_on sample_compute (Memory (Op_Copy d))" "set [2, 3, 4] \<subseteq> {..<length (nodes placed)}"
    by (simp_all add: placed_def sample_copies(2))
  from cross_device_copies_colocate [OF placed_inv(1) this, of hosted "(=)" "\<lambda>_ _. False" sample_const]
  obtain new g' where r: "insert_cross_device_copies hosted (=) (\<lambda>_ _. False) [2, 3, 4] placed = (Ok new, g')"
    and c: "\<forall>c \<in> (edges (nodes placed))\<^sup>* `` set [2, 3, 4]. \<forall>pc. hosted c = Some pc \<longrightarrow> \<not> is_transfer (node_op (nodes placed ! c)) \<longrightarrow>
       list_all2 (\<lambda>i j. j = i \<and> (\<forall>pi. hosted i = Some pi \<longrightarrow> pi = pc) \<or> map_of (placements g') j = Some pc)
         (inputs (nodes placed ! c)) (inputs (nodes g' ! c))"
    by (elim exE conjE)
  have v: "2 \<in> (edges (nodes placed))\<^sup>* `` set [2, 3, 4]" "hosted 2 = Some (Dev_Cuda 0)" "\<not> is_transfer (node_op (nodes placed ! 2))"
    "inputs (nodes placed ! 2) = [0]" "hosted 0 = Some Dev_Cpu"
    by (auto simp: hosted_def placed_def is_transfer_def unary_def)
  from c [rule_format, OF v(1-3)] have "\<exists>j. inputs (nodes g' ! 2) = [j] \<and> map_of (placements g') j = Some (Dev_Cuda 0)"
    unfolding v(4) by (auto simp: list_all2_Cons1 v(5))
  then show ?thesis using r by blast
qed

end
