(* ===== verification/GraphSafety.thy ===== *)
theory GraphSafety
  imports GraphAlias GraphSplice
begin

text \<open>
  Snapshots before destructive operations (\<open>fuel-graph/src/opt.rs\<close>, \<open>insert_safety_copies\<close>): a reader of a
  tensor that an operation overwrites, when nothing orders it before that operation, is redirected to a
  copy. No value changes, and on graphs whose overwritten tensors are not aliased and are overwritten by
  one operation each, an execution plan exists afterwards.
\<close>

section \<open>The pass\<close>

fun default_location :: "backend_id \<Rightarrow> device_location" where
  "default_location Backend_Cpu = Dev_Cpu"
| "default_location Backend_Cuda = Dev_Cuda 0"
| "default_location Backend_Vulkan = Dev_Vulkan 0"
| "default_location Backend_Metal = Dev_Metal 0"

definition or_else :: "'a option \<Rightarrow> 'a option \<Rightarrow> 'a option" where
  "or_else a b = (case a of Some x \<Rightarrow> Some x | None \<Rightarrow> b)"

text \<open>Depth-first search over an adjacency whose lists hold nodes of \<open>U\<close>; the start is not seen at first.\<close>

fun visit_new :: "node_id list \<Rightarrow> node_id list \<Rightarrow> node_id list \<Rightarrow> node_id list \<times> node_id list" where
  "visit_new [] st seen = (st, seen)"
| "visit_new (m # ms) st seen = (if m \<in> set seen then visit_new ms st seen else visit_new ms (m # st) (m # seen))"

lemma visit_new_spec:
  "visit_new ms st seen = (st', seen') \<Longrightarrow> set seen' = set seen \<union> set ms \<and> set st' = set st \<union> (set ms - set seen) \<and>
     length st' + length seen = length st + length seen' \<and> (distinct seen \<longrightarrow> distinct seen')"
proof (induction ms arbitrary: st seen)
  case (Cons m ms)
  show ?case
  proof (cases "m \<in> set seen")
    case True
    then show ?thesis using Cons by auto
  next
    case False
    then have v: "visit_new ms (m # st) (m # seen) = (st', seen')" using Cons.prems by simp
    show ?thesis using Cons.IH [OF v] False by auto
  qed
qed simp

lemma visit_new_work:
  "visit_new ms st seen = (st', seen') \<Longrightarrow> set ms \<subseteq> U \<Longrightarrow> finite U \<Longrightarrow>
   2 * card (U - set seen') + length st' \<le> 2 * card (U - set seen) + length st"
proof (induction ms arbitrary: st seen)
  case (Cons m ms)
  show ?case
  proof (cases "m \<in> set seen")
    case True
    then show ?thesis using Cons by simp
  next
    case False
    then have v: "visit_new ms (m # st) (m # seen) = (st', seen')" using Cons.prems(1) by simp
    have "U - set (m # seen) = U - set seen - {m}" by auto
    moreover have "Suc (card (U - set seen - {m})) = card (U - set seen)"
      by (rule card_Suc_Diff1) (use False Cons.prems(2,3) in auto)
    ultimately show ?thesis using Cons.IH [OF v] Cons.prems(2,3) by simp
  qed
qed simp

function reach_loop :: "node_id list \<Rightarrow> (node_id \<Rightarrow> node_id list) \<Rightarrow> node_id list \<Rightarrow> node_id list \<Rightarrow> node_id list" where
  "reach_loop U adj [] seen = seen"
| "reach_loop U adj (n # st) seen = (case visit_new (filter (\<lambda>m. m \<in> set U) (adj n)) st seen of
     (st', seen') \<Rightarrow> reach_loop U adj st' seen')"
  by pat_completeness auto

termination
proof (relation "measure (\<lambda>(U, adj, st, seen). 2 * card (set U - set seen) + length st)", goal_cases)
  case (2 U adj n st seen st' seen')
  have "visit_new (filter (\<lambda>m. m \<in> set U) (adj n)) st seen = (st', seen')" using 2 by simp
  from visit_new_work [OF this, of "set U"] show ?case by (auto simp: less_Suc_eq_le)
qed simp

definition reach :: "node_id list \<Rightarrow> (node_id \<Rightarrow> node_id list) \<Rightarrow> node_id \<Rightarrow> node_id list" where
  "reach U adj start = reach_loop U adj [start] []"

record conflict =
  destructive_nid :: node_id
  conflict_target :: node_id
  target_shape :: shape
  target_dtype :: dtype
  conflicting_readers :: "node_id list"

definition find_conflict :: "(fused_op_id \<Rightarrow> nat option) \<Rightarrow> 'f node list \<Rightarrow> node_id list \<Rightarrow> (node_id \<Rightarrow> node_id list) \<Rightarrow> node_id \<Rightarrow>
    conflict list" where
  "find_conflict reg ns order preds i = (case destroyed_by reg (ns ! i) of
     None \<Rightarrow> []
   | Some x \<Rightarrow>
       if x \<in> set order \<and> \<not> list_ex (\<lambda>r. r \<noteq> i) (successors preds order x) then []
       else (let forced_before = reach order preds i; forced_after = reach order (successors preds order) i;
                 readers = filter (\<lambda>r. r \<noteq> i \<and> x \<in> set (inputs (ns ! r)) \<and>
                   \<not> (r \<in> set forced_before \<and> r \<notin> set forced_after)) order
             in if readers = [] then []
                else [\<lparr>destructive_nid = i, conflict_target = x, target_shape = node_shape (ns ! x),
                       target_dtype = node_dtype (ns ! x), conflicting_readers = readers\<rparr>]))"

definition safety_location :: "('f, 's) graph \<Rightarrow> conflict \<Rightarrow> device_location" where
  "safety_location g c = (let t = conflict_target c; d = destructive_nid c in
     case or_else (or_else (map_of (placements g) t) (map_of (placements g) d))
       (map_option default_location (or_else (map_of (target_backends g) t) (map_of (target_backends g) d))) of
       Some l \<Rightarrow> l | None \<Rightarrow> Dev_Cpu)"

definition snapshot :: "conflict \<Rightarrow> ('f, 's, unit) graph_act" where
  "snapshot c = act_bind (act_get (\<lambda>g. safety_location g c)) (\<lambda>l.
     act_bind (push \<lparr>node_op = Memory (Op_Copy l), inputs = [conflict_target c], node_shape = target_shape c,
       node_dtype = target_dtype c\<rparr>) (\<lambda>copy.
     act_bind (act_get (\<lambda>g. or_else (map_of (target_backends g) (conflict_target c)) (map_of (target_backends g) (destructive_nid c)))) (\<lambda>b.
     act_bind (case b of Some be \<Rightarrow> set_target_backend copy be | None \<Rightarrow> act_ret ()) (\<lambda>_.
     apply_rewires (map (\<lambda>r. (r, conflict_target c, copy)) (conflicting_readers c))))))"

definition insert_safety_copies :: "(fused_op_id \<Rightarrow> nat option) \<Rightarrow> node_id list \<Rightarrow> ('f, 's, nat) graph_act" where
  "insert_safety_copies reg roots = act_bind (act_get (\<lambda>g. topo_order_multi g roots)) (\<lambda>order.
     act_bind (act_result order) (\<lambda>order.
     act_bind (act_get (\<lambda>g. derive_ordering reg g roots)) (\<lambda>e.
     act_bind (act_result e) (\<lambda>e.
     act_bind (act_get nodes) (\<lambda>ns.
       let cs = concat (map (find_conflict reg ns order (predecessors ns order e)) order) in
       act_bind (act_fold (\<lambda>_ c. snapshot c) () cs) (\<lambda>_. act_ret (length cs)))))))"

section \<open>The search\<close>

definition steps_in :: "node_id list \<Rightarrow> (node_id \<Rightarrow> node_id list) \<Rightarrow> (node_id \<times> node_id) set" where
  "steps_in U adj = {(a, b). b \<in> set (adj a) \<and> b \<in> set U}"

lemma reach_loop_sound:
  "set seen \<subseteq> (steps_in U adj)\<^sup>+ `` {s} \<Longrightarrow> set st \<subseteq> insert s ((steps_in U adj)\<^sup>+ `` {s}) \<Longrightarrow>
   set (reach_loop U adj st seen) \<subseteq> (steps_in U adj)\<^sup>+ `` {s}"
proof (induction U adj st seen rule: reach_loop.induct)
  case (2 U adj n st seen)
  obtain st' seen' where v: "visit_new (filter (\<lambda>m. m \<in> set U) (adj n)) st seen = (st', seen')" by fastforce
  note sp = visit_new_spec [OF v]
  have "m \<in> (steps_in U adj)\<^sup>+ `` {s}" if "m \<in> set (filter (\<lambda>m. m \<in> set U) (adj n))" for m
  proof -
    have e: "(n, m) \<in> steps_in U adj" using that by (simp add: steps_in_def)
    have "n = s \<or> (s, n) \<in> (steps_in U adj)\<^sup>+" using 2(3) by auto
    then show ?thesis using e by (auto intro: trancl_into_trancl)
  qed
  then have "set seen' \<subseteq> (steps_in U adj)\<^sup>+ `` {s}" "set st' \<subseteq> insert s ((steps_in U adj)\<^sup>+ `` {s})" using sp 2(2,3) by auto
  then show ?case using 2(1) [OF v [symmetric]] v by simp
qed simp

lemma reach_loop_closed:
  "(\<And>x. x \<in> insert s (set seen) \<Longrightarrow> x \<notin> set st \<Longrightarrow> steps_in U adj `` {x} \<subseteq> set seen) \<Longrightarrow>
   set seen \<subseteq> set (reach_loop U adj st seen) \<and>
   (\<forall>x \<in> insert s (set (reach_loop U adj st seen)). steps_in U adj `` {x} \<subseteq> set (reach_loop U adj st seen))"
proof (induction U adj st seen rule: reach_loop.induct)
  case (1 U adj seen)
  then show ?case by simp
next
  case (2 U adj n st seen)
  obtain st' seen' where v: "visit_new (filter (\<lambda>m. m \<in> set U) (adj n)) st seen = (st', seen')" by fastforce
  note sp = visit_new_spec [OF v]
  have n: "steps_in U adj `` {n} \<subseteq> set seen'" using sp by (auto simp: steps_in_def)
  have "steps_in U adj `` {x} \<subseteq> set seen'" if x: "x \<in> insert s (set seen')" "x \<notin> set st'" for x
  proof (cases "x = n")
    case False
    then have "x \<in> insert s (set seen)" "x \<notin> set (n # st)" using x sp by auto
    then show ?thesis using 2(2) sp by blast
  qed (use n in simp)
  from 2(1) [OF v [symmetric] this] show ?case using v sp by auto
qed

lemma set_reach: "set (reach U adj s) = (steps_in U adj)\<^sup>+ `` {s}"
proof
  show "set (reach U adj s) \<subseteq> (steps_in U adj)\<^sup>+ `` {s}" unfolding reach_def by (rule reach_loop_sound) auto
  have cl: "\<forall>x \<in> insert s (set (reach U adj s)). steps_in U adj `` {x} \<subseteq> set (reach U adj s)"
    unfolding reach_def using reach_loop_closed [of s "[]" "[s]" U adj] by simp
  have "m \<in> set (reach U adj s)" if "(s, m) \<in> (steps_in U adj)\<^sup>+" for m
    using that by (induction rule: trancl_induct) (use cl in blast)+
  then show "(steps_in U adj)\<^sup>+ `` {s} \<subseteq> set (reach U adj s)" by blast
qed

section \<open>One snapshot\<close>

text \<open>The redirections of the conflicts, the snapshot of the first being node \<open>b\<close>.\<close>

fun safety_rewires :: "nat \<Rightarrow> conflict list \<Rightarrow> rewires" where
  "safety_rewires b [] = []"
| "safety_rewires b (c # cs) = map (\<lambda>r. (r, conflict_target c, b)) (conflicting_readers c) @ safety_rewires (Suc b) cs"

lemma safety_rewires_append:
  "safety_rewires b (cs @ [c]) = safety_rewires b cs @ map (\<lambda>r. (r, conflict_target c, b + length cs)) (conflicting_readers c)"
  by (induction cs arbitrary: b) simp_all

lemma in_safety_rewires:
  "(r, x, y) \<in> set (safety_rewires b cs) \<longleftrightarrow> (\<exists>k < length cs. y = b + k \<and> x = conflict_target (cs ! k) \<and> r \<in> set (conflicting_readers (cs ! k)))"
proof (induction cs arbitrary: b)
  case (Cons c cs)
  have "(r, x, y) \<in> set (safety_rewires b (c # cs)) \<longleftrightarrow> y = b \<and> x = conflict_target c \<and> r \<in> set (conflicting_readers c) \<or>
      (r, x, y) \<in> set (safety_rewires (Suc b) cs)" by auto
  also have "\<dots> \<longleftrightarrow> (\<exists>k < length (c # cs). y = b + k \<and> x = conflict_target ((c # cs) ! k) \<and> r \<in> set (conflicting_readers ((c # cs) ! k)))"
    unfolding Cons by (simp add: Ex_less_Suc2)
  finally show ?case .
qed simp

lemma rewired_append:
  assumes "\<forall>(c, a, b) \<in> set rs. c < base \<and> a < base \<and> base \<le> b" and "\<forall>(c, a, b) \<in> set rs'. a < base" 
  shows "rewired (rs @ rs') c i = rewired rs' c (rewired rs c i)"
  using assms(1)
proof (induction rs)
  case (Cons r rs)
  obtain c' a b where r: "r = (c', a, b)" by (cases r)
  have "rewired rs' c b = b" by (rule rewired_new) (use Cons.prems assms(2) r in fastforce)
  then show ?case using Cons by (simp add: r)
qed simp

definition conflict_ok :: "('f, 's) graph \<Rightarrow> conflict \<Rightarrow> bool" where
  "conflict_ok g c \<longleftrightarrow> conflict_target c < length (nodes g) \<and> branch_target (nodes g ! conflict_target c) = None \<and>
     set (conflicting_readers c) \<subseteq> {..<length (nodes g)}"

definition snapshotted :: "(('f, 's) node_view \<Rightarrow> 'v list \<Rightarrow> 'v) \<Rightarrow> ('f, 's) graph \<Rightarrow> conflict list \<Rightarrow> ('f, 's) graph \<Rightarrow> bool" where
  "snapshotted sem g cs h \<longleftrightarrow> graph_inv h \<and> length (nodes h) = length (nodes g) + length cs \<and>
     (\<forall>i < length (nodes g). node_op (nodes h ! i) = node_op (nodes g ! i) \<and> val sem h i = val sem g i \<and>
        inputs (nodes h ! i) = map (rewired (safety_rewires (length (nodes g)) cs) i) (inputs (nodes g ! i))) \<and>
     (\<forall>k < length cs. inputs (nodes h ! (length (nodes g) + k)) = [conflict_target (cs ! k)] \<and>
        (\<exists>l. node_op (nodes h ! (length (nodes g) + k)) = Memory (Op_Copy l)))"

lemma rewires_node_op:
  "node_op (nodes (fold (\<lambda>(c, a, b). rewire c a b) rs g) ! i) = node_op (nodes g ! i)"
proof (induction rs arbitrary: g)
  case (Cons r rs)
  obtain c a b where r: "r = (c, a, b)" by (cases r)
  have "node_op (nodes (rewire c a b g) ! i) = node_op (nodes g ! i)"
    by (cases "i = c"; cases "c < length (nodes g)") (simp_all add: rewire_def list_update_beyond)
  then show ?case using Cons by (simp add: r)
qed simp

text \<open>What one snapshot does to the graph.\<close>

lemma wp_snapshot_step:
  fixes konst compute
  defines "sem \<equiv> op_sem konst compute"
  assumes gi: "graph_inv h" and base: "base \<le> length (nodes h)" and law: "\<forall>d. passes_on compute (Memory (Op_Copy d))"
    and t: "conflict_target c < base" "branch_target (nodes h ! conflict_target c) = None" and rs: "set (conflicting_readers c) \<subseteq> {..<base}"
  shows "act_wp (snapshot c) (\<lambda>_ h'. graph_inv h' \<and> length (nodes h') = Suc (length (nodes h)) \<and>
      inputs (nodes h' ! length (nodes h)) = [conflict_target c] \<and> (\<exists>l. node_op (nodes h' ! length (nodes h)) = Memory (Op_Copy l)) \<and>
      (\<forall>i < length (nodes h). node_op (nodes h' ! i) = node_op (nodes h ! i) \<and> val sem h' i = val sem h i \<and>
        inputs (nodes h' ! i) = map (rewired (map (\<lambda>r. (r, conflict_target c, length (nodes h))) (conflicting_readers c)) i) (inputs (nodes h ! i))))
      (\<lambda>_ _. False) h"
proof -
  let ?x = "conflict_target c" and ?n = "length (nodes h)"
  let ?rs = "map (\<lambda>r. (r, ?x, ?n)) (conflicting_readers c)"
  define f where "f = (\<lambda>h :: ('a, 'b) graph. fold (\<lambda>(c, a, b). rewire c a b) ?rs h)"
  define Q where "Q = (\<lambda>h'. graph_inv h' \<and> length (nodes h') = Suc ?n \<and>
      inputs (nodes h' ! ?n) = [?x] \<and> (\<exists>l. node_op (nodes h' ! ?n) = Memory (Op_Copy l)) \<and>
      (\<forall>i < ?n. node_op (nodes h' ! i) = node_op (nodes h ! i) \<and> val sem h' i = val sem h i \<and>
        inputs (nodes h' ! i) = map (rewired ?rs i) (inputs (nodes h ! i))))"
  have fin: "apply_rewires ?rs h2 = (Ok (), f h2) \<and> Q (f h2)"
    if g1: "graph_inv h2" and ns: "nodes h2 = nodes h @ [\<lparr>node_op = Memory (Op_Copy l), inputs = [?x], node_shape = sh, node_dtype = dt\<rparr>]"
      and tw: "twin sem base h2 ?x ?n" and v: "\<And>i. i < ?n \<Longrightarrow> val sem h2 i = val sem h i" for h2 l sh dt
  proof -
    have bl: "base \<le> length (nodes h2)" using base ns by simp
    have ok: "rewires_ok sem base h2 ?rs" using rs tw by (auto simp: rewires_ok_def)
    note a = apply_rewires_Ok [OF g1 bl ok]
    have r: "\<forall>(c, a, b) \<in> set ?rs. c < base \<and> a < base \<and> base \<le> b" using rs t base by auto
    have ins: "inputs (nodes (f h2) ! i) = map (rewired ?rs i) (inputs (nodes h2 ! i))" if "i < Suc ?n" for i
      unfolding f_def by (rule rewired_inputs [OF r bl]) (use that ns in simp)
    have "rewired ?rs ?n ?x = ?x" using rewired_cases [of ?rs ?n ?x] rs base by auto
    then have "inputs (nodes (f h2) ! ?n) = [?x]" using ins [of ?n] ns by simp
    moreover have "inputs (nodes (f h2) ! i) = map (rewired ?rs i) (inputs (nodes h ! i))" if "i < ?n" for i
      using ins [of i] that ns by (simp add: nth_append)
    moreover have "node_op (nodes (f h2) ! i) = node_op (nodes h2 ! i)" for i by (simp add: f_def rewires_node_op)
    ultimately show ?thesis using a ns v unfolding Q_def f_def [symmetric] by (simp add: nth_append)
  qed
  have src: "source (op_sem konst compute) base h ?x ?x" using t by (simp add: source_def)
  show ?thesis unfolding snapshot_def wp_bind wp_get Q_def [symmetric]
  proof (rule wp_push_twin [OF gi base src])
    fix h1 let ?nd = "\<lparr>node_op = Memory (Op_Copy (safety_location h c)), inputs = [?x], node_shape = target_shape c, node_dtype = target_dtype c\<rparr>"
    assume pd: "pushed ?nd h h1" and geq: "h1 = h\<lparr>nodes := nodes h @ [?nd]\<rparr>" and tw: "twin (op_sem konst compute) base h1 ?x ?n"
    have g1: "graph_inv h1" and ex: "extends h h1" using pd by (simp_all add: pushed_def)
    have v: "val sem h1 i = val sem h i" if "i < ?n" for i by (rule val_extends [OF gi g1 ex that])
    note fin1 = fin [OF g1 _ tw [folded sem_def] v]
    show "act_wp (case or_else (map_of (target_backends h1) ?x) (map_of (target_backends h1) (destructive_nid c)) of
        None \<Rightarrow> act_ret () | Some be \<Rightarrow> set_target_backend ?n be) (\<lambda>_. act_wp (apply_rewires ?rs) (\<lambda>_. Q) (\<lambda>_ _. False)) (\<lambda>_ _. False) h1"
    proof (cases "or_else (map_of (target_backends h1) ?x) (map_of (target_backends h1) (destructive_nid c))")
      case None
      then show ?thesis using fin1 geq by (simp add: act_wp_def act_ret_def)
    next
      case (Some be)
      define h2 where "h2 = h1\<lparr>target_backends := AList.update ?n be (target_backends h1)\<rparr>"
      have nl: "?n < length (nodes h1)" "node_op (nodes h1 ! ?n) \<noteq> Op_Const" using geq by simp_all
      note b = backed_val(1) [OF g1 nl h2_def] backed_val(2) [OF g1 nl h2_def, of konst compute, folded sem_def]
      have st: "set_target_backend ?n be h1 = (Ok (), h2)"
        using nl by (simp add: set_target_backend_def checked_def act_bind_def act_get_def act_set_def h2_def)
      have tw2: "twin sem base h2 ?x ?n" using tw b(2) by (simp add: twin_def sem_def h2_def)
      have v2: "val sem h2 i = val sem h i" if "i < ?n" for i using v that b(2) by simp
      have "nodes h2 = nodes h @ [?nd]" using geq by (simp add: h2_def)
      from fin [OF b(1) this tw2 v2] show ?thesis using Some st by (simp add: act_wp_def)
    qed
  qed (use law in simp)
qed

lemma wp_snapshot:
  assumes sn: "snapshotted (op_sem konst compute) g cs h" and law: "\<forall>d. passes_on compute (Memory (Op_Copy d))"
    and cs: "list_all (conflict_ok g) cs" and c: "conflict_ok g c"
  shows "act_wp (snapshot c) (\<lambda>_ h'. snapshotted (op_sem konst compute) g (cs @ [c]) h') (\<lambda>_ _. False) h"
proof -
  let ?n = "length (nodes g)" and ?x = "conflict_target c"
  let ?new = "map (\<lambda>r. (r, ?x, length (nodes h))) (conflicting_readers c)"
  have gi: "graph_inv h" and len: "length (nodes h) = ?n + length cs" using sn by (simp_all add: snapshotted_def)
  have t: "?x < ?n" "branch_target (nodes h ! ?x) = None" and rs: "set (conflicting_readers c) \<subseteq> {..<?n}"
    using c sn by (auto simp: conflict_ok_def snapshotted_def branch_target_def)
  have old: "\<forall>(c, a, b) \<in> set (safety_rewires ?n cs). c < ?n \<and> a < ?n \<and> ?n \<le> b"
    using cs by (auto simp: in_safety_rewires list_all_length conflict_ok_def subset_iff)
  have app: "rewired (safety_rewires ?n (cs @ [c])) i = rewired ?new i \<circ> rewired (safety_rewires ?n cs) i" for i
    using rewired_append [OF old, of ?new i] t(1) by (auto simp: safety_rewires_append len)
  have keep: "map (rewired ?new i) js = js" if "?n \<le> i" for i js
  proof (rule map_idI)
    fix j
    show "rewired ?new i j = j" using rewired_cases [of ?new i j] rs that by auto
  qed
  show ?thesis
  proof (rule wp_mono [OF wp_snapshot_step [OF gi _ law t rs]])
    fix h' assume a: "graph_inv h' \<and> length (nodes h') = Suc (length (nodes h)) \<and>
      inputs (nodes h' ! length (nodes h)) = [?x] \<and> (\<exists>l. node_op (nodes h' ! length (nodes h)) = Memory (Op_Copy l)) \<and>
      (\<forall>i < length (nodes h). node_op (nodes h' ! i) = node_op (nodes h ! i) \<and>
        val (op_sem konst compute) h' i = val (op_sem konst compute) h i \<and>
        inputs (nodes h' ! i) = map (rewired ?new i) (inputs (nodes h ! i)))"
    then have st: "node_op (nodes h' ! i) = node_op (nodes h ! i)" "val (op_sem konst compute) h' i = val (op_sem konst compute) h i"
      "inputs (nodes h' ! i) = map (rewired ?new i) (inputs (nodes h ! i))" if "i < length (nodes h)" for i using that by blast+
    show "snapshotted (op_sem konst compute) g (cs @ [c]) h'"
      unfolding snapshotted_def
    proof (intro conjI allI impI)
      fix i assume i: "i < ?n"
      then have ih: "i < length (nodes h)" using len by simp
      show "node_op (nodes h' ! i) = node_op (nodes g ! i)" "val (op_sem konst compute) h' i = val (op_sem konst compute) g i"
        using st [OF ih] sn i by (simp_all add: snapshotted_def)
      show "inputs (nodes h' ! i) = map (rewired (safety_rewires ?n (cs @ [c])) i) (inputs (nodes g ! i))"
        using st(3) [OF ih] sn i by (simp add: snapshotted_def app)
    next
      fix k assume "k < length (cs @ [c])"
      then consider "k < length cs" | "k = length cs" by force
      then have "inputs (nodes h' ! (?n + k)) = [conflict_target ((cs @ [c]) ! k)] \<and> (\<exists>l. node_op (nodes h' ! (?n + k)) = Memory (Op_Copy l))"
      proof cases
        case 1
        then have "inputs (nodes h ! (?n + k)) = [conflict_target (cs ! k)] \<and> (\<exists>l. node_op (nodes h ! (?n + k)) = Memory (Op_Copy l))"
          using sn unfolding snapshotted_def by blast
        moreover have "?n + k < length (nodes h)" using 1 len by simp
        ultimately show ?thesis using 1 st(1) [of "?n + k"] st(3) [of "?n + k"] keep [of "?n + k"] by (simp only: nth_append if_True le_add1)
      next
        case 2
        have "inputs (nodes h' ! (?n + k)) = [?x]" "\<exists>l. node_op (nodes h' ! (?n + k)) = Memory (Op_Copy l)"
          using a unfolding 2 len by blast+
        then show ?thesis using 2 by simp
      qed
      then show "inputs (nodes h' ! (?n + k)) = [conflict_target ((cs @ [c]) ! k)]"
        and "\<exists>l. node_op (nodes h' ! (?n + k)) = Memory (Op_Copy l)" by blast+
    qed (use a len in simp_all)
  qed (use len in simp_all)
qed

section \<open>The whole pass\<close>

text \<open>The conflicts the pass finds, with the precedence it searches.\<close>

lemma successors_set: "set (successors preds order i) = {k \<in> set order. i \<in> set (preds k)}"
  by (auto simp: successors_def)

definition found :: "(fused_op_id \<Rightarrow> nat option) \<Rightarrow> 'f node list \<Rightarrow> node_id set \<Rightarrow> node_id \<Rightarrow> node_id \<Rightarrow> node_id set" where
  "found reg ns V d x = {r \<in> V. r \<noteq> d \<and> x \<in> set (inputs (ns ! r)) \<and>
     \<not> ((d, r) \<in> (waits reg ns V)\<^sup>+ \<and> (r, d) \<notin> (waits reg ns V)\<^sup>+)}"

lemma find_conflict_spec:
  assumes d: "destroyed_by reg (ns ! d) = Some x" and dV: "d \<in> set order" and closed: "\<And>r. r \<in> set order \<Longrightarrow> set (inputs (ns ! r)) \<subseteq> set order"
    and preds: "\<And>i. i \<in> set order \<Longrightarrow> set (preds i) = waits_for reg ns (set order) i"
  shows "if found reg ns (set order) d x = {} then find_conflict reg ns order preds d = []
    else \<exists>c. find_conflict reg ns order preds d = [c] \<and> destructive_nid c = d \<and> conflict_target c = x \<and>
      set (conflicting_readers c) = found reg ns (set order) d x"
proof -
  let ?W = "waits reg ns (set order)"
  have in_V: "set (preds i) \<subseteq> set order" if "i \<in> set order" for i
    using that closed preds pins_in [of reg ns "set order" i] by (auto simp: waits_for_def)
  have p: "r \<in> set (reach order preds d) \<longleftrightarrow> (d, r) \<in> ?W\<^sup>+" for r
  proof -
    have "(d, r) \<in> (steps_in order preds)\<^sup>+ \<longleftrightarrow> (d, r) \<in> ?W\<^sup>+"
    proof
      assume "(d, r) \<in> (steps_in order preds)\<^sup>+"
      then show "(d, r) \<in> ?W\<^sup>+"
      proof (induction rule: trancl_induct)
        case (base y)
        then show ?case using preds dV by (auto simp: steps_in_def waits_def)
      next
        case (step y z)
        have "y \<in> set order" using step(1) by (induction rule: trancl_induct) (auto simp: steps_in_def)
        then have "(y, z) \<in> ?W" using step(2) preds by (auto simp: steps_in_def waits_def)
        then show ?case using step(3) by (rule trancl_into_trancl [rotated])
      qed
    next
      have "?W \<subseteq> steps_in order preds" using preds in_V by (auto simp: waits_def steps_in_def)
      then show "(d, r) \<in> ?W\<^sup>+ \<Longrightarrow> (d, r) \<in> (steps_in order preds)\<^sup>+" by (rule trancl_mono [rotated])
    qed
    then show ?thesis by (simp add: set_reach)
  qed
  have "steps_in order (successors preds order) = ?W\<inverse>"
    using preds by (auto simp: steps_in_def waits_def successors_set)
  then have s: "r \<in> set (reach order (successors preds order) d) \<longleftrightarrow> (r, d) \<in> ?W\<^sup>+" for r
    by (simp add: set_reach trancl_converse)
  let ?rs = "filter (\<lambda>r. r \<noteq> d \<and> x \<in> set (inputs (ns ! r)) \<and>
    \<not> (r \<in> set (reach order preds d) \<and> r \<notin> set (reach order (successors preds order) d))) order"
  have rs: "set ?rs = found reg ns (set order) d x" using p s by (auto simp: found_def)
  have none: "found reg ns (set order) d x = {}" if "\<not> list_ex (\<lambda>r. r \<noteq> d) (successors preds order x)"
    using that preds by (auto simp: list_ex_iff successors_set found_def waits_for_def)
  have fc: "find_conflict reg ns order preds d = (if x \<in> set order \<and> \<not> list_ex (\<lambda>r. r \<noteq> d) (successors preds order x) \<or> ?rs = [] then []
      else [\<lparr>destructive_nid = d, conflict_target = x, target_shape = node_shape (ns ! x),
             target_dtype = node_dtype (ns ! x), conflicting_readers = ?rs\<rparr>])"
    using d by (simp only: find_conflict_def option.case Let_def) simp
  have emp: "x \<in> set order \<and> \<not> list_ex (\<lambda>r. r \<noteq> d) (successors preds order x) \<or> ?rs = [] \<longleftrightarrow> found reg ns (set order) d x = {}"
    using none unfolding rs [symmetric] set_empty by blast
  show ?thesis unfolding fc emp using rs by (simp only: if_True if_False split: if_split) simp
qed

lemma find_conflict_none: "destroyed_by reg (ns ! d) = None \<Longrightarrow> find_conflict reg ns order preds d = []"
  by (simp add: find_conflict_def)

text \<open>The conflicts of the pass: one for every destructive operation with an unordered reader.\<close>

definition conflicts_of :: "(fused_op_id \<Rightarrow> nat option) \<Rightarrow> 'f node list \<Rightarrow> node_id set \<Rightarrow> conflict list \<Rightarrow> bool" where
  "conflicts_of reg ns V cs \<longleftrightarrow>
     (\<forall>c \<in> set cs. destructive_nid c \<in> V \<and> destroyed_by reg (ns ! destructive_nid c) = Some (conflict_target c) \<and>
        set (conflicting_readers c) = found reg ns V (destructive_nid c) (conflict_target c)) \<and>
     (\<forall>d \<in> V. \<forall>x. destroyed_by reg (ns ! d) = Some x \<longrightarrow> found reg ns V d x \<noteq> {} \<longrightarrow>
        (\<exists>c \<in> set cs. destructive_nid c = d \<and> conflict_target c = x))"

lemma find_conflicts:
  assumes closed: "\<And>r. r \<in> set order \<Longrightarrow> set (inputs (ns ! r)) \<subseteq> set order"
    and preds: "\<And>i. i \<in> set order \<Longrightarrow> set (preds i) = waits_for reg ns (set order) i"
  shows "conflicts_of reg ns (set order) (concat (map (find_conflict reg ns order preds) order))"
proof -
  note sp = find_conflict_spec [OF _ _ closed preds]
  have one: "destructive_nid c = d \<and> destroyed_by reg (ns ! d) = Some (conflict_target c) \<and>
      set (conflicting_readers c) = found reg ns (set order) d (conflict_target c)"
    if "d \<in> set order" "c \<in> set (find_conflict reg ns order preds d)" for d c
  proof (cases "destroyed_by reg (ns ! d)")
    case (Some x)
    then show ?thesis using sp [OF Some that(1)] that(2) by (auto split: if_splits)
  next
    case None
    then show ?thesis using that(2) by (simp add: find_conflict_none)
  qed
  have all: "\<exists>c \<in> set (find_conflict reg ns order preds d). destructive_nid c = d \<and> conflict_target c = x"
    if "d \<in> set order" "destroyed_by reg (ns ! d) = Some x" "found reg ns (set order) d x \<noteq> {}" for d x
    using sp [OF that(2,1)] that(3) by auto
  show ?thesis unfolding conflicts_of_def
  proof (intro conjI ballI allI impI)
    fix c assume "c \<in> set (concat (map (find_conflict reg ns order preds) order))"
    then obtain d where "d \<in> set order" "c \<in> set (find_conflict reg ns order preds d)" by auto
    from one [OF this] this(1)
    show "destructive_nid c \<in> set order" "destroyed_by reg (ns ! destructive_nid c) = Some (conflict_target c)"
      "set (conflicting_readers c) = found reg ns (set order) (destructive_nid c) (conflict_target c)" by auto
  next
    fix d x assume d: "d \<in> set order" "destroyed_by reg (ns ! d) = Some x" "found reg ns (set order) d x \<noteq> {}"
    from all [OF this] d(1) show "\<exists>c \<in> set (concat (map (find_conflict reg ns order preds) order)). destructive_nid c = d \<and> conflict_target c = x"
      by auto
  qed
qed

lemma snapshotted_start: "graph_inv g \<Longrightarrow> snapshotted sem g [] g"
  by (simp add: snapshotted_def map_idI)

lemma wp_snapshots:
  assumes law: "\<forall>d. passes_on compute (Memory (Op_Copy d))"
  shows "snapshotted (op_sem konst compute) g pre h \<Longrightarrow> list_all (conflict_ok g) (pre @ cs) \<Longrightarrow>
    act_wp (act_fold (\<lambda>_ c. snapshot c) () cs) (\<lambda>_ h'. snapshotted (op_sem konst compute) g (pre @ cs) h') (\<lambda>_ _. False) h"
proof (induction cs arbitrary: pre h)
  case Nil
  then show ?case by (simp add: wp_simps)
next
  case (Cons c cs)
  have "act_wp (snapshot c) (\<lambda>_ h'. snapshotted (op_sem konst compute) g (pre @ [c]) h') (\<lambda>_ _. False) h"
    by (rule wp_snapshot [OF Cons.prems(1) law]) (use Cons.prems(2) in simp_all)
  then show ?case unfolding act_fold.simps wp_bind
    by (rule wp_mono) (use Cons.IH [of "pre @ [c]"] Cons.prems(2) in simp_all)
qed

lemma reached_closed:
  assumes gi: "graph_inv g" and roots: "set roots \<subseteq> {..<length (nodes g)}" and V: "V = (edges (nodes g))\<^sup>* `` set roots"
  shows "V \<subseteq> {..<length (nodes g)}" and "i \<in> V \<Longrightarrow> set (inputs (nodes g ! i)) \<subseteq> V"
proof -
  show lt: "V \<subseteq> {..<length (nodes g)}" using V roots reach_in [OF _ graph_inv_parts(1) [OF gi]] by auto
  show "set (inputs (nodes g ! i)) \<subseteq> V" if "i \<in> V"
  proof
    fix j assume "j \<in> set (inputs (nodes g ! i))"
    then have e: "(i, j) \<in> edges (nodes g)" using that lt by (auto simp: edges_def)
    then show "j \<in> V" using that unfolding V by (auto intro: rtrancl_into_rtrancl)
  qed
qed

lemma planning_parts:
  assumes gi: "graph_inv g" and roots: "set roots \<subseteq> {..<length (nodes g)}" and V: "V = (edges (nodes g))\<^sup>* `` set roots"
  obtains order e where "topo_order_multi g roots = Ok order" and "set order = V" and "derive_ordering reg g roots = Ok e"
    and "\<And>i. i \<in> V \<Longrightarrow> set (predecessors (nodes g) order e i) = waits_for reg (nodes g) V i"
proof -
  let ?ns = "nodes g"
  note ok = graph_inv_parts [OF gi] and cl = reached_closed [OF gi roots V]
  obtain order where o: "topo_order_multi g roots = Ok order" "distinct order" "ordered ?ns order" "set order = V"
    by (rule topo_order_multi_spec [OF ok(2,1) roots]) (use V in blast)
  have lt: "set order \<subseteq> {..<length ?ns}" using o(4) cl(1) by simp
  obtain e where e: "derive_ordering reg g roots = Ok e" "\<And>d. d \<in> V \<Longrightarrow> set (deps_of e d) = pins reg ?ns V d"
    by (rule derive_ordering_spec [OF o(1,3,2) ok(1) lt, of reg]) (use o(4) in blast)
  have "set (predecessors ?ns order e i) = waits_for reg ?ns V i" if "i \<in> V" for i
    using that e(2) cl(2) [OF that] pins_in [of reg ?ns V i] o(4) by (auto simp: predecessors_def waits_for_def)
  then show thesis using that o(1,4) e(1) by blast
qed

lemma insert_safety_copies_result:
  assumes gi: "graph_inv g" and law: "\<forall>d. passes_on compute (Memory (Op_Copy d))" and roots: "set roots \<subseteq> {..<length (nodes g)}"
    and V: "V = (edges (nodes g))\<^sup>* `` set roots"
  obtains cs h where "insert_safety_copies reg roots g = (Ok (length cs), h)" and "conflicts_of reg (nodes g) V cs"
    and "snapshotted (op_sem konst compute) g cs h"
proof -
  let ?ns = "nodes g"
  note cl = reached_closed [OF gi roots V]
  obtain order e where o: "topo_order_multi g roots = Ok order" "set order = V" "derive_ordering reg g roots = Ok e"
    and sp: "\<And>i. i \<in> V \<Longrightarrow> set (predecessors ?ns order e i) = waits_for reg ?ns V i"
    by (rule planning_parts [OF gi roots V, where reg = reg]) (rule that)
  define cs where "cs = concat (map (find_conflict reg ?ns order (predecessors ?ns order e)) order)"
  have con: "conflicts_of reg ?ns V cs"
    unfolding cs_def o(2) [symmetric] by (rule find_conflicts) (use cl(2) sp o(2) in auto)
  have fine: "conflict_ok g c" if "c \<in> set cs" for c
  proof -
    have c: "destructive_nid c \<in> V" "destroyed_by reg (?ns ! destructive_nid c) = Some (conflict_target c)"
      "set (conflicting_readers c) \<subseteq> V" using con that by (auto simp: conflicts_of_def found_def)
    have "destructive_nid c < length ?ns" using c(1) cl(1) by auto
    from input_plain [OF gi this destroyed_by_input [OF c(2)]] show ?thesis using c(3) cl(1) by (auto simp: conflict_ok_def)
  qed
  have "act_wp (act_fold (\<lambda>_ c. snapshot c) () cs) (\<lambda>_ h'. snapshotted (op_sem konst compute) g cs h') (\<lambda>_ _. False) g"
    using wp_snapshots [OF law snapshotted_start [OF gi], of cs] fine by (simp add: list_all_iff)
  then obtain h where h: "act_fold (\<lambda>_ c. snapshot c) () cs g = (Ok (), h)" "snapshotted (op_sem konst compute) g cs h"
    by (auto simp: act_wp_def split: prod.splits rust.splits)
  have "insert_safety_copies reg roots g = (Ok (length cs), h)"
    using o(1,3) h(1) by (simp add: insert_safety_copies_def act_bind_def act_get_def act_result_def act_ret_def cs_def Let_def)
  then show thesis using that con h(2) by blast
qed

section \<open>A plan exists afterwards\<close>

lemma trancl_pinned:
  "(x, y) \<in> (E \<union> P)\<^sup>+ \<Longrightarrow> (x, y) \<in> E\<^sup>+ \<or> (\<exists>(d, r) \<in> P. (x, d) \<in> (E \<union> P)\<^sup>* \<and> (r, y) \<in> (E \<union> P)\<^sup>*)"
proof (induction rule: trancl_induct)
  case (step y z)
  from step(1) have r: "(x, y) \<in> (E \<union> P)\<^sup>*" by (rule trancl_into_rtrancl)
  show ?case
  proof (cases "(y, z) \<in> P")
    case True
    then show ?thesis using r by blast
  next
    case False
    then show ?thesis using step(2,3) by (auto intro: trancl_into_trancl rtrancl_into_rtrancl)
  qed
qed auto

text \<open>Adding pins keeps an order acyclic if no pin is contradicted.\<close>

lemma acyclic_pinned:
  assumes "acyclic E" and "\<And>d r. (d, r) \<in> P \<Longrightarrow> (r, d) \<notin> (E \<union> P)\<^sup>*"
  shows "acyclic (E \<union> P)"
proof (rule acyclicI, intro allI notI)
  fix x assume "(x, x) \<in> (E \<union> P)\<^sup>+"
  from trancl_pinned [OF this] show False using assms by (auto simp: acyclic_def dest: rtrancl_trans)
qed

text \<open>A relation that maps into an acyclic one, up to steps that leave \<open>C\<close>, is acyclic.\<close>

lemma acyclic_stutter:
  assumes "acyclic A" and step: "\<And>i j. (i, j) \<in> W \<Longrightarrow> (f i, f j) \<in> A \<or> f i = f j \<and> i \<in> C \<and> j \<notin> C"
  shows "acyclic W"
proof (rule acyclicI, intro allI notI)
  have tr: "(f x, f y) \<in> A\<^sup>+ \<or> f x = f y \<and> x \<in> C \<and> y \<notin> C" if "(x, y) \<in> W\<^sup>+" for x y
    using that
  proof (induction rule: trancl_induct)
    case (step y z)
    then show ?case using assms(2) [OF step(2)] by (metis r_into_trancl trancl_into_trancl)
  qed (use step in blast)
  fix x assume "(x, x) \<in> W\<^sup>+"
  from tr [OF this] show False using assms(1) by (auto simp: acyclic_def)
qed

text \<open>
  Every destroyed tensor is used under one name only, and by one destructive operation. (A second operation
  in place on the same tensor, or a view of it, is a conflict the pass need not resolve.)
\<close>

definition lone_targets :: "(fused_op_id \<Rightarrow> nat option) \<Rightarrow> 'f node list \<Rightarrow> node_id set \<Rightarrow> bool" where
  "lone_targets reg ns V \<longleftrightarrow> (\<forall>d \<in> V. \<forall>x. destroyed_by reg (ns ! d) = Some x \<longrightarrow>
     (\<forall>a \<in> V. same_storage ns x a \<longrightarrow> a = x) \<and> (\<forall>d' \<in> V. destroyed_by reg (ns ! d') = Some x \<longrightarrow> d' = d))"

definition resolved :: "(('f, 's) node_view \<Rightarrow> 'v list \<Rightarrow> 'v) \<Rightarrow> (fused_op_id \<Rightarrow> nat option) \<Rightarrow> node_id set \<Rightarrow> ('f, 's) graph \<Rightarrow>
    conflict list \<Rightarrow> ('f, 's) graph \<Rightarrow> bool" where
  "resolved sem reg V g cs h \<longleftrightarrow> graph_inv g \<and> V \<subseteq> {..<length (nodes g)} \<and> (\<forall>i \<in> V. set (inputs (nodes g ! i)) \<subseteq> V) \<and>
     conflicts_of reg (nodes g) V cs \<and> lone_targets reg (nodes g) V \<and> snapshotted sem g cs h"

lemma lone_targetsD:
  assumes "lone_targets reg ns V" and "d \<in> V" and "destroyed_by reg (ns ! d) = Some x"
  shows "a \<in> V \<Longrightarrow> same_storage ns x a \<Longrightarrow> a = x" and "d' \<in> V \<Longrightarrow> destroyed_by reg (ns ! d') = Some x \<Longrightarrow> d' = d"
  using assms unfolding lone_targets_def by blast+

lemma resolvedD:
  assumes "resolved sem reg V g cs h"
  shows "graph_inv g" and "i \<in> V \<Longrightarrow> i < length (nodes g)" and "i \<in> V \<Longrightarrow> j \<in> set (inputs (nodes g ! i)) \<Longrightarrow> j \<in> V"
    and "conflicts_of reg (nodes g) V cs" and "lone_targets reg (nodes g) V" and "snapshotted sem g cs h"
  using assms unfolding resolved_def by blast+

lemma resolved_nodes:
  assumes "resolved sem reg V g cs h" and "i \<in> V"
  shows "node_op (nodes h ! i) = node_op (nodes g ! i)"
    and "inputs (nodes h ! i) = map (rewired (safety_rewires (length (nodes g)) cs) i) (inputs (nodes g ! i))"
    and "i < length (nodes g)"
  using assms by (auto simp: resolved_def snapshotted_def)

lemma resolved_conflict:
  assumes "resolved sem reg V g cs h" and "k < length cs"
  shows "destructive_nid (cs ! k) \<in> V" and "destroyed_by reg (nodes g ! destructive_nid (cs ! k)) = Some (conflict_target (cs ! k))"
    and "conflict_target (cs ! k) \<in> V"
    and "set (conflicting_readers (cs ! k)) = found reg (nodes g) V (destructive_nid (cs ! k)) (conflict_target (cs ! k))"
proof -
  show d: "destructive_nid (cs ! k) \<in> V" and x: "destroyed_by reg (nodes g ! destructive_nid (cs ! k)) = Some (conflict_target (cs ! k))"
    and "set (conflicting_readers (cs ! k)) = found reg (nodes g) V (destructive_nid (cs ! k)) (conflict_target (cs ! k))"
    using assms nth_mem [OF assms(2)] by (simp_all add: resolved_def conflicts_of_def)
  show "conflict_target (cs ! k) \<in> V" using resolvedD(3) [OF assms(1) d destroyed_by_input [OF x]] by simp
qed

lemma resolved_rewired:
  assumes r: "resolved sem reg V g cs h"
  shows "rewired (safety_rewires (length (nodes g)) cs) i x = x \<and>
      (\<forall>k < length cs. x = conflict_target (cs ! k) \<longrightarrow> i \<notin> found reg (nodes g) V (destructive_nid (cs ! k)) x) \<or>
    (\<exists>k < length cs. rewired (safety_rewires (length (nodes g)) cs) i x = length (nodes g) + k \<and> x = conflict_target (cs ! k) \<and>
      i \<in> found reg (nodes g) V (destructive_nid (cs ! k)) x)"
  using rewired_cases [of "safety_rewires (length (nodes g)) cs" i x] resolved_conflict(4) [OF r] by (auto simp: in_safety_rewires)

lemma resolved_destroyed:
  assumes r: "resolved sem reg V g cs h" and i: "i \<in> V"
  shows "destroyed_by reg (nodes h ! i) = destroyed_by reg (nodes g ! i)"
proof (cases "destroyed_by reg (nodes g ! i)")
  case None
  then show ?thesis using resolved_nodes [OF r i] by (simp add: destroyed_by_def split: option.splits if_splits)
next
  case (Some x)
  have "rewired (safety_rewires (length (nodes g)) cs) i x = x"
  proof (rule ccontr)
    assume "rewired (safety_rewires (length (nodes g)) cs) i x \<noteq> x"
    then obtain k where k: "k < length cs" "x = conflict_target (cs ! k)" "i \<in> found reg (nodes g) V (destructive_nid (cs ! k)) x"
      using resolved_rewired [OF r, of i x] by blast
    have "i = destructive_nid (cs ! k)"
      by (rule lone_targetsD(2) [OF resolvedD(5) [OF r] resolved_conflict(1,2) [OF r k(1)] i]) (use Some k(2) in simp)
    then show False using k(3) by (simp add: found_def)
  qed
  then show ?thesis using Some resolved_nodes [OF r i] by (auto simp: destroyed_by_def split: option.splits if_splits)
qed

lemma resolved_root:
  assumes r: "resolved sem reg V g cs h"
  shows "storage_root (nodes h) i s \<Longrightarrow> i \<in> V \<Longrightarrow> storage_root (nodes g) i s \<and> s \<in> V"
proof (induction rule: storage_root.induct)
  case (own i)
  then show ?case using resolved_nodes [OF r, of i] by (auto intro: storage_root.own)
next
  case (shared i j js s)
  note ok = graph_inv_parts [of g]
  have gi: "graph_inv g" by (rule resolvedD(1) [OF r])
  note ni = resolved_nodes [OF r shared(5)]
  obtain j0 js0 where j0: "inputs (nodes g ! i) = j0 # js0" and j: "rewired (safety_rewires (length (nodes g)) cs) i j0 = j"
    using shared(2) ni(2) by auto
  have al: "extends_alias (node_op (nodes g ! i))" using shared(1) ni(1) by simp
  have j0V: "j0 \<in> V" "j0 < length (nodes g)" using resolvedD(2,3) [OF r] shared(5) j0 by auto
  have "j = j0"
  proof (rule ccontr)
    assume "j \<noteq> j0"
    then obtain k where k: "k < length cs" "j0 = conflict_target (cs ! k)" using resolved_rewired [OF r, of i j0] j by blast
    obtain t where "storage_root (nodes g) j0 t" using storage_root_total [OF ok(2,1) j0V(2)] gi by blast
    then have "same_storage (nodes g) j0 i" using storage_root.shared [OF al j0] by (auto simp: same_storage_def)
    then have "i = j0" using lone_targetsD(1) [OF resolvedD(5) [OF r] resolved_conflict(1,2) [OF r k(1)] shared(5)] k(2) by simp
    then have "(i, i) \<in> edges (nodes g)" using j0 ni(3) by (simp add: edges_def)
    then show False using ok(2) [OF gi] by (auto simp: acyclic_def)
  qed
  then show ?case using shared(4) j0V(1) storage_root.shared [OF al j0] by blast
qed

text \<open>A node of the new graph is an old one or a snapshot, and a snapshot owns its storage.\<close>

definition snapshot_ids :: "('f, 's) graph \<Rightarrow> conflict list \<Rightarrow> node_id set" where
  "snapshot_ids g cs = {length (nodes g) ..< length (nodes g) + length cs}"

lemma resolved_snapshot:
  assumes r: "resolved sem reg V g cs h" and c: "c \<in> snapshot_ids g cs"
  shows "inputs (nodes h ! c) = [conflict_target (cs ! (c - length (nodes g)))]" and "destroyed_by reg (nodes h ! c) = None"
    and "storage_root (nodes h) c s \<longleftrightarrow> s = c" and "c \<notin> V" and "c - length (nodes g) < length cs"
proof -
  obtain k where k: "k < length cs" "c = length (nodes g) + k"
    using c le_Suc_ex [of "length (nodes g)" c] by (auto simp: snapshot_ids_def)
  then have "inputs (nodes h ! c) = [conflict_target (cs ! k)] \<and> (\<exists>l. node_op (nodes h ! c) = Memory (Op_Copy l))"
    using resolvedD(6) [OF r] unfolding snapshotted_def by blast
  then obtain l where l: "inputs (nodes h ! c) = [conflict_target (cs ! k)]" "node_op (nodes h ! c) = Memory (Op_Copy l)" by blast
  show "inputs (nodes h ! c) = [conflict_target (cs ! (c - length (nodes g)))]" using l(1) k(2) by simp
  show "destroyed_by reg (nodes h ! c) = None" using l(2) by (simp add: destroyed_by_def destructive_input_def)
  have own: "storage_root (nodes h) c c" by (rule storage_root.own) (simp add: l(2) extends_alias_def is_view_op_def)
  then show "storage_root (nodes h) c s \<longleftrightarrow> s = c" using storage_root_unique [OF own] by blast
  show "c \<notin> V" using resolvedD(2) [OF r] k(2) by fastforce
  show "c - length (nodes g) < length cs" using k by simp
qed

text \<open>The original a node stands for.\<close>

definition original :: "('f, 's) graph \<Rightarrow> conflict list \<Rightarrow> node_id \<Rightarrow> node_id" where
  "original g cs i = (if i < length (nodes g) then i else conflict_target (cs ! (i - length (nodes g))))"

lemma resolved_input:
  assumes r: "resolved sem reg V g cs h" and i: "i \<in> V" and j: "j \<in> set (inputs (nodes h ! i))"
  shows "original g cs j \<in> set (inputs (nodes g ! i))" and "j \<in> V \<union> snapshot_ids g cs"
proof -
  obtain x where x: "x \<in> set (inputs (nodes g ! i))" "j = rewired (safety_rewires (length (nodes g)) cs) i x"
    using j resolved_nodes(2) [OF r i] by auto
  have xV: "x \<in> V" "x < length (nodes g)" using resolvedD(2,3) [OF r] i x(1) by blast+
  from resolved_rewired [OF r, of i x] consider "j = x" | k where "k < length cs" "j = length (nodes g) + k" "x = conflict_target (cs ! k)"
    using x(2) by blast
  then show "original g cs j \<in> set (inputs (nodes g ! i))" and "j \<in> V \<union> snapshot_ids g cs"
    using x(1) xV by (cases; simp add: original_def snapshot_ids_def)+
qed

lemma resolved_reach:
  assumes r: "resolved sem reg V g cs h" and i: "i \<in> V" and j: "(i, j) \<in> (edges (nodes h))\<^sup>*"
  shows "j \<in> V \<union> snapshot_ids g cs"
  using j
proof (induction rule: rtrancl_induct)
  case (step y z)
  then have z: "z \<in> set (inputs (nodes h ! y))" by (simp add: edges_def)
  from step(3) show ?case
  proof
    assume "y \<in> V"
    then show ?thesis by (rule resolved_input(2) [OF r _ z])
  next
    assume y: "y \<in> snapshot_ids g cs"
    then show ?thesis using z resolved_snapshot(1,5) [OF r y] resolved_conflict(3) [OF r] by simp
  qed
qed (use i in simp)

lemma resolved_storage:
  assumes r: "resolved sem reg V g cs h" and x: "x \<in> V" and xa: "same_storage (nodes h) x a" and a: "a \<in> V \<union> snapshot_ids g cs"
  shows "same_storage (nodes g) x a" and "a \<in> V"
proof -
  obtain s where s: "storage_root (nodes h) x s" "storage_root (nodes h) a s" using xa unfolding same_storage_def by blast
  note sx = resolved_root [OF r s(1) x]
  have "a \<notin> snapshot_ids g cs"
  proof
    assume a: "a \<in> snapshot_ids g cs"
    then have "s = a" using s(2) resolved_snapshot(3) [OF r a] by simp
    then show False using sx resolved_snapshot(4) [OF r a] by simp
  qed
  then show "a \<in> V" using a by blast
  then show "same_storage (nodes g) x a" using sx resolved_root [OF r s(2)] unfolding same_storage_def by blast
qed

text \<open>What a destructive operation still waits for: snapshots of its tensor, and readers it cannot precede.\<close>

lemma resolved_pin:
  assumes r: "resolved sem reg V g cs h" and d: "d \<in> V" and U: "U \<subseteq> V \<union> snapshot_ids g cs" and p: "p \<in> pins reg (nodes h) U d"
  shows "(d, original g cs p) \<in> edges (nodes g) \<or> p \<in> V \<and> (d, p) \<in> waits reg (nodes g) V \<and> (p, d) \<notin> (waits reg (nodes g) V)\<^sup>+"
proof -
  note lone = resolvedD(5) [OF r]
  obtain x where x: "destroyed_by reg (nodes g ! d) = Some x"
    using p resolved_destroyed [OF r d] by (cases "destroyed_by reg (nodes g ! d)") (simp_all add: pins_def)
  have xi: "x \<in> set (inputs (nodes g ! d))" by (rule destroyed_by_input [OF x])
  have xV: "x \<in> V" "x < length (nodes g)" using resolvedD(2,3) [OF r] d xi by blast+
  obtain a where pa: "p \<in> U" "p \<noteq> d" "\<not> same_storage (nodes h) x p" "a \<in> U" "same_storage (nodes h) x a" "a \<in> set (inputs (nodes h ! p))"
    using p unfolding pins_def resolved_destroyed [OF r d] x option.case storage_readers_def by blast
  have ss: "same_storage (nodes g) x a" "a \<in> V" using resolved_storage [OF r xV(1) pa(5)] U pa(4) by blast+
  have ax: "a = x" by (rule lone_targetsD(1) [OF lone d x ss(2,1)])
  show ?thesis
  proof (cases "p \<in> V")
    case True
    obtain y where y: "y \<in> set (inputs (nodes g ! p))" "x = rewired (safety_rewires (length (nodes g)) cs) p y"
      using pa(6) ax resolved_nodes(2) [OF r True] by auto
    then have yx: "y = x" and nk: "\<And>k. k < length cs \<Longrightarrow> x = conflict_target (cs ! k) \<Longrightarrow> p \<notin> found reg (nodes g) V (destructive_nid (cs ! k)) x"
      using resolved_rewired [OF r, of p y] xV(2) by auto
    have nf: "p \<notin> found reg (nodes g) V d x"
    proof
      assume f: "p \<in> found reg (nodes g) V d x"
      then obtain c where "c \<in> set cs" "destructive_nid c = d" "conflict_target c = x"
        using resolvedD(4) [OF r] d x unfolding conflicts_of_def by blast
      then show False using nk f by (auto simp: in_set_conv_nth)
    qed
    then have w: "(d, p) \<in> (waits reg (nodes g) V)\<^sup>+" "(p, d) \<notin> (waits reg (nodes g) V)\<^sup>+"
      using True pa(2) y(1) yx by (auto simp: found_def)
    have "\<not> same_storage (nodes g) x p"
    proof
      assume "same_storage (nodes g) x p"
      then have "p = x" by (rule lone_targetsD(1) [OF lone d x True])
      moreover have "(p, x) \<in> edges (nodes g)" using y(1) yx resolvedD(2) [OF r True] by (simp add: edges_def)
      ultimately show False using graph_inv_parts(2) [OF resolvedD(1) [OF r]] by (auto simp: acyclic_def)
    qed
    moreover have "same_storage (nodes g) x x" using ss(1) unfolding same_storage_def by blast
    ultimately have "p \<in> storage_readers (nodes g) V d x"
      using True pa(2) xV(1) y(1) yx unfolding storage_readers_def by blast
    then have "(d, p) \<in> waits reg (nodes g) V" using d x by (simp add: waits_def waits_for_def pins_def)
    then show ?thesis using w True by blast
  next
    case False
    then have c: "p \<in> snapshot_ids g cs" using U pa(1) by blast
    have "original g cs p = x" using resolved_snapshot(1) [OF r c] pa(6) ax c by (auto simp: original_def snapshot_ids_def)
    then show ?thesis using xi resolvedD(2) [OF r d] by (simp add: edges_def)
  qed
qed

lemma resolved_acyclic:
  assumes r: "resolved sem reg V g cs h" and U: "U \<subseteq> V \<union> snapshot_ids g cs"
  shows "acyclic (waits reg (nodes h) U)"
proof -
  let ?W = "waits reg (nodes g) V" and ?E = "edges (nodes g) \<inter> V \<times> V"
  let ?P = "{(d, p) \<in> ?W. (p, d) \<notin> ?W\<^sup>+}" and ?C = "snapshot_ids g cs"
  note ac = graph_inv_parts(2) [OF resolvedD(1) [OF r]]
  have EW: "?E \<union> ?P \<subseteq> ?W" by (auto simp: waits_def waits_for_def edges_def)
  have "acyclic (?E \<union> ?P)"
  proof (rule acyclic_pinned)
    show "acyclic ?E" using ac by (rule acyclic_subset) blast
    fix d p assume p: "(d, p) \<in> ?P"
    have ne: "p \<noteq> d" using p by auto
    then have "(p, d) \<notin> ?W\<^sup>*" using p by (simp add: rtrancl_eq_or_trancl)
    then show "(p, d) \<notin> (?E \<union> ?P)\<^sup>*" using rtrancl_mono [OF EW] by blast
  qed
  then show ?thesis
  proof (rule acyclic_stutter [where f = "original g cs" and C = ?C])
    fix i j assume "(i, j) \<in> waits reg (nodes h) U"
    then have ij: "i \<in> U" "j \<in> set (inputs (nodes h ! i)) \<or> j \<in> pins reg (nodes h) U i" by (auto simp: waits_def waits_for_def)
    show "(original g cs i, original g cs j) \<in> ?E \<union> ?P \<or> original g cs i = original g cs j \<and> i \<in> ?C \<and> j \<notin> ?C"
    proof (cases "i \<in> V")
      case True
      have oi: "original g cs i = i" using resolvedD(2) [OF r True] by (simp add: original_def)
      have E: "(i, k) \<in> ?E" if "(i, k) \<in> edges (nodes g)" for k using that True resolvedD(3) [OF r True] by (auto simp: edges_def)
      from ij(2) consider "(i, original g cs j) \<in> edges (nodes g)" | "j \<in> V" "(i, j) \<in> ?P"
        using resolved_input(1) [OF r True] resolved_pin [OF r True U] resolvedD(2) [OF r True] by (auto simp: edges_def)
      then show ?thesis
        by cases (use oi E resolvedD(2) [OF r] in \<open>simp_all add: original_def\<close>)
    next
      case False
      then have c: "i \<in> ?C" using U ij(1) by blast
      note sn = resolved_snapshot [OF r c]
      have "j = conflict_target (cs ! (i - length (nodes g)))" using ij(2) sn(1,2) by (auto simp: pins_def)
      moreover from this have "j \<in> V" using resolved_conflict(3) [OF r sn(5)] by simp
      ultimately show ?thesis using c resolvedD(2) [OF r, of j] by (auto simp: original_def snapshot_ids_def)
    qed
  qed
qed

section \<open>The pass settles\<close>

lemma resolved_lone:
  assumes r: "resolved sem reg V g cs h" and U: "U \<subseteq> V \<union> snapshot_ids g cs"
  shows "lone_targets reg (nodes h) U"
  unfolding lone_targets_def
proof (intro ballI allI impI conjI)
  fix d x assume d: "d \<in> U" and x: "destroyed_by reg (nodes h ! d) = Some x"
  have old: "d' \<in> V \<and> destroyed_by reg (nodes g ! d') = Some x'" if "d' \<in> U" "destroyed_by reg (nodes h ! d') = Some x'" for d' x'
  proof -
    have "d' \<in> V" using that U resolved_snapshot(2) [OF r, of d'] by fastforce
    then show ?thesis using that(2) resolved_destroyed [OF r] by simp
  qed
  note dx = old [OF d x]
  have xV: "x \<in> V" using dx destroyed_by_input resolvedD(3) [OF r] by blast
  fix a assume a: "a \<in> U"
  show "a = x" if "same_storage (nodes h) x a"
    using lone_targetsD(1) [OF resolvedD(5) [OF r]] dx resolved_storage [OF r xV that] a U by blast
  show "a = d" if "destroyed_by reg (nodes h ! a) = Some x"
    using lone_targetsD(2) [OF resolvedD(5) [OF r]] dx old [OF a that] by blast
qed

lemma planned_no_conflict:
  assumes gi: "graph_inv g" and V: "V \<subseteq> {..<length (nodes g)}" "\<And>i. i \<in> V \<Longrightarrow> set (inputs (nodes g ! i)) \<subseteq> V"
    and ac: "acyclic (waits reg (nodes g) V)" and lone: "lone_targets reg (nodes g) V"
    and d: "d \<in> V" and x: "destroyed_by reg (nodes g ! d) = Some x"
  shows "found reg (nodes g) V d x = {}"
proof (rule ccontr)
  assume "found reg (nodes g) V d x \<noteq> {}"
  then obtain p where p: "p \<in> V" "p \<noteq> d" "x \<in> set (inputs (nodes g ! p))"
    and no: "\<not> ((d, p) \<in> (waits reg (nodes g) V)\<^sup>+ \<and> (p, d) \<notin> (waits reg (nodes g) V)\<^sup>+)" by (auto simp: found_def)
  have xV: "x \<in> V" "x < length (nodes g)" using V destroyed_by_input [OF x] d by blast+
  have px: "(p, x) \<in> waits reg (nodes g) V" using p by (simp add: waits_def waits_for_def)
  have "\<not> same_storage (nodes g) x p"
    using lone_targetsD(1) [OF lone d x p(1)] px ac by (auto simp: acyclic_def)
  moreover have "same_storage (nodes g) x x"
    using storage_root_total [OF graph_inv_parts(2,1) [OF gi] xV(2)] by (auto simp: same_storage_def)
  ultimately have "p \<in> storage_readers (nodes g) V d x" using p xV(1) by (auto simp: storage_readers_def)
  then have w: "(d, p) \<in> waits reg (nodes g) V" using d x by (simp add: waits_def waits_for_def pins_def)
  then have "(p, d) \<in> (waits reg (nodes g) V)\<^sup>+" using no by blast
  then have "(d, d) \<in> (waits reg (nodes g) V)\<^sup>+" using w by (rule trancl_into_trancl2 [rotated])
  then show False using ac by (simp add: acyclic_def)
qed

lemma insert_safety_copies_none:
  assumes gi: "graph_inv g" and roots: "set roots \<subseteq> {..<length (nodes g)}" and V: "V = (edges (nodes g))\<^sup>* `` set roots"
    and ac: "acyclic (waits reg (nodes g) V)" and lone: "lone_targets reg (nodes g) V"
  shows "insert_safety_copies reg roots g = (Ok 0, g)"
proof -
  let ?ns = "nodes g"
  note cl = reached_closed [OF gi roots V]
  obtain order e where o: "topo_order_multi g roots = Ok order" "set order = V" "derive_ordering reg g roots = Ok e"
    and sp: "\<And>i. i \<in> V \<Longrightarrow> set (predecessors ?ns order e i) = waits_for reg ?ns V i"
    by (rule planning_parts [OF gi roots V, where reg = reg]) (rule that)
  have "find_conflict reg ?ns order (predecessors ?ns order e) i = []" if i: "i \<in> V" for i
  proof (cases "destroyed_by reg (?ns ! i)")
    case (Some x)
    have "found reg ?ns (set order) i x = {}" using planned_no_conflict [OF gi cl(1) cl(2) ac lone i Some] o(2) by simp
    then show ?thesis using find_conflict_spec [OF Some, of order "predecessors ?ns order e"] i cl(2) sp o(2) by simp
  qed (rule find_conflict_none)
  then have no: "concat (map (find_conflict reg ?ns order (predecessors ?ns order e)) order) = []" using o(2) by simp
  show ?thesis
    by (simp add: insert_safety_copies_def act_bind_def act_get_def act_result_def Let_def o(1,3) no) (simp add: act_ret_def)
qed

end
