(* ===== verification/GraphRuns.thy ===== *)
theory GraphRuns
  imports GraphExtend
begin

text \<open>
  Runs (\<open>fuel-graph/src/run.rs\<close>): the maximal straight-line chains on one device between two decision
  points, the lowering of a picked route through the branches to an order of dispatch, the reordering of
  runs so that devices overlap, and the lowering that resolves each branch when it is reached. A hash set
  is the list of its elements.
\<close>

section \<open>Effective roots\<close>

text \<open>Branches that take part in the computation are added to the roots until none is left.\<close>

function effective_roots :: "('f, 's) graph \<Rightarrow> node_id list \<Rightarrow> node_id list ir_result" where
  "effective_roots g seeds = (case topo_order_multi g seeds of
     Ok reach \<Rightarrow>
       let new = filter (\<lambda>i. i \<notin> set seeds \<and> participates (nodes g) reach i) [0..<length (nodes g)] in
       if new = [] then Ok seeds else effective_roots g (seeds @ new)
   | Err e \<Rightarrow> Err e
   | Panic \<Rightarrow> Panic)"
  by pat_completeness auto

termination
  by (relation "measure (\<lambda>(g, seeds). card ({..<length (nodes g)} - set seeds))") (simp_all only: wf_measure in_measure prod.case, rule more_seeds_less, auto)

declare effective_roots.simps [simp del]

definition branches_in_topo_order :: "('f, 's) graph \<Rightarrow> node_id list \<Rightarrow> node_id list ir_result" where
  "branches_in_topo_order g roots = rust_bind (effective_roots g roots) (\<lambda>eff.
     rust_bind (topo_order_multi g eff) (\<lambda>order.
     let position = zip order [0..<length order];
         branches = concat (map (\<lambda>i. case branch_target (nodes g ! i) of
             None \<Rightarrow> []
           | Some r \<Rightarrow> (case map_of position r of None \<Rightarrow> [] | Some p \<Rightarrow> [(p, i)])) [0..<length (nodes g)])
     in Ok (map snd (sort_key fst branches))))"

section \<open>Arms\<close>

function cone_loop :: "'f node list \<Rightarrow> node_id list \<Rightarrow> node_id list \<Rightarrow> node_id list \<Rightarrow> node_id list" where
  "cone_loop ns reachable [] seen = seen"
| "cone_loop ns reachable (n # st) seen =
     (if n \<notin> set reachable \<or> n \<in> set seen then cone_loop ns reachable st seen
      else cone_loop ns reachable (rev (filter (\<lambda>c. c \<notin> set (n # seen)) (inputs (ns ! n))) @ st) (n # seen))"
  by pat_completeness auto

termination
proof (relation "measures [\<lambda>(ns, reachable, st, seen). card (set reachable - set seen), \<lambda>(ns, reachable, st, seen). length st]", goal_cases)
  case (3 ns reachable n st seen)
  then have "set reachable - set (n # seen) \<subset> set reachable - set seen" by auto
  then have "card (set reachable - set (n # seen)) < card (set reachable - set seen)" by (rule psubset_card_mono [rotated]) simp
  then show ?case by simp
qed auto

definition backward_cone :: "'f node list \<Rightarrow> node_id list \<Rightarrow> node_id \<Rightarrow> node_id list" where
  "backward_cone ns reachable from = cone_loop ns reachable [from] []"

record arm_meta =
  meta_branch :: node_id
  arm_entries :: "(node_id \<times> nat) list"
  cones :: "node_id list list"
  shared :: "node_id list"

definition shared_prefix :: "node_id list list \<Rightarrow> node_id list" where
  "shared_prefix cs = foldl (\<lambda>s c. filter (\<lambda>n. n \<in> set c) s) (hd cs) (tl cs)"

text \<open>The nodes of a cone where the arm departs from the shared prefix.\<close>

definition departing :: "'f node list \<Rightarrow> node_id list \<Rightarrow> node_id list \<Rightarrow> node_id list" where
  "departing ns sh cone = filter (\<lambda>n. n \<notin> set sh \<and> list_ex (\<lambda>p. p \<in> set sh) (inputs (ns ! n))) cone"

definition is_fork :: "'f node \<Rightarrow> bool" where
  "is_fork n \<longleftrightarrow> branch_target n \<noteq> None \<and> 2 \<le> length (inputs n)"

definition compute_arm_entries :: "'f node list \<Rightarrow> node_id list \<Rightarrow> node_id list" where
  "compute_arm_entries ns order = concat (map (\<lambda>i.
     if \<not> is_fork (ns ! i) then []
     else (let cs = map (backward_cone ns order) (inputs (ns ! i)); sh = shared_prefix cs in
           concat (map (departing ns sh) cs))) order)"

definition meta_of :: "'f node list \<Rightarrow> node_id list \<Rightarrow> node_id \<Rightarrow> arm_meta" where
  "meta_of ns order i = (let cs = map (backward_cone ns order) (inputs (ns ! i)); sh = shared_prefix cs in
     \<lparr>meta_branch = i,
      arm_entries = concat (map (\<lambda>k. map (\<lambda>n. (n, k)) (departing ns sh (cs ! k))) [0..<length cs]),
      cones = cs, shared = sh\<rparr>)"

definition branch_metas :: "'f node list \<Rightarrow> node_id list \<Rightarrow> arm_meta list" where
  "branch_metas ns order = map (meta_of ns order) (filter (\<lambda>i. is_fork (ns ! i)) order)"

definition branch_arm_meta :: "('f, 's) graph \<Rightarrow> node_id list \<Rightarrow> arm_meta list ir_result" where
  "branch_arm_meta g roots = rust_bind (effective_roots g roots) (\<lambda>eff.
     rust_bind (topo_order_multi g eff) (\<lambda>order. Ok (branch_metas (nodes g) order)))"

text \<open>The nodes that only arms other than the chosen one read; a choice out of range is arm 0.\<close>

definition non_chosen_skip :: "arm_meta \<Rightarrow> nat \<Rightarrow> node_id list" where
  "non_chosen_skip m c = (let chosen = if c < length (cones m) then c else 0 in
     concat (map (\<lambda>k. if k = chosen then []
       else filter (\<lambda>n. n \<notin> set (shared m) \<and> n \<notin> set (cones m ! chosen)) (cones m ! k)) [0..<length (cones m)]))"

type_synonym picked_route = "(node_id \<times> nat) list"

definition chosen_arm :: "picked_route \<Rightarrow> node_id \<Rightarrow> nat" where
  "chosen_arm picked i = (case map_of picked i of Some c \<Rightarrow> c | None \<Rightarrow> 0)"

definition non_chosen_arm_nodes :: "('f, 's) graph \<Rightarrow> node_id list \<Rightarrow> picked_route \<Rightarrow> node_id list ir_result" where
  "non_chosen_arm_nodes g roots picked = rust_bind (effective_roots g roots) (\<lambda>eff.
     rust_bind (topo_order_multi g eff) (\<lambda>order.
     Ok (concat (map (\<lambda>m. non_chosen_skip m (chosen_arm picked (meta_branch m))) (branch_metas (nodes g) order)))))"

section \<open>Extraction\<close>

record run =
  entry :: node_id
  run_exit :: node_id
  members :: "node_id list"
  device :: "backend_id option"

definition finish_run :: "node_id list \<Rightarrow> backend_id option \<Rightarrow> run" where
  "finish_run ms d = \<lparr>entry = hd ms, run_exit = last ms, members = ms, device = d\<rparr>"

definition reconverge_points :: "'f node list \<Rightarrow> node_id list \<Rightarrow> node_id list" where
  "reconverge_points ns order = List.map_filter (\<lambda>i. branch_target (ns ! i)) order"

definition preds_inside :: "'f node list \<Rightarrow> node_id list \<Rightarrow> node_id \<Rightarrow> node_id list" where
  "preds_inside ns order i = filter (\<lambda>p. p \<in> set order) (inputs (ns ! i))"

definition backend_of :: "('f, 's) graph \<Rightarrow> node_id \<Rightarrow> backend_id option" where
  "backend_of g i = map_of (target_backends g) i"

text \<open>A node that opens a run wherever it comes: merge, arm entry, transfer, or a change of backend.\<close>

definition cuts :: "('f, 's) graph \<Rightarrow> node_id list \<Rightarrow> node_id \<Rightarrow> bool" where
  "cuts g order i \<longleftrightarrow> (let ps = preds_inside (nodes g) order i in
     ps = [] \<or> i \<in> set (reconverge_points (nodes g) order) \<or> i \<in> set (compute_arm_entries (nodes g) order) \<or> 1 < length ps \<or>
     is_transfer (node_op (nodes g ! i)) \<or> length ps = 1 \<and> backend_of g (ps ! 0) \<noteq> backend_of g i)"

definition starts_new :: "('f, 's) graph \<Rightarrow> node_id list \<Rightarrow> node_id list \<Rightarrow> backend_id option \<Rightarrow> node_id \<Rightarrow> bool" where
  "starts_new g order cur d i \<longleftrightarrow> cuts g order i \<or>
     cur = [] \<or> \<not> (length (preds_inside (nodes g) order i) = 1 \<and> preds_inside (nodes g) order i ! 0 = last cur) \<or>
     cur \<noteq> [] \<and> backend_of g i \<noteq> d"

fun run_step :: "('f, 's) graph \<Rightarrow> node_id list \<Rightarrow> run list \<times> node_id list \<times> backend_id option \<Rightarrow> node_id \<Rightarrow>
    run list \<times> node_id list \<times> backend_id option" where
  "run_step g order (runs, cur, d) i =
     (if branch_target (nodes g ! i) \<noteq> None then (runs, cur, d)
      else (let (runs, cur) = if starts_new g order cur d i \<and> cur \<noteq> [] then (runs @ [finish_run cur d], []) else (runs, cur)
            in (runs, cur @ [i], if cur = [] then backend_of g i else d)))"

definition runs_of :: "('f, 's) graph \<Rightarrow> node_id list \<Rightarrow> run list" where
  "runs_of g order = (case foldl (run_step g order) ([], [], None) order of
     (runs, cur, d) \<Rightarrow> runs @ (if cur = [] then [] else [finish_run cur d]))"

definition extract_runs_multi :: "('f, 's) graph \<Rightarrow> node_id list \<Rightarrow> run list ir_result" where
  "extract_runs_multi g roots = rust_bind (effective_roots g roots) (\<lambda>eff.
     rust_bind (topo_order_multi g eff) (\<lambda>order. Ok (runs_of g order)))"

definition extract_runs :: "('f, 's) graph \<Rightarrow> node_id \<Rightarrow> run list ir_result" where
  "extract_runs g root = extract_runs_multi g [root]"

section \<open>Order of the runs\<close>

definition run_of :: "run list \<Rightarrow> node_id \<Rightarrow> nat option" where
  "run_of runs m = map_of (rev (concat (map (\<lambda>ri. map (\<lambda>m. (m, ri)) (members (runs ! ri))) [0..<length runs]))) m"

definition run_preds :: "'f node list \<Rightarrow> run list \<Rightarrow> nat \<Rightarrow> nat list" where
  "run_preds ns runs ri = remdups (filter (\<lambda>pi. pi \<noteq> ri)
     (List.map_filter (run_of runs) (concat (map (\<lambda>m. inputs (ns ! m)) (members (runs ! ri))))))"

definition run_succs :: "'f node list \<Rightarrow> run list \<Rightarrow> nat \<Rightarrow> nat list" where
  "run_succs ns runs pi = filter (\<lambda>ri. pi \<in> set (run_preds ns runs ri)) [0..<length runs]"

definition compute_size :: "'f node list \<Rightarrow> run list \<Rightarrow> nat \<Rightarrow> nat" where
  "compute_size ns runs ri = (if is_transfer (node_op (ns ! entry (runs ! ri))) then 0 else length (members (runs ! ri)))"

text \<open>
  The largest chunk downstream, by a search whose stack holds runs to visit (\<open>False\<close>) and runs whose successors
  have been pushed (\<open>True\<close>). \<open>None\<close> is the mark \<open>u64::MAX\<close> of a weight not yet computed, greater than all
  others. On a cyclic precedence the search would not end.
\<close>

definition max_weight :: "nat option \<Rightarrow> nat option \<Rightarrow> nat option" where
  "max_weight a b = (case (a, b) of (Some x, Some y) \<Rightarrow> Some (max x y) | _ \<Rightarrow> None)"

partial_function (option) weigh :: "(nat \<Rightarrow> nat) \<Rightarrow> (nat \<Rightarrow> nat list) \<Rightarrow> (nat \<times> bool) list \<Rightarrow> nat option list \<Rightarrow> nat option list option" where
  "weigh sz succs st dw = (case st of
     [] \<Rightarrow> Some dw
   | (r, expanded) # st' \<Rightarrow>
       if expanded then weigh sz succs st' (dw[r := foldl (\<lambda>w s. max_weight w (dw ! s)) (Some (sz r)) (succs r)])
       else if dw ! r \<noteq> None then weigh sz succs st' dw
       else weigh sz succs (rev (map (\<lambda>s. (s, False)) (filter (\<lambda>s. dw ! s = None) (succs r))) @ (r, True) # st') dw)"

declare weigh.simps [code]

fun weigh_all :: "(nat \<Rightarrow> nat) \<Rightarrow> (nat \<Rightarrow> nat list) \<Rightarrow> nat list \<Rightarrow> nat option list \<Rightarrow> nat option list option" where
  "weigh_all sz succs [] dw = Some dw"
| "weigh_all sz succs (r # rs) dw = (if dw ! r \<noteq> None then weigh_all sz succs rs dw
     else (case weigh sz succs [(r, False)] dw of None \<Rightarrow> None | Some dw' \<Rightarrow> weigh_all sz succs rs dw'))"

definition heavier :: "nat option \<Rightarrow> nat option \<Rightarrow> bool" where
  "heavier a b = (case b of None \<Rightarrow> False | Some y \<Rightarrow> (case a of None \<Rightarrow> True | Some x \<Rightarrow> y < x))"

text \<open>The order of the keys: weight, then a device other than the last, then position.\<close>

fun key_less :: "nat option \<times> bool \<times> nat \<Rightarrow> nat option \<times> bool \<times> nat \<Rightarrow> bool" where
  "key_less (w, s, i) (w', s', i') \<longleftrightarrow> heavier w w' \<or> w = w' \<and> (\<not> s \<and> s' \<or> s = s' \<and> i < i')"

fun best_position :: "(nat \<Rightarrow> nat option \<times> bool \<times> nat) \<Rightarrow> nat list \<Rightarrow> nat \<Rightarrow> nat \<times> (nat option \<times> bool \<times> nat) \<Rightarrow> nat" where
  "best_position key [] pos best = fst best"
| "best_position key (ri # rs) pos best =
     best_position key rs (pos + 1) (if key_less (key ri) (snd best) then (pos, key ri) else best)"

definition swap_remove :: "nat list \<Rightarrow> nat \<Rightarrow> nat list" where
  "swap_remove xs p = (if p = length xs - 1 then butlast xs else (butlast xs)[p := last xs])"

text \<open>A run that does not exist and a count below zero would panic.\<close>

fun release_runs :: "nat list \<Rightarrow> nat list \<Rightarrow> nat list \<times> nat list \<Rightarrow> (nat list \<times> nat list) ir_result" where
  "release_runs emitted [] (indeg, ready) = Ok (indeg, ready)"
| "release_runs emitted (si # ss) (indeg, ready) =
     (if length indeg \<le> si then Panic
      else if si \<in> set emitted then release_runs emitted ss (indeg, ready)
      else if indeg ! si = 0 then Panic
      else release_runs emitted ss (indeg[si := indeg ! si - 1], if indeg ! si = 1 then ready @ [si] else ready))"

lemma length_swap_remove: "xs \<noteq> [] \<Longrightarrow> length (swap_remove xs p) = length xs - 1"
  by (simp add: swap_remove_def)

lemma sum_list_decrement: "i < length xs \<Longrightarrow> 0 < xs ! i \<Longrightarrow> sum_list (xs[i := xs ! i - 1]) + 1 = sum_list (xs :: nat list)"
proof (induction xs arbitrary: i)
  case (Cons x xs)
  then show ?case by (cases i) auto
qed simp

lemma release_runs_work:
  "release_runs emitted ss (indeg, ready) = Ok (indeg', ready') \<Longrightarrow>
   length indeg' = length indeg \<and> sum_list indeg' + length ready' \<le> sum_list indeg + length ready"
proof (induction emitted ss "(indeg, ready)" arbitrary: indeg ready rule: release_runs.induct)
  case (2 emitted si ss indeg ready)
  have si: "si < length indeg" using 2(3) by (auto split: if_splits)
  show ?case
  proof (cases "si \<in> set emitted")
    case True
    then show ?thesis using 2 si by simp
  next
    case False
    then have pos: "0 < indeg ! si" and rest: "release_runs emitted ss (indeg[si := indeg ! si - 1], if indeg ! si = 1 then ready @ [si] else ready) = Ok (indeg', ready')"
      using 2(3) si by (auto split: if_splits)
    have "sum_list (indeg[si := indeg ! si - 1]) + 1 = sum_list indeg" using sum_list_decrement [OF si pos] .
    then show ?thesis using 2(2) [OF _ False _ rest] si pos by (simp split: if_splits)
  qed
qed simp

text \<open>The pump: the ready run with the least key is emitted and its successors are released.\<close>

function pump :: "(nat \<Rightarrow> nat list) \<Rightarrow> (backend_id option option \<Rightarrow> nat \<Rightarrow> nat option \<times> bool \<times> nat) \<Rightarrow> (nat \<Rightarrow> backend_id option) \<Rightarrow>
    nat list \<Rightarrow> nat list \<Rightarrow> nat list \<Rightarrow> backend_id option option \<Rightarrow> nat list ir_result" where
  "pump succs key dev indeg [] order lst = Ok order"
| "pump succs key dev indeg (r # rs) order lst =
     (let ready = r # rs;
          pos = best_position (key lst) rs 1 (0, key lst r);
          ri = ready ! pos;
          order' = order @ [ri]
      in case release_runs order' (succs ri) (indeg, swap_remove ready pos) of
           Ok (indeg', ready') \<Rightarrow> pump succs key dev indeg' ready' order' (Some (dev ri))
         | Err e \<Rightarrow> Err e
         | Panic \<Rightarrow> Panic)"
  by pat_completeness auto

termination
  by (relation "measure (\<lambda>(succs, key, dev, indeg, ready, order, lst). sum_list indeg + length ready)")
    (auto dest!: release_runs_work simp: length_swap_remove)

definition run_key :: "run list \<Rightarrow> nat option list \<Rightarrow> backend_id option option \<Rightarrow> nat \<Rightarrow> nat option \<times> bool \<times> nat" where
  "run_key runs dw lst ri = (dw ! ri, (case lst of None \<Rightarrow> False | Some d \<Rightarrow> device (runs ! ri) = d), ri)"

text \<open>The outcome is \<open>None\<close> when the search for the weights does not end.\<close>

definition device_alternating_order :: "'f node list \<Rightarrow> run list \<Rightarrow> nat list ir_result option" where
  "device_alternating_order ns runs = (let n = length runs in
     if n \<le> 1 then Some (Ok [0..<n])
     else if length (remdups (map device runs)) \<le> 1 then Some (Ok [0..<n])
     else (case weigh_all (compute_size ns runs) (run_succs ns runs) [0..<n] (replicate n None) of
         None \<Rightarrow> None
       | Some dw \<Rightarrow>
           let indeg = map (\<lambda>ri. length (run_preds ns runs ri)) [0..<n];
               ready = filter (\<lambda>ri. indeg ! ri = 0) [0..<n]
           in Some (rust_bind (pump (run_succs ns runs) (run_key runs dw) (\<lambda>ri. device (runs ! ri)) indeg ready [] None) (\<lambda>order.
                Ok (if length order \<noteq> n then order @ filter (\<lambda>ri. ri \<notin> set order) [0..<n] else order)))))"

section \<open>Lowering a route\<close>

text \<open>A computation that may panic and may not end.\<close>

definition lift_bind :: "('a, 'e) rust option \<Rightarrow> ('a \<Rightarrow> ('b, 'e) rust option) \<Rightarrow> ('b, 'e) rust option" where
  "lift_bind m f = (case m of None \<Rightarrow> None | Some (Ok a) \<Rightarrow> f a | Some (Err e) \<Rightarrow> Some (Err e) | Some Panic \<Rightarrow> Some Panic)"

definition emit_runs :: "'f node list \<Rightarrow> run list \<Rightarrow> node_id list ir_result option" where
  "emit_runs ns runs = lift_bind (device_alternating_order ns runs) (\<lambda>perm. Some (Ok (concat (map (\<lambda>ri. members (runs ! ri)) perm))))"

definition lower_picked_route :: "('f, 's) graph \<Rightarrow> node_id list \<Rightarrow> picked_route \<Rightarrow> node_id list ir_result option" where
  "lower_picked_route g roots picked = lift_bind (Some (extract_runs_multi g roots)) (\<lambda>runs.
     lift_bind (Some (non_chosen_arm_nodes g roots picked)) (\<lambda>skip.
     emit_runs (nodes g) (filter (\<lambda>r. entry r \<notin> set skip) runs)))"

definition lower_runs_arm0 :: "('f, 's) graph \<Rightarrow> node_id list \<Rightarrow> node_id list ir_result option" where
  "lower_runs_arm0 g roots = lower_picked_route g roots []"

section \<open>Lowering while the route is picked\<close>

text \<open>The picker has a state of its own, read and changed when a branch is reached.\<close>

type_synonym 'p picker = "'p \<Rightarrow> node_id \<Rightarrow> nat \<times> 'p"

definition opened_by :: "arm_meta list \<Rightarrow> node_id \<Rightarrow> arm_meta list" where
  "opened_by metas e = concat (map (\<lambda>m. map (\<lambda>_. m) (filter (\<lambda>(n, k). n = e) (arm_entries m))) metas)"

fun resolve_branches :: "'p picker \<Rightarrow> arm_meta list \<Rightarrow> 'p \<times> node_id list \<times> node_id list \<Rightarrow> 'p \<times> node_id list \<times> node_id list" where
  "resolve_branches pick [] st = st"
| "resolve_branches pick (m # ms) (p, skip, resolved) =
     (if meta_branch m \<in> set resolved then resolve_branches pick ms (p, skip, resolved)
      else (case pick p (meta_branch m) of (c, p') \<Rightarrow>
        resolve_branches pick ms (p', non_chosen_skip m c @ skip, meta_branch m # resolved)))"

fun stream_runs :: "'f node list \<Rightarrow> arm_meta list \<Rightarrow> 'p picker \<Rightarrow> run list \<Rightarrow>
    'p \<times> node_id list \<times> node_id list \<Rightarrow> run list \<Rightarrow> node_id list \<Rightarrow> (node_id list \<times> 'p) ir_result option" where
  "stream_runs ns metas pick [] (p, skip, resolved) seg out =
     lift_bind (emit_runs ns seg) (\<lambda>ms. Some (Ok (out @ ms, p)))"
| "stream_runs ns metas pick (r # rs) (p, skip, resolved) seg out =
     (let bs = opened_by metas (entry r); opens = list_ex (\<lambda>m. meta_branch m \<notin> set resolved) bs in
      lift_bind (if opens then emit_runs ns seg else Some (Ok [])) (\<lambda>ms.
      case resolve_branches pick bs (p, skip, resolved) of (p', skip', resolved') \<Rightarrow>
        let seg' = (if opens then [] else seg) in
        stream_runs ns metas pick rs (p', skip', resolved') (if entry r \<in> set skip' then seg' else seg' @ [r]) (out @ ms)))"

definition walk_picked_route_streaming :: "('f, 's) graph \<Rightarrow> node_id list \<Rightarrow> 'p picker \<Rightarrow> 'p \<Rightarrow> (node_id list \<times> 'p) ir_result option" where
  "walk_picked_route_streaming g roots pick p = lift_bind (Some (extract_runs_multi g roots)) (\<lambda>runs.
     lift_bind (Some (branch_arm_meta g roots)) (\<lambda>metas. stream_runs (nodes g) metas pick runs (p, [], []) [] []))"

definition lower_picked_route_streaming :: "('f, 's) graph \<Rightarrow> node_id list \<Rightarrow> 'p picker \<Rightarrow> 'p \<Rightarrow> (node_id list \<times> 'p) ir_result option" where
  "lower_picked_route_streaming g roots pick p = walk_picked_route_streaming g roots pick p"

section \<open>What the searches compute\<close>

lemma cone_loop_dfs:
  assumes "\<And>i. i \<in> set U \<Longrightarrow> i < length ns \<and> set (inputs (ns ! i)) \<subseteq> set U" and "set st \<subseteq> set U"
  shows "cone_loop ns U st seen = dfs (length ns) (\<lambda>i. inputs (ns ! i)) st seen"
  using assms
proof (induction ns U st seen rule: cone_loop.induct)
  case (2 ns U n st seen)
  have n: "n \<in> set U" "n < length ns" using 2(3,4) by auto
  show ?case
  proof (cases "n \<in> set seen")
    case True
    then show ?thesis using 2 n by simp
  next
    case False
    have "set (rev (filter (\<lambda>c. c \<notin> set (n # seen)) (inputs (ns ! n))) @ st) \<subseteq> set U" using 2(3) [OF n(1)] 2(4) by auto
    then have "cone_loop ns U (rev (filter (\<lambda>c. c \<notin> set (n # seen)) (inputs (ns ! n))) @ st) (n # seen) =
        dfs (length ns) (\<lambda>i. inputs (ns ! i)) (rev (filter (\<lambda>c. c \<notin> set (n # seen)) (inputs (ns ! n))) @ st) (n # seen)"
      by (intro 2(2)) (use False n(1) 2(3) in auto)
    then show ?thesis using False n by simp
  qed
qed simp

lemma set_backward_cone:
  assumes "inputs_ok ns" and "\<And>i. i \<in> set U \<Longrightarrow> i < length ns \<and> set (inputs (ns ! i)) \<subseteq> set U" and "x \<in> set U"
  shows "set (backward_cone ns U x) = (edges ns)\<^sup>* `` {x}"
proof -
  have "{y \<in> set [x]. y < length ns} = {x}" using assms(2,3) by auto
  then show ?thesis
    using cone_loop_dfs [OF assms(2), of "[x]" "[]"] assms(3) set_dfs [of "length ns" "\<lambda>i. inputs (ns ! i)" "[x]"]
      succ_edges_inputs [OF assms(1)] by (simp add: backward_cone_def)
qed

lemma set_shared_prefix: "cs \<noteq> [] \<Longrightarrow> set (shared_prefix cs) = (\<Inter>c \<in> set cs. set c)"
proof -
  have "set (foldl (\<lambda>s c. filter (\<lambda>n. n \<in> set c) s) s cs) = set s \<inter> (\<Inter>c \<in> set cs. set c)" for s :: "node_id list" and cs
    by (induction cs arbitrary: s) auto
  then show "cs \<noteq> [] \<Longrightarrow> ?thesis" by (cases cs) (auto simp: shared_prefix_def)
qed

text \<open>A branch takes part when it merges or reads what is computed.\<close>

definition takes_part :: "'f node list \<Rightarrow> node_id set \<Rightarrow> node_id \<Rightarrow> bool" where
  "takes_part ns R i \<longleftrightarrow> (\<exists>r. branch_target (ns ! i) = Some r \<and> (r \<in> R \<or> set (inputs (ns ! i)) \<inter> R \<noteq> {}))"

lemma participates_takes_part: "participates ns reach i \<longleftrightarrow> takes_part ns (set reach) i"
  by (auto simp: participates_def takes_part_def list_ex_iff split: option.splits)

lemma effective_roots_spec:
  assumes gi: "graph_inv g" and roots: "set roots \<subseteq> {..<length (nodes g)}"
  obtains eff where "effective_roots g roots = Ok eff" and "set roots \<subseteq> set eff" and "set eff \<subseteq> {..<length (nodes g)}"
    and "\<And>i. i < length (nodes g) \<Longrightarrow> takes_part (nodes g) ((edges (nodes g))\<^sup>* `` set eff) i \<Longrightarrow> i \<in> set eff"
    and "\<And>S. set roots \<subseteq> S \<Longrightarrow> (\<And>i. i < length (nodes g) \<Longrightarrow> takes_part (nodes g) ((edges (nodes g))\<^sup>* `` S) i \<Longrightarrow> i \<in> S) \<Longrightarrow> set eff \<subseteq> S"
proof -
  let ?ns = "nodes g" and ?n = "length (nodes g)"
  have "\<exists>eff. effective_roots g roots = Ok eff \<and> set roots \<subseteq> set eff \<and> set eff \<subseteq> {..<?n} \<and>
      (\<forall>i < ?n. takes_part ?ns ((edges ?ns)\<^sup>* `` set eff) i \<longrightarrow> i \<in> set eff) \<and>
      (\<forall>S. set roots \<subseteq> S \<longrightarrow> (\<forall>i < ?n. takes_part ?ns ((edges ?ns)\<^sup>* `` S) i \<longrightarrow> i \<in> S) \<longrightarrow> set eff \<subseteq> S)"
    using assms
  proof (induction g roots rule: effective_roots.induct)
    case (1 g seeds)
    let ?ns = "nodes g"
    note ok = graph_inv_parts [OF 1(2)]
    obtain reach where t: "topo_order_multi g seeds = Ok reach" "set reach = (edges ?ns)\<^sup>* `` set seeds"
      by (rule topo_order_multi_spec [OF ok(2,1) 1(3)]) (rule that)
    define new where "new = filter (\<lambda>i. i \<notin> set seeds \<and> participates ?ns reach i) [0..<length ?ns]"
    have new: "set new = {i. i < length ?ns \<and> i \<notin> set seeds \<and> takes_part ?ns ((edges ?ns)\<^sup>* `` set seeds) i}"
      by (auto simp: new_def participates_takes_part t(2))
    have er: "effective_roots g seeds = (if new = [] then Ok seeds else effective_roots g (seeds @ new))"
      by (subst effective_roots.simps) (simp add: t(1) new_def)
    show ?case
    proof (cases "new = []")
      case True
      then show ?thesis using er new 1(3) by auto
    next
      case False
      have "set (seeds @ new) \<subseteq> {..<length ?ns}" using 1(3) new by auto
      from 1(1) [OF t(1) new_def False 1(2) this]
      obtain eff where e: "effective_roots g (seeds @ new) = Ok eff" "set (seeds @ new) \<subseteq> set eff" "set eff \<subseteq> {..<length ?ns}"
          "\<forall>i < length ?ns. takes_part ?ns ((edges ?ns)\<^sup>* `` set eff) i \<longrightarrow> i \<in> set eff"
          "\<And>S. set (seeds @ new) \<subseteq> S \<Longrightarrow> (\<forall>i < length ?ns. takes_part ?ns ((edges ?ns)\<^sup>* `` S) i \<longrightarrow> i \<in> S) \<Longrightarrow> set eff \<subseteq> S"
        by blast
      have "set eff \<subseteq> S" if S: "set seeds \<subseteq> S" "\<forall>i < length ?ns. takes_part ?ns ((edges ?ns)\<^sup>* `` S) i \<longrightarrow> i \<in> S" for S
      proof (rule e(5) [OF _ S(2)])
        have "takes_part ?ns ((edges ?ns)\<^sup>* `` S) i" if "takes_part ?ns ((edges ?ns)\<^sup>* `` set seeds) i" for i
          using that S(1) unfolding takes_part_def by blast
        then show "set (seeds @ new) \<subseteq> S" using S new by auto
      qed
      then show ?thesis using er False e(1-4) by auto
    qed
  qed
  then obtain eff where "effective_roots g roots = Ok eff" "set roots \<subseteq> set eff" "set eff \<subseteq> {..<?n}"
    "\<forall>i < ?n. takes_part ?ns ((edges ?ns)\<^sup>* `` set eff) i \<longrightarrow> i \<in> set eff"
    "\<forall>S. set roots \<subseteq> S \<longrightarrow> (\<forall>i < ?n. takes_part ?ns ((edges ?ns)\<^sup>* `` S) i \<longrightarrow> i \<in> S) \<longrightarrow> set eff \<subseteq> S" by blast
  then show thesis by (intro that) blast+
qed

section \<open>What is extracted\<close>

definition run_ok :: "('f, 's) graph \<Rightarrow> node_id list \<Rightarrow> run \<Rightarrow> bool" where
  "run_ok g order r \<longleftrightarrow> members r \<noteq> [] \<and> entry r = hd (members r) \<and> run_exit r = last (members r) \<and>
     (\<forall>m \<in> set (members r). backend_of g m = device r) \<and>
     (\<forall>k. Suc k < length (members r) \<longrightarrow> inputs (nodes g ! (members r ! Suc k)) = [members r ! k] \<and> \<not> cuts g order (members r ! Suc k))"

text \<open>Between two runs there is a reason: the second does not continue the first, or its entry is a boundary.\<close>

definition boundary :: "('f, 's) graph \<Rightarrow> node_id list \<Rightarrow> run \<Rightarrow> run \<Rightarrow> bool" where
  "boundary g order r s \<longleftrightarrow> inputs (nodes g ! entry s) \<noteq> [run_exit r] \<or> cuts g order (entry s)"

definition partitioned :: "('f, 's) graph \<Rightarrow> node_id list \<Rightarrow> node_id list \<Rightarrow> run list \<Rightarrow> bool" where
  "partitioned g order pre runs \<longleftrightarrow> concat (map members runs) = filter (\<lambda>i. branch_target (nodes g ! i) = None) pre \<and>
     list_all (run_ok g order) runs \<and> (\<forall>k. Suc k < length runs \<longrightarrow> boundary g order (runs ! k) (runs ! Suc k))"

definition pending :: "node_id list \<Rightarrow> backend_id option \<Rightarrow> run list" where
  "pending cur d = (if cur = [] then [] else [finish_run cur d])"

lemma run_ok_snoc:
  assumes "run_ok g order (finish_run cur d)" and "cur \<noteq> []" and "inputs (nodes g ! i) = [last cur]" and "\<not> cuts g order i" and "backend_of g i = d"
  shows "run_ok g order (finish_run (cur @ [i]) d)"
proof -
  have "inputs (nodes g ! ((cur @ [i]) ! Suc k)) = [(cur @ [i]) ! k] \<and> \<not> cuts g order ((cur @ [i]) ! Suc k)"
    if k: "Suc k < length (cur @ [i])" for k
  proof (cases "Suc k = length cur")
    case True
    then have "length cur - 1 = k" by simp
    then have "last cur = cur ! k" using last_conv_nth [OF assms(2)] by simp
    then show ?thesis using True assms(3,4) by (simp add: nth_append)
  next
    case False
    then have "Suc k < length cur" using k by simp
    then show ?thesis using assms(1) by (simp add: run_ok_def finish_run_def nth_append)
  qed
  then show ?thesis using assms(1,2,5) by (simp add: run_ok_def finish_run_def)
qed

lemma run_step_partitioned:
  assumes inv: "partitioned g order pre (runs @ pending cur d)" and emp: "cur = [] \<Longrightarrow> runs = []"
    and st: "run_step g order (runs, cur, d) i = (runs', cur', d')" and i: "i \<in> set order" and cl: "set (inputs (nodes g ! i)) \<subseteq> set order"
  shows "partitioned g order (pre @ [i]) (runs' @ pending cur' d')" and "cur' = [] \<Longrightarrow> runs' = []"
proof -
  have ps: "preds_inside (nodes g) order i = inputs (nodes g ! i)" using cl by (auto simp: preds_inside_def filter_id_conv)
  have one: "run_ok g order (finish_run [i] (backend_of g i))" by (simp add: run_ok_def finish_run_def)
  consider (branch) "branch_target (nodes g ! i) \<noteq> None" | (first) "branch_target (nodes g ! i) = None" "cur = []"
    | (extend) "branch_target (nodes g ! i) = None" "cur \<noteq> []" "\<not> starts_new g order cur d i"
    | (start) "branch_target (nodes g ! i) = None" "cur \<noteq> []" "starts_new g order cur d i" by blast
  then have "partitioned g order (pre @ [i]) (runs' @ pending cur' d') \<and> (cur' = [] \<longrightarrow> runs' = [])"
  proof cases
    case branch
    then show ?thesis using inv emp st by (auto simp: partitioned_def)
  next
    case first
    then show ?thesis using inv emp st one by (auto simp: partitioned_def pending_def finish_run_def split: if_splits)
  next
    case extend
    then have eq: "runs' = runs" "cur' = cur @ [i]" "d' = d" using st by auto
    have "inputs (nodes g ! i) = [last cur]" "\<not> cuts g order i" "backend_of g i = d"
      using extend(2,3) by (auto simp: starts_new_def ps length_Suc_conv)
    moreover have "run_ok g order (finish_run cur d)" using inv extend(2) by (simp add: partitioned_def pending_def)
    ultimately have "run_ok g order (finish_run (cur @ [i]) d)" using extend(2) by (intro run_ok_snoc)
    moreover have "boundary g order r (finish_run (cur @ [i]) d) \<longleftrightarrow> boundary g order r (finish_run cur d)" for r
      using extend(2) by (simp add: boundary_def finish_run_def)
    ultimately show ?thesis using inv extend(1,2) eq
      by (auto simp: partitioned_def pending_def finish_run_def nth_append less_Suc_eq)
  next
    case start
    then have eq: "runs' = runs @ [finish_run cur d]" "cur' = [i]" "d' = backend_of g i" using st by auto
    have ok: "run_ok g order (finish_run cur d)" using inv start(2) by (simp add: partitioned_def pending_def)
    have "backend_of g (last cur) = d" using ok start(2) by (simp add: run_ok_def finish_run_def)
    then have "boundary g order (finish_run cur d) (finish_run [i] (backend_of g i))"
      using start(2,3) by (auto simp: boundary_def finish_run_def starts_new_def cuts_def ps Let_def)
    then show ?thesis using inv start(1,2) eq one
      by (auto simp: partitioned_def pending_def nth_append less_Suc_eq finish_run_def)
  qed
  then show "partitioned g order (pre @ [i]) (runs' @ pending cur' d')" and "cur' = [] \<Longrightarrow> runs' = []" by blast+
qed

lemma runs_of_partitioned:
  assumes cl: "\<And>i. i \<in> set order \<Longrightarrow> set (inputs (nodes g ! i)) \<subseteq> set order"
  shows "partitioned g order order (runs_of g order)"
proof -
  have "case foldl (run_step g order) ([], [], None) pre of (runs, cur, d) \<Rightarrow>
      partitioned g order pre (runs @ pending cur d) \<and> (cur = [] \<longrightarrow> runs = [])" if "set pre \<subseteq> set order" for pre
    using that
  proof (induction pre rule: rev_induct)
    case Nil
    then show ?case by (simp add: partitioned_def pending_def)
  next
    case (snoc i pre)
    obtain runs cur d where st: "foldl (run_step g order) ([], [], None) pre = (runs, cur, d)" by (cases "foldl (run_step g order) ([], [], None) pre")
    obtain runs' cur' d' where st': "run_step g order (runs, cur, d) i = (runs', cur', d')" by (cases "run_step g order (runs, cur, d) i")
    have inv: "partitioned g order pre (runs @ pending cur d)" "cur = [] \<Longrightarrow> runs = []" using snoc st by auto
    have "i \<in> set order" using snoc(2) by simp
    from run_step_partitioned [OF inv st' this cl [OF this]] show ?case using st st' by simp
  qed
  from this [of order] show ?thesis unfolding runs_of_def pending_def [symmetric] by (auto split: prod.splits)
qed

end
