(* ===== verification/GraphSchedule.thy ===== *)
theory GraphSchedule
  imports GraphRuns "HOL-Library.Multiset"
begin

text \<open>
  The reordering of runs: the weight of a run is the largest chunk downstream, the pump emits every run
  after the runs it reads from and always one of the heaviest that are ready, and the nodes of the reordered
  runs are still in an order in which inputs come first.
\<close>

section \<open>Weights\<close>

definition flows :: "(nat \<Rightarrow> nat list) \<Rightarrow> (nat \<times> nat) set" where
  "flows succs = {(r, s). s \<in> set (succs r)}"

definition is_weight :: "(nat \<Rightarrow> nat) \<Rightarrow> (nat \<Rightarrow> nat list) \<Rightarrow> nat \<Rightarrow> nat \<Rightarrow> bool" where
  "is_weight sz succs r w \<longleftrightarrow> (\<exists>s. (r, s) \<in> (flows succs)\<^sup>* \<and> sz s = w) \<and> (\<forall>s. (r, s) \<in> (flows succs)\<^sup>* \<longrightarrow> sz s \<le> w)"

definition weights_ok :: "(nat \<Rightarrow> nat) \<Rightarrow> (nat \<Rightarrow> nat list) \<Rightarrow> nat \<Rightarrow> nat option list \<Rightarrow> bool" where
  "weights_ok sz succs n dw \<longleftrightarrow> length dw = n \<and> (\<forall>i < n. \<forall>w. dw ! i = Some w \<longrightarrow> is_weight sz succs i w)"

definition forward :: "nat \<Rightarrow> (nat \<Rightarrow> nat list) \<Rightarrow> bool" where
  "forward n succs \<longleftrightarrow> (\<forall>r < n. \<forall>s \<in> set (succs r). r < s \<and> s < n)"

lemma fold_weights:
  assumes "\<And>s. s \<in> set ss \<Longrightarrow> \<exists>w. dw ! s = Some w"
  shows "foldl (\<lambda>w s. max_weight w (dw ! s)) (Some a) ss = Some (foldl max a (map (\<lambda>s. the (dw ! s)) ss))"
  using assms
proof (induction ss arbitrary: a)
  case (Cons s ss)
  obtain w where "dw ! s = Some w" using Cons(2) [of s] by auto
  then show ?case using Cons by (simp add: max_weight_def)
qed simp

lemma foldl_max: "a \<le> foldl max a ws \<and> (\<forall>w \<in> set ws. w \<le> foldl max a ws) \<and> (foldl max a ws = a \<or> foldl max a ws \<in> set ws)"
  for a :: nat
proof (induction ws arbitrary: a)
  case (Cons w ws)
  show ?case using Cons [of "max a w"] by (auto simp: max_def split: if_splits)
qed simp

lemma flows_split: "(r, t) \<in> (flows succs)\<^sup>* \<longleftrightarrow> t = r \<or> (\<exists>s \<in> set (succs r). (s, t) \<in> (flows succs)\<^sup>*)"
proof
  assume "(r, t) \<in> (flows succs)\<^sup>*"
  then show "t = r \<or> (\<exists>s \<in> set (succs r). (s, t) \<in> (flows succs)\<^sup>*)" by (cases rule: converse_rtranclE) (auto simp: flows_def)
next
  assume "t = r \<or> (\<exists>s \<in> set (succs r). (s, t) \<in> (flows succs)\<^sup>*)"
  then show "(r, t) \<in> (flows succs)\<^sup>*" by (auto simp: flows_def intro: converse_rtrancl_into_rtrancl)
qed

text \<open>Once all successors have their weight, the weight of the run follows.\<close>

lemma weight_of:
  assumes "\<And>s. s \<in> set (succs r) \<Longrightarrow> \<exists>w. dw ! s = Some w \<and> is_weight sz succs s w"
  shows "\<exists>w. foldl (\<lambda>w s. max_weight w (dw ! s)) (Some (sz r)) (succs r) = Some w \<and> is_weight sz succs r w"
proof -
  let ?ws = "map (\<lambda>s. the (dw ! s)) (succs r)"
  let ?w = "foldl max (sz r) ?ws"
  have each: "is_weight sz succs s (the (dw ! s))" if "s \<in> set (succs r)" for s using assms [OF that] by auto
  note m = foldl_max [of "sz r" ?ws]
  have "sz t \<le> ?w" if rt: "(r, t) \<in> (flows succs)\<^sup>*" for t
  proof (cases "t = r")
    case False
    then obtain s where s: "s \<in> set (succs r)" "(s, t) \<in> (flows succs)\<^sup>*" using rt flows_split [of r t succs] by blast
    then have "sz t \<le> the (dw ! s)" using each by (simp add: is_weight_def)
    also have "\<dots> \<le> ?w" using m s(1) by simp
    finally show ?thesis .
  qed (use m in simp)
  moreover have "\<exists>t. (r, t) \<in> (flows succs)\<^sup>* \<and> sz t = ?w"
  proof (cases "?w = sz r")
    case False
    then have "?w \<in> set ?ws" using m by blast
    then obtain s where s: "s \<in> set (succs r)" "?w = the (dw ! s)" unfolding set_map by blast
    then obtain t where "(s, t) \<in> (flows succs)\<^sup>*" "sz t = ?w" using each unfolding is_weight_def by metis
    then show ?thesis using s(1) flows_split [of r t succs] by blast
  qed auto
  moreover have "foldl (\<lambda>w s. max_weight w (dw ! s)) (Some (sz r)) (succs r) = Some ?w"
    by (rule fold_weights) (use assms in blast)
  ultimately show ?thesis unfolding is_weight_def by blast
qed

text \<open>Visiting a run adds weights and returns to the rest of the stack.\<close>

definition visits :: "(nat \<Rightarrow> nat) \<Rightarrow> (nat \<Rightarrow> nat list) \<Rightarrow> nat \<Rightarrow> (nat \<times> bool) list \<Rightarrow> nat set \<Rightarrow> nat option list \<Rightarrow> nat option list \<Rightarrow> bool" where
  "visits sz succs n ts R dw dw' \<longleftrightarrow> (\<forall>st. weigh sz succs (ts @ st) dw = weigh sz succs st dw') \<and> weights_ok sz succs n dw' \<and>
     (\<forall>i < n. dw ! i \<noteq> None \<longrightarrow> dw' ! i = dw ! i) \<and> (\<forall>i \<in> R. dw' ! i \<noteq> None)"

lemma visits_append:
  assumes a: "visits sz succs n ts R dw dw1" and b: "visits sz succs n us S dw1 dw2" and R: "R \<subseteq> {..<n}"
  shows "visits sz succs n (ts @ us) (R \<union> S) dw dw2"
proof -
  have "dw2 ! i = dw ! i" if "i < n" "dw ! i \<noteq> None" for i using a b that by (simp add: visits_def)
  moreover have "dw2 ! i \<noteq> None" if "i \<in> R \<union> S" for i
  proof (cases "i \<in> R")
    case True
    then have "dw1 ! i \<noteq> None" "i < n" using a R by (auto simp: visits_def)
    then show ?thesis using b by (simp add: visits_def)
  qed (use that b in \<open>simp add: visits_def\<close>)
  ultimately show ?thesis using a b by (simp add: visits_def)
qed

lemma visits_list:
  assumes each: "\<And>s dw. s \<in> set ss \<Longrightarrow> weights_ok sz succs n dw \<Longrightarrow> \<exists>dw'. visits sz succs n [(s, False)] {s} dw dw'"
    and ss: "set ss \<subseteq> {..<n}" and ok: "weights_ok sz succs n dw"
  shows "\<exists>dw'. visits sz succs n (map (\<lambda>s. (s, False)) ss) (set ss) dw dw'"
  using each ss ok
proof (induction ss arbitrary: dw)
  case Nil
  then show ?case by (auto simp: visits_def)
next
  case (Cons s ss)
  obtain dw1 where a: "visits sz succs n [(s, False)] {s} dw dw1" using Cons.prems(1) [OF _ Cons.prems(3), of s] by auto
  then have ok1: "weights_ok sz succs n dw1" by (simp add: visits_def)
  have "\<exists>dw2. visits sz succs n (map (\<lambda>s. (s, False)) ss) (set ss) dw1 dw2"
    by (rule Cons.IH [OF Cons.prems(1) _ ok1]) (use Cons.prems(2) in auto)
  then obtain dw2 where "visits sz succs n (map (\<lambda>s. (s, False)) ss) (set ss) dw1 dw2" by blast
  from visits_append [OF a this] Cons.prems(2) show ?case by auto
qed

lemma visit_run:
  assumes fw: "forward n succs"
  shows "r < n \<Longrightarrow> weights_ok sz succs n dw \<Longrightarrow> \<exists>dw'. visits sz succs n [(r, False)] {r} dw dw'"
proof (induction "n - r" arbitrary: r dw rule: less_induct)
  case less
  show ?case
  proof (cases "dw ! r = None")
    case False
    then have "weigh sz succs ([(r, False)] @ st) dw = weigh sz succs st dw" for st by (subst weigh.simps) simp
    then have "visits sz succs n [(r, False)] {r} dw dw" unfolding visits_def using False less.prems(2) by blast
    then show ?thesis by blast
  next
    case True
    define ss where "ss = rev (filter (\<lambda>s. dw ! s = None) (succs r))"
    have lt: "r < s \<and> s < n" if "s \<in> set (succs r)" for s using fw less.prems(1) that unfolding forward_def by blast
    have ss: "set ss \<subseteq> {..<n}" using lt by (auto simp: ss_def)
    have "\<exists>dw'. visits sz succs n [(s, False)] {s} dw2 dw'" if "s \<in> set ss" "weights_ok sz succs n dw2" for s dw2
      using less.hyps [of s dw2] lt [of s] that by (auto simp: ss_def)
    from visits_list [OF this ss less.prems(2)] obtain dw1 where v: "visits sz succs n (map (\<lambda>s. (s, False)) ss) (set ss) dw dw1" by blast
    then have ok1: "weights_ok sz succs n dw1" by (simp add: visits_def)
    have "\<exists>w. dw1 ! s = Some w \<and> is_weight sz succs s w" if s: "s \<in> set (succs r)" for s
    proof -
      have "dw1 ! s \<noteq> None" using v s lt [OF s] by (cases "dw ! s = None") (auto simp: visits_def ss_def)
      then show ?thesis using ok1 lt [OF s] by (auto simp: weights_ok_def)
    qed
    from weight_of [OF this] obtain w where w: "foldl (\<lambda>w s. max_weight w (dw1 ! s)) (Some (sz r)) (succs r) = Some w" "is_weight sz succs r w"
      by blast
    have step: "weigh sz succs ([(r, False)] @ st) dw = weigh sz succs (map (\<lambda>s. (s, False)) ss @ (r, True) # st) dw" for st
      by (subst weigh.simps) (simp add: True ss_def rev_map)
    have step2: "weigh sz succs ((r, True) # st) dw1 = weigh sz succs st (dw1[r := Some w])" for st
      by (subst weigh.simps) (simp add: w)
    have "weigh sz succs ([(r, False)] @ st) dw = weigh sz succs st (dw1[r := Some w])" for st
      using v step step2 by (simp add: visits_def)
    moreover have len: "length dw1 = n" using ok1 by (simp add: weights_ok_def)
    moreover have "weights_ok sz succs n (dw1[r := Some w])" using ok1 w(2) less.prems(1) by (auto simp: weights_ok_def nth_list_update split: if_splits)
    ultimately show ?thesis using v True less.prems(1) by (intro exI [of _ "dw1[r := Some w]"]) (auto simp: visits_def nth_list_update)
  qed
qed

lemma weigh_all_spec:
  assumes fw: "forward n succs"
  shows "set rs \<subseteq> {..<n} \<Longrightarrow> weights_ok sz succs n dw \<Longrightarrow>
    \<exists>dw'. weigh_all sz succs rs dw = Some dw' \<and> weights_ok sz succs n dw' \<and> (\<forall>i < n. dw ! i \<noteq> None \<or> i \<in> set rs \<longrightarrow> dw' ! i \<noteq> None)"
proof (induction rs arbitrary: dw)
  case (Cons r rs)
  have "\<exists>dw1. weigh_all sz succs (r # rs) dw = weigh_all sz succs rs dw1 \<and> weights_ok sz succs n dw1 \<and>
      (\<forall>i < n. dw ! i \<noteq> None \<or> i = r \<longrightarrow> dw1 ! i \<noteq> None)"
  proof (cases "dw ! r = None")
    case True
    obtain dw1 where v: "visits sz succs n [(r, False)] {r} dw dw1" using visit_run [OF fw _ Cons.prems(2), of r] Cons.prems(1) by auto
    then have "weigh sz succs [(r, False)] dw = weigh sz succs [] dw1" unfolding visits_def by (metis append_Nil2)
    then have "weigh sz succs [(r, False)] dw = Some dw1" by (subst (asm) (2) weigh.simps) simp
    then have eq: "weigh_all sz succs (r # rs) dw = weigh_all sz succs rs dw1" using True by simp
    have "dw1 ! i \<noteq> None" if "i < n" "dw ! i \<noteq> None \<or> i = r" for i
      using v that unfolding visits_def by (cases "i = r") auto
    then show ?thesis using eq v unfolding visits_def by blast
  next
    case False
    then have "weigh_all sz succs (r # rs) dw = weigh_all sz succs rs dw" by simp
    then show ?thesis using False Cons.prems(2) by blast
  qed
  then obtain dw1 where d1: "weigh_all sz succs (r # rs) dw = weigh_all sz succs rs dw1" "weights_ok sz succs n dw1"
      "\<forall>i < n. dw ! i \<noteq> None \<or> i = r \<longrightarrow> dw1 ! i \<noteq> None" by blast
  have "set rs \<subseteq> {..<n}" using Cons.prems(1) by simp
  from Cons.IH [OF this d1(2)] obtain dw2 where d2: "weigh_all sz succs rs dw1 = Some dw2" "weights_ok sz succs n dw2"
      "\<forall>i < n. dw1 ! i \<noteq> None \<or> i \<in> set rs \<longrightarrow> dw2 ! i \<noteq> None" by blast
  have "dw2 ! i \<noteq> None" if "i < n" "dw ! i \<noteq> None \<or> i \<in> set (r # rs)" for i
    using d1(3) d2(3) that by (cases "i \<in> set rs") auto
  then show ?case unfolding d1(1) using d2(1,2) by blast
qed auto

section \<open>The pump\<close>

lemma heavier_trans: "heavier a b \<Longrightarrow> heavier b c \<Longrightarrow> heavier a c"
  by (auto simp: heavier_def split: option.splits)

lemma key_less_trans: "key_less a b \<Longrightarrow> key_less b c \<Longrightarrow> key_less a c"
  by (cases a; cases b; cases c) (auto dest: heavier_trans)

lemma key_less_irrefl: "\<not> key_less a a"
  by (cases a) (auto simp: heavier_def split: option.splits)

lemma best_position_spec:
  assumes "xs ! fst best = b" and "snd best = key b" and "fst best < length xs" and "\<And>x. x \<in> set (take pos xs) \<Longrightarrow> \<not> key_less (key x) (key b)"
    and "drop pos xs = rs"
  shows "best_position key rs pos best < length xs \<and> (\<forall>x \<in> set xs. \<not> key_less (key x) (key (xs ! best_position key rs pos best)))"
  using assms
proof (induction rs arbitrary: pos best b)
  case Nil
  then show ?case by auto
next
  case (Cons r rs)
  have pl: "pos < length xs" using Cons.prems(5) by (metis drop_all linorder_not_less list.distinct(1))
  have pos: "pos < length xs" "xs ! pos = r" "drop (pos + 1) xs = rs" using Cons_nth_drop_Suc [OF pl] Cons.prems(5) pl by simp_all
  have tk: "take (pos + 1) xs = take pos xs @ [r]" using pos by (simp add: take_Suc_conv_app_nth)
  show ?case
  proof (cases "key_less (key r) (key b)")
    case True
    have "\<not> key_less (key x) (key r)" if "x \<in> set (take (pos + 1) xs)" for x
    proof -
      have "x = r \<or> x \<in> set (take pos xs)" using that tk by auto
      then show ?thesis using key_less_irrefl [of "key r"] Cons.prems(4) key_less_trans [OF _ True, of "key x"] by blast
    qed
    then show ?thesis using Cons.IH [of "(pos, key r)" r "pos + 1"] True Cons.prems(2) pos by simp
  next
    case False
    have "\<not> key_less (key x) (key b)" if "x \<in> set (take (pos + 1) xs)" for x
      using that Cons.prems(4) [of x] False unfolding tk by auto
    then show ?thesis using Cons.IH [of best b "pos + 1"] False Cons.prems(1-3) pos by simp
  qed
qed

lemma set_swap_remove:
  assumes "distinct xs" and "p < length xs"
  shows "set (swap_remove xs p) = set xs - {xs ! p}" and "distinct (swap_remove xs p)"
proof -
  have ne: "xs \<noteq> []" using assms(2) by auto
  define ys where "ys = butlast xs" define z where "z = last xs"
  have xs: "xs = ys @ [z]" using ne by (simp add: ys_def z_def)
  have d: "distinct ys" "z \<notin> set ys" using assms(1) xs by auto
  have sr: "swap_remove xs p = (if p = length ys then ys else ys[p := z])" by (simp add: swap_remove_def xs)
  show "set (swap_remove xs p) = set xs - {xs ! p}"
    using d assms(2) xs sr by (auto simp: nth_append set_update_distinct less_Suc_eq)
  show "distinct (swap_remove xs p)" using d assms(2) xs sr by (auto intro: distinct_list_update)
qed

lemma release_runs_Ok:
  assumes "distinct ss" and "\<And>s. s \<in> set ss \<Longrightarrow> s < length indeg \<and> s \<notin> set emitted \<and> 0 < indeg ! s"
  shows "\<exists>indeg'. release_runs emitted ss (indeg, ready) = Ok (indeg', ready @ filter (\<lambda>s. indeg ! s = 1) ss) \<and>
    length indeg' = length indeg \<and> (\<forall>i < length indeg. indeg' ! i = (if i \<in> set ss then indeg ! i - 1 else indeg ! i))"
  using assms
proof (induction ss arbitrary: indeg ready)
  case (Cons s ss)
  let ?indeg = "indeg[s := indeg ! s - 1]" and ?ready = "if indeg ! s = 1 then ready @ [s] else ready"
  have s: "s < length indeg" "s \<notin> set emitted" "0 < indeg ! s" "s \<notin> set ss" using Cons.prems by auto
  have same: "?indeg ! t = indeg ! t" if "t \<in> set ss" for t using that s(4) by (cases "t = s") auto
  have "\<exists>indeg'. release_runs emitted ss (?indeg, ?ready) = Ok (indeg', ?ready @ filter (\<lambda>s. ?indeg ! s = 1) ss) \<and>
    length indeg' = length ?indeg \<and> (\<forall>i < length ?indeg. indeg' ! i = (if i \<in> set ss then ?indeg ! i - 1 else ?indeg ! i))"
    by (rule Cons.IH) (use Cons.prems same in auto)
  moreover have "filter (\<lambda>s. ?indeg ! s = 1) ss = filter (\<lambda>s. indeg ! s = 1) ss" by (rule filter_cong) (use same in auto)
  moreover have "release_runs emitted (s # ss) (indeg, ready) = release_runs emitted ss (?indeg, ?ready)" using s by simp
  ultimately obtain indeg' where i: "release_runs emitted (s # ss) (indeg, ready) = Ok (indeg', ?ready @ filter (\<lambda>s. indeg ! s = 1) ss)"
      "length indeg' = length indeg" "\<And>i. i < length indeg \<Longrightarrow> indeg' ! i = (if i \<in> set ss then ?indeg ! i - 1 else ?indeg ! i)" by auto
  have "?ready @ filter (\<lambda>s. indeg ! s = 1) ss = ready @ filter (\<lambda>s. indeg ! s = 1) (s # ss)" by simp
  moreover have "indeg' ! i = (if i \<in> set (s # ss) then indeg ! i - 1 else indeg ! i)" if "i < length indeg" for i
    using i(3) [OF that] s(4) same [of i] that by (cases "i = s") auto
  ultimately show ?case using i(1,2) by auto
qed simp

definition run_graph :: "nat \<Rightarrow> (nat \<Rightarrow> nat list) \<Rightarrow> (nat \<Rightarrow> nat list) \<Rightarrow> bool" where
  "run_graph n preds succs \<longleftrightarrow> (\<forall>p s. s \<in> set (succs p) \<longleftrightarrow> s < n \<and> p \<in> set (preds s)) \<and> (\<forall>p. distinct (succs p)) \<and>
     (\<forall>s < n. set (preds s) \<subseteq> {..<s})"

definition ready_at :: "nat \<Rightarrow> (nat \<Rightarrow> nat list) \<Rightarrow> nat list \<Rightarrow> nat set" where
  "ready_at n preds order = {i. i < n \<and> i \<notin> set order \<and> set (preds i) \<subseteq> set order}"

text \<open>Every run of the order was ready, and none that was ready is heavier.\<close>

definition last_device :: "(nat \<Rightarrow> backend_id option) \<Rightarrow> nat list \<Rightarrow> backend_id option option" where
  "last_device dev xs = (if xs = [] then None else Some (dev (last xs)))"

definition critical_path :: "nat \<Rightarrow> (nat \<Rightarrow> nat list) \<Rightarrow> (backend_id option option \<Rightarrow> nat \<Rightarrow> nat option \<times> bool \<times> nat) \<Rightarrow>
    (nat \<Rightarrow> backend_id option) \<Rightarrow> nat list \<Rightarrow> bool" where
  "critical_path n preds key dev order \<longleftrightarrow> (\<forall>k < length order. order ! k \<in> ready_at n preds (take k order) \<and>
     (\<forall>i \<in> ready_at n preds (take k order). \<not> key_less (key (last_device dev (take k order)) i) (key (last_device dev (take k order)) (order ! k))))"

definition pump_inv :: "nat \<Rightarrow> (nat \<Rightarrow> nat list) \<Rightarrow> (backend_id option option \<Rightarrow> nat \<Rightarrow> nat option \<times> bool \<times> nat) \<Rightarrow>
    (nat \<Rightarrow> backend_id option) \<Rightarrow> nat list \<Rightarrow> nat list \<Rightarrow> nat list \<Rightarrow> bool" where
  "pump_inv n preds key dev indeg ready order \<longleftrightarrow> length indeg = n \<and> distinct order \<and> set order \<subseteq> {..<n} \<and> distinct ready \<and>
     set ready = ready_at n preds order \<and> (\<forall>i < n. i \<notin> set order \<longrightarrow> indeg ! i = card (set (preds i) - set order)) \<and>
     critical_path n preds key dev order"

lemma card_pending: "x \<in> set ps \<Longrightarrow> x \<notin> set order \<Longrightarrow> card (set ps - set order) = Suc (card (set ps - set (order @ [x])))"
  using card_Suc_Diff1 [of "set ps - set order" x] by (simp add: Diff_insert2 [symmetric] Un_commute insert_def [symmetric] set_diff_eq conj_ac)

lemma ready_at_snoc:
  assumes rg: "run_graph n preds succs" and x: "x \<notin> set order" and unseen: "\<And>s. s \<in> set (succs x) \<Longrightarrow> s \<notin> set (order @ [x])"
  shows "s \<in> ready_at n preds (order @ [x]) \<longleftrightarrow> s \<in> ready_at n preds order \<and> s \<noteq> x \<or> s \<in> set (succs x) \<and> set (preds s) \<subseteq> set (order @ [x])"
proof (cases "s \<in> set (succs x)")
  case True
  then have "s < n" "x \<in> set (preds s)" "s \<notin> set (order @ [x])" using rg unseen unfolding run_graph_def by blast+
  then show ?thesis using True x unfolding ready_at_def by auto
next
  case False
  then have "s < n \<Longrightarrow> x \<notin> set (preds s)" using rg unfolding run_graph_def by blast
  then have "s < n \<Longrightarrow> set (preds s) \<subseteq> set (order @ [x]) \<longleftrightarrow> set (preds s) \<subseteq> set order" by auto
  then show ?thesis using False unfolding ready_at_def by auto
qed

lemma pump_step:
  assumes inv: "pump_inv n preds key dev indeg (r # rs) order" and rg: "run_graph n preds succs"
    and pos: "pos = best_position (key (last_device dev order)) rs 1 (0, key (last_device dev order) r)"
  shows "\<exists>indeg' ready'. release_runs (order @ [(r # rs) ! pos]) (succs ((r # rs) ! pos)) (indeg, swap_remove (r # rs) pos) = Ok (indeg', ready') \<and>
    pump_inv n preds key dev indeg' ready' (order @ [(r # rs) ! pos])"
proof -
  let ?ready = "r # rs" and ?x = "(r # rs) ! pos" and ?key = "key (last_device dev order)"
  have len: "length indeg = n" and od: "distinct order" "set order \<subseteq> {..<n}" and rd: "distinct ?ready" "set ?ready = ready_at n preds order"
    and deg: "\<And>i. i < n \<Longrightarrow> i \<notin> set order \<Longrightarrow> indeg ! i = card (set (preds i) - set order)" and cp: "critical_path n preds key dev order"
    using inv by (auto simp: pump_inv_def)
  have b: "pos < length ?ready" "\<And>x. x \<in> set ?ready \<Longrightarrow> \<not> key_less (?key x) (?key ?x)"
    using best_position_spec [of ?ready "(0, ?key r)" r ?key 1 rs] pos key_less_irrefl by auto
  have xr: "?x \<in> set ?ready" using b(1) by (rule nth_mem)
  then have x: "?x < n" "?x \<notin> set order" "set (preds ?x) \<subseteq> set order" using rd(2) by (auto simp: ready_at_def)
  have sm: "s \<in> set (succs p) \<longleftrightarrow> s < n \<and> p \<in> set (preds s)" for p s using rg unfolding run_graph_def by blast
  have sp: "s < length indeg \<and> s \<notin> set (order @ [?x]) \<and> 0 < indeg ! s" if s: "s \<in> set (succs ?x)" for s
  proof -
    have sx: "s < n" "?x \<in> set (preds s)" using s sm by auto
    have "s \<notin> set order"
    proof
      assume "s \<in> set order"
      then obtain k where k: "k < length order" "order ! k = s" by (auto simp: in_set_conv_nth)
      then have "set (preds s) \<subseteq> set (take k order)" using cp by (auto simp: critical_path_def ready_at_def)
      then show False using sx(2) x(2) by (auto dest: in_set_takeD)
    qed
    moreover have "s \<noteq> ?x" using sx x(2,3) by auto
    moreover have "0 < card (set (preds s) - set order)" using sx(2) x(2) by (auto simp: card_gt_0_iff)
    ultimately show ?thesis using sx(1) len deg [of s] by simp
  qed
  have ds: "distinct (succs ?x)" using rg by (simp add: run_graph_def)
  obtain indeg' where rel: "release_runs (order @ [?x]) (succs ?x) (indeg, swap_remove ?ready pos) =
        Ok (indeg', swap_remove ?ready pos @ filter (\<lambda>s. indeg ! s = 1) (succs ?x))"
      and len': "length indeg' = length indeg"
      and deg': "\<And>i. i < length indeg \<Longrightarrow> indeg' ! i = (if i \<in> set (succs ?x) then indeg ! i - 1 else indeg ! i)"
    using release_runs_Ok [OF ds sp] by blast
  let ?ready' = "swap_remove ?ready pos @ filter (\<lambda>s. indeg ! s = 1) (succs ?x)"
  note sr = set_swap_remove [OF rd(1) b(1)]
  have one: "indeg ! s = 1 \<longleftrightarrow> set (preds s) \<subseteq> set (order @ [?x])" if s: "s \<in> set (succs ?x)" for s
  proof -
    have sx: "s < n" "?x \<in> set (preds s)" "s \<notin> set order" using s sm sp by auto
    have "indeg ! s = Suc (card (set (preds s) - set (order @ [?x])))" using deg [OF sx(1,3)] card_pending [OF sx(2) x(2)] by (simp only:)
    then show ?thesis by (simp add: Diff_eq_empty_iff)
  qed
  have ready': "set ?ready' = ready_at n preds (order @ [?x])"
    using sr(1) rd(2) one ready_at_snoc [OF rg x(2), of _] sp by (intro set_eqI) auto
  have "pump_inv n preds key dev indeg' ?ready' (order @ [?x])"
    unfolding pump_inv_def
  proof (intro conjI allI impI)
    show "set ?ready' = ready_at n preds (order @ [?x])" by (rule ready')
    have "s \<notin> ready_at n preds order" if "s \<in> set (succs ?x)" for s using that sm x(2) unfolding ready_at_def by blast
    then show "distinct ?ready'" using sr rd(2) ds by auto
    show "critical_path n preds key dev (order @ [?x])"
    proof -
      have "\<not> key_less (?key i) (?key ?x)" if "i \<in> ready_at n preds order" for i using b(2) that rd(2) by blast
      then show ?thesis using cp x by (auto simp: critical_path_def nth_append less_Suc_eq ready_at_def)
    qed
  next
    fix i assume i: "i < n" "i \<notin> set (order @ [?x])"
    show "indeg' ! i = card (set (preds i) - set (order @ [?x]))"
    proof (cases "i \<in> set (succs ?x)")
      case True
      then have "card (set (preds i) - set order) = Suc (card (set (preds i) - set (order @ [?x])))" using sm x(2) by (intro card_pending) auto
      then show ?thesis using True deg' [of i] deg [of i] i len by simp
    next
      case False
      then have "set (preds i) - set (order @ [?x]) = set (preds i) - set order" using sm i by auto
      then show ?thesis using False deg' [of i] deg [of i] i len by simp
    qed
  qed (use len len' od x in auto)
  then show ?thesis using rel by blast
qed

lemma pump_spec:
  assumes rg: "run_graph n preds succs"
  shows "pump_inv n preds key dev indeg ready order \<Longrightarrow> lst = last_device dev order \<Longrightarrow>
    \<exists>order' indeg'. pump succs key dev indeg ready order lst = Ok order' \<and> pump_inv n preds key dev indeg' [] order'"
  using assms
proof (induction succs key dev indeg ready order lst rule: pump.induct)
  case (2 succs key dev indeg r rs order lst)
  define pos where "pos = best_position (key lst) rs 1 (0, key lst r)"
  obtain indeg' ready' where rel: "release_runs (order @ [(r # rs) ! pos]) (succs ((r # rs) ! pos)) (indeg, swap_remove (r # rs) pos) = Ok (indeg', ready')"
      "pump_inv n preds key dev indeg' ready' (order @ [(r # rs) ! pos])"
    using pump_step [OF 2(2,4) pos_def [unfolded 2(3)]] by blast
  from 2(1) [OF refl pos_def refl refl rel(1) refl rel(2) _ 2(4)]
  show ?case using rel(1) by (simp add: pos_def Let_def last_device_def)
qed auto

lemma pump_complete:
  assumes inv: "pump_inv n preds key dev indeg [] order" and rg: "run_graph n preds succs"
  shows "set order = {..<n}"
proof
  have "i < n \<Longrightarrow> i \<in> set order" for i
  proof (induction i rule: less_induct)
    case (less i)
    have "set (preds i) \<subseteq> {..<i}" using rg less.prems by (simp add: run_graph_def)
    then have "set (preds i) \<subseteq> set order" using less by auto
    moreover have "ready_at n preds order = {}" using inv by (simp add: pump_inv_def)
    ultimately show ?case using less.prems unfolding ready_at_def by blast
  qed
  then show "{..<n} \<subseteq> set order" by auto
qed (use inv in \<open>simp add: pump_inv_def\<close>)

section \<open>Runs in order\<close>

definition flow :: "'f node list \<Rightarrow> node_id list \<Rightarrow> bool" where
  "flow ns xs \<longleftrightarrow> (\<forall>us m vs. xs = us @ m # vs \<longrightarrow> set (inputs (ns ! m)) \<inter> set xs \<subseteq> set us)"

text \<open>No member of the earlier run reads a member of the later one.\<close>

definition upstream :: "'f node list \<Rightarrow> run \<Rightarrow> run \<Rightarrow> bool" where
  "upstream ns r s \<longleftrightarrow> (\<forall>m \<in> set (members r). set (inputs (ns ! m)) \<inter> set (members s) = {})"

definition runs_in_order :: "'f node list \<Rightarrow> run list \<Rightarrow> bool" where
  "runs_in_order ns runs \<longleftrightarrow> distinct (concat (map members runs)) \<and> sorted_wrt (upstream ns) runs \<and> (\<forall>r \<in> set runs. flow ns (members r))"

lemma filter_split: "filter P xs = us @ m # vs \<Longrightarrow> \<exists>us' vs'. xs = us' @ m # vs' \<and> filter P us' = us"
proof (induction xs arbitrary: us)
  case (Cons x xs)
  show ?case
  proof (cases "P x")
    case True
    show ?thesis
    proof (cases us)
      case Nil
      then have "x # xs = [] @ m # xs \<and> filter P [] = us" using Cons.prems True by simp
      then show ?thesis by blast
    next
      case (Cons u us2)
      then have "filter P xs = us2 @ m # vs" "x = u" using Cons.prems True by simp_all
      then obtain us' vs' where "xs = us' @ m # vs'" "filter P us' = us2" using Cons.IH by blast
      then have "x # xs = (x # us') @ m # vs' \<and> filter P (x # us') = us" using True Cons \<open>x = u\<close> by simp
      then show ?thesis by blast
    qed
  next
    case False
    then obtain us' vs' where "xs = us' @ m # vs'" "filter P us' = us" using Cons by auto
    then have "x # xs = (x # us') @ m # vs' \<and> filter P (x # us') = us" using False by simp
    then show ?thesis by blast
  qed
qed simp

lemma flow_filter:
  assumes "flow ns xs"
  shows "flow ns (filter P xs)"
  unfolding flow_def
proof (intro allI impI subsetI)
  fix us m vs j assume eq: "filter P xs = us @ m # vs" and j: "j \<in> set (inputs (ns ! m)) \<inter> set (filter P xs)"
  obtain us' vs' where xs: "xs = us' @ m # vs'" "filter P us' = us" using filter_split [OF eq] by blast
  then have "set (inputs (ns ! m)) \<inter> set xs \<subseteq> set us'" using assms unfolding flow_def by blast
  then show "j \<in> set us" using j xs(2) by auto
qed

lemma flow_append:
  assumes "flow ns (xs @ ys)" and "distinct (xs @ ys)"
  shows "flow ns xs" and "flow ns ys" and "m \<in> set xs \<Longrightarrow> set (inputs (ns ! m)) \<inter> set ys = {}"
proof -
  have fx: "set (inputs (ns ! m)) \<inter> set (xs @ ys) \<subseteq> set us" if "xs = us @ m # vs" for us m vs
    using assms(1) that unfolding flow_def by (metis append.assoc append_Cons)
  then show "flow ns xs" unfolding flow_def by auto
  show "set (inputs (ns ! m)) \<inter> set ys = {}" if mx: "m \<in> set xs"
  proof -
    obtain us vs where "xs = us @ m # vs" using split_list [OF mx] by blast
    then show ?thesis using fx [of us m vs] assms(2) by auto
  qed
  show "flow ns ys" unfolding flow_def
  proof (intro allI impI)
    fix us m vs assume "ys = us @ m # vs"
    then have "set (inputs (ns ! m)) \<inter> set (xs @ ys) \<subseteq> set (xs @ us)" using assms(1) unfolding flow_def by (metis append.assoc)
    then show "set (inputs (ns ! m)) \<inter> set ys \<subseteq> set us" using assms(2) by auto
  qed
qed

lemma flow_runs: "flow ns (concat (map members runs)) \<Longrightarrow> distinct (concat (map members runs)) \<Longrightarrow> runs_in_order ns runs"
proof (induction runs)
  case (Cons r runs)
  have f: "flow ns (members r @ concat (map members runs))" "distinct (members r @ concat (map members runs))" using Cons.prems by simp_all
  note parts = flow_append [OF f]
  have "runs_in_order ns runs" using Cons.IH parts(2) f(2) by simp
  moreover have "upstream ns r s" if "s \<in> set runs" for s using parts(3) that by (fastforce simp: upstream_def)
  ultimately show ?case using f(2) parts(1) by (simp add: runs_in_order_def)
qed (simp add: runs_in_order_def)

lemma runs_in_order_filter: "runs_in_order ns runs \<Longrightarrow> runs_in_order ns (filter P runs)"
proof (induction runs)
  case (Cons r runs)
  then show ?case by (auto simp: runs_in_order_def)
qed simp

lemma flow_appendI:
  assumes fx: "flow ns xs" and fy: "flow ns ys" and up: "\<And>m. m \<in> set xs \<Longrightarrow> set (inputs (ns ! m)) \<inter> set ys = {}"
  shows "flow ns (xs @ ys)"
  unfolding flow_def
proof (intro allI impI)
  fix us m vs assume eq: "xs @ ys = us @ m # vs"
  show "set (inputs (ns ! m)) \<inter> set (xs @ ys) \<subseteq> set us"
  proof (cases "length us < length xs")
    case True
    have "xs ! length us = (xs @ ys) ! length us" using True by (simp add: nth_append)
    then have "xs ! length us = m" by (simp add: eq)
    moreover have "take (length us) xs = us" using arg_cong [OF eq, of "take (length us)"] True by simp
    ultimately have x: "xs = us @ m # drop (Suc (length us)) xs" using id_take_nth_drop [OF True] by simp
    then have "set (inputs (ns ! m)) \<inter> set xs \<subseteq> set us" using fx unfolding flow_def by blast
    moreover have "m \<in> set xs" by (subst x) simp
    ultimately show ?thesis using up [of m] unfolding set_append by blast
  next
    case False
    then obtain ws where us: "us = xs @ ws" using eq by (auto simp: append_eq_append_conv2 Cons_eq_append_conv)
    then have "ys = ws @ m # vs" using eq by simp
    then have "set (inputs (ns ! m)) \<inter> set ys \<subseteq> set ws" using fy unfolding flow_def by blast
    then show ?thesis unfolding us set_append by blast
  qed
qed

lemma runs_flow: "runs_in_order ns runs \<Longrightarrow> flow ns (concat (map members runs))"
proof (induction runs)
  case (Cons r runs)
  have "flow ns (members r @ concat (map members runs))"
  proof (rule flow_appendI)
    show "flow ns (members r)" "flow ns (concat (map members runs))" using Cons by (simp_all add: runs_in_order_def)
    show "set (inputs (ns ! m)) \<inter> set (concat (map members runs)) = {}" if "m \<in> set (members r)" for m
      using Cons.prems that by (fastforce simp: runs_in_order_def upstream_def)
  qed
  then show ?case by simp
qed (simp add: flow_def)

lemma run_of_iff:
  assumes "distinct (concat (map members runs))"
  shows "run_of runs m = Some ri \<longleftrightarrow> ri < length runs \<and> m \<in> set (members (runs ! ri))"
proof -
  let ?kv = "rev (concat (map (\<lambda>ri. map (\<lambda>m. (m, ri)) (members (runs ! ri))) [0..<length runs]))"
  have "map fst ?kv = rev (concat (map (\<lambda>ri. members (runs ! ri)) [0..<length runs]))"
    by (simp add: rev_map [symmetric] map_concat comp_def)
  also have "map (\<lambda>ri. members (runs ! ri)) [0..<length runs] = map members runs" by (rule nth_equalityI) simp_all
  finally have "distinct (map fst ?kv)" using assms by simp
  then show ?thesis unfolding run_of_def by (auto simp: map_of_eq_Some_iff)
qed

lemma set_run_preds:
  assumes "distinct (concat (map members runs))"
  shows "set (run_preds ns runs ri) = {pi. pi \<noteq> ri \<and> pi < length runs \<and>
    (\<exists>m \<in> set (members (runs ! ri)). set (inputs (ns ! m)) \<inter> set (members (runs ! pi)) \<noteq> {})}"
proof -
  have mf: "set (List.map_filter f xs) = {y. \<exists>x \<in> set xs. f x = Some y}" for f :: "node_id \<Rightarrow> nat option" and xs
    by (induction xs) (auto simp: map_filter_simps split: option.splits)
  show ?thesis by (auto simp: run_preds_def mf run_of_iff [OF assms])
qed

lemma run_graph_runs:
  assumes io: "runs_in_order ns runs"
  shows "run_graph (length runs) (run_preds ns runs) (run_succs ns runs)"
proof -
  have d: "distinct (concat (map members runs))" and up: "sorted_wrt (upstream ns) runs" using io by (simp_all add: runs_in_order_def)
  have "pi < ri" if "ri < length runs" "pi \<in> set (run_preds ns runs ri)" for ri pi
  proof (rule ccontr)
    assume "\<not> pi < ri"
    moreover have "pi \<noteq> ri" "pi < length runs" using that(2) unfolding set_run_preds [OF d] by blast+
    ultimately have "ri < pi" "pi < length runs" by simp_all
    then have "upstream ns (runs ! ri) (runs ! pi)" using up by (simp add: sorted_wrt_nth_less)
    then show False using that(2) unfolding set_run_preds [OF d] upstream_def by blast
  qed
  then show ?thesis by (auto simp: run_graph_def run_succs_def)
qed

lemma run_graph_forward: "run_graph n preds succs \<Longrightarrow> forward n succs"
  unfolding forward_def run_graph_def by blast

section \<open>The reordering\<close>

text \<open>A permutation in which every run comes after the runs it reads from.\<close>

definition dispatch_order :: "'f node list \<Rightarrow> run list \<Rightarrow> nat list \<Rightarrow> bool" where
  "dispatch_order ns runs perm \<longleftrightarrow> distinct perm \<and> set perm = {..<length runs} \<and>
     (\<forall>k < length perm. set (run_preds ns runs (perm ! k)) \<subseteq> set (take k perm))"

definition one_device :: "run list \<Rightarrow> bool" where
  "one_device runs \<longleftrightarrow> (\<exists>d. \<forall>r \<in> set runs. device r = d)"

lemma one_device_iff: "length (remdups (map device runs)) \<le> 1 \<longleftrightarrow> one_device runs"
proof -
  have "length (remdups (map device runs)) = card (device ` set runs)" by (simp add: length_remdups_card_conv)
  moreover have "card (device ` set runs) \<le> 1 \<longleftrightarrow> (\<forall>r \<in> set runs. \<forall>s \<in> set runs. device r = device s)"
    using card_le_Suc0_iff_eq [of "device ` set runs"] by simp
  moreover have "(\<forall>r \<in> set runs. \<forall>s \<in> set runs. device r = device s) \<longleftrightarrow> one_device runs"
    unfolding one_device_def by metis
  ultimately show ?thesis by (simp only:)
qed

lemma dispatch_identity:
  assumes "runs_in_order ns runs"
  shows "dispatch_order ns runs [0..<length runs]"
proof -
  have "set (run_preds ns runs i) \<subseteq> {..<i}" if "i < length runs" for i
    using run_graph_runs [OF assms] that by (simp add: run_graph_def)
  then show ?thesis by (auto simp: dispatch_order_def atLeast0LessThan)
qed

lemma device_order_spec:
  assumes io: "runs_in_order ns runs"
  shows "\<exists>perm. device_alternating_order ns runs = Some (Ok perm) \<and> dispatch_order ns runs perm \<and>
    (one_device runs \<longrightarrow> perm = [0..<length runs]) \<and>
    (\<not> one_device runs \<longrightarrow> (\<exists>dw. (\<forall>i < length runs. \<exists>w. dw ! i = Some w \<and> is_weight (compute_size ns runs) (run_succs ns runs) i w) \<and>
      critical_path (length runs) (run_preds ns runs) (run_key runs dw) (\<lambda>ri. device (runs ! ri)) perm))"
proof (cases "one_device runs")
  case True
  then have "device_alternating_order ns runs = Some (Ok [0..<length runs])"
    unfolding device_alternating_order_def Let_def one_device_iff by simp
  then show ?thesis using True dispatch_identity [OF io] by blast
next
  case False
  let ?n = "length runs" and ?preds = "run_preds ns runs" and ?succs = "run_succs ns runs" and ?dev = "\<lambda>ri. device (runs ! ri)"
  note rg = run_graph_runs [OF io]
  have n: "\<not> ?n \<le> 1"
  proof
    assume "?n \<le> 1"
    then have "one_device runs" unfolding one_device_iff [symmetric] using length_remdups_leq [of "map device runs"] by simp
    then show False using False by simp
  qed
  have w0: "weights_ok (compute_size ns runs) ?succs ?n (replicate ?n None)" by (simp add: weights_ok_def)
  have rng: "set [0..<?n] \<subseteq> {..<?n}" by auto
  obtain dw where dw: "weigh_all (compute_size ns runs) ?succs [0..<?n] (replicate ?n None) = Some dw"
      "weights_ok (compute_size ns runs) ?succs ?n dw" and some: "\<forall>i < ?n. (replicate ?n None :: nat option list) ! i \<noteq> None \<or> i \<in> set [0..<?n] \<longrightarrow> dw ! i \<noteq> None"
    using weigh_all_spec [OF run_graph_forward [OF rg] rng w0] by (elim exE conjE) (rule that)
  have w: "\<exists>w. dw ! i = Some w \<and> is_weight (compute_size ns runs) ?succs i w" if "i < ?n" for i
    using dw(2) some that by (auto simp: weights_ok_def)
  let ?indeg = "map (\<lambda>ri. length (?preds ri)) [0..<?n]"
  let ?ready = "filter (\<lambda>ri. ?indeg ! ri = 0) [0..<?n]"
  have "pump_inv ?n ?preds (run_key runs dw) ?dev ?indeg ?ready []"
    by (auto simp: pump_inv_def ready_at_def critical_path_def run_preds_def length_remdups_card_conv)
  from pump_spec [OF rg this, of None]
  obtain perm indeg' where p: "pump ?succs (run_key runs dw) (\<lambda>ri. device (runs ! ri)) ?indeg ?ready [] None = Ok perm"
      "pump_inv ?n ?preds (run_key runs dw) ?dev indeg' [] perm" by (auto simp: last_device_def)
  have s: "set perm = {..<?n}" "distinct perm" by (rule pump_complete [OF p(2) rg]) (use p(2) in \<open>simp add: pump_inv_def\<close>)
  then have len: "length perm = ?n" using distinct_card [of perm] by simp
  have cp: "critical_path ?n ?preds (run_key runs dw) ?dev perm" using p(2) by (simp add: pump_inv_def)
  have "device_alternating_order ns runs = Some (Ok perm)"
    unfolding device_alternating_order_def Let_def one_device_iff dw(1) option.case p(1) using n False len by simp
  moreover have "dispatch_order ns runs perm" using s cp len by (auto simp: dispatch_order_def critical_path_def ready_at_def)
  ultimately show ?thesis using False cp w by blast
qed

section \<open>The nodes that are emitted\<close>

lemma mset_concat_nth:
  assumes "distinct perm" and "set perm = {..<length runs}"
  shows "mset (concat (map (\<lambda>ri. f (runs ! ri)) perm)) = mset (concat (map f runs))"
proof -
  have "mset perm = mset [0..<length runs]" using assms set_eq_iff_mset_eq_distinct [of perm "[0..<length runs]"] by (simp add: atLeast0LessThan)
  then have "image_mset (\<lambda>ri. mset (f (runs ! ri))) (mset perm) = image_mset (\<lambda>ri. mset (f (runs ! ri))) (mset [0..<length runs])" by simp
  then have "sum_list (map (\<lambda>ri. mset (f (runs ! ri))) perm) = sum_list (map (\<lambda>ri. mset (f (runs ! ri))) [0..<length runs])"
    unfolding sum_mset_sum_list [symmetric] mset_map [symmetric] by (simp only:)
  moreover have "map (\<lambda>ri. mset (f (runs ! ri))) [0..<length runs] = map (\<lambda>r. mset (f r)) runs" by (rule nth_equalityI) simp_all
  ultimately show ?thesis by (simp add: mset_concat comp_def)
qed

lemma emit_runs_spec:
  assumes io: "runs_in_order ns runs"
  shows "\<exists>xs. emit_runs ns runs = Some (Ok xs) \<and> mset xs = mset (concat (map members runs)) \<and> flow ns xs \<and>
    (one_device runs \<longrightarrow> xs = concat (map members runs))"
proof -
  have d: "distinct (concat (map members runs))" and fl: "\<And>r. r \<in> set runs \<Longrightarrow> flow ns (members r)" using io by (simp_all add: runs_in_order_def)
  obtain perm where p: "device_alternating_order ns runs = Some (Ok perm)" "dispatch_order ns runs perm" "one_device runs \<longrightarrow> perm = [0..<length runs]"
    using device_order_spec [OF io] by blast
  let ?rs = "map (\<lambda>ri. runs ! ri) perm" and ?xs = "concat (map (\<lambda>ri. members (runs ! ri)) perm)"
  have perm: "distinct perm" "set perm = {..<length runs}" using p(2) by (simp_all add: dispatch_order_def)
  note ms = mset_concat_nth [OF perm, of members]
  have "upstream ns (runs ! (perm ! k)) (runs ! (perm ! l))" if kl: "k < l" "l < length perm" for k l
  proof (rule ccontr)
    assume "\<not> upstream ns (runs ! (perm ! k)) (runs ! (perm ! l))"
    moreover have "perm ! l \<noteq> perm ! k" using perm(1) kl by (simp add: nth_eq_iff_index_eq)
    moreover have "perm ! l < length runs" using perm(2) kl(2) nth_mem by blast
    ultimately have "perm ! l \<in> set (run_preds ns runs (perm ! k))" unfolding set_run_preds [OF d] upstream_def by blast
    moreover have "set (run_preds ns runs (perm ! k)) \<subseteq> set (take k perm)" using p(2) kl by (simp add: dispatch_order_def)
    ultimately have "perm ! l \<in> set (take k perm)" by blast
    then show False using perm(1) kl by (auto simp: in_set_conv_nth nth_eq_iff_index_eq)
  qed
  then have "sorted_wrt (upstream ns) ?rs" by (simp add: sorted_wrt_iff_nth_less)
  moreover have "distinct (concat (map members ?rs))" using mset_eq_imp_distinct_iff [OF ms] d by (simp add: comp_def)
  ultimately have "runs_in_order ns ?rs" using fl perm(2) by (auto simp: runs_in_order_def)
  then have "flow ns ?xs" using runs_flow [of ns ?rs] by (simp add: comp_def)
  moreover have "?xs = concat (map members runs)" if "one_device runs"
  proof -
    have "map (\<lambda>ri. members (runs ! ri)) [0..<length runs] = map members runs" by (rule nth_equalityI) simp_all
    then show ?thesis using p(3) that by simp
  qed
  ultimately show ?thesis using p(1) ms by (simp add: emit_runs_def lift_bind_def)
qed

end
