(* ===== verification/GraphRoutes.thy ===== *)
theory GraphRoutes
  imports GraphSchedule GraphRewrite
begin

text \<open>
  The lowering of routes: which nodes a picked route emits, and in which order. Where the arms of a branch share
  nothing but what all of them share, and nothing outside reads into an arm but the merge, a run lies
  inside an arm or outside it, and an emitted node finds its inputs emitted before it.
\<close>

section \<open>The walk\<close>

text \<open>The nodes a walk from the roots and the branches that take part visits, in order.\<close>

definition walk_order :: "('f, 's) graph \<Rightarrow> node_id list \<Rightarrow> node_id list \<Rightarrow> bool" where
  "walk_order g roots order \<longleftrightarrow> (\<exists>eff. effective_roots g roots = Ok eff \<and> topo_order_multi g eff = Ok order)"

lemma walk_order_spec:
  assumes gi: "graph_inv g" and roots: "set roots \<subseteq> {..<length (nodes g)}"
  obtains order where "walk_order g roots order" and "distinct order" and "flow (nodes g) order"
    and "\<And>i. i \<in> set order \<Longrightarrow> i < length (nodes g) \<and> set (inputs (nodes g ! i)) \<subseteq> set order" and "set roots \<subseteq> set order"
proof -
  note ok = graph_inv_parts [OF gi]
  obtain eff where eff: "effective_roots g roots = Ok eff" "set roots \<subseteq> set eff" "set eff \<subseteq> {..<length (nodes g)}"
    by (rule effective_roots_spec [OF assms]) (rule that)
  obtain order where o: "topo_order_multi g eff = Ok order" "distinct order" "ordered (nodes g) order" "set order = (edges (nodes g))\<^sup>* `` set eff"
    by (rule topo_order_multi_spec [OF ok(2,1) eff(3)]) (rule that)
  have "i < length (nodes g) \<and> set (inputs (nodes g ! i)) \<subseteq> set order" if i: "i \<in> set order" for i
  proof -
    have lt: "i < length (nodes g)" using i o(4) eff(3) reach_in [OF _ ok(1)] by auto
    then have "(i, j) \<in> (edges (nodes g))\<^sup>*" if "j \<in> set (inputs (nodes g ! i))" for j using that by (auto simp: edges_def)
    then show ?thesis using lt ordered_closed [OF o(3) i] by blast
  qed
  moreover have "flow (nodes g) order"
    unfolding flow_def
  proof (intro allI impI)
    fix us m vs assume eq: "order = us @ m # vs"
    then have "length us < length order" "order ! length us = m" "take (length us) order = us" by simp_all
    then show "set (inputs (nodes g ! m)) \<inter> set order \<subseteq> set us" using o(3) unfolding ordered_def by (metis le_infI1)
  qed
  ultimately show thesis using that o(1,2,4) eff(1,2) unfolding walk_order_def by blast
qed

lemma walk_order_results:
  assumes "walk_order g roots order"
  shows "extract_runs_multi g roots = Ok (runs_of g order)"
    and "non_chosen_arm_nodes g roots picked = Ok (concat (map (\<lambda>m. non_chosen_skip m (chosen_arm picked (meta_branch m))) (branch_metas (nodes g) order)))"
    and "branch_arm_meta g roots = Ok (branch_metas (nodes g) order)"
  using assms by (auto simp: walk_order_def extract_runs_multi_def non_chosen_arm_nodes_def branch_arm_meta_def)

lemma runs_of_in_order:
  assumes "distinct order" and "flow (nodes g) order" and cl: "\<And>i. i \<in> set order \<Longrightarrow> set (inputs (nodes g ! i)) \<subseteq> set order"
  shows "runs_in_order (nodes g) (runs_of g order)"
proof -
  have "concat (map members (runs_of g order)) = filter (\<lambda>i. branch_target (nodes g ! i) = None) order"
    using runs_of_partitioned [of order g, OF cl] by (simp add: partitioned_def)
  then show ?thesis using flow_runs flow_filter [OF assms(2)] assms(1) by (metis distinct_filter)
qed

text \<open>Every route is lowered, and inputs come before their readers.\<close>

lemma lower_route_spec:
  assumes gi: "graph_inv g" and roots: "set roots \<subseteq> {..<length (nodes g)}" and wo: "walk_order g roots order"
    and skip: "non_chosen_arm_nodes g roots picked = Ok skip"
  shows "\<exists>xs. lower_picked_route g roots picked = Some (Ok xs) \<and> distinct xs \<and> flow (nodes g) xs \<and>
    set xs = (\<Union>r \<in> {r \<in> set (runs_of g order). entry r \<notin> set skip}. set (members r)) \<and>
    (one_device (runs_of g order) \<longrightarrow> xs = concat (map members (filter (\<lambda>r. entry r \<notin> set skip) (runs_of g order))))"
proof -
  obtain order' where o: "walk_order g roots order'" "distinct order'" "flow (nodes g) order'"
      "\<And>i. i \<in> set order' \<Longrightarrow> i < length (nodes g) \<and> set (inputs (nodes g ! i)) \<subseteq> set order'"
    by (rule walk_order_spec [OF gi roots]) (rule that)
  have [simp]: "order' = order" using wo o(1) by (auto simp: walk_order_def)
  let ?kept = "filter (\<lambda>r. entry r \<notin> set skip) (runs_of g order)"
  have io: "runs_in_order (nodes g) ?kept"
    by (rule runs_in_order_filter, rule runs_of_in_order) (use o in auto)
  obtain xs where xs: "emit_runs (nodes g) ?kept = Some (Ok xs)" "mset xs = mset (concat (map members ?kept))" "flow (nodes g) xs"
      "one_device ?kept \<longrightarrow> xs = concat (map members ?kept)"
    using emit_runs_spec [OF io] by blast
  have "lower_picked_route g roots picked = Some (Ok xs)"
    using walk_order_results(1) [OF wo] skip xs(1) by (simp add: lower_picked_route_def lift_bind_def)
  moreover have "distinct xs" using mset_eq_imp_distinct_iff [OF xs(2)] io by (simp add: runs_in_order_def)
  moreover have "set xs = (\<Union>r \<in> {r \<in> set (runs_of g order). entry r \<notin> set skip}. set (members r))"
    using mset_eq_setD [OF xs(2)] by auto
  moreover have "one_device (runs_of g order) \<Longrightarrow> one_device ?kept" by (auto simp: one_device_def)
  ultimately show ?thesis using xs(3,4) by blast
qed

section \<open>Private arms\<close>

definition cone :: "'f node list \<Rightarrow> node_id \<Rightarrow> node_id set" where
  "cone ns x = (edges ns)\<^sup>* `` {x}"

text \<open>What all arms of a branch read.\<close>

definition common :: "'f node list \<Rightarrow> node_id \<Rightarrow> node_id set" where
  "common ns b = (\<Inter>a \<in> set (inputs (ns ! b)). cone ns a)"

definition taken :: "picked_route \<Rightarrow> 'f node list \<Rightarrow> node_id \<Rightarrow> nat" where
  "taken picked ns b = (let c = chosen_arm picked b in if c < length (inputs (ns ! b)) then c else 0)"

text \<open>The nodes that a route leaves out: read by an arm not taken, and not by the arm taken.\<close>

definition left_out :: "picked_route \<Rightarrow> 'f node list \<Rightarrow> node_id list \<Rightarrow> node_id set" where
  "left_out picked ns order = {n. \<exists>b \<in> set order. is_fork (ns ! b) \<and>
     (\<exists>k < length (inputs (ns ! b)). k \<noteq> taken picked ns b \<and> n \<in> cone ns (inputs (ns ! b) ! k) \<and>
        n \<notin> cone ns (inputs (ns ! b) ! taken picked ns b))}"

definition private_arms :: "'f node list \<Rightarrow> node_id list \<Rightarrow> bool" where
  "private_arms ns order \<longleftrightarrow> (\<forall>b \<in> set order. is_fork (ns ! b) \<longrightarrow>
     (\<forall>a \<in> set (inputs (ns ! b)). \<forall>a' \<in> set (inputs (ns ! b)). a \<noteq> a' \<longrightarrow> cone ns a \<inter> cone ns a' \<subseteq> common ns b) \<and>
     (\<forall>a \<in> set (inputs (ns ! b)). \<forall>n \<in> cone ns a - common ns b. \<forall>c \<in> set order. n \<in> set (inputs (ns ! c)) \<longrightarrow>
        c \<in> cone ns a \<or> branch_target (ns ! b) = Some c \<or> branch_target (ns ! c) \<noteq> None))"

lemma fork_cones:
  assumes ok: "inputs_ok ns" and cl: "\<And>i. i \<in> set order \<Longrightarrow> i < length ns \<and> set (inputs (ns ! i)) \<subseteq> set order"
    and b: "b \<in> set order" "is_fork (ns ! b)"
  shows "k < length (inputs (ns ! b)) \<Longrightarrow> set (map (backward_cone ns order) (inputs (ns ! b)) ! k) = cone ns (inputs (ns ! b) ! k)"
    and "set (shared_prefix (map (backward_cone ns order) (inputs (ns ! b)))) = common ns b"
proof -
  have each: "set (backward_cone ns order a) = cone ns a" if "a \<in> set (inputs (ns ! b))" for a
    unfolding cone_def by (rule set_backward_cone [OF ok cl]) (use that cl [OF b(1)] in auto)
  then show "k < length (inputs (ns ! b)) \<Longrightarrow> set (map (backward_cone ns order) (inputs (ns ! b)) ! k) = cone ns (inputs (ns ! b) ! k)" by simp
  have "inputs (ns ! b) \<noteq> []" using b(2) by (auto simp: is_fork_def)
  then show "set (shared_prefix (map (backward_cone ns order) (inputs (ns ! b)))) = common ns b"
    using each by (simp add: set_shared_prefix common_def)
qed

lemma meta_branch_of [simp]: "meta_branch (meta_of ns order b) = b"
  by (simp add: meta_of_def Let_def)

lemma set_skip:
  assumes ok: "inputs_ok (nodes g)" and wo: "walk_order g roots order" and skip: "non_chosen_arm_nodes g roots picked = Ok skip"
    and cl: "\<And>i. i \<in> set order \<Longrightarrow> i < length (nodes g) \<and> set (inputs (nodes g ! i)) \<subseteq> set order"
  shows "set skip = left_out picked (nodes g) order"
proof -
  let ?ns = "nodes g"
  have each: "set (non_chosen_skip (meta_of ?ns order b) (chosen_arm picked b)) = {n. \<exists>k < length (inputs (?ns ! b)). k \<noteq> taken picked ?ns b \<and>
      n \<in> cone ?ns (inputs (?ns ! b) ! k) \<and> n \<notin> cone ?ns (inputs (?ns ! b) ! taken picked ?ns b)}"
    if b: "b \<in> set order" "is_fork (?ns ! b)" for b
  proof -
    let ?as = "inputs (?ns ! b)"
    note fc = fork_cones [OF ok cl b]
    have t: "taken picked ?ns b < length ?as" using b(2) by (auto simp: taken_def is_fork_def Let_def)
    have sub: "common ?ns b \<subseteq> cone ?ns (?as ! taken picked ?ns b)" using t by (auto simp: common_def)
    have tk: "(if chosen_arm picked b < length ?as then chosen_arm picked b else 0) = taken picked ?ns b" by (simp add: taken_def)
    have "set (non_chosen_skip (meta_of ?ns order b) (chosen_arm picked b)) = (\<Union>k \<in> {..<length ?as}. if k = taken picked ?ns b then {}
        else {n \<in> cone ?ns (?as ! k). n \<notin> common ?ns b \<and> n \<notin> cone ?ns (?as ! taken picked ?ns b)})"
      using fc(1) fc(2) t tk by (auto simp: non_chosen_skip_def meta_of_def Let_def simp del: nth_map)
    then show ?thesis using sub by (auto split: if_splits)
  qed
  have "set skip = (\<Union>b \<in> {b \<in> set order. is_fork (?ns ! b)}. set (non_chosen_skip (meta_of ?ns order b) (chosen_arm picked b)))"
    using skip walk_order_results(2) [OF wo, of picked] by (auto simp: branch_metas_def)
  also have "\<dots> = (\<Union>b \<in> {b \<in> set order. is_fork (?ns ! b)}. {n. \<exists>k < length (inputs (?ns ! b)). k \<noteq> taken picked ?ns b \<and>
      n \<in> cone ?ns (inputs (?ns ! b) ! k) \<and> n \<notin> cone ?ns (inputs (?ns ! b) ! taken picked ?ns b)})"
    using each by (intro SUP_cong) auto
  finally show ?thesis unfolding left_out_def by blast
qed

lemma cone_closed: "n \<in> cone ns a \<Longrightarrow> n < length ns \<Longrightarrow> p \<in> set (inputs (ns ! n)) \<Longrightarrow> p \<in> cone ns a"
  unfolding cone_def by (auto simp: edges_def intro: rtrancl_into_rtrancl)

lemma private_armsD:
  assumes "private_arms ns order" and "b \<in> set order" and "is_fork (ns ! b)" and "a \<in> set (inputs (ns ! b))"
  shows "a' \<in> set (inputs (ns ! b)) \<Longrightarrow> n \<in> cone ns a \<Longrightarrow> n \<in> cone ns a' \<Longrightarrow> a = a' \<or> n \<in> common ns b"
    and "n \<in> cone ns a \<Longrightarrow> n \<notin> common ns b \<Longrightarrow> c \<in> set order \<Longrightarrow> n \<in> set (inputs (ns ! c)) \<Longrightarrow>
      c \<in> cone ns a \<or> branch_target (ns ! b) = Some c \<or> branch_target (ns ! c) \<noteq> None"
  using assms unfolding private_arms_def by blast+

text \<open>What reads a node left out is left out, or is the merge of the branch.\<close>

lemma left_out_reader:
  assumes pa: "private_arms ns order" and cl: "\<And>i. i \<in> set order \<Longrightarrow> i < length ns \<and> set (inputs (ns ! i)) \<subseteq> set order"
    and p: "p \<in> left_out picked ns order" and n: "n \<in> set order" "branch_target (ns ! n) = None" "p \<in> set (inputs (ns ! n))"
  shows "n \<in> left_out picked ns order \<or> (\<exists>b \<in> set order. branch_target (ns ! b) = Some n)"
proof -
  obtain b k where b: "b \<in> set order" "is_fork (ns ! b)" and k: "k < length (inputs (ns ! b))" "k \<noteq> taken picked ns b"
    and pk: "p \<in> cone ns (inputs (ns ! b) ! k)" "p \<notin> cone ns (inputs (ns ! b) ! taken picked ns b)" using p by (auto simp: left_out_def)
  let ?as = "inputs (ns ! b)"
  have t: "taken picked ns b < length ?as" using b(2) by (auto simp: taken_def is_fork_def Let_def)
  have nc: "p \<notin> common ns b" using pk(2) t nth_mem [OF t] by (auto simp: common_def)
  have nl: "n < length ns" using cl [OF n(1)] by simp
  from private_armsD(2) [OF pa b nth_mem [OF k(1)] pk(1) nc n(1,3)] n(2)
  consider "n \<in> cone ns (?as ! k)" | "branch_target (ns ! b) = Some n" by blast
  then show ?thesis
  proof cases
    case 1
    have "n \<notin> cone ns (?as ! taken picked ns b)" using pk(2) cone_closed [OF _ nl n(3)] by blast
    then show ?thesis using 1 b k unfolding left_out_def by blast
  next
    case 2
    then show ?thesis using b(1) by blast
  qed
qed

text \<open>A run lies inside the nodes left out or outside.\<close>

lemma departs_arm_entry:
  assumes ok: "inputs_ok ns" and cl: "\<And>i. i \<in> set order \<Longrightarrow> i < length ns \<and> set (inputs (ns ! i)) \<subseteq> set order"
    and b: "b \<in> set order" "is_fork (ns ! b)" and k: "k < length (inputs (ns ! b))"
    and n: "n \<in> cone ns (inputs (ns ! b) ! k)" "n \<notin> common ns b" "p \<in> set (inputs (ns ! n))" "p \<in> common ns b"
  shows "n \<in> set (compute_arm_entries ns order)"
proof -
  let ?cs = "map (backward_cone ns order) (inputs (ns ! b))"
  note fc = fork_cones [OF ok cl b]
  have "n \<in> set (departing ns (shared_prefix ?cs) (?cs ! k))"
    using n fc(2) fc(1) [OF _ k] by (auto simp: departing_def list_ex_iff simp del: nth_map)
  moreover have "?cs ! k \<in> set ?cs" using k by (intro nth_mem) simp
  ultimately have "n \<in> set (concat (map (departing ns (shared_prefix ?cs)) ?cs))" unfolding set_concat set_map by blast
  then show ?thesis using b unfolding compute_arm_entries_def by (auto simp: Let_def)
qed

lemma left_out_chain:
  assumes gi: "graph_inv g" and pa: "private_arms (nodes g) order"
    and cl: "\<And>i. i \<in> set order \<Longrightarrow> i < length (nodes g) \<and> set (inputs (nodes g ! i)) \<subseteq> set order"
    and n: "n \<in> set order" "branch_target (nodes g ! n) = None" "inputs (nodes g ! n) = [p]" "\<not> cuts g order n"
  shows "n \<in> left_out picked (nodes g) order \<longleftrightarrow> p \<in> left_out picked (nodes g) order"
proof
  let ?ns = "nodes g"
  have nl: "n < length ?ns" and po: "p \<in> set order" using cl [OF n(1)] n(3) by auto
  have no: "n \<notin> set (reconverge_points ?ns order)" "n \<notin> set (compute_arm_entries ?ns order)" using n(4) by (auto simp: cuts_def Let_def)
  assume "n \<in> left_out picked ?ns order"
  then obtain b k where b: "b \<in> set order" "is_fork (?ns ! b)" and k: "k < length (inputs (?ns ! b))" "k \<noteq> taken picked ?ns b"
    and nk: "n \<in> cone ?ns (inputs (?ns ! b) ! k)" "n \<notin> cone ?ns (inputs (?ns ! b) ! taken picked ?ns b)" by (auto simp: left_out_def)
  let ?as = "inputs (?ns ! b)"
  have t: "taken picked ?ns b < length ?as" using b(2) by (auto simp: taken_def is_fork_def Let_def)
  have nc: "n \<notin> common ?ns b" using nk(2) nth_mem [OF t] by (auto simp: common_def)
  have pk: "p \<in> cone ?ns (?as ! k)" using cone_closed [OF nk(1) nl] n(3) by simp
  have "p \<notin> cone ?ns (?as ! taken picked ?ns b)"
  proof
    assume "p \<in> cone ?ns (?as ! taken picked ?ns b)"
    then have "?as ! k = ?as ! taken picked ?ns b \<or> p \<in> common ?ns b" using private_armsD(1) [OF pa b nth_mem [OF k(1)] nth_mem [OF t] pk] by blast
    then show False using nk departs_arm_entry [OF graph_inv_parts(1) [OF gi] cl b k(1) nk(1) nc, of p] n(3) no(2) by auto
  qed
  then show "p \<in> left_out picked ?ns order" using b k pk unfolding left_out_def by blast
next
  assume "p \<in> left_out picked (nodes g) order"
  then have "n \<in> left_out picked (nodes g) order \<or> (\<exists>b \<in> set order. branch_target (nodes g ! b) = Some n)"
    using left_out_reader [where picked = picked and p = p, OF pa _ _ n(1,2)] cl n(3) by simp
  moreover have "n \<notin> set (reconverge_points (nodes g) order)" using n(4) by (auto simp: cuts_def Let_def)
  moreover have "n \<in> set (reconverge_points (nodes g) order)" if "b \<in> set order" "branch_target (nodes g ! b) = Some n" for b
    using that by (force simp: reconverge_points_def List.map_filter_def)
  ultimately show "n \<in> left_out picked (nodes g) order" by blast
qed

text \<open>Chained members stand on one side.\<close>

lemma chain_same_side:
  assumes "\<And>k. Suc k < length ms \<Longrightarrow> (ms ! Suc k \<in> X \<longleftrightarrow> ms ! k \<in> X)" and "i < length ms"
  shows "ms ! i \<in> X \<longleftrightarrow> ms ! 0 \<in> X"
  using assms(2) by (induction i) (auto simp: assms(1))

lemma run_one_side:
  assumes gi: "graph_inv g" and pa: "private_arms (nodes g) order"
    and cl: "\<And>i. i \<in> set order \<Longrightarrow> i < length (nodes g) \<and> set (inputs (nodes g ! i)) \<subseteq> set order"
    and r: "run_ok g order r" "\<And>m. m \<in> set (members r) \<Longrightarrow> m \<in> set order \<and> branch_target (nodes g ! m) = None" and m: "m \<in> set (members r)"
  shows "m \<in> left_out picked (nodes g) order \<longleftrightarrow> entry r \<in> left_out picked (nodes g) order"
proof -
  obtain i where i: "i < length (members r)" "members r ! i = m" using m by (auto simp: in_set_conv_nth)
  have "members r ! Suc k \<in> left_out picked (nodes g) order \<longleftrightarrow> members r ! k \<in> left_out picked (nodes g) order" if k: "Suc k < length (members r)" for k
    by (rule left_out_chain [OF gi pa]) (use r k cl nth_mem [OF k] in \<open>auto simp: run_ok_def\<close>)
  from chain_same_side [of "members r", OF this i(1)] i(2) r(1) show ?thesis by (simp add: run_ok_def hd_conv_nth)
qed

lemma partitioned_members:
  assumes "partitioned g order pre runs"
  shows "(\<Union>r \<in> set runs. set (members r)) = {n \<in> set pre. branch_target (nodes g ! n) = None}"
proof -
  have "set (concat (map members runs)) = set (filter (\<lambda>i. branch_target (nodes g ! i) = None) pre)"
    using assms unfolding partitioned_def by (simp only:)
  then show ?thesis by simp
qed

text \<open>With private arms a route emits all it does not leave out, and an emitted node finds its inputs
  there; only a merge reads the end of an arm that was not taken.\<close>

definition ready_inputs :: "picked_route \<Rightarrow> 'f node list \<Rightarrow> node_id list \<Rightarrow> node_id list \<Rightarrow> node_id \<Rightarrow> bool" where
  "ready_inputs picked ns order us m \<longleftrightarrow> (\<forall>p \<in> set (inputs (ns ! m)). p \<in> set us \<or>
     p \<in> left_out picked ns order \<and> (\<exists>b \<in> set order. branch_target (ns ! b) = Some m))"

lemma route_private:
  assumes gi: "graph_inv g" and roots: "set roots \<subseteq> {..<length (nodes g)}" and wo: "walk_order g roots order"
    and pa: "private_arms (nodes g) order"
  shows "\<exists>xs. lower_picked_route g roots picked = Some (Ok xs) \<and> distinct xs \<and>
    set xs = {n \<in> set order. branch_target (nodes g ! n) = None \<and> n \<notin> left_out picked (nodes g) order} \<and>
    (\<forall>us m vs. xs = us @ m # vs \<longrightarrow> ready_inputs picked (nodes g) order us m)"
proof -
  let ?ns = "nodes g" and ?lo = "left_out picked (nodes g) order"
  obtain order' where "walk_order g roots order'" and
      cl': "\<And>i. i \<in> set order' \<Longrightarrow> i < length (nodes g) \<and> set (inputs (nodes g ! i)) \<subseteq> set order'"
    by (rule walk_order_spec [OF gi roots]) (rule that)
  then have [simp]: "order' = order" using wo by (auto simp: walk_order_def)
  have cl: "i < length ?ns \<and> set (inputs (?ns ! i)) \<subseteq> set order" if "i \<in> set order" for i using cl' that by simp
  obtain skip where skip: "non_chosen_arm_nodes g roots picked = Ok skip" using walk_order_results(2) [OF wo] by blast
  have sk: "set skip = ?lo" by (rule set_skip [OF graph_inv_parts(1) [OF gi] wo skip]) (rule cl)
  obtain xs where xs: "lower_picked_route g roots picked = Some (Ok xs)" "distinct xs" "flow ?ns xs"
      "set xs = (\<Union>r \<in> {r \<in> set (runs_of g order). entry r \<notin> set skip}. set (members r))"
    using lower_route_spec [OF gi roots wo skip] by blast
  have pt: "partitioned g order order (runs_of g order)" by (rule runs_of_partitioned) (use cl in blast)
  note mem = partitioned_members [OF pt]
  have side: "m \<in> ?lo \<longleftrightarrow> entry r \<in> ?lo" if "r \<in> set (runs_of g order)" "m \<in> set (members r)" for r m
  proof (rule run_one_side [OF gi pa cl _ _ that(2)])
    show "run_ok g order r" using pt that(1) unfolding partitioned_def list_all_iff by blast
    show "m \<in> set order \<and> branch_target (?ns ! m) = None" if "m \<in> set (members r)" for m using mem that \<open>r \<in> set (runs_of g order)\<close> by blast
  qed
  have all: "set xs = {n \<in> set order. branch_target (?ns ! n) = None \<and> n \<notin> ?lo}"
  proof -
    have "set xs = {n \<in> (\<Union>r \<in> set (runs_of g order). set (members r)). n \<notin> ?lo}" unfolding xs(4) sk using side by blast
    then show ?thesis unfolding mem by blast
  qed
  have "ready_inputs picked ?ns order us m" if eq: "xs = us @ m # vs" for us m vs
    unfolding ready_inputs_def
  proof (intro ballI)
    fix p assume p: "p \<in> set (inputs (?ns ! m))"
    have m: "m \<in> set order" "branch_target (?ns ! m) = None" "m \<notin> ?lo" using all eq by auto
    have "p \<in> set order" using cl m(1) p by blast
    moreover have "branch_target (?ns ! p) = None" using gi cl [OF m(1)] p unfolding graph_inv_def plain_branches_def by blast
    moreover have "p \<in> set us" if "p \<in> set xs" using xs(3) eq p that unfolding flow_def by blast
    moreover have "\<exists>b \<in> set order. branch_target (?ns ! b) = Some m" if "p \<in> ?lo"
    proof -
      have "m \<in> ?lo \<or> (\<exists>b \<in> set order. branch_target (?ns ! b) = Some m)" by (rule left_out_reader [OF pa _ that m(1,2) p]) (rule cl)
      then show ?thesis using m(3) by blast
    qed
    moreover have "p \<in> set xs" if "p \<in> set order" "branch_target (?ns ! p) = None" "p \<notin> ?lo" using all that by simp
    ultimately show "p \<in> set us \<or> p \<in> ?lo \<and> (\<exists>b \<in> set order. branch_target (?ns ! b) = Some m)" by blast
  qed
  then show ?thesis using xs(1,2) all by blast
qed

section \<open>Streaming\<close>

lemma stream_runs_spec:
  assumes "runs_in_order ns (seg @ rs)" and "flow ns out" and "distinct out" and "set out \<inter> set (concat (map members (seg @ rs))) = {}"
    and "\<And>m. m \<in> set out \<Longrightarrow> set (inputs (ns ! m)) \<inter> set (concat (map members (seg @ rs))) = {}"
  shows "\<exists>xs p'. stream_runs ns metas pick rs st seg out = Some (Ok (xs, p')) \<and> distinct xs \<and> flow ns xs \<and>
    set xs \<subseteq> set out \<union> set (concat (map members (seg @ rs)))"
  using assms
proof (induction rs arbitrary: st seg out)
  case Nil
  obtain ms where ms: "emit_runs ns seg = Some (Ok ms)" "mset ms = mset (concat (map members seg))" "flow ns ms"
    using emit_runs_spec Nil.prems(1) by fastforce
  note eq = mset_eq_setD [OF ms(2)]
  have "flow ns (out @ ms)" by (rule flow_appendI [OF Nil.prems(2) ms(3)]) (use Nil.prems(5) eq in auto)
  moreover have "distinct (out @ ms)" using Nil.prems(1,3,4) mset_eq_imp_distinct_iff [OF ms(2)] eq by (auto simp: runs_in_order_def)
  ultimately show ?case using ms(1) eq by (cases st) (auto simp: lift_bind_def)
next
  case (Cons r rs)
  obtain p skip resolved where st: "st = (p, skip, resolved)" by (cases st)
  define bs opens where "bs = opened_by metas (entry r)" and "opens = list_ex (\<lambda>m. meta_branch m \<notin> set resolved) bs"
  obtain p' skip' resolved' where rb: "resolve_branches pick bs (p, skip, resolved) = (p', skip', resolved')" by (cases "resolve_branches pick bs (p, skip, resolved)")
  define seg' where "seg' = (if opens then [] else seg)"
  define seg'' where "seg'' = (if entry r \<in> set skip' then seg' else seg' @ [r])"
  have ro: "runs_in_order ns seg" using Cons.prems(1) by (auto simp: runs_in_order_def sorted_wrt_append)
  obtain es where es: "emit_runs ns seg = Some (Ok es)" "mset es = mset (concat (map members seg))" "flow ns es" using emit_runs_spec [OF ro] by blast
  define ms where "ms = (if opens then es else [])"
  note eq = mset_eq_setD [OF es(2)]
  have step: "stream_runs ns metas pick (r # rs) st seg out = stream_runs ns metas pick rs (p', skip', resolved') seg'' (out @ ms)"
    by (simp add: st bs_def [symmetric] opens_def [symmetric] es(1) rb lift_bind_def ms_def seg'_def seg''_def Let_def)
  have io: "runs_in_order ns (seg'' @ rs)" using Cons.prems(1) by (auto simp: seg''_def seg'_def runs_in_order_def sorted_wrt_append)
  have fl: "flow ns (out @ ms)" by (rule flow_appendI [OF Cons.prems(2)]) (use Cons.prems(5) eq es(3) in \<open>auto simp: ms_def flow_def\<close>)
  have di: "distinct (out @ ms)" using Cons.prems(3,4) ro mset_eq_imp_distinct_iff [OF es(2)] eq by (auto simp: runs_in_order_def ms_def)
  have sub: "set (concat (map members (seg'' @ rs))) \<subseteq> set (concat (map members (seg' @ r # rs)))" by (auto simp: seg''_def)
  have sub': "set ms \<union> set (concat (map members (seg' @ r # rs))) = set (concat (map members (seg @ r # rs)))" using eq by (auto simp: ms_def seg'_def)
  have "set ms \<inter> set (concat (map members (seg' @ r # rs))) = {}" using Cons.prems(1) eq by (auto simp: ms_def seg'_def runs_in_order_def)
  then have dj: "set (out @ ms) \<inter> set (concat (map members (seg'' @ rs))) = {}" using Cons.prems(4) sub sub' unfolding set_append by blast
  have "set (inputs (ns ! m)) \<inter> set (concat (map members (seg' @ r # rs))) = {}" if "m \<in> set ms" for m
    using that Cons.prems(1) eq by (fastforce simp: ms_def seg'_def runs_in_order_def sorted_wrt_append upstream_def split: if_splits)
  then have up: "set (inputs (ns ! m)) \<inter> set (concat (map members (seg'' @ rs))) = {}" if "m \<in> set (out @ ms)" for m
    using that Cons.prems(5) [of m] sub sub' unfolding set_append by blast
  obtain xs q where xs: "stream_runs ns metas pick rs (p', skip', resolved') seg'' (out @ ms) = Some (Ok (xs, q))" "distinct xs" "flow ns xs"
      "set xs \<subseteq> set (out @ ms) \<union> set (concat (map members (seg'' @ rs)))"
    using Cons.IH [OF io fl di dj up] by blast
  have "set xs \<subseteq> set out \<union> set (concat (map members (seg @ r # rs)))" using xs(4) sub sub' unfolding set_append by blast
  then show ?case using step xs(1-3) by (simp only:) blast
qed

text \<open>Whatever the picker answers, the streaming lowering ends, and no node comes before an emitted input.\<close>

lemma streaming_spec:
  assumes gi: "graph_inv g" and roots: "set roots \<subseteq> {..<length (nodes g)}"
  shows "\<exists>xs p'. lower_picked_route_streaming g roots pick p = Some (Ok (xs, p')) \<and> distinct xs \<and> flow (nodes g) xs"
proof -
  obtain order where o: "walk_order g roots order" "distinct order" "flow (nodes g) order"
      "\<And>i. i \<in> set order \<Longrightarrow> i < length (nodes g) \<and> set (inputs (nodes g ! i)) \<subseteq> set order"
    by (rule walk_order_spec [OF assms]) (rule that)
  have "runs_in_order (nodes g) ([] @ runs_of g order)" using runs_of_in_order [OF o(2,3)] o(4) by auto
  from stream_runs_spec [OF this, of "[]" "branch_metas (nodes g) order" pick "(p, [], [])"]
  show ?thesis using walk_order_results(1,3) [OF o(1)]
    by (auto simp: lower_picked_route_streaming_def walk_picked_route_streaming_def lift_bind_def flow_def)
qed

end
