(* ===== verification/RunProperties.thy ===== *)
theory RunProperties
  imports GraphRoutes GraphSamples
begin

text \<open>
  The properties of runs and routes: the extraction partitions the walk into straight-line runs, the runs are
  dispatched heaviest path first, every route is lowered to an order in which inputs come first, and with
  private arms nothing that is read is missing. Where an arm reads what a kept node reads too, it is missing.
\<close>

section \<open>Private arms, computed\<close>

definition private_check :: "'f node list \<Rightarrow> node_id list \<Rightarrow> bool" where
  "private_check ns order = list_all (\<lambda>b. is_fork (ns ! b) \<longrightarrow>
     (let as = inputs (ns ! b); sh = shared_prefix (map (backward_cone ns order) as) in
      list_all (\<lambda>a. list_all (\<lambda>a'. a = a' \<or> list_all (\<lambda>n. n \<in> set (backward_cone ns order a') \<longrightarrow> n \<in> set sh) (backward_cone ns order a)) as \<and>
        list_all (\<lambda>n. n \<in> set sh \<or> list_all (\<lambda>c. n \<in> set (inputs (ns ! c)) \<longrightarrow>
          c \<in> set (backward_cone ns order a) \<or> branch_target (ns ! b) = Some c \<or> branch_target (ns ! c) \<noteq> None) order)
          (backward_cone ns order a)) as)) order"

lemma private_check_sound:
  assumes ok: "inputs_ok ns" and cl: "\<And>i. i \<in> set order \<Longrightarrow> i < length ns \<and> set (inputs (ns ! i)) \<subseteq> set order" and ch: "private_check ns order"
  shows "private_arms ns order"
  unfolding private_arms_def
proof (intro ballI impI)
  fix b assume b: "b \<in> set order" "is_fork (ns ! b)"
  have each: "set (backward_cone ns order a) = cone ns a" if "a \<in> set (inputs (ns ! b))" for a
    unfolding cone_def by (rule set_backward_cone [OF ok cl]) (use that cl [OF b(1)] in auto)
  have sh: "set (shared_prefix (map (backward_cone ns order) (inputs (ns ! b)))) = common ns b"
    by (rule fork_cones(2) [OF ok cl b])
  show "(\<forall>a \<in> set (inputs (ns ! b)). \<forall>a' \<in> set (inputs (ns ! b)). a \<noteq> a' \<longrightarrow> cone ns a \<inter> cone ns a' \<subseteq> common ns b) \<and>
     (\<forall>a \<in> set (inputs (ns ! b)). \<forall>n \<in> cone ns a - common ns b. \<forall>c \<in> set order. n \<in> set (inputs (ns ! c)) \<longrightarrow>
        c \<in> cone ns a \<or> branch_target (ns ! b) = Some c \<or> branch_target (ns ! c) \<noteq> None)"
    using ch b each sh unfolding private_check_def Let_def list_all_iff by blast
qed

section \<open>A branched graph\<close>

text \<open>Two arms from a constant, a merge, and a reader of the constant beside them.\<close>

definition forked :: "(unit, unit) graph" where
  "forked = snd (finalize_branches \<lparr>diverge = 0, arms = [1, 2]\<rparr> 3 diamond)"

lemma forked_inv: "graph_inv forked"
  unfolding forked_def
  by (rule graph_inv_finalize [OF diamond_inv surjective_pairing])
    (auto simp: reads_plain_def diamond_def leaf_def unary_def branch_target_def)

lemma forked_walk: "walk_order forked [3, 4] [0, 2, 1, 5, 4, 3]"
proof -
  have "effective_roots forked [3, 4] = Ok [3, 4, 5]" by code_simp
  moreover have "topo_order_multi forked [3, 4, 5] = Ok [0, 2, 1, 5, 4, 3]" by code_simp
  ultimately show ?thesis by (auto simp: walk_order_def)
qed

lemma forked_roots: "set [3, 4] \<subseteq> {..<length (nodes forked)}"
proof -
  have "length (nodes forked) = 6" by code_simp
  then show ?thesis by simp
qed

lemma forked_private: "private_arms (nodes forked) [0, 2, 1, 5, 4, 3]"
proof (rule private_check_sound)
  show "inputs_ok (nodes forked)" by (rule graph_inv_parts(1) [OF forked_inv])
  show "private_check (nodes forked) [0, 2, 1, 5, 4, 3]" by code_simp
  have "list_all (\<lambda>i. i < length (nodes forked) \<and> list_all (\<lambda>j. j \<in> set [0, 2, 1, 5, 4, 3]) (inputs (nodes forked ! i))) [0, 2, 1, 5, 4, 3]" by code_simp
  then show "i < length (nodes forked) \<and> set (inputs (nodes forked ! i)) \<subseteq> set [0, 2, 1, 5, 4, 3]" if "i \<in> set [0, 2, 1, 5, 4, 3]" for i
    using that unfolding list_all_iff by blast
qed

text \<open>Two arms on two backends.\<close>

definition two_devices :: "(unit, unit) graph" where
  "two_devices = forked\<lparr>target_backends := [(0, Backend_Cpu), (2, Backend_Cuda), (1, Backend_Cpu), (4, Backend_Cuda), (3, Backend_Cpu)]\<rparr>"

lemma two_devices_inv: "graph_inv two_devices"
  using forked_inv by (auto simp: two_devices_def graph_inv_def arena_ok_def tables_ok_def layouts_ok_def)

lemma two_devices_roots: "set [3, 4] \<subseteq> {..<length (nodes two_devices)}"
  using forked_roots by (simp add: two_devices_def)

text \<open>An arm reads a node that a reader behind the merge shares.\<close>

definition entangled :: "(unit, unit) graph" where
  "entangled = snd (finalize_branches \<lparr>diverge = 0, arms = [1, 4]\<rparr> 5
     (arena_of [leaf, unary Neg 0, leaf, unary Exp 2, binary Add 0 3, unary Neg 1, binary Add 5 3]))"

lemma entangled_inv: "graph_inv entangled"
  unfolding entangled_def
proof (rule graph_inv_finalize [OF _ surjective_pairing])
  show "graph_inv (arena_of [leaf, unary Neg 0, leaf, unary Exp 2, binary Add 0 3, unary Neg 1, binary Add 5 3] :: (unit, unit) graph)"
    by (rule arena_of_inv) (simp_all add: index_ordered_def upt_rec leaf_def unary_def binary_def branch_target_def)
qed (auto simp: reads_plain_def leaf_def unary_def binary_def branch_target_def)

section \<open>Extraction\<close>

text \<open>
  C16: \<open>extract_runs_multi\<close> returns. Its walk starts from the roots and the least set of branches that merge
  into or read what is computed, and visits what those read once each, inputs first. The runs in their
  order are that walk without the branch nodes; inside a run every member reads its predecessor alone, on
  one backend, and is no merge, arm entry or transfer; between two runs there is a reason to cut.
\<close>

theorem extract_runs_exact:
  assumes gi: "graph_inv g" and roots: "set roots \<subseteq> {..<length (nodes g)}"
  shows "\<exists>eff order runs. effective_roots g roots = Ok eff \<and> set roots \<subseteq> set eff \<and>
    (\<forall>i < length (nodes g). takes_part (nodes g) ((edges (nodes g))\<^sup>* `` set eff) i \<longrightarrow> i \<in> set eff) \<and>
    (\<forall>S. set roots \<subseteq> S \<longrightarrow> (\<forall>i < length (nodes g). takes_part (nodes g) ((edges (nodes g))\<^sup>* `` S) i \<longrightarrow> i \<in> S) \<longrightarrow> set eff \<subseteq> S) \<and>
    distinct order \<and> set order = (edges (nodes g))\<^sup>* `` set eff \<and> flow (nodes g) order \<and>
    extract_runs_multi g roots = Ok runs \<and> partitioned g order order runs"
proof -
  obtain eff where eff: "effective_roots g roots = Ok eff" "set roots \<subseteq> set eff" "set eff \<subseteq> {..<length (nodes g)}"
    and closed: "\<forall>i < length (nodes g). takes_part (nodes g) ((edges (nodes g))\<^sup>* `` set eff) i \<longrightarrow> i \<in> set eff"
    and least: "\<forall>S. set roots \<subseteq> S \<longrightarrow> (\<forall>i < length (nodes g). takes_part (nodes g) ((edges (nodes g))\<^sup>* `` S) i \<longrightarrow> i \<in> S) \<longrightarrow> set eff \<subseteq> S"
  proof (rule effective_roots_spec [OF assms])
    fix eff
    assume e: "effective_roots g roots = Ok eff" "set roots \<subseteq> set eff" "set eff \<subseteq> {..<length (nodes g)}"
      and c: "\<And>i. i < length (nodes g) \<Longrightarrow> takes_part (nodes g) ((edges (nodes g))\<^sup>* `` set eff) i \<Longrightarrow> i \<in> set eff"
      and l: "\<And>S. set roots \<subseteq> S \<Longrightarrow> (\<And>i. i < length (nodes g) \<Longrightarrow> takes_part (nodes g) ((edges (nodes g))\<^sup>* `` S) i \<Longrightarrow> i \<in> S) \<Longrightarrow> set eff \<subseteq> S"
    show thesis by (rule that [OF e]) (use c l in blast)+
  qed
  obtain order where o: "walk_order g roots order" "distinct order" "flow (nodes g) order"
      and cl: "\<And>i. i \<in> set order \<Longrightarrow> i < length (nodes g) \<and> set (inputs (nodes g ! i)) \<subseteq> set order"
    by (rule walk_order_spec [OF assms]) (rule that)
  have t: "topo_order_multi g eff = Ok order" using o(1) eff(1) by (simp add: walk_order_def)
  have so: "set order = (edges (nodes g))\<^sup>* `` set eff"
    by (rule topo_order_multi_spec [OF graph_inv_parts(2,1) [OF gi] eff(3)]) (simp add: t)
  have "partitioned g order order (runs_of g order)" by (rule runs_of_partitioned) (use cl in blast)
  then show ?thesis
    using eff(1,2) closed least o(2,3) so walk_order_results(1) [OF o(1)] by blast
qed

theorem extract_runs_exact_witness:
  "\<exists>eff order runs. effective_roots forked [3, 4] = Ok eff \<and> distinct order \<and> set order = (edges (nodes forked))\<^sup>* `` set eff \<and>
    extract_runs_multi forked [3, 4] = Ok runs \<and> partitioned forked order order runs"
  using extract_runs_exact [OF forked_inv forked_roots] by (elim exE conjE) (intro exI conjI, assumption+)

section \<open>Dispatch\<close>

text \<open>
  C15: \<open>device_alternating_order\<close> on the runs of a graph returns a permutation of them in which a run comes
  after every run it reads. If all runs are on one device, it is the order of extraction. Otherwise
  each position holds the least of the runs that are ready there, that is, those whose predecessors are placed: the heavier
  run first, then a run on another device than the one before, then the earlier run. The weight of a run is
  the greatest size among itself and the runs downstream, where a transfer has size zero.
\<close>

theorem device_order_critical_path:
  assumes gi: "graph_inv g" and roots: "set roots \<subseteq> {..<length (nodes g)}"
  shows "\<exists>runs perm. extract_runs_multi g roots = Ok runs \<and> device_alternating_order (nodes g) runs = Some (Ok perm) \<and>
    distinct perm \<and> set perm = {..<length runs} \<and> (\<forall>k < length perm. set (run_preds (nodes g) runs (perm ! k)) \<subseteq> set (take k perm)) \<and>
    (if one_device runs then perm = [0..<length runs]
     else (\<exists>dw. (\<forall>i < length runs. \<exists>w. dw ! i = Some w \<and> is_weight (compute_size (nodes g) runs) (run_succs (nodes g) runs) i w) \<and>
       critical_path (length runs) (run_preds (nodes g) runs) (run_key runs dw) (\<lambda>ri. device (runs ! ri)) perm))"
proof -
  obtain order where o: "walk_order g roots order" "distinct order" "flow (nodes g) order"
      and cl: "\<And>i. i \<in> set order \<Longrightarrow> i < length (nodes g) \<and> set (inputs (nodes g ! i)) \<subseteq> set order"
    by (rule walk_order_spec [OF assms]) (rule that)
  have "runs_in_order (nodes g) (runs_of g order)" by (rule runs_of_in_order [OF o(2,3)]) (use cl in blast)
  from device_order_spec [OF this] show ?thesis
    using walk_order_results(1) [OF o(1)] unfolding dispatch_order_def by auto
qed

theorem device_order_critical_path_witness:
  "\<exists>runs perm dw. extract_runs_multi two_devices [3, 4] = Ok runs \<and> \<not> one_device runs \<and>
    device_alternating_order (nodes two_devices) runs = Some (Ok perm) \<and> set perm = {..<length runs} \<and>
    critical_path (length runs) (run_preds (nodes two_devices) runs) (run_key runs dw) (\<lambda>ri. device (runs ! ri)) perm"
proof -
  obtain runs perm where r: "extract_runs_multi two_devices [3, 4] = Ok runs" "device_alternating_order (nodes two_devices) runs = Some (Ok perm)"
      "set perm = {..<length runs}" and c: "if one_device runs then perm = [0..<length runs]
     else (\<exists>dw. (\<forall>i < length runs. \<exists>w. dw ! i = Some w \<and> is_weight (compute_size (nodes two_devices) runs) (run_succs (nodes two_devices) runs) i w) \<and>
       critical_path (length runs) (run_preds (nodes two_devices) runs) (run_key runs dw) (\<lambda>ri. device (runs ! ri)) perm)"
    using device_order_critical_path [OF two_devices_inv two_devices_roots] by (elim exE conjE) (rule that)
  have "(case extract_runs_multi two_devices [3, 4] of Ok runs \<Rightarrow> map device runs) = [Some Backend_Cpu, Some Backend_Cuda, Some Backend_Cpu, Some Backend_Cuda, Some Backend_Cpu]"
    by code_simp
  then have "map device runs = [Some Backend_Cpu, Some Backend_Cuda, Some Backend_Cpu, Some Backend_Cuda, Some Backend_Cpu]" using r(1) by simp
  then have no: "\<not> one_device runs" unfolding one_device_iff [symmetric] by simp
  then obtain dw where "critical_path (length runs) (run_preds (nodes two_devices) runs) (run_key runs dw) (\<lambda>ri. device (runs ! ri)) perm" using c by auto
  then show ?thesis using r no by blast
qed

section \<open>Routes\<close>

text \<open>
  C14: every picked route, also one with choices out of range or for nodes that are no branch, is lowered to
  an order without repetition in which no node precedes an emitted node it reads. So is every walk that asks a picker
  at each branch when it reaches it, whatever the picker answers and keeps. If all runs
  are on one device the order of a picked route is that of the walk.
\<close>

theorem any_route_in_order:
  assumes gi: "graph_inv g" and roots: "set roots \<subseteq> {..<length (nodes g)}"
  shows "(\<exists>xs. lower_picked_route g roots picked = Some (Ok xs) \<and> distinct xs \<and> flow (nodes g) xs \<and>
      (\<forall>runs skip. extract_runs_multi g roots = Ok runs \<longrightarrow> non_chosen_arm_nodes g roots picked = Ok skip \<longrightarrow> one_device runs \<longrightarrow>
        xs = concat (map members (filter (\<lambda>r. entry r \<notin> set skip) runs)))) \<and>
    (\<exists>ys p'. lower_picked_route_streaming g roots pick p = Some (Ok (ys, p')) \<and> distinct ys \<and> flow (nodes g) ys)"
proof (intro conjI)
  obtain order where o: "walk_order g roots order" by (rule walk_order_spec [OF assms]) (rule that)
  obtain skip where skip: "non_chosen_arm_nodes g roots picked = Ok skip" using walk_order_results(2) [OF o] by blast
  show "\<exists>xs. lower_picked_route g roots picked = Some (Ok xs) \<and> distinct xs \<and> flow (nodes g) xs \<and>
      (\<forall>runs skip. extract_runs_multi g roots = Ok runs \<longrightarrow> non_chosen_arm_nodes g roots picked = Ok skip \<longrightarrow> one_device runs \<longrightarrow>
        xs = concat (map members (filter (\<lambda>r. entry r \<notin> set skip) runs)))"
    using lower_route_spec [OF assms o skip] walk_order_results(1) [OF o] skip by auto
qed (rule streaming_spec [OF assms])

theorem any_route_in_order_witness:
  "(\<exists>xs. lower_picked_route forked [3, 4] [(5, 7), (2, 0)] = Some (Ok xs) \<and> distinct xs \<and> flow (nodes forked) xs) \<and>
   (\<exists>ys p'. lower_picked_route_streaming forked [3, 4] (\<lambda>n b. (n mod 2, Suc n)) 3 = Some (Ok (ys, p')) \<and> distinct ys \<and> flow (nodes forked) ys)"
  using any_route_in_order [OF forked_inv forked_roots, of "[(5, 7), (2, 0)]" "\<lambda>n b. (n mod 2, Suc n)" 3] by blast

text \<open>
  C13: where arms of a branch share only what all of them share, and only the merge reads into an arm from outside,
  a picked route emits exactly the nodes of the walk that no arm left aside has for itself, without the branch nodes.
  Every input of an emitted node is emitted before it, except that a merge
  may read an arm that was not taken.
\<close>

theorem picked_route_sound:
  assumes gi: "graph_inv g" and roots: "set roots \<subseteq> {..<length (nodes g)}" and wo: "walk_order g roots order"
    and pa: "private_arms (nodes g) order"
  shows "\<exists>xs. lower_picked_route g roots picked = Some (Ok xs) \<and> distinct xs \<and>
    set xs = {n \<in> set order. branch_target (nodes g ! n) = None \<and> n \<notin> left_out picked (nodes g) order} \<and>
    (\<forall>us m vs. xs = us @ m # vs \<longrightarrow> ready_inputs picked (nodes g) order us m)"
  by (rule route_private [OF assms])

theorem picked_route_sound_witness:
  "\<exists>xs. lower_picked_route forked [3, 4] [(5, 1)] = Some (Ok xs) \<and> xs = [0, 2, 4, 3] \<and>
    1 \<in> left_out [(5, 1)] (nodes forked) [0, 2, 1, 5, 4, 3] \<and>
    ready_inputs [(5, 1)] (nodes forked) [0, 2, 1, 5, 4, 3] [0, 2, 4] 3"
proof -
  obtain xs where xs: "lower_picked_route forked [3, 4] [(5, 1)] = Some (Ok xs)"
      "set xs = {n \<in> set [0, 2, 1, 5, 4, 3]. branch_target (nodes forked ! n) = None \<and> n \<notin> left_out [(5, 1)] (nodes forked) [0, 2, 1, 5, 4, 3]}"
      "\<And>us m vs. xs = us @ m # vs \<Longrightarrow> ready_inputs [(5, 1)] (nodes forked) [0, 2, 1, 5, 4, 3] us m"
    using picked_route_sound [OF forked_inv forked_roots forked_walk forked_private, of "[(5, 1)]"] by blast
  have "lower_picked_route forked [3, 4] [(5, 1)] = Some (Ok [0, 2, 4, 3])" by code_simp
  then have eq: "xs = [0, 2, 4, 3]" using xs(1) by simp
  have "branch_target (nodes forked ! 1) = None" by code_simp
  then have "1 \<in> left_out [(5, 1)] (nodes forked) [0, 2, 1, 5, 4, 3]" using xs(2) unfolding eq by force
  then show ?thesis using xs(1) xs(3) [of "[0, 2, 4]" 3 "[]"] eq by simp
qed

text \<open>
  C40: without private arms a route can lack what it needs. A branch that \<open>finalize_branches\<close> accepts has an arm
  that reads a node which a kept node outside the arm reads too. The lowering of the other arm
  leaves it out and still emits its reader. The streaming lowering with the same answers emits it:
  the two differ.
\<close>

theorem route_drops_shared_input:
  "fst (finalize_branches \<lparr>diverge = 0, arms = [1, 4]\<rparr> 5
      (arena_of [leaf, unary Neg 0, leaf, unary Exp 2, binary Add 0 3, unary Neg 1, binary Add 5 3] :: (unit, unit) graph)) = Ok (Some 7) \<and>
   graph_inv entangled \<and> 3 \<in> set (inputs (nodes entangled ! 6)) \<and>
   lower_picked_route entangled [6] [(7, 0)] = Some (Ok [0, 1, 5, 6]) \<and>
   lower_picked_route_streaming entangled [6] (\<lambda>u b. (0, u)) () = Some (Ok ([2, 3, 0, 1, 5, 6], ()))"
proof (intro conjI)
  show "graph_inv entangled" by (rule entangled_inv)
qed code_simp+

end
