(* ===== verification/Spec2Isabelle.thy ===== *)
theory Spec2Isabelle
  imports KvProperties KvSharingProperties LayoutProperties InferenceProperties GraphProperties OptProperties PlanProperties PlacementProperties SafetyProperties RunProperties
begin

text \<open>
  A verification development of the fuel tensor and inference stack.

  \<^bold>\<open>The program.\<close> A model is a graph of tensor operations (\<open>fuel-graph\<close>) whose tensors have shapes and
  strided layouts (\<open>fuel-ir\<close>). Before it runs, passes rewrite the graph: common subexpressions are merged,
  nodes are placed on devices, copies are inserted, and an order of execution is derived in which no
  operation reads bytes that another has overwritten. Serving (\<open>fuel-inference\<close>) admits requests under a
  byte budget, splits prompts into chunks, drafts tokens and caches prefixes; the keys and values of
  attention live in a pool of paged blocks that sessions share (\<open>fuel-kv-pool\<close>). The theories follow these
  parts from the leaves up; this theory imports all of them.

  \<^bold>\<open>Shared vocabulary.\<close> \<open>Prelude\<close> models what the sources use of Rust. A call yields \<open>Ok\<close>, \<open>Err\<close> or
  \<open>Panic\<close>; a method with a mutable receiver is an action that passes the state on, with weakest
  preconditions (\<open>act_wp\<close>) that say at once that it does not panic, when it is refused, and what it does.
  A hash map is an association list, a hash set the list of its elements. The locale \<open>stepped_system\<close> is
  the interface of a state machine with an invariant; the pool, the scheduler, the store, the cache, the
  graph arena and the running of a plan interpret it. \<open>Float64\<close> has the doubles of the host code with
  their rounding written out.

  \<^bold>\<open>Paged KV pool\<close> (\<open>fuel-kv-pool/src/lib.rs\<close>, \<open>block_index.rs\<close>, \<open>sizing.rs\<close>). \<open>KvPool\<close> has the state record
  and one definition per method of \<open>KvBlockPool\<close>; \<open>BlockIndex\<close> the chained 128-bit hash at machine width and the
  content index; \<open>KvSizing\<close> the sizing arithmetic. \<open>KvInvariant\<close> states the ledger: the count of a block is
  the number of slots and index entries that name it, and the free list holds the rest. \<open>KvOps\<close> shows for each
  method that it does not panic, keeps the ledger and leaves the pool unchanged when refused; \<open>KvMachine\<close> composes
  the calls in any order. \<open>KvProperties\<close> and \<open>KvSharingProperties\<close> state the results for clients: the ledger of every
  reachable pool, isolation of sessions, atomic batch admission, evict and restore as inverses, what outlives a
  session, and the one misuse of a restore handle that the pool does not detect.

  \<^bold>\<open>Shapes, layouts, iteration\<close> (\<open>fuel-ir/src/shape.rs\<close>, \<open>symbol.rs\<close>, \<open>layout.rs\<close>, \<open>strided_index.rs\<close>). \<open>Shape\<close>,
  \<open>Layout\<close> and \<open>StridedIndex\<close> model element counts, broadcasting, reshaping, dynamic axes, the views with all their
  error branches, the strided iterator and the two block decompositions. The locale \<open>view_op\<close> says that a view reads
  elements of its base at the same storage offsets; every view and every chain of views interprets it.
  \<open>LayoutProperties\<close>: iteration is row-major, chains of views stay in bounds, the blocks are exact.

  \<^bold>\<open>Graph arena\<close> (\<open>fuel-graph/src/lib.rs\<close>, \<open>shape.rs\<close>; enumerations of \<open>fuel-ir/src/dtype.rs\<close>, \<open>device.rs\<close>, \<open>probe.rs\<close>).
  \<open>GraphOps\<close> has \<open>Op\<close> and shape inference, \<open>Graph\<close> the arena with its side tables, topological order, branches, collapse
  and compaction. \<open>GraphReach\<close>, \<open>GraphCompact\<close>, \<open>GraphBranch\<close>, \<open>GraphViews\<close> and \<open>GraphMachine\<close> prove the searches correct,
  define the value of a node under any local meaning of the operations (\<open>val\<close>, \<open>evals\<close>), and show that building in
  any order keeps the arena well formed. \<open>GraphSamples\<close> and \<open>GraphProperties\<close> hold the properties and their samples.

  \<^bold>\<open>Passes\<close> (\<open>fuel-graph/src/opt.rs\<close>, \<open>registry.rs\<close>). \<open>FusedParams\<close> and \<open>OpKeys\<close> have the keys under which equal nodes
  are merged, and when a key determines its operation. \<open>GraphExtend\<close> and \<open>GraphRewrite\<close> treat passes that append nodes
  and redirect their callers; the locale \<open>rewrite_pass\<close> is the contract of one visit, interpreted by \<open>optimize\<close> twice
  (\<open>GraphOpt\<close>: values; \<open>GraphNormal\<close>: the normal form) and by \<open>insert_copies\<close> (\<open>GraphCopies\<close>, with
  \<open>lower_const_placement\<close>). \<open>GraphSplice\<close> treats passes that redirect consumers in place; the locale \<open>splice_pass\<close> is
  interpreted by \<open>insert_layout_fixups\<close> and \<open>insert_cross_device_copies\<close> (\<open>GraphSurgery\<close>, with \<open>insert_evict_reload_in\<close>).
  \<open>OptProperties\<close> and \<open>PlacementProperties\<close>: every pass keeps every value, and what it establishes (normal form,
  inputs on the device of their reader, contiguous inputs).

  \<^bold>\<open>Order of execution\<close> (\<open>fuel-graph/src/opt.rs\<close>). \<open>GraphOrder\<close> has alias groups, ordering edges and the planner;
  \<open>GraphAlias\<close> says what they mean in terms of shared storage; \<open>GraphExec\<close> runs a plan on storage in which
  destructive operations leave arbitrary contents; \<open>GraphSafety\<close> has \<open>insert_safety_copies\<close>. \<open>PlanProperties\<close> and
  \<open>SafetyProperties\<close>: a plan exists exactly when the precedence has no cycle, it can always be completed, it computes
  the values of the graph, and snapshots make it exist where it did not.

  \<^bold>\<open>Runs and routes\<close> (\<open>fuel-graph/src/run.rs\<close>). \<open>GraphRuns\<close> extracts the straight-line runs between two decision points,
  orders them for dispatch on several devices, and lowers a route that picks one arm of every branch, either picked before
  or asked for at each branch. \<open>GraphSchedule\<close> shows what the search for the weights and the pump compute;
  \<open>GraphRoutes\<close> which nodes a route leaves out and that inputs come first. \<open>RunProperties\<close>: the runs partition the walk, the
  heaviest path is dispatched first, every route is lowered in order, and with private arms (\<open>private_arms\<close>) no
  emitted node lacks an input; without them one can.

  \<^bold>\<open>Serving\<close> (\<open>fuel-inference/src/scheduler.rs\<close>, \<open>tiered_storage.rs\<close>, \<open>prefix_cache.rs\<close>, \<open>chunked_prefill.rs\<close>,
  \<open>ngram_draft.rs\<close>). \<open>Scheduler\<close>, \<open>TieredStore\<close>, \<open>PrefixCache\<close> and \<open>Prefill\<close> model all operations of these files. The store
  refines a specification without counters, the cache one without access stamps. \<open>InferenceProperties\<close> holds the
  properties: the byte budget is never exceeded, the queue drains in order and as far as it can, chunks cover
  the prompt.

  \<^bold>\<open>Bounds and termination.\<close> No definition uses fuel. Loops are structural or have a termination proof: the
  searches by the nodes not yet visited, the planner by the edges not yet released. The search for the weights of runs
  (\<open>weigh\<close>) is partial, since it would not end on a cycle, and is shown to return on the runs of a graph. Counters are natural
  numbers; where the code checks, casts or wraps at a width this is written out (\<open>as_usize\<close>, the block count of the
  pool, the byte sums of scheduler and store, the hash on 64-bit words, the symbol generator).

  \<^bold>\<open>Parameters.\<close> The meaning of an operation on tensor contents is a parameter of the graph theorems; the laws that a
  pass relies on are hypotheses (\<open>opt_laws\<close>, \<open>copy_law\<close>, \<open>passes_on\<close>), and a sample meaning satisfies them. The hash
  of the standard library, the input that a registered fused operation destroys, which kernel accepts strides and
  which devices share storage are parameters too.

  \<^bold>\<open>Not modelled.\<close> Tensor contents and kernels (CPU, CUDA, Vulkan, Metal, vendor libraries): floating-point code,
  threads and foreign calls. Storage buffers: a type variable of the graph. The rule registry of the optimizer with
  its lowering and fusion rules, \<open>fuse_linear\<close>, \<open>promote_views_for_liveness\<close> and \<open>insert_cast_fixups\<close>; autodiff and the
  builders of \<open>NodeHandle\<close>; the density of branches in \<open>run.rs\<close>, computed in \<open>f32\<close>; scans and runtime fusion; kernel dispatch. The parts of serving that drive models through
  tensors (multi-session generation, speculative decoding, compression, streaming, routing). File formats, training,
  hardware probing.
\<close>

end
